(* ===== verification/Prelude.thy ===== *)
theory Prelude
  imports Main "HOL-Library.Word"
begin

text \<open>
  Shared vocabulary of the development: the exceptions the C++ code throws as a
  datatype, results as sums, the wrap-around of the unsigned counters, and the
  generic list lemmas the component theories rest on.

  A C++ operation that can throw after it has changed its object is a function
  \<open>state \<Rightarrow> (cpp_error + 'a) \<times> state\<close>: \<open>Inl\<close> is the exception that leaves the
  operation, and the second component is the state it leaves behind. The text of
  an exception is kept as the constant prefix of its message; numbers that the
  source splices into a message are dropped.
\<close>

section \<open>Exceptions and results\<close>

text \<open>
  \<open>Diverges\<close> is not an exception of the source. It is the outcome of a loop that
  runs out of the fuel given to it, that is, of a loop that does not end; each use
  states why the fuel is enough.
\<close>

datatype cpp_error =
    Invalid_argument string
  | Out_of_range string
  | Runtime_error string
  | Logic_error string
  | Overflow_error string
  | Diverges

type_synonym 'a result = "cpp_error + 'a"

section \<open>Unsigned machine counters\<close>

text \<open>Counters are naturals; the wrap-around of their C++ type is written out.\<close>

definition u32 :: "nat \<Rightarrow> nat" where
  "u32 n = n mod 2 ^ 32"

definition u64 :: "nat \<Rightarrow> nat" where
  "u64 n = n mod 2 ^ 64"

text \<open>Unsigned subtraction at width 32: \<open>a - b\<close> in C++ for \<open>a, b < 2 ^ 32\<close>.\<close>

definition u32_sub :: "nat \<Rightarrow> nat \<Rightarrow> nat" where
  "u32_sub a b = (a + 2 ^ 32 - b mod 2 ^ 32) mod 2 ^ 32"

definition u64_sub :: "nat \<Rightarrow> nat \<Rightarrow> nat" where
  "u64_sub a b = (a + 2 ^ 64 - b mod 2 ^ 64) mod 2 ^ 64"

text \<open>The value of \<open>static_cast<std::int32_t>\<close> on an unsigned value.\<close>

definition to_i32 :: "nat \<Rightarrow> int" where
  "to_i32 n = (let m = n mod 2 ^ 32 in if m < 2 ^ 31 then int m else int m - 2 ^ 32)"

named_theorems width_simps \<open>unsigned arithmetic that stays within its width\<close>

lemma u32_id [width_simps]: "n < 2 ^ 32 \<Longrightarrow> u32 n = n"
  by (simp add: u32_def)

lemma u64_id [width_simps]: "n < 2 ^ 64 \<Longrightarrow> u64 n = n"
  by (simp add: u64_def)

lemma u32_less [simp]: "u32 n < 4294967296"
  by (simp add: u32_def)

lemma u64_less [simp]: "u64 n < 18446744073709551616"
  by (simp add: u64_def)

lemma u32_0 [simp]: "u32 0 = 0"
  by (simp add: u32_def)

lemma u32_sub_le [width_simps]:
  assumes "b \<le> a" and "a < 2 ^ 32"
  shows "u32_sub a b = a - b"
proof -
  have "b mod 2 ^ 32 = b" using assms by simp
  then have "u32_sub a b = (a - b + 2 ^ 32) mod 2 ^ 32"
    using assms(1) by (simp add: u32_sub_def)
  then show ?thesis using assms(2) by simp
qed

lemma u64_sub_le [width_simps]:
  assumes "b \<le> a" and "a < 2 ^ 64"
  shows "u64_sub a b = a - b"
proof -
  have "b mod 2 ^ 64 = b" using assms by simp
  then have "u64_sub a b = (a - b + 2 ^ 64) mod 2 ^ 64"
    using assms(1) by (simp add: u64_sub_def)
  then show ?thesis using assms(2) by simp
qed

lemma to_i32_id [width_simps]: "n < 2 ^ 31 \<Longrightarrow> to_i32 n = int n"
  by (simp add: to_i32_def Let_def)

section \<open>Lists\<close>

lemma nth_in_take:
  assumes "i < n" and "n \<le> length xs"
  shows "xs ! i \<in> set (take n xs)"
  using assms by (auto simp: in_set_conv_nth)

lemma map_nth_drop_take:
  assumes "m + n \<le> length xs"
  shows "map (\<lambda>i. xs ! (m + i)) [0..<n] = take n (drop m xs)"
  using assms by (intro nth_equalityI) auto

lemma take_update_ge [simp]: "n \<le> i \<Longrightarrow> take n (xs[i := x]) = take n xs"
  by (simp add: list_eq_iff_nth_eq)

lemma take_Suc_update: "i < length xs \<Longrightarrow> take (Suc i) (xs[i := x]) = take i xs @ [x]"
  by (simp add: take_Suc_conv_app_nth)

lemma length_filter_update:
  assumes "i < length xs"
  shows "length (filter P (xs[i := x])) + (if P (xs ! i) then 1 else 0)
       = length (filter P xs) + (if P x then 1 else 0)"
proof -
  have "filter P xs = filter P (take i xs) @ filter P [xs ! i] @ filter P (drop (Suc i) xs)"
    by (subst id_take_nth_drop [OF assms]) simp
  moreover have "filter P (xs[i := x])
      = filter P (take i xs) @ filter P [x] @ filter P (drop (Suc i) xs)"
    by (simp add: upd_conv_take_nth_drop [OF assms])
  ultimately show ?thesis by simp
qed

lemma set_update_other:
  assumes "y \<in> set xs" and "i < length xs" and "xs ! i \<noteq> y"
  shows "y \<in> set (xs[i := x])"
  using assms by (metis in_set_conv_nth length_list_update nth_list_update_neq)

lemma set_update_cases:
  assumes "y \<in> set (xs[i := x])"
  shows "y = x \<or> (\<exists>j < length xs. j \<noteq> i \<and> y = xs ! j)"
  using assms by (metis in_set_conv_nth length_list_update nth_list_update_eq nth_list_update_neq)

section \<open>Writing one value at many positions\<close>

text \<open>
  \<open>put_all v ps xs\<close> stores \<open>v\<close> at every position of \<open>ps\<close>: the effect of a loop
  \<open>for (p : ps) xs[p] = v\<close>.
\<close>

fun put_all :: "'a \<Rightarrow> nat list \<Rightarrow> 'a list \<Rightarrow> 'a list" where
  "put_all v [] xs = xs"
| "put_all v (p # ps) xs = put_all v ps (xs[p := v])"

lemma length_put_all [simp]: "length (put_all v ps xs) = length xs"
  by (induction v ps xs rule: put_all.induct) auto

lemma nth_put_all:
  "i < length xs \<Longrightarrow> put_all v ps xs ! i = (if i \<in> set ps then v else xs ! i)"
  by (induction v ps xs rule: put_all.induct) (auto simp: nth_list_update)

lemma nth_put_all_other: "i \<notin> set ps \<Longrightarrow> put_all v ps xs ! i = xs ! i"
  by (induction v ps xs rule: put_all.induct) auto

lemma put_all_append [simp]: "put_all v (ps @ qs) xs = put_all v qs (put_all v ps xs)"
  by (induction v ps xs rule: put_all.induct) auto

section \<open>Keyed containers\<close>

text \<open>
  Assignment to a key of an associative container. \<open>assoc_put\<close> keeps the place of an
  existing key and appends a new one (a hash map, whose order is not used);
  \<open>ordered_put\<close> keeps the keys in ascending order (\<open>std::map\<close>).
\<close>

fun assoc_put :: "'k \<Rightarrow> 'v \<Rightarrow> ('k \<times> 'v) list \<Rightarrow> ('k \<times> 'v) list" where
  "assoc_put k v [] = [(k, v)]"
| "assoc_put k v ((k', v') # xs) = (if k' = k then (k, v) # xs else (k', v') # assoc_put k v xs)"

fun ordered_put :: "nat \<Rightarrow> 'v \<Rightarrow> (nat \<times> 'v) list \<Rightarrow> (nat \<times> 'v) list" where
  "ordered_put k v [] = [(k, v)]"
| "ordered_put k v ((k', v') # xs) =
     (if k < k' then (k, v) # (k', v') # xs
      else if k' = k then (k, v) # xs
      else (k', v') # ordered_put k v xs)"

lemma map_of_assoc_put: "map_of (assoc_put k v xs) = (map_of xs)(k \<mapsto> v)"
  by (induction k v xs rule: assoc_put.induct) (auto simp: fun_eq_iff)

lemma fst_assoc_put: "set (map fst (assoc_put k v xs)) = insert k (set (map fst xs))"
  by (induction k v xs rule: assoc_put.induct) auto

lemma distinct_assoc_put:
  "distinct (map fst xs) \<Longrightarrow> distinct (map fst (assoc_put k v xs))"
  by (induction k v xs rule: assoc_put.induct) (auto simp: fst_assoc_put [simplified])

lemma map_of_ordered_put:
  "sorted_wrt (<) (map fst xs) \<Longrightarrow> map_of (ordered_put k v xs) = (map_of xs)(k \<mapsto> v)"
proof (induction k v xs rule: ordered_put.induct)
  case (2 k v k' v' xs)
  have "map_of xs k = None" if "k < k'" using 2(2) that by (fastforce simp: map_of_eq_None_iff)
  with 2 show ?case by (auto simp: fun_eq_iff)
qed auto

lemma fst_ordered_put: "set (map fst (ordered_put k v xs)) = insert k (set (map fst xs))"
  by (induction k v xs rule: ordered_put.induct) auto

lemma sorted_ordered_put:
  "sorted_wrt (<) (map fst xs) \<Longrightarrow> sorted_wrt (<) (map fst (ordered_put k v xs))"
proof (induction k v xs rule: ordered_put.induct)
  case (2 k v k' v' xs)
  then show ?case using fst_ordered_put [of k v xs] by fastforce
qed auto

section \<open>Loops of operations that can throw\<close>

text \<open>
  \<open>fold_do f xs acc s\<close> runs \<open>f\<close> on each element in turn with an accumulator, and stops at the
  first exception, leaving the state of that moment.
\<close>

definition and_then :: "'a result \<times> 's \<Rightarrow> ('a \<Rightarrow> 's \<Rightarrow> 'b result \<times> 's) \<Rightarrow> 'b result \<times> 's" where
  "and_then r f = (case r of (Inl e, s) \<Rightarrow> (Inl e, s) | (Inr x, s) \<Rightarrow> f x s)"

fun fold_do :: "('x \<Rightarrow> 'a \<Rightarrow> 's \<Rightarrow> 'a result \<times> 's) \<Rightarrow> 'x list \<Rightarrow> 'a \<Rightarrow> 's \<Rightarrow> 'a result \<times> 's" where
  "fold_do f [] acc s = (Inr acc, s)"
| "fold_do f (x # xs) acc s = and_then (f x acc s) (fold_do f xs)"

lemma and_then_Inr [simp]: "and_then (Inr x, s) f = f x s"
  by (simp add: and_then_def)

lemma and_then_Inl [simp]: "and_then (Inl e, s) f = (Inl e, s)"
  by (simp add: and_then_def)

text \<open>A loop whose body keeps a relation and never throws under it runs to its end.\<close>

lemma fold_do_ok:
  assumes "I xs acc s"
    and "\<And>x ys acc s. I (x # ys) acc s \<Longrightarrow> \<exists>acc' s'. f x acc s = (Inr acc', s') \<and> I ys acc' s'"
  shows "\<exists>acc' s'. fold_do f xs acc s = (Inr acc', s') \<and> I [] acc' s'"
  using assms(1)
proof (induction xs arbitrary: acc s)
  case (Cons x xs)
  from assms(2) [OF Cons.prems] obtain acc' s' where "f x acc s = (Inr acc', s')" "I xs acc' s'" by blast
  then show ?case using Cons.IH by simp
qed simp

end
