(* ===== verification/Probe_Table.thy ===== *)
theory Probe_Table
  imports Prelude
begin

text \<open>
  Open-addressing tables with tombstones. The code base has three of them, written
  out one by one: the sequence table of the host KV region
  (\<open>core/KV_Storage/host_paged_kv_backend.cpp\<close>) and the node index and the page
  reference table of the prefix cache
  (\<open>core/KV_Storage/host_prefix_cache_coordinator.cpp\<close>). This theory states what
  such a table promises, over an abstract classification of a slot and an abstract
  order in which the slots are probed for a key; the component theories show that
  their loops are instances.
\<close>

section \<open>Probing\<close>

text \<open>
  A slot never used ends a search (\<open>Vacant\<close>), a slot whose key was removed does not
  (\<open>Grave\<close>), and a slot in use holds a key.
\<close>

datatype 'k slot_kind = Vacant | Grave | Held 'k

text \<open>The wrap-around order of linear probing from a hash value.\<close>

definition probe_order :: "nat \<Rightarrow> nat \<Rightarrow> nat list" where
  "probe_order h n = map (\<lambda>i. (h + i) mod n) [0..<n]"

fun probe_find :: "('a \<Rightarrow> 'k slot_kind) \<Rightarrow> 'a list \<Rightarrow> 'k \<Rightarrow> nat list \<Rightarrow> nat option" where
  "probe_find cls t k [] = None"
| "probe_find cls t k (i # js) =
     (case cls (t ! i) of
        Vacant \<Rightarrow> None
      | Grave \<Rightarrow> probe_find cls t k js
      | Held k' \<Rightarrow> if k' = k then Some i else probe_find cls t k js)"

text \<open>
  The search an insertion makes: the slot of the key if it is there, otherwise the
  first reusable slot on the way. The flag says whether the slot is a new one.
\<close>

fun probe_claim ::
  "('a \<Rightarrow> 'k slot_kind) \<Rightarrow> 'a list \<Rightarrow> 'k \<Rightarrow> nat option \<Rightarrow> nat list \<Rightarrow> (nat \<times> bool) option" where
  "probe_claim cls t k g [] = map_option (\<lambda>j. (j, True)) g"
| "probe_claim cls t k g (i # js) =
     (case cls (t ! i) of
        Vacant \<Rightarrow> Some (case g of None \<Rightarrow> i | Some j \<Rightarrow> j, True)
      | Grave \<Rightarrow> probe_claim cls t k (case g of None \<Rightarrow> Some i | Some j \<Rightarrow> Some j) js
      | Held k' \<Rightarrow> if k' = k then Some (i, False) else probe_claim cls t k g js)"

text \<open>
  The representation invariant: no key occurs twice, and no vacant slot lies between
  the start of a key's probe order and the slot that holds it.
\<close>

definition probe_inv :: "('a \<Rightarrow> 'k slot_kind) \<Rightarrow> (nat \<Rightarrow> 'k \<Rightarrow> nat list) \<Rightarrow> 'a list \<Rightarrow> bool" where
  "probe_inv cls seq t \<longleftrightarrow>
     (\<forall>i < length t. \<forall>k. cls (t ! i) = Held k \<longrightarrow>
        (\<forall>us vs. seq (length t) k = us @ i # vs \<longrightarrow> (\<forall>j \<in> set us. cls (t ! j) \<noteq> Vacant))
        \<and> (\<forall>j < length t. cls (t ! j) = Held k \<longrightarrow> j = i))"

section \<open>Facts that need no invariant\<close>

lemma mod_shift_cancel:
  fixes c x y n :: nat
  assumes "c < n" "x < n" "y < n" and eq: "(c + x) mod n = (c + y) mod n"
  shows "x = y"
proof -
  have shift: "(c + z) mod n = (if c + z < n then c + z else c + z - n)" if "z < n" for z
    using assms(1) that by (simp add: le_mod_geq)
  from eq shift [OF assms(2)] shift [OF assms(3)]
  have "(if c + x < n then c + x else c + x - n) = (if c + y < n then c + y else c + y - n)"
    by presburger
  with assms(1-3) show ?thesis by (auto split: if_splits)
qed

lemma distinct_probe_order [simp]: "distinct (probe_order h n)"
proof -
  have "inj_on (\<lambda>i. (h + i) mod n) (set [0..<n])"
  proof (rule inj_onI)
    fix x y assume "x \<in> set [0..<n]" "y \<in> set [0..<n]" "(h + x) mod n = (h + y) mod n"
    then show "x = y" using mod_shift_cancel [of "h mod n" n x y] by (simp add: mod_add_left_eq)
  qed
  then show ?thesis by (simp add: probe_order_def distinct_map)
qed

lemma set_probe_order [simp]: "set (probe_order h n) = {..<n}"
proof -
  have "set (probe_order h n) \<subseteq> {..<n}" by (auto simp: probe_order_def)
  moreover have "card (set (probe_order h n)) = n"
    by (simp add: distinct_card, simp add: probe_order_def)
  ultimately show ?thesis by (simp add: card_subset_eq)
qed

lemma probe_find_SomeD:
  "probe_find cls t k js = Some i \<Longrightarrow> i \<in> set js \<and> cls (t ! i) = Held k"
  by (induction cls t k js rule: probe_find.induct) (auto split: slot_kind.splits if_splits)

lemma probe_find_reach:
  assumes "\<forall>j \<in> set us. cls (t ! j) \<noteq> Vacant \<and> cls (t ! j) \<noteq> Held k" and "cls (t ! i) = Held k"
  shows "probe_find cls t k (us @ i # vs) = Some i"
  using assms by (induction us) (auto split: slot_kind.splits)

lemma probe_claim_False_iff:
  "probe_claim cls t k g js = Some (i, False) \<longleftrightarrow> probe_find cls t k js = Some i"
  by (induction cls t k g js rule: probe_claim.induct)
     (auto split: slot_kind.splits if_splits option.splits)

lemma probe_claim_TrueD:
  "probe_claim cls t k g js = Some (i, True) \<Longrightarrow> probe_find cls t k js = None"
  by (induction cls t k g js rule: probe_claim.induct)
     (auto split: slot_kind.splits if_splits option.splits)

lemma probe_claim_grave:
  "probe_claim cls t k (Some j) js = Some (i, True) \<Longrightarrow> i = j"
  by (induction cls t k "Some j" js rule: probe_claim.induct)
     (auto split: slot_kind.splits if_splits)

lemma probe_claim_position:
  assumes "probe_claim cls t k None js = Some (i, True)"
  shows "\<exists>us vs. js = us @ i # vs \<and> (\<forall>j \<in> set us. cls (t ! j) \<noteq> Vacant)
           \<and> (cls (t ! i) = Vacant \<or> cls (t ! i) = Grave)"
  using assms
proof (induction js)
  case Nil
  then show ?case by simp
next
  case (Cons a js)
  show ?case
  proof (cases "cls (t ! a)")
    case Vacant
    with Cons.prems have "i = a" by simp
    with Vacant show ?thesis by (intro exI [of _ "[]"] exI [of _ js]) simp
  next
    case Grave
    with Cons.prems have "i = a" by (auto dest: probe_claim_grave)
    with Grave show ?thesis by (intro exI [of _ "[]"] exI [of _ js]) simp
  next
    case (Held k')
    with Cons.prems have "probe_claim cls t k None js = Some (i, True)"
      by (simp split: if_splits)
    from Cons.IH [OF this] obtain us vs where
      "js = us @ i # vs" "\<forall>j \<in> set us. cls (t ! j) \<noteq> Vacant"
      "cls (t ! i) = Vacant \<or> cls (t ! i) = Grave" by blast
    with Held show ?thesis by (intro exI [of _ "a # us"] exI [of _ vs]) simp
  qed
qed

lemma probe_claim_SomeI: "g \<noteq> None \<Longrightarrow> probe_claim cls t k g js \<noteq> None"
  by (induction cls t k g js rule: probe_claim.induct)
     (auto split: slot_kind.splits if_splits option.splits)

lemma probe_claim_NoneD:
  "probe_claim cls t k None js = None \<Longrightarrow> i \<in> set js \<Longrightarrow> \<exists>k'. cls (t ! i) = Held k' \<and> k' \<noteq> k"
  by (induction js) (auto simp: probe_claim_SomeI split: slot_kind.splits if_splits)

lemma probe_inv_path:
  "probe_inv cls seq t \<Longrightarrow> i < length t \<Longrightarrow> cls (t ! i) = Held k \<Longrightarrow>
   seq (length t) k = us @ i # vs \<Longrightarrow> j \<in> set us \<Longrightarrow> cls (t ! j) \<noteq> Vacant"
  unfolding probe_inv_def by blast

lemma probe_inv_unique:
  "probe_inv cls seq t \<Longrightarrow> i < length t \<Longrightarrow> cls (t ! i) = Held k \<Longrightarrow>
   j < length t \<Longrightarrow> cls (t ! j) = Held k \<Longrightarrow> j = i"
  unfolding probe_inv_def by blast

lemma split_unique: "us' @ i # vs' = us @ i # vs \<Longrightarrow> i \<notin> set us \<Longrightarrow> i \<notin> set us' \<Longrightarrow> us' = us"
  by (induction us' arbitrary: us) (auto simp: Cons_eq_append_conv)

lemma probe_inv_vacant: "\<forall>x \<in> set t. cls x = Vacant \<Longrightarrow> probe_inv cls seq t"
  by (simp add: probe_inv_def)

lemma probe_inv_mono:
  assumes "probe_inv cls seq t" and "length t' = length t"
    and "\<And>i k. i < length t \<Longrightarrow> cls (t' ! i) = Held k \<longleftrightarrow> cls (t ! i) = Held k"
    and "\<And>i. i < length t \<Longrightarrow> cls (t' ! i) = Vacant \<Longrightarrow> cls (t ! i) = Vacant"
    and "\<And>k. set (seq (length t) k) \<subseteq> {..<length t}"
  shows "probe_inv cls seq t'"
  unfolding probe_inv_def
proof (intro allI impI conjI ballI)
  fix i k us vs j
  assume i: "i < length t'" "cls (t' ! i) = Held k" and s: "seq (length t') k = us @ i # vs"
    and j: "j \<in> set us"
  have "j < length t" using assms(5) [of k] s j assms(2) by auto
  moreover have "cls (t ! j) \<noteq> Vacant"
    using probe_inv_path [OF assms(1), of i k us vs j] i s j assms(2,3) by simp
  ultimately show "cls (t' ! j) \<noteq> Vacant" using assms(4) by blast
next
  fix i k j
  assume "i < length t'" "cls (t' ! i) = Held k" "j < length t'" "cls (t' ! j) = Held k"
  then show "j = i" using probe_inv_unique [OF assms(1), of i k j] assms(2,3) by simp
qed

section \<open>The contract of a table\<close>

text \<open>
  What a client of a table relies on: every slot is probed exactly once. The lemmas
  of the block are what the table then promises.
\<close>

locale open_table =
  fixes cls :: "'a \<Rightarrow> 'k slot_kind"
    and seq :: "nat \<Rightarrow> 'k \<Rightarrow> nat list"
  assumes seq_distinct: "distinct (seq n k)"
    and seq_range: "set (seq n k) = {..<n}"
begin

lemma find_iff:
  assumes "probe_inv cls seq t"
  shows "probe_find cls t k (seq (length t) k) = Some i \<longleftrightarrow> i < length t \<and> cls (t ! i) = Held k"
proof
  assume "probe_find cls t k (seq (length t) k) = Some i"
  then show "i < length t \<and> cls (t ! i) = Held k"
    using probe_find_SomeD seq_range by fastforce
next
  assume i: "i < length t \<and> cls (t ! i) = Held k"
  then obtain us vs where s: "seq (length t) k = us @ i # vs"
    by (metis lessThan_iff seq_range split_list)
  have "\<forall>j \<in> set us. cls (t ! j) \<noteq> Vacant \<and> cls (t ! j) \<noteq> Held k"
  proof
    fix j assume j: "j \<in> set us"
    then have "j < length t" "j \<noteq> i"
      using s seq_range [of "length t" k] seq_distinct [of "length t" k] by auto
    with j i s show "cls (t ! j) \<noteq> Vacant \<and> cls (t ! j) \<noteq> Held k"
      using probe_inv_path [OF assms] probe_inv_unique [OF assms] by blast
  qed
  with i show "probe_find cls t k (seq (length t) k) = Some i"
    by (simp add: s probe_find_reach)
qed

lemma find_None_iff:
  assumes "probe_inv cls seq t"
  shows "probe_find cls t k (seq (length t) k) = None \<longleftrightarrow> (\<forall>i < length t. cls (t ! i) \<noteq> Held k)"
  using find_iff [OF assms] by (metis not_None_eq)

lemma claim_old_iff:
  assumes "probe_inv cls seq t"
  shows "probe_claim cls t k None (seq (length t) k) = Some (i, False)
           \<longleftrightarrow> i < length t \<and> cls (t ! i) = Held k"
  by (simp add: probe_claim_False_iff find_iff [OF assms])

lemma claim_newD:
  assumes "probe_inv cls seq t"
    and "probe_claim cls t k None (seq (length t) k) = Some (i, True)"
  shows "i < length t" and "cls (t ! i) = Vacant \<or> cls (t ! i) = Grave"
    and "\<forall>j < length t. cls (t ! j) \<noteq> Held k"
proof -
  from probe_claim_position [OF assms(2)] seq_range [of "length t" k] show "i < length t"
    by fastforce
  from probe_claim_position [OF assms(2)] show "cls (t ! i) = Vacant \<or> cls (t ! i) = Grave"
    by blast
  show "\<forall>j < length t. cls (t ! j) \<noteq> Held k"
    using probe_claim_TrueD [OF assms(2)] find_None_iff [OF assms(1)] by blast
qed

lemma claim_full_iff:
  assumes "probe_inv cls seq t"
  shows "probe_claim cls t k None (seq (length t) k) = None
           \<longleftrightarrow> (\<forall>i < length t. \<exists>k'. cls (t ! i) = Held k' \<and> k' \<noteq> k)" (is "?L \<longleftrightarrow> ?R")
proof
  assume ?L
  then show ?R using probe_claim_NoneD seq_range by (metis lessThan_iff)
next
  assume r: ?R
  show ?L
  proof (cases "probe_claim cls t k None (seq (length t) k)")
    case (Some p)
    obtain i b where p: "p = (i, b)" by (cases p)
    show ?thesis
    proof (cases b)
      case True
      with Some p have c: "probe_claim cls t k None (seq (length t) k) = Some (i, True)" by simp
      from claim_newD(1,2) [OF assms c] r show ?thesis by (metis slot_kind.distinct(4,6))
    next
      case False
      with Some p have c: "probe_claim cls t k None (seq (length t) k) = Some (i, False)" by simp
      with claim_old_iff [OF assms] r show ?thesis by (metis slot_kind.inject)
    qed
  qed
qed

lemma inv_store_new:
  assumes inv: "probe_inv cls seq t"
    and claim: "probe_claim cls t k None (seq (length t) k) = Some (i, True)"
    and x: "cls x = Held k"
  shows "probe_inv cls seq (t[i := x])"
proof -
  note new = claim_newD [OF inv claim]
  obtain us vs where s: "seq (length t) k = us @ i # vs" "\<forall>j \<in> set us. cls (t ! j) \<noteq> Vacant"
    using probe_claim_position [OF claim] by blast
  show ?thesis unfolding probe_inv_def
  proof (intro allI impI conjI)
    fix a k' us' vs' 
    assume a: "a < length (t[i := x])" and h: "cls (t[i := x] ! a) = Held k'"
      and s': "seq (length (t[i := x])) k' = us' @ a # vs'"
    show "\<forall>j \<in> set us'. cls (t[i := x] ! j) \<noteq> Vacant"
    proof
      fix j assume j: "j \<in> set us'"
      show "cls (t[i := x] ! j) \<noteq> Vacant"
      proof (cases "j = i")
        case True
        then show ?thesis using new(1) x by simp
      next
        case False
        have "cls (t ! j) \<noteq> Vacant"
        proof (cases "a = i")
          case True
          with h x new(1) have "k' = k" by simp
          with True s' s(1) have "us' @ i # vs' = us @ i # vs" by simp
          moreover from calculation s(1) seq_distinct [of "length t" k]
          have "distinct (us @ i # vs)" and "distinct (us' @ i # vs')" by metis+
          then have "i \<notin> set us" and "i \<notin> set us'" by simp_all
          ultimately have "us' = us" by (rule split_unique)
          with s(2) j show ?thesis by blast
        next
          case neq: False
          with a h s' j show ?thesis using probe_inv_path [OF inv, of a k' us' vs' j] by simp
        qed
        with False show ?thesis by simp
      qed
    qed
  next
    fix a k' j
    assume "a < length (t[i := x])" "cls (t[i := x] ! a) = Held k'"
      and "j < length (t[i := x])" "cls (t[i := x] ! j) = Held k'"
    then show "j = a"
      using new(1,3) x probe_inv_unique [OF inv, of a k' j]
      by (cases "a = i"; cases "j = i") simp_all
  qed
qed

lemma inv_store_same:
  assumes "probe_inv cls seq t" and "i < length t" and "cls x = cls (t ! i)"
  shows "probe_inv cls seq (t[i := x])"
proof -
  have "cls (t[i := x] ! j) = cls (t ! j)" for j
    using assms(2,3) by (cases "j = i") auto
  then show ?thesis using assms(1) by (simp add: probe_inv_def)
qed

lemma inv_mono:
  assumes "probe_inv cls seq t" and "length t' = length t"
    and "\<And>i k. i < length t \<Longrightarrow> cls (t' ! i) = Held k \<longleftrightarrow> cls (t ! i) = Held k"
    and "\<And>i. i < length t \<Longrightarrow> cls (t' ! i) = Vacant \<Longrightarrow> cls (t ! i) = Vacant"
  shows "probe_inv cls seq t'"
  using probe_inv_mono [OF assms] seq_range by blast

lemma inv_bury:
  assumes inv: "probe_inv cls seq t" and i: "i < length t"
    and k: "cls (t ! i) \<noteq> Vacant" and x: "cls x = Grave"
  shows "probe_inv cls seq (t[i := x])"
proof -
  have held: "cls (t[i := x] ! j) = Held k' \<longleftrightarrow> j \<noteq> i \<and> cls (t ! j) = Held k'" for j k'
    using i x by (cases "j = i") auto
  have vac: "cls (t[i := x] ! j) = Vacant \<longleftrightarrow> cls (t ! j) = Vacant" for j
    using i x k by (cases "j = i") auto
  show ?thesis using inv by (auto simp: probe_inv_def held vac)
qed

end

end
