(* ===== verification/Kv_Backend.thy ===== *)
theory Kv_Backend
  imports Probe_Table
begin

text \<open>
  The page allocator of the host KV cache, \<open>HostPagedKVBackend::SharedState\<close> of
  \<open>core/KV_Storage/host_paged_kv_backend.cpp\<close>: a free stack of page indices, an
  owner and a link per page, and an open-addressing table of sequences whose pages
  form linked chains. All of it lives in one shared-memory region.

  Page indices and sequence ids are integers (\<open>std::int32_t\<close> and
  \<open>std::int64_t\<close>, with \<open>-1\<close> and the three least values reserved), counts are
  naturals. The two critical sections of an operation are separate definitions
  (\<open>acquire_pop\<close>, \<open>acquire_attach\<close>, \<open>acquire_restore\<close>, \<open>release_detach\<close>,
  \<open>prefix_detach\<close>, \<open>resident_detach\<close>, \<open>push_free\<close>), and the operation composes
  them as the code does; the theory on interleaving runs the same sections one at
  a time. A loop that follows page links gets \<open>num_pages + 2\<close> units of fuel: a
  walk that visits more pages than there are has entered a cycle.
\<close>

unbundle bit_operations_syntax

section \<open>Data\<close>

definition kInvalidPageIndex :: int where
  "kInvalidPageIndex = -1"

definition kEmptySequenceId :: int where
  "kEmptySequenceId = - (2 ^ 63)"

definition kTombstoneSequenceId :: int where
  "kTombstoneSequenceId = kEmptySequenceId + 1"

definition kPrefixResidentSequenceId :: int where
  "kPrefixResidentSequenceId = kEmptySequenceId + 2"

definition IsReservedSequenceId :: "int \<Rightarrow> bool" where
  "IsReservedSequenceId sid \<longleftrightarrow>
     sid = kEmptySequenceId \<or> sid = kTombstoneSequenceId \<or> sid = kPrefixResidentSequenceId"

record SequenceEntry =
  sequence_id :: int
  entry_pages :: nat
  head_page :: int
  tail_page :: int

definition fresh_entry :: SequenceEntry where
  "fresh_entry = \<lparr>sequence_id = kEmptySequenceId, entry_pages = 0,
     head_page = kInvalidPageIndex, tail_page = kInvalidPageIndex\<rparr>"

definition tombstone_entry :: SequenceEntry where
  "tombstone_entry = fresh_entry\<lparr>sequence_id := kTombstoneSequenceId\<rparr>"

record region =
  num_pages :: nat
  page_size_tokens :: nat
  sequence_capacity :: nat
  free_stack :: "int list"
  free_stack_top :: nat
  page_owners :: "int list"
  page_links :: "int list"
  sequence_table :: "SequenceEntry list"
  active_sequences :: nat
  sequences_inserted :: nat
  sequences_released :: nat
  acquire_failures :: nat
  region_bytes :: nat

section \<open>Construction\<close>

definition ConstructSharedState :: "nat \<Rightarrow> nat \<Rightarrow> nat \<Rightarrow> nat \<Rightarrow> region" where
  "ConstructSharedState pages page_tokens capacity bytes =
     \<lparr>num_pages = pages, page_size_tokens = page_tokens,
      sequence_capacity = (if capacity = 0 then pages else capacity),
      free_stack = map (\<lambda>i. to_i32 (pages - 1 - i)) [0..<pages],
      free_stack_top = u32 pages,
      page_owners = replicate pages kEmptySequenceId,
      page_links = replicate pages kInvalidPageIndex,
      sequence_table = replicate (if capacity = 0 then pages else capacity) fresh_entry,
      active_sequences = 0, sequences_inserted = 0, sequences_released = 0,
      acquire_failures = 0, region_bytes = bytes\<rparr>"

section \<open>The sequence table\<close>

definition HashSequenceId :: "nat \<Rightarrow> int \<Rightarrow> nat" where
  "HashSequenceId capacity sid =
     (let x0 = (word_of_int sid :: 64 word);
          x1 = x0 XOR drop_bit 33 x0;
          x2 = x1 * 0xff51afd7ed558ccd;
          x3 = x2 XOR drop_bit 33 x2;
          x4 = x3 * 0xc4ceb9fe1a85ec53;
          x5 = x4 XOR drop_bit 33 x4
      in unat x5 mod capacity)"

fun find_entry_loop :: "SequenceEntry list \<Rightarrow> nat \<Rightarrow> int \<Rightarrow> nat \<Rightarrow> nat \<Rightarrow> nat option" where
  "find_entry_loop tab capacity sid index 0 = None"
| "find_entry_loop tab capacity sid index (Suc probes) =
     (if sequence_id (tab ! index) = sid then Some index
      else if sequence_id (tab ! index) = kEmptySequenceId then None
      else find_entry_loop tab capacity sid ((index + 1) mod capacity) probes)"

definition FindSequenceEntryLocked :: "region \<Rightarrow> int \<Rightarrow> nat option" where
  "FindSequenceEntryLocked s sid =
     find_entry_loop (sequence_table s) (sequence_capacity s) sid
       (HashSequenceId (sequence_capacity s) sid) (sequence_capacity s)"

fun claim_entry_loop ::
  "SequenceEntry list \<Rightarrow> nat \<Rightarrow> int \<Rightarrow> nat option \<Rightarrow> nat \<Rightarrow> nat \<Rightarrow> (nat \<times> bool) option" where
  "claim_entry_loop tab capacity sid first_tombstone index 0 =
     map_option (\<lambda>j. (j, True)) first_tombstone"
| "claim_entry_loop tab capacity sid first_tombstone index (Suc probes) =
     (if sequence_id (tab ! index) = sid then Some (index, False)
      else if sequence_id (tab ! index) = kEmptySequenceId
        then Some (case first_tombstone of None \<Rightarrow> index | Some j \<Rightarrow> j, True)
      else claim_entry_loop tab capacity sid
             (if sequence_id (tab ! index) = kTombstoneSequenceId \<and> first_tombstone = None
              then Some index else first_tombstone)
             ((index + 1) mod capacity) probes)"

definition FindOrInsertSequenceEntryLocked ::
  "int \<Rightarrow> region \<Rightarrow> (nat \<times> bool) result \<times> region" where
  "FindOrInsertSequenceEntryLocked sid s =
     (case claim_entry_loop (sequence_table s) (sequence_capacity s) sid None
             (HashSequenceId (sequence_capacity s) sid) (sequence_capacity s) of
        None \<Rightarrow> (Inl (Runtime_error ''Sequence table is full''), s)
      | Some (ix, is_new) \<Rightarrow>
          (Inr (ix, is_new),
           if is_new
           then s\<lparr>sequence_table := (sequence_table s)[ix := fresh_entry\<lparr>sequence_id := sid\<rparr>]\<rparr>
           else s))"

section \<open>Acquiring pages\<close>

text \<open>The free stack: \<open>push_free\<close> is the loop \<open>free_stack[top++] = page\<close>.\<close>

fun push_free :: "int list \<Rightarrow> region \<Rightarrow> region" where
  "push_free [] s = s"
| "push_free (p # ps) s =
     push_free ps (s\<lparr>free_stack := (free_stack s)[free_stack_top s := p],
                     free_stack_top := u32 (free_stack_top s + 1)\<rparr>)"

definition acquire_pop :: "nat \<Rightarrow> region \<Rightarrow> int list result \<times> region" where
  "acquire_pop n s =
     (let top = free_stack_top s in
      if top < n
      then (Inl (Runtime_error ''Insufficient free pages available for sequence''),
            s\<lparr>acquire_failures := u64 (acquire_failures s + 1)\<rparr>)
      else let new_top = top - n in
           (Inr (map (\<lambda>i. free_stack s ! (new_top + i)) [0..<n]),
            s\<lparr>free_stack_top := new_top\<rparr>))"

text \<open>One turn of the loop that hangs the popped pages on the entry's chain.\<close>

definition attach_page :: "nat \<Rightarrow> int \<Rightarrow> int \<Rightarrow> region \<Rightarrow> region" where
  "attach_page ix sid page s =
     (let e = sequence_table s ! ix;
          links = (page_links s)[nat page := kInvalidPageIndex];
          count = u32 (entry_pages e + 1)
      in if head_page e = kInvalidPageIndex
         then s\<lparr>page_owners := (page_owners s)[nat page := sid],
                page_links := links,
                sequence_table := (sequence_table s)
                  [ix := e\<lparr>head_page := page, tail_page := page, entry_pages := count\<rparr>]\<rparr>
         else s\<lparr>page_owners := (page_owners s)[nat page := sid],
                page_links := links[nat (tail_page e) := page],
                sequence_table := (sequence_table s)
                  [ix := e\<lparr>tail_page := page, entry_pages := count\<rparr>]\<rparr>)"

definition acquire_attach :: "int \<Rightarrow> int list \<Rightarrow> region \<Rightarrow> unit result \<times> region" where
  "acquire_attach sid pages s =
     (case FindOrInsertSequenceEntryLocked sid s of
        (Inl e, s1) \<Rightarrow> (Inl e, s1)
      | (Inr (ix, is_new), s1) \<Rightarrow>
          let s2 = (if is_new
                    then s1\<lparr>active_sequences := u32 (active_sequences s1 + 1),
                            sequences_inserted := u64 (sequences_inserted s1 + 1)\<rparr>
                    else s1)
          in (Inr (), fold (attach_page ix sid) pages s2))"

definition acquire_restore :: "int list \<Rightarrow> region \<Rightarrow> region" where
  "acquire_restore pages s =
     (let s1 = push_free pages s in s1\<lparr>acquire_failures := u64 (acquire_failures s1 + 1)\<rparr>)"

definition AcquirePages :: "int \<Rightarrow> nat \<Rightarrow> region \<Rightarrow> int list result \<times> region" where
  "AcquirePages sid n s =
     (if n = 0 then (Inr [], s)
      else if IsReservedSequenceId sid
        then (Inl (Invalid_argument ''Sequence ID is reserved by HostPagedKV''), s)
      else case acquire_pop n s of
        (Inl e, s1) \<Rightarrow> (Inl e, s1)
      | (Inr pages, s1) \<Rightarrow>
          (case acquire_attach sid pages s1 of
             (Inr _, s2) \<Rightarrow> (Inr pages, s2)
           | (Inl e, s2) \<Rightarrow> (Inl e, acquire_restore pages s2)))"

section \<open>Acquiring pages for a batch\<close>

text \<open>
  The first loop checks the batch and computes the pages each sequence needs. Token
  counts and the running total are \<open>std::size_t\<close>; the rounding sum
  \<open>num_tokens + page_size_tokens - 1\<close> wraps at 64 bits as it does in the source.
\<close>

fun batch_requirements ::
  "nat \<Rightarrow> int list \<Rightarrow> (int \<times> nat) list \<Rightarrow> nat \<Rightarrow> (nat list \<times> nat) result" where
  "batch_requirements page_tokens seen [] sofar = Inr ([], sofar)"
| "batch_requirements page_tokens seen ((sid, tokens) # rest) sofar =
     (if sid \<in> set seen
      then Inl (Invalid_argument ''duplicate sequence id in prefill batch'')
      else if tokens = 0
      then Inl (Invalid_argument ''num_tokens must be greater than zero for sequence'')
      else let pages = u64 (tokens + page_tokens - 1) div page_tokens in
        if sofar > 2 ^ 64 - 1 - pages
        then Inl (Overflow_error ''host KV prefill page request exceeds size_t capacity'')
        else case batch_requirements page_tokens (seen @ [sid]) rest (sofar + pages) of
            Inl e \<Rightarrow> Inl e
          | Inr (needs, all) \<Rightarrow> Inr (pages # needs, all))"

text \<open>Cutting the popped run of the free stack into one piece per sequence.\<close>

fun split_pages :: "nat list \<Rightarrow> int list \<Rightarrow> int list list" where
  "split_pages [] ps = []"
| "split_pages (n # ns) ps = take n ps # split_pages ns (drop n ps)"

text \<open>What the loop remembers of a sequence it has attached pages to.\<close>

record undo_entry =
  undo_index :: nat
  undo_saved :: SequenceEntry
  undo_is_new :: bool
  undo_tail_link :: int

fun batch_attach ::
  "(int \<times> int list) list \<Rightarrow> undo_entry list \<Rightarrow> nat \<Rightarrow> region
     \<Rightarrow> (undo_entry list \<times> nat \<times> cpp_error option) \<times> region" where
  "batch_attach [] undo inserted s = ((undo, inserted, None), s)"
| "batch_attach ((sid, pages) # rest) undo inserted s =
     (case FindOrInsertSequenceEntryLocked sid s of
        (Inl e, s1) \<Rightarrow> ((undo, inserted, Some e), s1)
      | (Inr (ix, is_new), s1) \<Rightarrow>
          let e = sequence_table s1 ! ix;
              u = \<lparr>undo_index = ix, undo_saved = e, undo_is_new = is_new,
                   undo_tail_link = (if tail_page e = kInvalidPageIndex then kInvalidPageIndex
                                     else page_links s1 ! nat (tail_page e))\<rparr>;
              s2 = fold (attach_page ix sid) pages s1
          in if is_new
             then batch_attach rest (undo @ [u]) (inserted + 1)
                    (s2\<lparr>active_sequences := u32 (active_sequences s2 + 1)\<rparr>)
             else batch_attach rest (undo @ [u]) inserted s2)"

definition undo_attach :: "undo_entry \<Rightarrow> region \<Rightarrow> region" where
  "undo_attach u s =
     (if undo_is_new u
      then s\<lparr>sequence_table := (sequence_table s)[undo_index u := tombstone_entry],
             active_sequences := u32_sub (active_sequences s) 1\<rparr>
      else s\<lparr>page_links := (if tail_page (undo_saved u) = kInvalidPageIndex then page_links s
                            else (page_links s)[nat (tail_page (undo_saved u)) := undo_tail_link u]),
             sequence_table := (sequence_table s)[undo_index u := undo_saved u]\<rparr>)"

definition batch_rollback :: "undo_entry list \<Rightarrow> int list \<Rightarrow> nat \<Rightarrow> region \<Rightarrow> region" where
  "batch_rollback undo pages old_top s =
     (let s1 = fold undo_attach undo s in
      s1\<lparr>page_owners := put_all kEmptySequenceId (map nat pages) (page_owners s1),
         page_links := put_all kInvalidPageIndex (map nat pages) (page_links s1),
         free_stack_top := old_top,
         acquire_failures := u64 (acquire_failures s1 + 1)\<rparr>)"

definition AcquirePagesForSequences ::
  "int list \<Rightarrow> nat list \<Rightarrow> region \<Rightarrow> int list list result \<times> region" where
  "AcquirePagesForSequences sids tokens s =
     (if length sids \<noteq> length tokens
      then (Inl (Invalid_argument ''sequence_ids and num_tokens must have the same length''), s)
      else if sids = [] then (Inr [], s)
      else case batch_requirements (page_size_tokens s) [] (zip sids tokens) 0 of
        Inl e \<Rightarrow> (Inl e, s)
      | Inr (needs, required) \<Rightarrow>
          if required > 2 ^ 32 - 1
          then (Inl (Overflow_error
                  ''host KV prefill page request exceeds shared counter capacity''), s)
          else let old_top = free_stack_top s in
            if required > old_top
            then (Inl (Runtime_error ''Insufficient free pages available for prefill batch''),
                  s\<lparr>acquire_failures := u64 (acquire_failures s + 1)\<rparr>)
            else
              let new_top = old_top - required;
                  popped = map (\<lambda>i. free_stack s ! (new_top + i)) [0..<required];
                  allocations = split_pages needs popped;
                  s1 = s\<lparr>free_stack_top := new_top\<rparr>
              in (case batch_attach (zip sids allocations) [] 0 s1 of
                    ((undo, inserted, None), s2) \<Rightarrow>
                      (Inr allocations,
                       s2\<lparr>sequences_inserted := u64 (sequences_inserted s2 + inserted)\<rparr>)
                  | ((undo, inserted, Some e), s2) \<Rightarrow>
                      (Inl e, batch_rollback undo (concat allocations) old_top s2)))"

section \<open>Releasing a sequence\<close>

text \<open>The walk that takes a chain apart: pages in chain order, owners and links cleared.\<close>

fun detach_chain ::
  "nat \<Rightarrow> int \<Rightarrow> int list \<Rightarrow> int list \<Rightarrow> (int list \<times> int list \<times> int list) option" where
  "detach_chain fuel page owners links =
     (if page = kInvalidPageIndex then Some ([], owners, links)
      else case fuel of
        0 \<Rightarrow> None
      | Suc fuel' \<Rightarrow>
          map_option (\<lambda>(ps, owners', links'). (page # ps, owners', links'))
            (detach_chain fuel' (links ! nat page)
               (owners[nat page := kEmptySequenceId]) (links[nat page := kInvalidPageIndex])))"

definition release_detach :: "int \<Rightarrow> region \<Rightarrow> int list result \<times> region" where
  "release_detach sid s =
     (case FindSequenceEntryLocked s sid of
        None \<Rightarrow> (Inl (Out_of_range ''Sequence ID not found during release''), s)
      | Some ix \<Rightarrow>
          (case detach_chain (num_pages s + 2) (head_page (sequence_table s ! ix))
                  (page_owners s) (page_links s) of
             None \<Rightarrow> (Inl Diverges, s)
           | Some (pages, owners, links) \<Rightarrow>
               (Inr pages,
                s\<lparr>page_owners := owners, page_links := links,
                  sequence_table := (sequence_table s)[ix := tombstone_entry],
                  active_sequences := u32_sub (active_sequences s) 1,
                  sequences_released := u64 (sequences_released s + 1)\<rparr>)))"

definition ReleaseSequence :: "int \<Rightarrow> region \<Rightarrow> unit result \<times> region" where
  "ReleaseSequence sid s =
     (case release_detach sid s of
        (Inl e, s1) \<Rightarrow> (Inl e, s1)
      | (Inr pages, s1) \<Rightarrow> (Inr (), if pages = [] then s1 else push_free pages s1))"

text \<open>
  \<open>ReleaseSequences\<close> on its sequential path (one id, or one hardware thread): the
  first exception stops the loop. The parallel path starts one task per id.
\<close>

fun ReleaseSequences :: "int list \<Rightarrow> region \<Rightarrow> unit result \<times> region" where
  "ReleaseSequences [] s = (Inr (), s)"
| "ReleaseSequences (sid # sids) s =
     (case ReleaseSequence sid s of
        (Inl e, s1) \<Rightarrow> (Inl e, s1)
      | (Inr _, s1) \<Rightarrow> ReleaseSequences sids s1)"

definition live_ids :: "region \<Rightarrow> int list" where
  "live_ids s =
     filter (\<lambda>i. i \<noteq> kEmptySequenceId \<and> i \<noteq> kTombstoneSequenceId)
       (map sequence_id (sequence_table s))"

text \<open>
  The rebuild loop counts down from the last page; a page that is not
  prefix-resident is written to the next place of the free stack.
\<close>

fun rebuild_loop ::
  "nat \<Rightarrow> nat \<Rightarrow> int list \<Rightarrow> int list \<Rightarrow> int list \<Rightarrow> nat \<times> int list \<times> int list \<times> int list" where
  "rebuild_loop 0 tp stack owners links = (tp, stack, owners, links)"
| "rebuild_loop (Suc page) tp stack owners links =
     (if owners ! page = kPrefixResidentSequenceId
      then rebuild_loop page tp stack owners links
      else rebuild_loop page (u32 (tp + 1)) (stack[tp := to_i32 page])
             (owners[page := kEmptySequenceId]) (links[page := kInvalidPageIndex]))"

definition RebuildFreeStateLocked :: "region \<Rightarrow> unit result \<times> region" where
  "RebuildFreeStateLocked s =
     (if live_ids s \<noteq> []
      then (Inl (Logic_error ''Host KV free-state rebuild found live sequence''), s)
      else case rebuild_loop (num_pages s) 0 (free_stack s) (page_owners s) (page_links s) of
        (tp, stack, owners, links) \<Rightarrow>
          (Inr (),
           s\<lparr>free_stack := stack, free_stack_top := tp, page_owners := owners,
             page_links := links,
             sequence_table := replicate (sequence_capacity s) fresh_entry,
             active_sequences := 0\<rparr>))"

definition ReleaseAllSequences :: "region \<Rightarrow> unit result \<times> region" where
  "ReleaseAllSequences s =
     (case ReleaseSequences (live_ids s) s of
        (Inl e, s1) \<Rightarrow> (Inl e, s1)
      | (Inr _, s1) \<Rightarrow> RebuildFreeStateLocked s1)"

section \<open>Releasing a prefix of a sequence\<close>

fun detach_prefix ::
  "nat \<Rightarrow> int \<Rightarrow> int list \<Rightarrow> int list \<Rightarrow> (int list \<times> int) result \<times> int list \<times> int list" where
  "detach_prefix 0 page owners links = (Inr ([], page), owners, links)"
| "detach_prefix (Suc n) page owners links =
     (if page = kInvalidPageIndex
      then (Inl (Logic_error ''Corrupt page chain during prefix release for sequence''),
            owners, links)
      else case detach_prefix n (links ! nat page)
                  (owners[nat page := kEmptySequenceId])
                  (links[nat page := kInvalidPageIndex]) of
          (Inl e, owners', links') \<Rightarrow> (Inl e, owners', links')
        | (Inr (ps, next), owners', links') \<Rightarrow> (Inr (page # ps, next), owners', links'))"

definition prefix_detach :: "int \<Rightarrow> nat \<Rightarrow> region \<Rightarrow> int list result \<times> region" where
  "prefix_detach sid n s =
     (case FindSequenceEntryLocked s sid of
        None \<Rightarrow> (Inl (Out_of_range ''Sequence ID not found during prefix release''), s)
      | Some ix \<Rightarrow>
          let e = sequence_table s ! ix in
          if n > entry_pages e
          then (Inl (Out_of_range ''Requested prefix release of more pages than owned''), s)
          else case detach_prefix n (head_page e) (page_owners s) (page_links s) of
              (Inl err, owners, links) \<Rightarrow>
                (Inl err, s\<lparr>page_owners := owners, page_links := links\<rparr>)
            | (Inr (pages, next), owners, links) \<Rightarrow>
                (Inr pages,
                 s\<lparr>page_owners := owners, page_links := links,
                   sequence_table := (sequence_table s)
                     [ix := e\<lparr>head_page := next, entry_pages := entry_pages e - n,
                              tail_page := (if entry_pages e - n = 0 then kInvalidPageIndex
                                            else tail_page e)\<rparr>]\<rparr>))"

definition ReleasePrefixPages :: "int \<Rightarrow> nat \<Rightarrow> region \<Rightarrow> int list result \<times> region" where
  "ReleasePrefixPages sid n s =
     (if n = 0 then (Inr [], s)
      else case prefix_detach sid n s of
        (Inl e, s1) \<Rightarrow> (Inl e, s1)
      | (Inr pages, s1) \<Rightarrow> (Inr pages, if pages = [] then s1 else push_free pages s1))"

section \<open>Pages that outlive their sequence\<close>

text \<open>
  The check both operations make of a list of page ids: in range, no duplicate, and
  owned by the expected owner. The three messages are those of the caller.
\<close>

fun check_page_ids ::
  "string \<times> string \<times> string \<Rightarrow> nat \<Rightarrow> int list \<Rightarrow> int \<Rightarrow> int list \<Rightarrow> int list \<Rightarrow> unit result" where
  "check_page_ids msgs n owners want requested [] = Inr ()"
| "check_page_ids msgs n owners want requested (p # ps) =
     (if p < 0 \<or> int n \<le> p then Inl (Out_of_range (fst msgs))
      else if p \<in> set requested then Inl (Runtime_error (fst (snd msgs)))
      else if owners ! nat p \<noteq> want then Inl (Runtime_error (snd (snd msgs)))
      else check_page_ids msgs n owners want (p # requested) ps)"

fun count_found :: "nat \<Rightarrow> int list \<Rightarrow> int list \<Rightarrow> int \<Rightarrow> nat option" where
  "count_found fuel links requested page =
     (if page = kInvalidPageIndex then Some 0
      else case fuel of
        0 \<Rightarrow> None
      | Suc fuel' \<Rightarrow>
          map_option (\<lambda>found. if page \<in> set requested then Suc found else found)
            (count_found fuel' links requested (links ! nat page)))"

text \<open>The second walk: requested pages are unlinked and become prefix-resident.\<close>

fun unlink_walk ::
  "nat \<Rightarrow> int list \<Rightarrow> int \<Rightarrow> int \<Rightarrow> SequenceEntry \<Rightarrow> int list \<Rightarrow> int list
     \<Rightarrow> (SequenceEntry \<times> int list \<times> int list) option" where
  "unlink_walk fuel requested previous page e owners links =
     (if page = kInvalidPageIndex then Some (e, owners, links)
      else case fuel of
        0 \<Rightarrow> None
      | Suc fuel' \<Rightarrow>
          let next = links ! nat page in
          if page \<in> set requested
          then
            let e1 = (if previous = kInvalidPageIndex then e\<lparr>head_page := next\<rparr> else e);
                links1 = (if previous = kInvalidPageIndex then links
                          else links[nat previous := next]);
                e2 = (if tail_page e1 = page then e1\<lparr>tail_page := previous\<rparr> else e1)
            in unlink_walk fuel' requested previous next
                 (e2\<lparr>entry_pages := u32_sub (entry_pages e2) 1\<rparr>)
                 (owners[nat page := kPrefixResidentSequenceId])
                 (links1[nat page := kInvalidPageIndex])
          else unlink_walk fuel' requested page next e owners links)"

definition RetainPages :: "int \<Rightarrow> int list \<Rightarrow> region \<Rightarrow> int list result \<times> region" where
  "RetainPages sid page_ids s =
     (if page_ids = [] then (Inr [], s)
      else case FindSequenceEntryLocked s sid of
        None \<Rightarrow> (Inl (Out_of_range ''Sequence ID not found during page retain''), s)
      | Some ix \<Rightarrow>
          (case check_page_ids (''Retained page id out of range'', ''Duplicate retained page id'',
                  ''Cannot retain page because it is not sequence-owned'')
                  (num_pages s) (page_owners s) sid [] page_ids of
             Inl e \<Rightarrow> (Inl e, s)
           | Inr _ \<Rightarrow>
               (let entry = sequence_table s ! ix in
                case count_found (num_pages s + 2) (page_links s) page_ids (head_page entry) of
                  None \<Rightarrow> (Inl Diverges, s)
                | Some found \<Rightarrow>
                    if found \<noteq> length page_ids
                    then (Inl (Logic_error ''Sequence-owned retained pages are not present''), s)
                    else
                      (case unlink_walk (num_pages s + 2) page_ids kInvalidPageIndex
                              (head_page entry) entry (page_owners s) (page_links s) of
                         None \<Rightarrow> (Inl Diverges, s)
                       | Some (e, owners, links) \<Rightarrow>
                           (Inr page_ids,
                            s\<lparr>page_owners := owners, page_links := links,
                              sequence_table := (sequence_table s)
                                [ix := if entry_pages e = 0
                                       then e\<lparr>head_page := kInvalidPageIndex,
                                              tail_page := kInvalidPageIndex\<rparr>
                                       else e]\<rparr>)))))"

definition resident_detach :: "int list \<Rightarrow> region \<Rightarrow> unit result \<times> region" where
  "resident_detach page_ids s =
     (case check_page_ids (''Resident page id out of range'', ''Duplicate resident page id'',
             ''Cannot release page because it is not prefix-resident'')
             (num_pages s) (page_owners s) kPrefixResidentSequenceId [] page_ids of
        Inl e \<Rightarrow> (Inl e, s)
      | Inr _ \<Rightarrow>
          (Inr (),
           s\<lparr>page_owners := put_all kEmptySequenceId (map nat page_ids) (page_owners s),
             page_links := put_all kInvalidPageIndex (map nat page_ids) (page_links s)\<rparr>))"

definition ReleaseResidentPages :: "int list \<Rightarrow> region \<Rightarrow> unit result \<times> region" where
  "ReleaseResidentPages page_ids s =
     (if page_ids = [] then (Inr (), s)
      else case resident_detach page_ids s of
        (Inl e, s1) \<Rightarrow> (Inl e, s1)
      | (Inr _, s1) \<Rightarrow> (Inr (), push_free page_ids s1))"

section \<open>Reading the region\<close>

fun walk_pages :: "int list \<Rightarrow> nat \<Rightarrow> int \<Rightarrow> int list" where
  "walk_pages links 0 page = []"
| "walk_pages links (Suc n) page =
     (if page = kInvalidPageIndex then [] else page # walk_pages links n (links ! nat page))"

definition SequencePages :: "region \<Rightarrow> int \<Rightarrow> nat option \<Rightarrow> int list result" where
  "SequencePages s sid max_pages =
     (case FindSequenceEntryLocked s sid of
        None \<Rightarrow> Inl (Out_of_range ''Sequence ID not found when fetching pages'')
      | Some ix \<Rightarrow>
          let e = sequence_table s ! ix; available = entry_pages e;
              limit = (case max_pages of None \<Rightarrow> available | Some m \<Rightarrow> min m available)
          in if (case max_pages of None \<Rightarrow> False | Some m \<Rightarrow> m > available)
             then Inl (Out_of_range ''Requested more pages than allocated for sequence'')
             else Inr (walk_pages (page_links s) limit (head_page e)))"

record HostPagedKVStats =
  num_total_pages :: nat
  num_free_pages :: nat
  num_used_pages :: nat
  num_active_sequences :: nat
  sequence_table_capacity :: nat
  total_bytes :: nat
  stat_sequences_inserted :: nat
  stat_sequences_released :: nat
  stat_acquire_failures :: nat

record HostPagedKVSequenceAudit =
  live_entries :: nat
  tombstone_entries :: nat
  empty_entries :: nat
  live_sequence_pages :: nat
  prefix_resident_pages :: nat
  page_identity_delta :: int

definition CollectStats :: "region \<Rightarrow> HostPagedKVStats" where
  "CollectStats s =
     \<lparr>num_total_pages = num_pages s, num_free_pages = free_stack_top s,
      num_used_pages = u64_sub (num_pages s) (free_stack_top s),
      num_active_sequences = active_sequences s,
      sequence_table_capacity = sequence_capacity s, total_bytes = region_bytes s,
      stat_sequences_inserted = sequences_inserted s,
      stat_sequences_released = sequences_released s,
      stat_acquire_failures = acquire_failures s\<rparr>"

fun audit_table :: "SequenceEntry list \<Rightarrow> nat \<times> nat \<times> nat \<times> nat" where
  "audit_table [] = (0, 0, 0, 0)"
| "audit_table (e # es) =
     (case audit_table es of (live, tombs, vacant, pages) \<Rightarrow>
        if sequence_id e = kEmptySequenceId then (live, tombs, Suc vacant, pages)
        else if sequence_id e = kTombstoneSequenceId then (live, Suc tombs, vacant, pages)
        else (Suc live, tombs, vacant, entry_pages e + pages))"

definition CollectAuditedStats :: "region \<Rightarrow> HostPagedKVStats \<times> HostPagedKVSequenceAudit" where
  "CollectAuditedStats s =
     (let stats = CollectStats s;
          resident = length (filter (\<lambda>p. page_owners s ! p = kPrefixResidentSequenceId)
                               [0..<num_pages s])
      in case audit_table (sequence_table s) of (live, tombs, vacant, pages) \<Rightarrow>
          (stats,
           \<lparr>live_entries = live, tombstone_entries = tombs, empty_entries = vacant,
            live_sequence_pages = pages, prefix_resident_pages = resident,
            page_identity_delta = int (num_used_pages stats) - int (pages + resident)\<rparr>))"

text \<open>The equations of the fuelled walks repeat themselves; they are unfolded by hand.\<close>

declare detach_chain.simps [simp del]
declare count_found.simps [simp del]
declare unlink_walk.simps [simp del]

end
