(* ===== verification/Kv_Chain.thy ===== *)
theory Kv_Chain
  imports Kv_Backend
begin

text \<open>
  Page chains. \<open>chain links p ps\<close> says that following the page links from \<open>p\<close>
  visits exactly \<open>ps\<close> and stops; the lemmas give the result of every walk of
  \<open>host_paged_kv_backend.cpp\<close> on a chain.
\<close>

lemmas page_consts = kInvalidPageIndex_def

primrec chain :: "int list \<Rightarrow> int \<Rightarrow> int list \<Rightarrow> bool" where
  "chain links p [] \<longleftrightarrow> p = kInvalidPageIndex"
| "chain links p (q # qs) \<longleftrightarrow>
     p = q \<and> 0 \<le> q \<and> q < int (length links) \<and> chain links (links ! nat q) qs"

lemma chain_range: "chain links p ps \<Longrightarrow> q \<in> set ps \<Longrightarrow> 0 \<le> q \<and> q < int (length links)"
  by (induction ps arbitrary: p) auto

lemma chain_valid: "chain links p (q # qs) \<Longrightarrow> p \<noteq> kInvalidPageIndex"
  by (auto simp: page_consts)

lemma chain_invalid [simp]: "chain links kInvalidPageIndex ps \<longleftrightarrow> ps = []"
  by (cases ps) (auto simp: page_consts)

lemma chain_unique: "chain links p ps \<Longrightarrow> chain links p qs \<Longrightarrow> ps = qs"
proof (induction ps arbitrary: p qs)
  case Nil
  then show ?case by simp
next
  case (Cons a ps)
  then show ?case by (cases qs) (auto simp: page_consts)
qed

lemma chain_append:
  "chain links p (ps @ qs) \<Longrightarrow> \<exists>p'. chain links p' qs"
  by (induction ps arbitrary: p) auto

lemma chain_suffix: "chain links p (ps @ q # qs) \<Longrightarrow> chain links q (q # qs)"
  by (induction ps arbitrary: p) auto

lemma chain_head_notin: "chain links p (q # qs) \<Longrightarrow> q \<notin> set qs"
proof
  assume c: "chain links p (q # qs)" and "q \<in> set qs"
  then obtain us vs where qs: "qs = us @ q # vs" by (metis split_list)
  with c have "chain links q (q # us @ q # vs)" by simp
  moreover from c qs have "chain links q (q # vs)"
    using chain_suffix [of links p "q # us" q vs] by simp
  ultimately have "q # us @ q # vs = q # vs" by (rule chain_unique)
  then have "length (q # us @ q # vs) = length (q # vs)" by (rule arg_cong)
  then show False by simp
qed

lemma chain_distinct: "chain links p ps \<Longrightarrow> distinct ps"
proof (induction ps arbitrary: p)
  case (Cons q qs)
  then show ?case using chain_head_notin by auto
qed simp

lemma chain_update:
  assumes "0 \<le> a" and "a \<notin> set ps"
  shows "chain (links[nat a := v]) p ps = chain links p ps"
  using assms
proof (induction ps arbitrary: p)
  case (Cons q qs)
  have "links[nat a := v] ! nat q = links ! nat q" if "0 \<le> q"
    using that Cons.prems by (intro nth_list_update_neq) auto
  moreover have "chain (links[nat a := v]) p' qs = chain links p' qs" for p'
    using Cons.IH Cons.prems by simp
  ultimately show ?case by (cases "0 \<le> q") simp_all
qed simp

lemma chain_put_all:
  assumes "\<forall>a \<in> set as. 0 \<le> a" and "set as \<inter> set ps = {}"
  shows "chain (put_all v (map nat as) links) p ps = chain links p ps"
  using assms by (induction as arbitrary: links) (auto simp: chain_update)

lemma chain_length: "chain links p ps \<Longrightarrow> length ps \<le> length links"
proof -
  assume c: "chain links p ps"
  have "set ps \<subseteq> int ` {..<length links}"
  proof
    fix q assume "q \<in> set ps"
    with chain_range [OF c] have "0 \<le> q" "q < int (length links)" by auto
    then have "q = int (nat q)" "nat q < length links" by auto
    then show "q \<in> int ` {..<length links}" by blast
  qed
  then have "card (set ps) \<le> card (int ` {..<length links})"
    by (intro card_mono) auto
  also have "\<dots> = length links" by (simp add: card_image)
  finally show ?thesis by (simp add: distinct_card [OF chain_distinct [OF c]])
qed

section \<open>Growing and shrinking a chain\<close>

lemma chain_snoc:
  assumes "chain links p ps" and "ps \<noteq> []" and "0 \<le> q" and "q < int (length links)" and "q \<notin> set ps"
  shows "chain (links[nat q := kInvalidPageIndex, nat (last ps) := q]) p (ps @ [q])"
  using assms
proof (induction ps arbitrary: p)
  case (Cons a as)
  let ?L = "links[nat q := kInvalidPageIndex, nat (last (a # as)) := q]"
  from Cons.prems have a: "0 \<le> a" "a < int (length links)" "p = a" and aq: "a \<noteq> q"
    and c: "chain links (links ! nat a) as" by auto
  show ?case
  proof (cases "as = []")
    case True
    with a aq Cons.prems show ?thesis by (auto simp: nat_eq_iff)
  next
    case False
    with Cons have IH: "chain ?L (links ! nat a) (as @ [q])" by auto
    from False Cons.prems(1) have "last as \<noteq> a" "0 \<le> last as"
      using chain_head_notin chain_range [OF c] by fastforce+
    with a aq Cons.prems(3) False have "?L ! nat a = links ! nat a"
      by (auto simp: nth_list_update nat_eq_iff)
    with IH a show ?thesis by simp
  qed
qed simp

lemma chain_single:
  "0 \<le> q \<Longrightarrow> q < int (length links) \<Longrightarrow> chain (links[nat q := kInvalidPageIndex]) q [q]"
  by simp

text \<open>Unlinking the page behind \<open>ks\<close>.\<close>

lemma chain_unlink:
  assumes "chain links p (ks @ a # as)" and "ks \<noteq> []"
  shows "chain (links[nat (last ks) := links ! nat a, nat a := kInvalidPageIndex]) p (ks @ as)"
  using assms
proof (induction ks arbitrary: p)
  case (Cons k ks)
  let ?L = "links[nat (last (k # ks)) := links ! nat a, nat a := kInvalidPageIndex]"
  from Cons.prems have k: "p = k" "0 \<le> k" "k < int (length links)"
    and c: "chain links (links ! nat k) (ks @ a # as)" by auto
  have d: "distinct (k # ks @ a # as)" using chain_distinct [OF Cons.prems(1)] by simp
  have a: "0 \<le> a" using chain_range [OF c] by simp
  show ?case
  proof (cases "ks = []")
    case True
    with c have "chain links (links ! nat a) as" by auto
    moreover have "k \<notin> set as" "a \<notin> set as" "k \<noteq> a" using d by auto
    ultimately have "chain ?L (links ! nat a) as" using True k a by (simp add: chain_update)
    then show ?thesis using True k a \<open>k \<noteq> a\<close> by (auto simp: nat_eq_iff)
  next
    case False
    with Cons c have IH: "chain ?L (links ! nat k) (ks @ as)" by auto
    have "last ks \<in> set ks" using False by simp
    with d chain_range [OF c] have "nat k \<noteq> nat (last ks)" "nat k \<noteq> nat a"
      using k a by (auto simp: nat_eq_iff)
    with False have "?L ! nat k = links ! nat k" by simp
    with IH k show ?thesis by simp
  qed
qed simp

section \<open>The walks\<close>

lemma walk_pages_chain: "chain links p ps \<Longrightarrow> walk_pages links n p = take n ps"
proof (induction ps arbitrary: p n)
  case Nil
  then show ?case by (cases n) auto
next
  case (Cons a ps)
  then show ?case using chain_valid [OF Cons.prems] by (cases n) auto
qed

lemma detach_chain_chain:
  assumes "chain links p ps" and "length ps \<le> fuel"
  shows "detach_chain fuel p owners links =
           Some (ps, put_all kEmptySequenceId (map nat ps) owners,
                 put_all kInvalidPageIndex (map nat ps) links)"
  using assms
proof (induction ps arbitrary: p fuel owners links)
  case Nil
  then show ?case by (subst detach_chain.simps) simp
next
  case (Cons a ps)
  then obtain fuel' where f: "fuel = Suc fuel'" "length ps \<le> fuel'" by (cases fuel) auto
  from Cons.prems(1) have "0 \<le> a" "a \<notin> set ps" using chain_head_notin by auto
  with Cons.prems(1) have "chain (links[nat a := kInvalidPageIndex]) (links ! nat a) ps"
    by (simp add: chain_update)
  with Cons.IH f(2) Cons.prems(1) chain_valid [OF Cons.prems(1)] show ?case
    by (subst detach_chain.simps) (simp add: f(1))
qed

lemma detach_prefix_chain:
  assumes "chain links p (ps @ qs)"
  shows "detach_prefix (length ps) p owners links =
           (Inr (ps, if qs = [] then kInvalidPageIndex else hd qs),
            put_all kEmptySequenceId (map nat ps) owners,
            put_all kInvalidPageIndex (map nat ps) links)"
  using assms
proof (induction ps arbitrary: p owners links)
  case Nil
  then show ?case by (cases qs) auto
next
  case (Cons a ps)
  from Cons.prems have "0 \<le> a" "a \<notin> set (ps @ qs)"
    using chain_head_notin [of links p a "ps @ qs"] by auto
  with Cons.prems have "chain (links[nat a := kInvalidPageIndex]) (links ! nat a) (ps @ qs)"
    by (simp add: chain_update)
  with Cons.IH Cons.prems chain_valid [of links p a "ps @ qs"] show ?case by simp
qed

lemma count_found_chain:
  assumes "chain links p ps" and "length ps \<le> fuel"
  shows "count_found fuel links R p = Some (length (filter (\<lambda>q. q \<in> set R) ps))"
  using assms
proof (induction ps arbitrary: p fuel)
  case Nil
  then show ?case by (subst count_found.simps) simp
next
  case (Cons a ps)
  then obtain fuel' where f: "fuel = Suc fuel'" "length ps \<le> fuel'" by (cases fuel) auto
  with Cons chain_valid [OF Cons.prems(1)] show ?case by (subst count_found.simps) auto
qed

text \<open>
  The loop invariant of the unlinking walk: \<open>ks\<close> are the pages kept so far, \<open>ps\<close>
  those still to come, and the entry describes the chain \<open>ks @ ps\<close>.
\<close>

definition entry_of :: "int list \<Rightarrow> SequenceEntry \<Rightarrow> int list \<Rightarrow> bool" where
  "entry_of links e ps \<longleftrightarrow>
     chain links (head_page e) ps \<and> entry_pages e = length ps
     \<and> tail_page e = (if ps = [] then kInvalidPageIndex else last ps)"

definition last_page :: "int list \<Rightarrow> int" where
  "last_page ps = (if ps = [] then kInvalidPageIndex else last ps)"

definition first_page :: "int list \<Rightarrow> int" where
  "first_page ps = (if ps = [] then kInvalidPageIndex else hd ps)"

lemma chain_first: "chain links p ps \<Longrightarrow> p = first_page ps"
  by (cases ps) (auto simp: first_page_def)

lemma unlink_step:
  assumes e: "entry_of links e (ks @ a # as)" and len: "length (ks @ a # as) < 2 ^ 32"
  defines "e1 \<equiv> (if last_page ks = kInvalidPageIndex then e\<lparr>head_page := links ! nat a\<rparr> else e)"
    and "links1 \<equiv> (if last_page ks = kInvalidPageIndex then links
                   else links[nat (last_page ks) := links ! nat a])"
  defines "e2 \<equiv> (if tail_page e1 = a then e1\<lparr>tail_page := last_page ks\<rparr> else e1)"
  shows "entry_of (links1[nat a := kInvalidPageIndex])
           (e2\<lparr>entry_pages := u32_sub (entry_pages e2) 1\<rparr>) (ks @ as)"
proof -
  from e have c: "chain links (head_page e) (ks @ a # as)" and n: "entry_pages e = length (ks @ a # as)"
    and t: "tail_page e = last (ks @ a # as)" by (auto simp: entry_of_def)
  have d: "distinct (ks @ a # as)" using c by (rule chain_distinct)
  have a: "0 \<le> a" "a < int (length links)" using chain_range [OF c] by auto
  have ks: "last_page ks = kInvalidPageIndex \<longleftrightarrow> ks = []"
  proof -
    have "0 \<le> last ks" if "ks \<noteq> []" using that chain_range [OF c, of "last ks"] by simp
    then show ?thesis by (auto simp: last_page_def page_consts)
  qed
  have count: "u32_sub (entry_pages e2) 1 = length (ks @ as)"
    using n len by (simp add: e2_def e1_def u32_sub_le)
  have tail: "tail_page e2 = last_page (ks @ as)"
  proof (cases "as = []")
    case True
    then show ?thesis using t by (simp add: e2_def e1_def)
  next
    case False
    then have "last (ks @ a # as) = last as" "last as \<noteq> a" using d by auto
    with False t show ?thesis by (simp add: e2_def e1_def last_page_def)
  qed
  have "chain (links1[nat a := kInvalidPageIndex]) (head_page e2) (ks @ as)"
  proof (cases "ks = []")
    case True
    then have "chain links (links ! nat a) as" using c by simp
    then show ?thesis using True ks a d by (simp add: e2_def e1_def links1_def chain_update)
  next
    case False
    then show ?thesis using chain_unlink [OF c False] ks
      by (simp add: e2_def e1_def links1_def last_page_def)
  qed
  with count tail show ?thesis by (simp add: entry_of_def last_page_def)
qed

lemma unlink_walk_chain:
  assumes "entry_of links e (ks @ ps)" and "length (ks @ ps) < 2 ^ 32" and "length ps \<le> fuel"
  shows "\<exists>e' links'.
           unlink_walk fuel R (last_page ks) (first_page ps) e owners links =
             Some (e', put_all kPrefixResidentSequenceId (map nat (filter (\<lambda>p. p \<in> set R) ps)) owners, links')
           \<and> sequence_id e' = sequence_id e
           \<and> entry_of links' e' (ks @ filter (\<lambda>p. p \<notin> set R) ps)
           \<and> length links' = length links
           \<and> (\<forall>i. int i \<notin> set (ks @ ps) \<longrightarrow> links' ! i = links ! i)
           \<and> (\<forall>a \<in> set ps \<inter> set R. links' ! nat a = kInvalidPageIndex)"
  using assms
proof (induction ps arbitrary: ks e owners links fuel)
  case Nil
  then show ?case by (subst unlink_walk.simps) (simp add: first_page_def)
next
  case (Cons a ps)
  obtain fuel' where f: "fuel = Suc fuel'" "length ps \<le> fuel'" using Cons.prems(3) by (cases fuel) auto
  have c: "chain links (head_page e) (ks @ a # ps)" using Cons.prems(1) by (simp add: entry_of_def)
  have a: "0 \<le> a" "a < int (length links)" using chain_range [OF c] by auto
  then have av: "a \<noteq> kInvalidPageIndex" by (simp add: page_consts)
  have d: "distinct (ks @ a # ps)" using c by (rule chain_distinct)
  have next_page: "links ! nat a = first_page ps"
    using chain_suffix [OF c] chain_first by auto
  show ?case
  proof (cases "a \<in> set R")
    case False
    then have "unlink_walk fuel R (last_page ks) (first_page (a # ps)) e owners links
        = unlink_walk fuel' R (last_page (ks @ [a])) (first_page ps) e owners links"
      by (subst unlink_walk.simps) (simp add: f(1) first_page_def av next_page last_page_def)
    with Cons.IH [of links e "ks @ [a]" fuel' owners] Cons.prems f(2) False show ?thesis
      by simp
  next
    case True
    define e1 where "e1 = (if last_page ks = kInvalidPageIndex then e\<lparr>head_page := links ! nat a\<rparr> else e)"
    define links1 where "links1 = (if last_page ks = kInvalidPageIndex then links
                   else links[nat (last_page ks) := links ! nat a])"
    define e2 where "e2 = (if tail_page e1 = a then e1\<lparr>tail_page := last_page ks\<rparr> else e1)"
    define e3 where "e3 = e2\<lparr>entry_pages := u32_sub (entry_pages e2) 1\<rparr>"
    define links2 where "links2 = links1[nat a := kInvalidPageIndex]"
    have step: "unlink_walk fuel R (last_page ks) (first_page (a # ps)) e owners links
        = unlink_walk fuel' R (last_page ks) (first_page ps) e3
            (owners[nat a := kPrefixResidentSequenceId]) links2"
      using True by (subst unlink_walk.simps)
        (simp add: f(1) first_page_def [of "a # ps"] av next_page [symmetric] Let_def
          e1_def links1_def e2_def e3_def links2_def)
    have "entry_of links2 e3 (ks @ ps)"
      unfolding e3_def links2_def e2_def e1_def links1_def
      by (rule unlink_step [OF Cons.prems(1,2)])
    from Cons.IH [OF this _ f(2), of "owners[nat a := kPrefixResidentSequenceId]"] Cons.prems(2)
    obtain e' links' where r:
      "unlink_walk fuel' R (last_page ks) (first_page ps) e3
         (owners[nat a := kPrefixResidentSequenceId]) links2 =
       Some (e', put_all kPrefixResidentSequenceId (map nat (filter (\<lambda>p. p \<in> set R) ps))
                  (owners[nat a := kPrefixResidentSequenceId]), links')"
      "sequence_id e' = sequence_id e3"
      "entry_of links' e' (ks @ filter (\<lambda>p. p \<notin> set R) ps)"
      "length links' = length links2"
      "\<forall>i. int i \<notin> set (ks @ ps) \<longrightarrow> links' ! i = links2 ! i"
      "\<forall>b \<in> set ps \<inter> set R. links' ! nat b = kInvalidPageIndex"
      by auto
    have len: "length links2 = length links" by (simp add: links2_def links1_def)
    have same: "links2 ! i = links ! i" if "int i \<notin> set (ks @ a # ps)" for i
    proof -
      have "last_page ks \<noteq> int i" if "last_page ks \<noteq> kInvalidPageIndex"
        using that \<open>int i \<notin> _\<close> last_in_set [of ks] by (metis UnCI last_page_def set_append)
      moreover have "0 \<le> last_page ks" if "last_page ks \<noteq> kInvalidPageIndex"
        using that chain_range [OF c, of "last ks"] by (auto simp: last_page_def split: if_splits)
      ultimately show ?thesis using that a
        by (auto simp: links2_def links1_def nth_list_update nat_eq_iff)
    qed
    have "links' ! nat a = kInvalidPageIndex"
      using r(5) d a by (auto simp: links2_def links1_def)
    moreover have "sequence_id e3 = sequence_id e" by (simp add: e3_def e2_def e1_def)
    ultimately show ?thesis using step r True len same
      by (intro exI [of _ e'] exI [of _ links']) auto
  qed
qed

end
