(* ===== verification/Kv_Invariant.thy ===== *)
theory Kv_Invariant
  imports Kv_Chain
begin

text \<open>
  The representation invariant of the host KV region and its preservation by the
  critical sections of every operation. The invariant is relative to a list \<open>F\<close> of
  pages in flight: pages a process has popped and not yet attached, or detached and
  not yet pushed back. Between operations of a single process \<open>F\<close> is empty.
\<close>

section \<open>The sequence table as an open-addressing table\<close>

definition is_live :: "SequenceEntry \<Rightarrow> bool" where
  "is_live e \<longleftrightarrow> sequence_id e \<noteq> kEmptySequenceId \<and> sequence_id e \<noteq> kTombstoneSequenceId"

definition seq_cls :: "SequenceEntry \<Rightarrow> int slot_kind" where
  "seq_cls e = (if sequence_id e = kEmptySequenceId then Vacant
                else if sequence_id e = kTombstoneSequenceId then Grave
                else Held (sequence_id e))"

definition seq_order :: "nat \<Rightarrow> int \<Rightarrow> nat list" where
  "seq_order capacity sid = probe_order (HashSequenceId capacity sid) capacity"

interpretation seq_tab: open_table seq_cls seq_order
  by unfold_locales (simp_all add: seq_order_def)

lemma id_consts [simp]:
  "kTombstoneSequenceId \<noteq> kEmptySequenceId" "kPrefixResidentSequenceId \<noteq> kEmptySequenceId"
  "kPrefixResidentSequenceId \<noteq> kTombstoneSequenceId"
  "kEmptySequenceId \<noteq> kTombstoneSequenceId" "kEmptySequenceId \<noteq> kPrefixResidentSequenceId"
  "kTombstoneSequenceId \<noteq> kPrefixResidentSequenceId"
  by (simp_all add: kTombstoneSequenceId_def kPrefixResidentSequenceId_def)

lemma seq_cls_Held: "seq_cls e = Held sid \<longleftrightarrow> is_live e \<and> sequence_id e = sid"
  by (auto simp: seq_cls_def is_live_def)

lemma seq_cls_not_Held: "seq_cls e = Vacant \<or> seq_cls e = Grave \<longleftrightarrow> \<not> is_live e"
  by (auto simp: seq_cls_def is_live_def)

lemma not_reserved_live: "\<not> IsReservedSequenceId (sequence_id e) \<Longrightarrow> is_live e"
  by (simp add: IsReservedSequenceId_def is_live_def)

lemma find_entry_loop_probe:
  assumes "\<not> IsReservedSequenceId sid" and "0 < capacity"
  shows "find_entry_loop tab capacity sid ((h + i) mod capacity) n =
           probe_find seq_cls tab sid (map (\<lambda>j. (h + j) mod capacity) [i..<i + n])"
proof (induction n arbitrary: i)
  case (Suc n)
  have "[i..<i + Suc n] = i # [Suc i..<Suc i + n]" by (simp add: upt_conv_Cons)
  moreover have "((h + i) mod capacity + 1) mod capacity = (h + Suc i) mod capacity"
    by (simp add: mod_Suc_eq)
  ultimately show ?case using Suc [of "Suc i"] assms(1)
    by (auto simp: seq_cls_def IsReservedSequenceId_def)
qed simp

lemma claim_entry_loop_probe:
  assumes "\<not> IsReservedSequenceId sid" and "0 < capacity"
  shows "claim_entry_loop tab capacity sid g ((h + i) mod capacity) n =
           probe_claim seq_cls tab sid g (map (\<lambda>j. (h + j) mod capacity) [i..<i + n])"
proof (induction n arbitrary: i g)
  case (Suc n)
  have "[i..<i + Suc n] = i # [Suc i..<Suc i + n]" by (simp add: upt_conv_Cons)
  moreover have "((h + i) mod capacity + 1) mod capacity = (h + Suc i) mod capacity"
    by (simp add: mod_Suc_eq)
  ultimately show ?case using Suc [of _ "Suc i"] assms(1)
    by (cases g) (auto simp: seq_cls_def IsReservedSequenceId_def)
qed simp

lemma HashSequenceId_less: "0 < capacity \<Longrightarrow> HashSequenceId capacity sid < capacity"
  by (simp add: HashSequenceId_def Let_def)

lemma FindSequenceEntryLocked_probe:
  assumes "\<not> IsReservedSequenceId sid" and "0 < sequence_capacity s"
  shows "FindSequenceEntryLocked s sid =
           probe_find seq_cls (sequence_table s) sid (seq_order (sequence_capacity s) sid)"
  using find_entry_loop_probe [OF assms, of "sequence_table s" "HashSequenceId (sequence_capacity s) sid" 0
      "sequence_capacity s"] HashSequenceId_less [OF assms(2), of sid]
  by (simp add: FindSequenceEntryLocked_def seq_order_def probe_order_def)

lemma claim_probe:
  assumes "\<not> IsReservedSequenceId sid" and "0 < capacity"
  shows "claim_entry_loop tab capacity sid None (HashSequenceId capacity sid) capacity =
           probe_claim seq_cls tab sid None (seq_order capacity sid)"
  using claim_entry_loop_probe [OF assms, of tab None "HashSequenceId capacity sid" 0 capacity]
    HashSequenceId_less [OF assms(2), of sid]
  by (simp add: seq_order_def probe_order_def)

section \<open>The invariant\<close>

definition kv_shape :: "region \<Rightarrow> bool" where
  "kv_shape s \<longleftrightarrow>
     num_pages s < 2 ^ 31 \<and> 0 < sequence_capacity s \<and> sequence_capacity s < 2 ^ 32
     \<and> length (free_stack s) = num_pages s \<and> length (page_owners s) = num_pages s
     \<and> length (page_links s) = num_pages s \<and> length (sequence_table s) = sequence_capacity s
     \<and> free_stack_top s \<le> num_pages s"

text \<open>An entry describes a chain, and its sequence owns exactly the pages of the chain.\<close>

definition owns :: "int list \<Rightarrow> int list \<Rightarrow> SequenceEntry \<Rightarrow> bool" where
  "owns owners links e \<longleftrightarrow>
     (\<exists>ps. entry_of links e ps
           \<and> (\<forall>p < length owners. owners ! p = sequence_id e \<longleftrightarrow> int p \<in> set ps))"

definition kv_entries :: "region \<Rightarrow> bool" where
  "kv_entries s \<longleftrightarrow>
     probe_inv seq_cls seq_order (sequence_table s)
     \<and> (\<forall>e \<in> set (sequence_table s). is_live e \<longrightarrow>
          \<not> IsReservedSequenceId (sequence_id e) \<and> owns (page_owners s) (page_links s) e)
     \<and> active_sequences s = length (filter is_live (sequence_table s))"

text \<open>Every page is free or in flight, prefix-resident, or owned by a live sequence.\<close>

definition kv_owners :: "region \<Rightarrow> bool" where
  "kv_owners s \<longleftrightarrow>
     (\<forall>p < num_pages s.
        if page_owners s ! p = kEmptySequenceId \<or> page_owners s ! p = kPrefixResidentSequenceId
        then page_links s ! p = kInvalidPageIndex
        else \<exists>e \<in> set (sequence_table s). is_live e \<and> sequence_id e = page_owners s ! p)"

definition kv_free :: "int list \<Rightarrow> region \<Rightarrow> bool" where
  "kv_free F s \<longleftrightarrow>
     distinct (take (free_stack_top s) (free_stack s) @ F)
     \<and> set (take (free_stack_top s) (free_stack s) @ F)
         = int ` {p. p < num_pages s \<and> page_owners s ! p = kEmptySequenceId}"

definition kv_inv :: "int list \<Rightarrow> region \<Rightarrow> bool" where
  "kv_inv F s \<longleftrightarrow> kv_shape s \<and> kv_entries s \<and> kv_owners s \<and> kv_free F s"

lemmas kv_inv_parts = kv_inv_def kv_shape_def kv_entries_def kv_owners_def kv_free_def

lemma kv_invD:
  assumes "kv_inv F s"
  shows "kv_shape s" "kv_entries s" "kv_owners s" "kv_free F s"
  using assms by (simp_all add: kv_inv_def)

section \<open>Looking a sequence up\<close>

lemma kv_find_iff:
  assumes "kv_inv F s" and "\<not> IsReservedSequenceId sid"
  shows "FindSequenceEntryLocked s sid = Some ix \<longleftrightarrow>
           ix < sequence_capacity s \<and> sequence_id (sequence_table s ! ix) = sid"
proof -
  have "probe_inv seq_cls seq_order (sequence_table s)"
    and "length (sequence_table s) = sequence_capacity s" "0 < sequence_capacity s"
    using assms(1) by (auto simp: kv_inv_parts)
  with seq_tab.find_iff [of "sequence_table s" sid ix] assms(2) show ?thesis
    by (auto simp: FindSequenceEntryLocked_probe seq_cls_Held dest: not_reserved_live)
qed

lemma kv_entry_unique:
  assumes "kv_inv F s" and "i < sequence_capacity s" and "j < sequence_capacity s"
    and "is_live (sequence_table s ! i)"
    and "sequence_id (sequence_table s ! i) = sequence_id (sequence_table s ! j)"
  shows "i = j"
proof -
  have "probe_inv seq_cls seq_order (sequence_table s)"
    and "length (sequence_table s) = sequence_capacity s"
    using assms(1) by (auto simp: kv_inv_parts)
  moreover have "is_live (sequence_table s ! j)" using assms(4,5) by (simp add: is_live_def)
  ultimately show ?thesis using assms probe_inv_unique [of seq_cls seq_order "sequence_table s"]
    by (metis seq_cls_Held)
qed

section \<open>Changing one entry\<close>

lemma chain_cong:
  assumes "\<forall>q \<in> set ps. links' ! nat q = links ! nat q" and "length links' = length links"
  shows "chain links' p ps = chain links p ps"
  using assms by (induction ps arbitrary: p) auto

text \<open>
  The frame rule of the region: an operation that touches only pages owned by \<open>sid\<close>,
  free pages and resident pages, and only the entry of \<open>sid\<close>, keeps every other
  entry intact.
\<close>

lemma kv_frame:
  assumes inv: "kv_inv F s"
    and ix: "ix < sequence_capacity s"
    and sid: "\<not> IsReservedSequenceId sid"
    and old: "is_live (sequence_table s ! ix) \<Longrightarrow> sequence_id (sequence_table s ! ix) = sid"
    and others: "\<And>j. j < sequence_capacity s \<Longrightarrow> j \<noteq> ix \<Longrightarrow> sequence_id (sequence_table s ! j) \<noteq> sid"
    and cfg: "num_pages s' = num_pages s" "sequence_capacity s' = sequence_capacity s"
    and tab: "sequence_table s' = (sequence_table s)[ix := e']"
    and lens: "length (page_owners s') = num_pages s" "length (page_links s') = num_pages s"
    and keep: "\<And>p. p < num_pages s \<Longrightarrow> p \<notin> P \<Longrightarrow>
          page_owners s' ! p = page_owners s ! p \<and> page_links s' ! p = page_links s ! p"
    and touch: "\<And>p. p < num_pages s \<Longrightarrow> p \<in> P \<Longrightarrow>
          page_owners s ! p \<in> {kEmptySequenceId, kPrefixResidentSequenceId, sid}
          \<and> page_owners s' ! p \<in> {kEmptySequenceId, kPrefixResidentSequenceId, sid}
          \<and> (page_owners s' ! p \<noteq> sid \<longrightarrow> page_links s' ! p = kInvalidPageIndex)"
    and e': "is_live e' \<Longrightarrow> sequence_id e' = sid \<and> owns (page_owners s') (page_links s') e'"
    and dead: "\<not> is_live e' \<Longrightarrow> (\<forall>p < num_pages s. page_owners s' ! p \<noteq> sid)"
    and probe: "probe_inv seq_cls seq_order (sequence_table s')"
    and act: "active_sequences s' = length (filter is_live (sequence_table s'))"
    and stack: "length (free_stack s') = num_pages s" "free_stack_top s' \<le> num_pages s"
    and free: "kv_free F' s'"
  shows "kv_inv F' s'"
proof -
  note I = kv_invD [OF inv]
  have shape: "kv_shape s'"
    using I(1) cfg tab lens stack by (simp add: kv_shape_def)
  have len: "length (sequence_table s) = sequence_capacity s" "length (page_owners s) = num_pages s"
    "length (page_links s) = num_pages s"
    using I(1) by (auto simp: kv_shape_def)
  have entry: "is_live e \<longrightarrow> \<not> IsReservedSequenceId (sequence_id e)
                \<and> owns (page_owners s') (page_links s') e"
    if "e \<in> set (sequence_table s')" for e
  proof (cases "e = e'")
    case True
    then show ?thesis using e' sid by auto
  next
    case False
    with that tab obtain j where j: "j < sequence_capacity s" "j \<noteq> ix" "e = sequence_table s ! j"
      using set_update_cases [of e "sequence_table s" ix e'] len by auto
    show ?thesis
    proof
      assume live: "is_live e"
      have "e \<in> set (sequence_table s)" using j len by auto
      with I(2) live obtain ps where res: "\<not> IsReservedSequenceId (sequence_id e)"
        and ps: "entry_of (page_links s) e ps"
        "\<forall>p < num_pages s. page_owners s ! p = sequence_id e \<longleftrightarrow> int p \<in> set ps"
        using len by (auto simp: kv_entries_def owns_def)
      have ne: "sequence_id e \<noteq> sid" using others [OF j(1,2)] j(3) by simp
      have nP: "p \<notin> P" if "p < num_pages s" "page_owners s ! p = sequence_id e" for p
        using touch [of p] that ne res by (auto simp: IsReservedSequenceId_def)
      have c: "chain (page_links s) (head_page e) ps" using ps(1) by (simp add: entry_of_def)
      have "page_links s' ! nat q = page_links s ! nat q" if "q \<in> set ps" for q
      proof -
        have q: "0 \<le> q" "nat q < num_pages s" using chain_range [OF c that] len by auto
        with ps(2) that have "page_owners s ! nat q = sequence_id e" by simp
        with q nP keep show ?thesis by blast
      qed
      then have "entry_of (page_links s') e ps"
        using ps(1) c chain_cong [of ps "page_links s'" "page_links s"] lens len
        by (simp add: entry_of_def)
      moreover have "page_owners s' ! p = sequence_id e \<longleftrightarrow> int p \<in> set ps" if "p < num_pages s" for p
        using ps(2) that nP keep [OF that] touch [OF that] ne res
        by (cases "p \<in> P") (auto simp: IsReservedSequenceId_def)
      ultimately show "\<not> IsReservedSequenceId (sequence_id e)
                \<and> owns (page_owners s') (page_links s') e"
        using res lens by (auto simp: owns_def)
    qed
  qed
  have own: "if page_owners s' ! p = kEmptySequenceId \<or> page_owners s' ! p = kPrefixResidentSequenceId
        then page_links s' ! p = kInvalidPageIndex
        else \<exists>e \<in> set (sequence_table s'). is_live e \<and> sequence_id e = page_owners s' ! p"
    if p: "p < num_pages s" for p
  proof (cases "page_owners s' ! p = sid")
    case True
    then have "is_live e'" using dead p by blast
    moreover have "e' \<in> set (sequence_table s')" using tab ix len by (simp add: set_update_memI)
    ultimately show ?thesis using True e' sid by (auto simp: IsReservedSequenceId_def)
  next
    case ns: False
    show ?thesis
    proof (cases "p \<in> P")
      case True
      then show ?thesis using touch [OF p] ns by auto
    next
      case False
      then have eq: "page_owners s' ! p = page_owners s ! p" "page_links s' ! p = page_links s ! p"
        using keep [OF p] by auto
      show ?thesis
      proof (cases "page_owners s ! p = kEmptySequenceId \<or> page_owners s ! p = kPrefixResidentSequenceId")
        case True
        then show ?thesis using I(3) p eq by (auto simp: kv_owners_def)
      next
        case False
        with I(3) p obtain e where e: "e \<in> set (sequence_table s)" "is_live e"
          "sequence_id e = page_owners s ! p"
          unfolding kv_owners_def by (meson)
        have "sequence_table s ! ix \<noteq> e"
          using e eq ns old by auto
        then have "e \<in> set (sequence_table s')"
          using set_update_other [OF e(1)] ix len tab by simp
        with e False eq show ?thesis by auto
      qed
    qed
  qed
  have "kv_owners s'" using own cfg unfolding kv_owners_def by simp
  moreover have "kv_entries s'" using entry probe act by (simp add: kv_entries_def)
  ultimately show ?thesis using shape free by (simp add: kv_inv_def)
qed

end
