(* ===== verification/Kv_Sections.thy ===== *)
theory Kv_Sections
  imports Kv_Invariant
begin

text \<open>
  What each critical section of the page allocator does to the invariant and to the
  pages every sequence holds. \<open>held s sid\<close> is the abstract content of the region: the
  page list of a sequence, as \<open>SequencePages\<close> reports it.
\<close>

section \<open>The abstract content\<close>

definition held :: "region \<Rightarrow> int \<Rightarrow> int list option" where
  "held s sid = (case SequencePages s sid None of Inl _ \<Rightarrow> None | Inr ps \<Rightarrow> Some ps)"

definition resident_pages :: "region \<Rightarrow> int set" where
  "resident_pages s = int ` {p. p < num_pages s \<and> page_owners s ! p = kPrefixResidentSequenceId}"

definition free_pages :: "region \<Rightarrow> int set" where
  "free_pages s = set (take (free_stack_top s) (free_stack s))"

lemma entry_of_walk: "entry_of links e ps \<Longrightarrow> walk_pages links (entry_pages e) (head_page e) = ps"
  using walk_pages_chain [of links "head_page e" ps "entry_pages e"] by (simp add: entry_of_def)

lemma entry_of_unique: "entry_of links e ps \<Longrightarrow> entry_of links e qs \<Longrightarrow> ps = qs"
  using entry_of_walk by metis

lemma kv_shapeD:
  assumes "kv_inv F s"
  shows "num_pages s < 2 ^ 31" "0 < sequence_capacity s" "sequence_capacity s < 2 ^ 32"
    "length (free_stack s) = num_pages s" "length (page_owners s) = num_pages s"
    "length (page_links s) = num_pages s" "length (sequence_table s) = sequence_capacity s"
    "free_stack_top s \<le> num_pages s"
    "probe_inv seq_cls seq_order (sequence_table s)"
    "active_sequences s = length (filter is_live (sequence_table s))"
  using assms by (auto simp: kv_inv_parts)

lemma kv_entryD:
  assumes "kv_inv F s" and "ix < sequence_capacity s" and "is_live (sequence_table s ! ix)"
  shows "\<not> IsReservedSequenceId (sequence_id (sequence_table s ! ix))"
    and "\<exists>ps. entry_of (page_links s) (sequence_table s ! ix) ps
          \<and> (\<forall>p < num_pages s. page_owners s ! p = sequence_id (sequence_table s ! ix) \<longleftrightarrow> int p \<in> set ps)"
proof -
  have "sequence_table s ! ix \<in> set (sequence_table s)"
    using kv_shapeD(7) [OF assms(1)] assms(2) by simp
  with kv_invD(2) [OF assms(1)] assms(3) kv_shapeD(5) [OF assms(1)]
  show "\<not> IsReservedSequenceId (sequence_id (sequence_table s ! ix))"
    and "\<exists>ps. entry_of (page_links s) (sequence_table s ! ix) ps
          \<and> (\<forall>p < num_pages s. page_owners s ! p = sequence_id (sequence_table s ! ix) \<longleftrightarrow> int p \<in> set ps)"
    by (auto simp: kv_entries_def owns_def)
qed

lemma held_None_iff:
  assumes "kv_inv F s" and "\<not> IsReservedSequenceId sid"
  shows "held s sid = None \<longleftrightarrow> (\<forall>ix < sequence_capacity s. sequence_id (sequence_table s ! ix) \<noteq> sid)"
proof -
  have "held s sid = None \<longleftrightarrow> FindSequenceEntryLocked s sid = None"
    by (simp add: held_def SequencePages_def Let_def split: option.split)
  also have "\<dots> \<longleftrightarrow> (\<forall>ix. FindSequenceEntryLocked s sid \<noteq> Some ix)" by (metis not_None_eq)
  finally show ?thesis using kv_find_iff [OF assms] by simp
qed

lemma held_SomeI:
  assumes "kv_inv F s" and "\<not> IsReservedSequenceId sid" and "ix < sequence_capacity s"
    and "sequence_id (sequence_table s ! ix) = sid"
    and "entry_of (page_links s) (sequence_table s ! ix) ps"
  shows "held s sid = Some ps"
proof -
  have "FindSequenceEntryLocked s sid = Some ix" using kv_find_iff [OF assms(1,2)] assms(3,4) by blast
  then show ?thesis using entry_of_walk [OF assms(5)] by (simp add: held_def SequencePages_def Let_def)
qed

lemma held_SomeE:
  assumes "kv_inv F s" and "\<not> IsReservedSequenceId sid" and "held s sid = Some ps"
  obtains ix where "FindSequenceEntryLocked s sid = Some ix" "ix < sequence_capacity s"
    "sequence_id (sequence_table s ! ix) = sid" "entry_of (page_links s) (sequence_table s ! ix) ps"
    "\<forall>p < num_pages s. page_owners s ! p = sid \<longleftrightarrow> int p \<in> set ps"
proof -
  from held_None_iff [OF assms(1,2)] assms(3) obtain ix where
    ix: "ix < sequence_capacity s" "sequence_id (sequence_table s ! ix) = sid" by auto
  moreover have "is_live (sequence_table s ! ix)" using ix assms(2) not_reserved_live by blast
  ultimately obtain qs where qs: "entry_of (page_links s) (sequence_table s ! ix) qs"
    "\<forall>p < num_pages s. page_owners s ! p = sid \<longleftrightarrow> int p \<in> set qs"
    using kv_entryD(2) [OF assms(1)] by blast
  have "qs = ps" using held_SomeI [OF assms(1,2) ix qs(1)] assms(3) by simp
  then show thesis using that qs ix kv_find_iff [OF assms(1,2)] by blast
qed

text \<open>The content that the frame rule leaves alone.\<close>

lemma held_frame:
  assumes inv: "kv_inv F s" and inv': "kv_inv F' s'" and ix: "ix < sequence_capacity s"
    and old: "is_live (sequence_table s ! ix) \<Longrightarrow> sequence_id (sequence_table s ! ix) = sid"
    and e': "is_live e' \<Longrightarrow> sequence_id e' = sid"
    and cfg: "num_pages s' = num_pages s" "sequence_capacity s' = sequence_capacity s"
    and tab: "sequence_table s' = (sequence_table s)[ix := e']"
    and keep: "\<And>p. p < num_pages s \<Longrightarrow> p \<notin> P \<Longrightarrow> page_links s' ! p = page_links s ! p"
    and touch: "\<And>p. p < num_pages s \<Longrightarrow> p \<in> P \<Longrightarrow>
          page_owners s ! p \<in> {kEmptySequenceId, kPrefixResidentSequenceId, sid}"
    and other: "\<not> IsReservedSequenceId sid'" "sid' \<noteq> sid"
  shows "held s' sid' = held s sid'"
proof (cases "held s sid'")
  case None
  have "sequence_id (sequence_table s' ! j) \<noteq> sid'" if "j < sequence_capacity s" for j
  proof (cases "j = ix")
    case True
    then show ?thesis using tab ix kv_shapeD(7) [OF inv] e' other not_reserved_live [of e'] by auto
  next
    case False
    then show ?thesis using None held_None_iff [OF inv other(1)] that tab by simp
  qed
  with held_None_iff [OF inv' other(1)] cfg None show ?thesis by simp
next
  case (Some ps)
  obtain j where j: "j < sequence_capacity s" "sequence_id (sequence_table s ! j) = sid'"
    "entry_of (page_links s) (sequence_table s ! j) ps"
    and own: "\<forall>p < num_pages s. page_owners s ! p = sid' \<longleftrightarrow> int p \<in> set ps"
    using held_SomeE [OF inv other(1) Some] by blast
  have "j \<noteq> ix"
    using j old other not_reserved_live [of "sequence_table s ! j"] by auto
  have c: "chain (page_links s) (head_page (sequence_table s ! j)) ps"
    using j(3) by (simp add: entry_of_def)
  have "page_links s' ! nat q = page_links s ! nat q" if "q \<in> set ps" for q
  proof -
    have q: "0 \<le> q" "nat q < num_pages s"
      using chain_range [OF c that] kv_shapeD(6) [OF inv] by auto
    with own that have "page_owners s ! nat q = sid'" by simp
    with touch [OF q(2)] other have "nat q \<notin> P" by (auto simp: IsReservedSequenceId_def)
    with keep q show ?thesis by blast
  qed
  then have "entry_of (page_links s') (sequence_table s' ! j) ps"
    using j(3) c chain_cong [of ps "page_links s'" "page_links s"] kv_shapeD(6) [OF inv]
      kv_shapeD(6) [OF inv'] cfg tab \<open>j \<noteq> ix\<close> by (simp add: entry_of_def)
  then have "held s' sid' = Some ps"
    using held_SomeI [OF inv' other(1)] j(1,2) cfg tab \<open>j \<noteq> ix\<close> by simp
  with Some show ?thesis by simp
qed

section \<open>Construction\<close>

lemma construct_inv:
  assumes "pages < 2 ^ 31" and "0 < pages" and "capacity < 2 ^ 32"
  shows "kv_inv [] (ConstructSharedState pages page_tokens capacity bytes)"
    (is "kv_inv [] ?s")
proof -
  have stack: "free_stack ?s = map (\<lambda>i. int (pages - 1 - i)) [0..<pages]"
    using assms(1) by (auto simp: ConstructSharedState_def to_i32_id)
  have top: "free_stack_top ?s = pages" using assms(1) by (simp add: ConstructSharedState_def u32_id)
  have "(\<lambda>i. pages - 1 - i) ` {0..<pages} = {p. p < pages}"
  proof (intro equalityI subsetI)
    fix p assume "p \<in> {p. p < pages}"
    then show "p \<in> (\<lambda>i. pages - 1 - i) ` {0..<pages}"
      by (intro image_eqI [of _ _ "pages - 1 - p"]) auto
  qed auto
  then have "set (free_stack ?s) = int ` {p. p < pages}"
    unfolding stack set_map set_upt by (metis image_image)
  moreover have "{p. p < num_pages ?s \<and> page_owners ?s ! p = kEmptySequenceId} = {p. p < pages}"
    by (auto simp: ConstructSharedState_def)
  moreover have "distinct (free_stack ?s)" unfolding stack by (auto simp: distinct_map inj_on_def)
  moreover have "take pages (free_stack ?s) = free_stack ?s" by (simp add: stack)
  ultimately have "kv_free [] ?s" using top by (simp add: kv_free_def)
  moreover have "kv_shape ?s" using assms top by (auto simp: kv_shape_def ConstructSharedState_def)
  moreover have "kv_entries ?s"
    by (auto simp: kv_entries_def ConstructSharedState_def is_live_def fresh_entry_def
             intro!: probe_inv_vacant) (auto simp: seq_cls_def)
  moreover have "kv_owners ?s" by (simp add: kv_owners_def ConstructSharedState_def)
  ultimately show ?thesis by (simp add: kv_inv_def)
qed

section \<open>The free stack\<close>

text \<open>Pages on the stack and in flight are free pages, so the stack cannot overflow.\<close>

lemma kv_free_room:
  assumes "kv_inv F s"
  shows "free_stack_top s + length F \<le> num_pages s"
proof -
  note f = kv_invD(4) [OF assms, unfolded kv_free_def]
  have "free_stack_top s + length F = length (take (free_stack_top s) (free_stack s) @ F)"
    using kv_shapeD(4,8) [OF assms] by simp
  also have "\<dots> = card (set (take (free_stack_top s) (free_stack s) @ F))"
    using f distinct_card by metis
  also have "\<dots> \<le> card (int ` {p. p < num_pages s})"
    using f by (intro card_mono) auto
  also have "\<dots> = num_pages s" by (simp add: card_image)
  finally show ?thesis .
qed

lemma push_free_frame:
  "\<exists>fs t. push_free ps s = s\<lparr>free_stack := fs, free_stack_top := t\<rparr>"
proof (induction ps s rule: push_free.induct)
  case (1 s)
  then show ?case by (metis push_free.simps(1) region.surjective region.update_convs(4,5))
next
  case (2 p ps s)
  then show ?case by auto
qed

lemma push_free_stack:
  assumes "free_stack_top s + length ps \<le> length (free_stack s)" and "length (free_stack s) < 2 ^ 32"
  shows "take (free_stack_top (push_free ps s)) (free_stack (push_free ps s))
           = take (free_stack_top s) (free_stack s) @ ps
         \<and> free_stack_top (push_free ps s) = free_stack_top s + length ps
         \<and> length (free_stack (push_free ps s)) = length (free_stack s)"
  using assms
proof (induction ps s rule: push_free.induct)
  case (2 p ps s)
  then show ?case by (auto simp: u32_id take_Suc_update)
qed simp

text \<open>An operation that only moves the stack keeps the table, the owners and the links.\<close>

lemma kv_inv_stack:
  assumes "kv_inv F s" and "length fs = num_pages s" and "t \<le> num_pages s"
    and "distinct (take t fs @ F')"
    and "set (take t fs @ F') = set (take (free_stack_top s) (free_stack s) @ F)"
  shows "kv_inv F' (s\<lparr>free_stack := fs, free_stack_top := t\<rparr>)"
  using assms by (simp add: kv_inv_parts)

lemma held_stack [simp]:
  "held (s\<lparr>free_stack := fs\<rparr>) = held s"
  "held (s\<lparr>free_stack_top := t\<rparr>) = held s"
  "held (s\<lparr>acquire_failures := n\<rparr>) = held s"
  "held (s\<lparr>sequences_inserted := n\<rparr>) = held s"
  "held (s\<lparr>active_sequences := n\<rparr>) = held s"
  by (simp_all add: held_def fun_eq_iff SequencePages_def FindSequenceEntryLocked_def
      cong: option.case_cong)

lemma kv_inv_counters [simp]:
  "kv_inv F (s\<lparr>acquire_failures := n\<rparr>) = kv_inv F s"
  "kv_inv F (s\<lparr>sequences_inserted := n\<rparr>) = kv_inv F s"
  "kv_inv F (s\<lparr>sequences_released := n\<rparr>) = kv_inv F s"
  by (simp_all add: kv_inv_parts)

lemma push_free_inv:
  assumes "kv_inv (ps @ F) s"
  shows "kv_inv F (push_free ps s)"
    and "free_pages (push_free ps s) = free_pages s \<union> set ps"
    and "free_stack_top (push_free ps s) = free_stack_top s + length ps"
proof -
  obtain fs t where eq: "push_free ps s = s\<lparr>free_stack := fs, free_stack_top := t\<rparr>"
    using push_free_frame by blast
  have room: "free_stack_top s + length ps \<le> length (free_stack s)"
    using kv_free_room [OF assms] kv_shapeD(4) [OF assms] by simp
  then have st: "take t fs = take (free_stack_top s) (free_stack s) @ ps"
    "t = free_stack_top s + length ps" "length fs = num_pages s"
    using push_free_stack [OF room] kv_shapeD(1,4) [OF assms] by (auto simp: eq)
  then show "kv_inv F (push_free ps s)" unfolding eq
    using assms room kv_shapeD(4) [OF assms] kv_invD(4) [OF assms]
    by (intro kv_inv_stack) (auto simp: kv_free_def)
  show "free_pages (push_free ps s) = free_pages s \<union> set ps"
    and "free_stack_top (push_free ps s) = free_stack_top s + length ps"
    using st by (simp_all add: eq free_pages_def)
qed

lemma push_free_same [simp]:
  "held (push_free ps s) = held s" "page_owners (push_free ps s) = page_owners s"
  "page_links (push_free ps s) = page_links s" "sequence_table (push_free ps s) = sequence_table s"
  "num_pages (push_free ps s) = num_pages s" "sequence_capacity (push_free ps s) = sequence_capacity s"
  "active_sequences (push_free ps s) = active_sequences s"
  "resident_pages (push_free ps s) = resident_pages s"
  using push_free_frame [of ps s] by (auto simp: resident_pages_def)

lemma acquire_pop_inv:
  assumes "kv_inv F s" and "acquire_pop n s = (Inr ps, s')"
  shows "kv_inv (ps @ F) s'" and "length ps = n" and "set ps \<subseteq> free_pages s"
    and "s' = s\<lparr>free_stack_top := free_stack_top s - n\<rparr>" and "n \<le> free_stack_top s"
    and "free_pages s' = free_pages s - set ps"
    and "take (free_stack_top s) (free_stack s) = take (free_stack_top s') (free_stack s') @ ps"
proof -
  let ?t = "free_stack_top s" and ?fs = "free_stack s"
  from assms(2) have n: "n \<le> ?t" and s': "s' = s\<lparr>free_stack_top := ?t - n\<rparr>"
    and ps0: "ps = map (\<lambda>i. ?fs ! (?t - n + i)) [0..<n]"
    by (auto simp: acquire_pop_def Let_def split: if_splits)
  have t: "?t \<le> length ?fs" using kv_shapeD(4,8) [OF assms(1)] by simp
  have ps: "ps = take n (drop (?t - n) ?fs)"
    using map_nth_drop_take [of "?t - n" n ?fs] n t ps0 by simp
  have split: "take ?t ?fs = take (?t - n) ?fs @ ps"
    using take_add [of "?t - n" n ?fs] n by (simp add: ps)
  then have "kv_inv (ps @ F) (s\<lparr>free_stack := ?fs, free_stack_top := ?t - n\<rparr>)"
    using assms(1) kv_shapeD(4,8) [OF assms(1)] kv_invD(4) [OF assms(1)] n
    by (intro kv_inv_stack [OF assms(1)]) (auto simp: kv_free_def)
  moreover have "s\<lparr>free_stack := ?fs, free_stack_top := ?t - n\<rparr> = s'" by (simp add: s')
  ultimately show "kv_inv (ps @ F) s'" by simp
  show "length ps = n" by (simp add: ps0)
  show "set ps \<subseteq> free_pages s" by (simp add: free_pages_def split)
  show "s' = s\<lparr>free_stack_top := ?t - n\<rparr>" "n \<le> ?t" by fact+
  show "free_pages s' = free_pages s - set ps"
    using split kv_invD(4) [OF assms(1)] by (auto simp: free_pages_def s' kv_free_def)
  show "take ?t ?fs = take (free_stack_top s') (free_stack s') @ ps" using split by (simp add: s')
qed

section \<open>Sections that change one sequence\<close>

definition located :: "region \<Rightarrow> int \<Rightarrow> nat \<Rightarrow> int list \<Rightarrow> bool" where
  "located s sid ix ps \<longleftrightarrow>
     ix < sequence_capacity s \<and> sequence_id (sequence_table s ! ix) = sid
     \<and> entry_of (page_links s) (sequence_table s ! ix) ps"

lemma held_located:
  assumes "kv_inv F s" and "\<not> IsReservedSequenceId sid"
  shows "held s sid = Some ps \<longleftrightarrow> (\<exists>ix. located s sid ix ps)"
proof
  assume "held s sid = Some ps"
  then show "\<exists>ix. located s sid ix ps"
    using held_SomeE [OF assms] unfolding located_def by metis
next
  assume "\<exists>ix. located s sid ix ps"
  then show "held s sid = Some ps" using held_SomeI [OF assms] unfolding located_def by blast
qed

lemma located_owners:
  assumes "kv_inv F s" and "\<not> IsReservedSequenceId sid" and "located s sid ix ps"
  shows "p < num_pages s \<Longrightarrow> page_owners s ! p = sid \<longleftrightarrow> int p \<in> set ps"
    and "q \<in> set ps \<Longrightarrow> 0 \<le> q \<and> nat q < num_pages s \<and> page_owners s ! nat q = sid"
    and "distinct ps" and "length ps \<le> num_pages s"
proof -
  have own: "page_owners s ! p = sid \<longleftrightarrow> int p \<in> set ps" if "p < num_pages s" for p
  proof -
    have "held s sid = Some ps" using held_located [OF assms(1,2)] assms(3) by blast
    then show ?thesis using held_SomeE [OF assms(1,2)] that by blast
  qed
  then show "p < num_pages s \<Longrightarrow> page_owners s ! p = sid \<longleftrightarrow> int p \<in> set ps" .
  have c: "chain (page_links s) (head_page (sequence_table s ! ix)) ps"
    using assms(3) by (simp add: located_def entry_of_def)
  show "q \<in> set ps \<Longrightarrow> 0 \<le> q \<and> nat q < num_pages s \<and> page_owners s ! nat q = sid"
    using chain_range [OF c, of q] kv_shapeD(6) [OF assms(1)] own [of "nat q"] by auto
  show "distinct ps" "length ps \<le> num_pages s"
    using chain_distinct [OF c] chain_length [OF c] kv_shapeD(6) [OF assms(1)] by auto
qed

text \<open>What a section promises of the sequences it is not about.\<close>

definition others_same :: "int \<Rightarrow> region \<Rightarrow> region \<Rightarrow> bool" where
  "others_same sid s s' \<longleftrightarrow>
     num_pages s' = num_pages s \<and> sequence_capacity s' = sequence_capacity s
     \<and> page_size_tokens s' = page_size_tokens s
     \<and> (\<forall>sid'. \<not> IsReservedSequenceId sid' \<longrightarrow> sid' \<noteq> sid \<longrightarrow> held s' sid' = held s sid')"

lemma others_same_refl [simp]: "others_same sid s s"
  by (simp add: others_same_def)

lemma others_same_trans [trans]:
  "others_same sid s t \<Longrightarrow> others_same sid t u \<Longrightarrow> others_same sid s u"
  by (simp add: others_same_def)

lemma kv_change:
  assumes inv: "kv_inv F s" and sid: "\<not> IsReservedSequenceId sid" and loc: "located s sid ix ps"
    and cfg: "num_pages s' = num_pages s" "sequence_capacity s' = sequence_capacity s"
      "page_size_tokens s' = page_size_tokens s"
    and tab: "sequence_table s' = (sequence_table s)[ix := e']"
    and lens: "length (page_owners s') = num_pages s" "length (page_links s') = num_pages s"
    and keep: "\<And>p. p < num_pages s \<Longrightarrow> p \<notin> P \<Longrightarrow>
          page_owners s' ! p = page_owners s ! p \<and> page_links s' ! p = page_links s ! p"
    and touch: "\<And>p. p < num_pages s \<Longrightarrow> p \<in> P \<Longrightarrow>
          page_owners s ! p \<in> {kEmptySequenceId, kPrefixResidentSequenceId, sid}
          \<and> page_owners s' ! p \<in> {kEmptySequenceId, kPrefixResidentSequenceId, sid}
          \<and> (page_owners s' ! p \<noteq> sid \<longrightarrow> page_links s' ! p = kInvalidPageIndex)"
    and e': "sequence_id e' = sid \<and> owns (page_owners s') (page_links s') e' \<or>
             e' = tombstone_entry \<and> (\<forall>p < num_pages s. page_owners s' ! p \<noteq> sid)"
    and act: "active_sequences s' = active_sequences s - (if sequence_id e' = sid then 0 else 1)"
    and stack: "length (free_stack s') = num_pages s" "free_stack_top s' \<le> num_pages s"
    and free: "kv_free F' s'"
  shows "kv_inv F' s' \<and> others_same sid s s'"
proof -
  note ix = loc [unfolded located_def]
  have len: "length (sequence_table s) = sequence_capacity s" by (rule kv_shapeD(7) [OF inv])
  have live: "is_live (sequence_table s ! ix)" using ix sid not_reserved_live by metis
  have tomb: "\<not> is_live tombstone_entry" "seq_cls tombstone_entry = Grave"
    "sequence_id tombstone_entry \<noteq> sid"
    using sid by (auto simp: is_live_def tombstone_entry_def seq_cls_def IsReservedSequenceId_def)
  have live': "is_live e' \<longleftrightarrow> sequence_id e' = sid"
    using e' tomb sid not_reserved_live [of e'] by auto
  have others: "sequence_id (sequence_table s ! j) \<noteq> sid"
    if "j < sequence_capacity s" "j \<noteq> ix" for j
    using kv_entry_unique [OF inv, of ix j] ix live that by metis
  have probe: "probe_inv seq_cls seq_order (sequence_table s')"
  proof (cases "is_live e'")
    case True
    then have "seq_cls e' = seq_cls (sequence_table s ! ix)"
      using live live' ix seq_cls_Held by metis
    then show ?thesis using seq_tab.inv_store_same kv_shapeD(9) [OF inv] ix len tab by simp
  next
    case False
    then have "e' = tombstone_entry" using e' live' by blast
    moreover have "seq_cls (sequence_table s ! ix) \<noteq> Vacant"
      using live seq_cls_not_Held by blast
    ultimately show ?thesis
      using seq_tab.inv_bury kv_shapeD(9) [OF inv] ix len tab tomb by simp
  qed
  have act': "active_sequences s' = length (filter is_live (sequence_table s'))"
    using length_filter_update [of ix "sequence_table s" is_live e'] act live live' tab ix len
      kv_shapeD(10) [OF inv] by (auto split: if_splits)
  have inv': "kv_inv F' s'"
    by (rule kv_frame [OF inv _ sid _ others cfg(1,2) tab lens keep touch _ _ probe act' stack free])
       (use ix e' live' tomb in auto)
  moreover have "others_same sid s s'"
    unfolding others_same_def
    using held_frame [OF inv inv' _ _ _ cfg(1,2) tab, of sid P] ix live' keep touch cfg by auto
  ultimately show ?thesis by simp
qed

text \<open>A new sequence: the entry the probe found becomes a live one without pages.\<close>

lemma no_page_of_absent:
  assumes "kv_inv F s" and "\<not> IsReservedSequenceId sid" and "held s sid = None" and "p < num_pages s"
  shows "page_owners s ! p \<noteq> sid"
proof
  assume "page_owners s ! p = sid"
  with kv_invD(3) [OF assms(1)] assms(2,4) obtain e where "e \<in> set (sequence_table s)" "sequence_id e = sid"
    unfolding kv_owners_def IsReservedSequenceId_def by metis
  with held_None_iff [OF assms(1,2)] assms(3) kv_shapeD(7) [OF assms(1)] show False
    by (metis in_set_conv_nth)
qed

lemma insert_inv:
  assumes inv: "kv_inv F s" and sid: "\<not> IsReservedSequenceId sid"
    and claim: "claim_entry_loop (sequence_table s) (sequence_capacity s) sid None
                  (HashSequenceId (sequence_capacity s) sid) (sequence_capacity s) = Some (ix, True)"
    and s': "s' = s\<lparr>sequence_table := (sequence_table s)[ix := fresh_entry\<lparr>sequence_id := sid\<rparr>],
                    active_sequences := u32 (active_sequences s + 1)\<rparr>"
  shows "held s sid = None" and "kv_inv F s'" and "located s' sid ix []" and "others_same sid s s'"
    and "active_sequences s' = active_sequences s + 1"
proof -
  let ?e = "fresh_entry\<lparr>sequence_id := sid\<rparr>"
  have len: "length (sequence_table s) = sequence_capacity s" by (rule kv_shapeD(7) [OF inv])
  have pc: "probe_claim seq_cls (sequence_table s) sid None
              (seq_order (length (sequence_table s)) sid) = Some (ix, True)"
    using claim claim_probe [OF sid kv_shapeD(2) [OF inv]] len by simp
  note new = seq_tab.claim_newD [OF kv_shapeD(9) [OF inv] pc]
  have ix: "ix < sequence_capacity s" using new(1) len by simp
  have dead: "\<not> is_live (sequence_table s ! ix)" using new(2) seq_cls_not_Held by blast
  have absent: "sequence_id (sequence_table s ! j) \<noteq> sid" if "j < sequence_capacity s" for j
    using new(3) that len seq_cls_Held sid not_reserved_live by metis
  then show none: "held s sid = None" using held_None_iff [OF inv sid] by blast
  have live: "is_live ?e" using sid by (auto simp: is_live_def IsReservedSequenceId_def)
  have count: "Suc (length (filter is_live (sequence_table s)))
                = length (filter is_live ((sequence_table s)[ix := ?e]))"
    using length_filter_update [of ix "sequence_table s" is_live ?e] ix len dead live by simp
  have "length (filter is_live ((sequence_table s)[ix := ?e])) \<le> sequence_capacity s"
    using length_filter_le [of is_live "(sequence_table s)[ix := ?e]"] len by simp
  then have u: "u32 (active_sequences s + 1) = Suc (active_sequences s)"
    using count kv_shapeD(3,10) [OF inv] by (simp add: u32_id)
  then show "active_sequences s' = active_sequences s + 1" by (simp add: s')
  have probe: "probe_inv seq_cls seq_order (sequence_table s')"
    using seq_tab.inv_store_new [OF kv_shapeD(9) [OF inv] pc, of ?e] live
    by (simp add: s' seq_cls_Held)
  have e: "entry_of (page_links s) ?e []" by (simp add: entry_of_def fresh_entry_def)
  show inv': "kv_inv F s'"
  proof (rule kv_frame [OF inv ix sid, where P = "{}" and e' = ?e])
    show "active_sequences s' = length (filter is_live (sequence_table s'))"
      using u count kv_shapeD(10) [OF inv] by (simp add: s')
    show "is_live ?e \<Longrightarrow> sequence_id ?e = sid \<and> owns (page_owners s') (page_links s') ?e"
      using e no_page_of_absent [OF inv sid none] kv_shapeD(5) [OF inv] by (auto simp: s' owns_def)
    show "kv_free F s'" using kv_invD(4) [OF inv] by (simp add: s' kv_free_def)
  qed (use probe absent dead live kv_shapeD [OF inv] in \<open>simp_all add: s'\<close>)
  show "located s' sid ix []" using ix len e by (simp add: located_def s')
  show "others_same sid s s'"
    unfolding others_same_def
    using held_frame [OF inv inv' ix, where P = "{}" and e' = ?e and sid = sid] dead
    by (simp add: s')
qed

lemma claim_old:
  assumes inv: "kv_inv F s" and sid: "\<not> IsReservedSequenceId sid"
    and claim: "claim_entry_loop (sequence_table s) (sequence_capacity s) sid None
                  (HashSequenceId (sequence_capacity s) sid) (sequence_capacity s) = Some (ix, False)"
  shows "\<exists>ps. located s sid ix ps"
proof -
  have len: "length (sequence_table s) = sequence_capacity s" by (rule kv_shapeD(7) [OF inv])
  have ix: "ix < sequence_capacity s" "is_live (sequence_table s ! ix)"
    "sequence_id (sequence_table s ! ix) = sid"
    using seq_tab.claim_old_iff [OF kv_shapeD(9) [OF inv], of sid ix] claim
      claim_probe [OF sid kv_shapeD(2) [OF inv]] len by (auto simp: seq_cls_Held)
  then show ?thesis using kv_entryD(2) [OF inv] by (auto simp: located_def)
qed

section \<open>Attaching pages\<close>

lemma in_flight_page:
  assumes "kv_inv F s" and "q \<in> set F"
  shows "0 \<le> q" and "nat q < num_pages s" and "page_owners s ! nat q = kEmptySequenceId"
  using assms by (auto simp: kv_inv_def kv_free_def)

lemma kv_free_attach:
  assumes "kv_free (q # F) s" and "0 \<le> q" and "nat q < num_pages s" and "sid \<noteq> kEmptySequenceId"
    and "length (page_owners s) = num_pages s"
    and "page_owners s' = (page_owners s)[nat q := sid]" and "num_pages s' = num_pages s"
    and "free_stack s' = free_stack s" and "free_stack_top s' = free_stack_top s"
  shows "kv_free F s'"
proof -
  let ?T = "take (free_stack_top s) (free_stack s)"
  have d: "distinct (?T @ F)" "q \<notin> set (?T @ F)" using assms(1) by (auto simp: kv_free_def)
  have "int ` {p. p < num_pages s \<and> page_owners s' ! p = kEmptySequenceId}
        = int ` {p. p < num_pages s \<and> page_owners s ! p = kEmptySequenceId} - {q}"
    using assms(2-6) by (auto simp: nth_list_update)
  also have "\<dots> = set (?T @ q # F) - {q}" using assms(1) by (simp add: kv_free_def)
  also have "\<dots> = set (?T @ F)" using d(2) by auto
  finally show ?thesis using d(1) assms(7-9) by (simp add: kv_free_def)
qed

lemma attach_page_frame:
  "\<exists>ow li ta. attach_page ix sid q s = s\<lparr>page_owners := ow, page_links := li, sequence_table := ta\<rparr>"
  by (cases "head_page (sequence_table s ! ix) = kInvalidPageIndex")
     (auto simp: attach_page_def Let_def)

lemma attach_page_same [simp]:
  "num_pages (attach_page ix sid q s) = num_pages s"
  "sequence_capacity (attach_page ix sid q s) = sequence_capacity s"
  "page_size_tokens (attach_page ix sid q s) = page_size_tokens s"
  "free_stack (attach_page ix sid q s) = free_stack s"
  "free_stack_top (attach_page ix sid q s) = free_stack_top s"
  "active_sequences (attach_page ix sid q s) = active_sequences s"
  "sequences_inserted (attach_page ix sid q s) = sequences_inserted s"
  "page_owners (attach_page ix sid q s) = (page_owners s)[nat q := sid]"
  by (simp_all add: attach_page_def Let_def)

lemma attach_page_entry:
  assumes inv: "kv_inv (q # F) s" and sid: "\<not> IsReservedSequenceId sid" and loc: "located s sid ix ps"
  shows "located (attach_page ix sid q s) sid ix (ps @ [q])"
    and "\<exists>e'. sequence_table (attach_page ix sid q s) = (sequence_table s)[ix := e'] \<and> sequence_id e' = sid"
    and "p \<notin> insert (nat q) (nat ` set ps) \<Longrightarrow>
           page_links (attach_page ix sid q s) ! p = page_links s ! p"
    and "length (page_links (attach_page ix sid q s)) = length (page_links s)"
proof -
  let ?e = "sequence_table s ! ix"
  note l = loc [unfolded located_def entry_of_def]
  note q = in_flight_page [OF inv, of q, simplified]
  have len: "length (sequence_table s) = sequence_capacity s" "length (page_links s) = num_pages s"
    using kv_shapeD [OF inv] by auto
  have notin: "q \<notin> set ps"
    using located_owners(2) [OF inv sid loc, of q] q(3) sid by (auto simp: IsReservedSequenceId_def)
  have room: "length ps + 1 < 2 ^ 32"
    using located_owners(4) [OF inv sid loc] kv_shapeD(1) [OF inv] by simp
  have q': "q < int (length (page_links s))" using q len by simp
  have head: "head_page ?e = kInvalidPageIndex \<longleftrightarrow> ps = []"
    using l by (cases ps) (auto simp: page_consts)
  show "located (attach_page ix sid q s) sid ix (ps @ [q])"
  proof (cases "ps = []")
    case True
    then show ?thesis using l head len q q' room
      by (simp add: located_def entry_of_def attach_page_def Let_def u32_id)
  next
    case False
    have "chain ((page_links s)[nat q := kInvalidPageIndex, nat (last ps) := q]) (head_page ?e) (ps @ [q])"
      using chain_snoc [of "page_links s" "head_page ?e" ps q] l False q(1) q' notin by blast
    then show ?thesis using l head len False room
      by (simp add: located_def entry_of_def attach_page_def Let_def u32_id)
  qed
  show "\<exists>e'. sequence_table (attach_page ix sid q s) = (sequence_table s)[ix := e'] \<and> sequence_id e' = sid"
    using l by (auto simp: attach_page_def Let_def)
  show "page_links (attach_page ix sid q s) ! p = page_links s ! p"
    if "p \<notin> insert (nat q) (nat ` set ps)"
  proof (cases "ps = []")
    case True
    then show ?thesis using head that by (simp add: attach_page_def Let_def)
  next
    case False
    then have "last ps \<in> set ps" by simp
    with that have "p \<noteq> nat (last ps)" by blast
    then show ?thesis using head l that False by (simp add: attach_page_def Let_def)
  qed
  show "length (page_links (attach_page ix sid q s)) = length (page_links s)"
    by (simp add: attach_page_def Let_def)
qed

lemma attach_page_inv:
  assumes inv: "kv_inv (q # F) s" and sid: "\<not> IsReservedSequenceId sid" and loc: "located s sid ix ps"
  shows "kv_inv F (attach_page ix sid q s) \<and> others_same sid s (attach_page ix sid q s)"
proof -
  let ?s = "attach_page ix sid q s"
  note q = in_flight_page [OF inv, of q, simplified]
  note en = attach_page_entry [OF inv sid loc]
  note own = located_owners [OF inv sid loc]
  have len: "length (page_owners s) = num_pages s" "length (page_links s) = num_pages s"
    using kv_shapeD [OF inv] by auto
  obtain e' where e': "sequence_table ?s = (sequence_table s)[ix := e']" "sequence_id e' = sid"
    using en(2) by blast
  have "entry_of (page_links ?s) e' (ps @ [q])"
    using en(1) e' loc kv_shapeD(7) [OF inv] by (auto simp: located_def)
  moreover have "page_owners ?s ! p = sid \<longleftrightarrow> int p \<in> set (ps @ [q])" if "p < num_pages s" for p
    using own(1) [OF that] that q len by (auto simp: nth_list_update)
  ultimately have owns: "owns (page_owners ?s) (page_links ?s) e'"
    using e'(2) len by (auto simp: owns_def simp del: set_append)
  have free: "kv_free F ?s"
    using kv_free_attach [OF kv_invD(4) [OF inv] q(1,2) _ len(1), of sid ?s] sid
    by (simp add: IsReservedSequenceId_def)
  have touch: "page_owners s ! p \<in> {kEmptySequenceId, kPrefixResidentSequenceId, sid}
          \<and> page_owners ?s ! p \<in> {kEmptySequenceId, kPrefixResidentSequenceId, sid}
          \<and> (page_owners ?s ! p \<noteq> sid \<longrightarrow> page_links ?s ! p = kInvalidPageIndex)"
    if "p < num_pages s" "p \<in> insert (nat q) (nat ` set ps)" for p
    using own(2) q that len by (auto simp: nth_list_update)
  have keep: "page_owners ?s ! p = page_owners s ! p \<and> page_links ?s ! p = page_links s ! p"
    if "p < num_pages s" "p \<notin> insert (nat q) (nat ` set ps)" for p
    using en(3) that by auto
  show ?thesis
  proof (rule kv_change [OF inv sid loc, where P = "insert (nat q) (nat ` set ps)" and e' = e'])
    show "sequence_table ?s = (sequence_table s)[ix := e']" by (rule e'(1))
  qed (use keep touch free len e'(2) owns en(4) kv_shapeD [OF inv] in auto)
qed

lemma fold_attach_same [simp]:
  "num_pages (fold (attach_page ix sid) qs s) = num_pages s"
  "sequence_capacity (fold (attach_page ix sid) qs s) = sequence_capacity s"
  "free_stack (fold (attach_page ix sid) qs s) = free_stack s"
  "free_stack_top (fold (attach_page ix sid) qs s) = free_stack_top s"
  "active_sequences (fold (attach_page ix sid) qs s) = active_sequences s"
  "page_owners (fold (attach_page ix sid) qs s) = put_all sid (map nat qs) (page_owners s)"
  by (induction qs arbitrary: s) simp_all

lemma fold_attach_inv:
  assumes "kv_inv (qs @ F) s" and "\<not> IsReservedSequenceId sid" and "located s sid ix ps"
  shows "kv_inv F (fold (attach_page ix sid) qs s)
         \<and> located (fold (attach_page ix sid) qs s) sid ix (ps @ qs)
         \<and> others_same sid s (fold (attach_page ix sid) qs s)"
  using assms
proof (induction qs arbitrary: s ps)
  case (Cons q qs)
  have inv: "kv_inv (q # qs @ F) s" using Cons.prems(1) by simp
  note step = attach_page_inv [OF inv Cons.prems(2,3), THEN conjunct1]
    attach_page_inv [OF inv Cons.prems(2,3), THEN conjunct2] attach_page_entry(1) [OF inv Cons.prems(2,3)]
  show ?case using Cons.IH [OF step(1) Cons.prems(2) step(3)] others_same_trans [OF step(2)] by simp
qed simp

lemma resident_put_all:
  assumes "\<forall>q \<in> set qs. 0 \<le> q \<and> page_owners s ! nat q \<noteq> kPrefixResidentSequenceId"
    and "v \<noteq> kPrefixResidentSequenceId" and "length (page_owners s) = num_pages s"
    and "page_owners s' = put_all v (map nat qs) (page_owners s)" and "num_pages s' = num_pages s"
  shows "resident_pages s' = resident_pages s"
proof -
  have "page_owners s' ! p = kPrefixResidentSequenceId \<longleftrightarrow> page_owners s ! p = kPrefixResidentSequenceId"
    if "p < num_pages s" for p
    using assms(1-4) that by (auto simp: nth_put_all)
  then have "{p. p < num_pages s \<and> page_owners s' ! p = kPrefixResidentSequenceId}
      = {p. p < num_pages s \<and> page_owners s ! p = kPrefixResidentSequenceId}" by auto
  then show ?thesis using assms(5) by (simp add: resident_pages_def)
qed

section \<open>Acquiring pages for one sequence\<close>

lemma acquire_attach_ok:
  assumes inv: "kv_inv (qs @ F) s" and sid: "\<not> IsReservedSequenceId sid"
    and run: "acquire_attach sid qs s = (Inr u, s')"
  shows "kv_inv F s'"
    and "held s' sid = Some ((case held s sid of None \<Rightarrow> [] | Some ps \<Rightarrow> ps) @ qs)"
    and "others_same sid s s'" and "free_stack s' = free_stack s" and "free_stack_top s' = free_stack_top s"
    and "resident_pages s' = resident_pages s"
    and "active_sequences s' = active_sequences s + (if held s sid = None then 1 else 0)"
proof -
  let ?claim = "claim_entry_loop (sequence_table s) (sequence_capacity s) sid None
                  (HashSequenceId (sequence_capacity s) sid) (sequence_capacity s)"
  from run obtain ix new where c: "?claim = Some (ix, new)"
    by (auto simp: acquire_attach_def FindOrInsertSequenceEntryLocked_def split: option.splits prod.splits)
  have "\<exists>s1 ps. s' = fold (attach_page ix sid) qs s1 \<and> kv_inv (qs @ F) s1 \<and> located s1 sid ix ps
          \<and> others_same sid s s1 \<and> ps = (case held s sid of None \<Rightarrow> [] | Some ps \<Rightarrow> ps)
          \<and> free_stack s1 = free_stack s \<and> free_stack_top s1 = free_stack_top s
          \<and> page_owners s1 = page_owners s
          \<and> active_sequences s1 = active_sequences s + (if held s sid = None then 1 else 0)"
  proof (cases new)
    case False
    then obtain ps where l: "located s sid ix ps" using claim_old [OF inv sid, of ix] c by auto
    then have "held s sid = Some ps" using held_located [OF inv sid] by blast
    moreover have "s' = fold (attach_page ix sid) qs s"
      using run c False by (simp add: acquire_attach_def FindOrInsertSequenceEntryLocked_def)
    ultimately show ?thesis using l inv by auto
  next
    case True
    let ?s0 = "s\<lparr>sequence_table := (sequence_table s)[ix := fresh_entry\<lparr>sequence_id := sid\<rparr>],
                    active_sequences := u32 (active_sequences s + 1)\<rparr>"
    let ?s1 = "?s0\<lparr>sequences_inserted := u64 (sequences_inserted s + 1)\<rparr>"
    have "?claim = Some (ix, True)" using c True by simp
    note i = insert_inv [OF inv sid this refl]
    have "s' = fold (attach_page ix sid) qs ?s1"
      using run c True by (simp add: acquire_attach_def FindOrInsertSequenceEntryLocked_def)
    moreover have "located ?s1 sid ix []" using i(3) by (simp add: located_def)
    moreover have "others_same sid s ?s1" using i(4) by (simp add: others_same_def)
    moreover have "kv_inv (qs @ F) ?s1" using i(2) by simp
    ultimately show ?thesis using i(1,5) by (intro exI [of _ ?s1] exI [of _ "[]"]) simp
  qed
  then obtain s1 ps where s': "s' = fold (attach_page ix sid) qs s1"
    and s1: "kv_inv (qs @ F) s1" "located s1 sid ix ps" "others_same sid s s1"
    and ps: "ps = (case held s sid of None \<Rightarrow> [] | Some ps \<Rightarrow> ps)"
    and same: "free_stack s1 = free_stack s" "free_stack_top s1 = free_stack_top s"
      "page_owners s1 = page_owners s"
      "active_sequences s1 = active_sequences s + (if held s sid = None then 1 else 0)" by blast
  note f = fold_attach_inv [OF s1(1) sid s1(2)]
  show "kv_inv F s'" and "others_same sid s s'"
    using f others_same_trans [OF s1(3)] by (auto simp: s')
  show "held s' sid = Some ((case held s sid of None \<Rightarrow> [] | Some ps \<Rightarrow> ps) @ qs)"
    using f held_located [of F s' sid "ps @ qs"] sid ps s' by blast
  show "free_stack s' = free_stack s" "free_stack_top s' = free_stack_top s"
    "active_sequences s' = active_sequences s + (if held s sid = None then 1 else 0)"
    by (simp_all add: s' same)
  show "resident_pages s' = resident_pages s"
  proof (rule resident_put_all [where qs = qs and v = sid])
    show "\<forall>q \<in> set qs. 0 \<le> q \<and> page_owners s ! nat q \<noteq> kPrefixResidentSequenceId"
      using in_flight_page [OF inv] by auto
    show "num_pages s' = num_pages s" using s1(3) by (simp add: s' others_same_def)
  qed (use sid same kv_shapeD(5) [OF inv] in \<open>simp_all add: s' IsReservedSequenceId_def\<close>)
qed

lemma acquire_attach_full:
  assumes "acquire_attach sid qs s = (Inl e, s')"
  shows "s' = s" and "e = Runtime_error ''Sequence table is full''"
  using assms by (auto simp: acquire_attach_def FindOrInsertSequenceEntryLocked_def Let_def
      split: option.splits prod.splits if_splits)

section \<open>Taking pages from a sequence\<close>

lemma kv_free_detach:
  assumes "kv_free F s" and "distinct ps" and "length (page_owners s) = num_pages s"
    and "\<And>q. q \<in> set ps \<Longrightarrow> 0 \<le> q \<and> nat q < num_pages s \<and> page_owners s ! nat q \<noteq> kEmptySequenceId"
    and "page_owners s' = put_all kEmptySequenceId (map nat ps) (page_owners s)"
    and "num_pages s' = num_pages s"
    and "free_stack s' = free_stack s" and "free_stack_top s' = free_stack_top s"
  shows "kv_free (ps @ F) s'"
proof -
  let ?T = "take (free_stack_top s) (free_stack s)"
  have old: "set (?T @ F) = int ` {p. p < num_pages s \<and> page_owners s ! p = kEmptySequenceId}"
    and d: "distinct (?T @ F)" using assms(1) by (auto simp: kv_free_def)
  have "q \<notin> set (?T @ F)" if "q \<in> set ps" for q
    using assms(4) [OF that] unfolding old by auto
  then have "distinct (?T @ ps @ F)" using d assms(2) by auto
  moreover have "int ` {p. p < num_pages s \<and> page_owners s' ! p = kEmptySequenceId}
        = int ` {p. p < num_pages s \<and> page_owners s ! p = kEmptySequenceId} \<union> set ps"
  proof (intro equalityI subsetI)
    fix q assume "q \<in> int ` {p. p < num_pages s \<and> page_owners s ! p = kEmptySequenceId} \<union> set ps"
    then have "0 \<le> q" "nat q < num_pages s" "page_owners s ! nat q = kEmptySequenceId \<or> q \<in> set ps"
      using assms(4) by auto
    then show "q \<in> int ` {p. p < num_pages s \<and> page_owners s' ! p = kEmptySequenceId}"
      using assms(3,5) by (intro image_eqI [of _ _ "nat q"]) (auto simp: nth_put_all)
  next
    fix q assume "q \<in> int ` {p. p < num_pages s \<and> page_owners s' ! p = kEmptySequenceId}"
    then show "q \<in> int ` {p. p < num_pages s \<and> page_owners s ! p = kEmptySequenceId} \<union> set ps"
      using assms(3-5) by (auto simp: nth_put_all split: if_splits)
  qed
  ultimately show ?thesis using old assms(6-8) by (auto simp: kv_free_def)
qed

lemma release_detach_absent:
  assumes "kv_inv F s" and "\<not> IsReservedSequenceId sid" and "held s sid = None"
  shows "release_detach sid s = (Inl (Out_of_range ''Sequence ID not found during release''), s)"
proof -
  have "FindSequenceEntryLocked s sid = None"
    using kv_find_iff [OF assms(1,2)] held_None_iff [OF assms(1,2)] assms(3) by (metis not_None_eq)
  then show ?thesis by (simp add: release_detach_def)
qed

lemma release_detach_ok:
  assumes inv: "kv_inv F s" and sid: "\<not> IsReservedSequenceId sid" and h: "held s sid = Some ps"
  shows "\<exists>s'. release_detach sid s = (Inr ps, s') \<and> kv_inv (ps @ F) s' \<and> held s' sid = None
           \<and> others_same sid s s' \<and> free_stack s' = free_stack s \<and> free_stack_top s' = free_stack_top s
           \<and> resident_pages s' = resident_pages s \<and> active_sequences s' = active_sequences s - 1"
proof -
  obtain ix where find: "FindSequenceEntryLocked s sid = Some ix" and loc: "located s sid ix ps"
    using held_SomeE [OF inv sid h] unfolding located_def by metis
  note own = located_owners [OF inv sid loc]
  have len: "length (page_owners s) = num_pages s" "length (page_links s) = num_pages s"
    "length (sequence_table s) = sequence_capacity s"
    using kv_shapeD [OF inv] by auto
  let ?s = "s\<lparr>page_owners := put_all kEmptySequenceId (map nat ps) (page_owners s),
              page_links := put_all kInvalidPageIndex (map nat ps) (page_links s),
              sequence_table := (sequence_table s)[ix := tombstone_entry],
              active_sequences := u32_sub (active_sequences s) 1,
              sequences_released := u64 (sequences_released s + 1)\<rparr>"
  have "chain (page_links s) (head_page (sequence_table s ! ix)) ps"
    using loc by (simp add: located_def entry_of_def)
  then have run: "release_detach sid s = (Inr ps, ?s)"
    using detach_chain_chain [of "page_links s" _ ps "num_pages s + 2" "page_owners s"] own(4) find
    by (simp add: release_detach_def)
  have ix: "ix < sequence_capacity s" "is_live (sequence_table s ! ix)"
    using loc sid not_reserved_live by (auto simp: located_def)
  have "sequence_table s ! ix \<in> set (filter is_live (sequence_table s))" using ix len by simp
  then have "0 < active_sequences s" using kv_shapeD(10) [OF inv]
    by (metis length_pos_if_in_set)
  moreover have "active_sequences s < 2 ^ 32"
    using kv_shapeD(3,7,10) [OF inv] length_filter_le [of is_live "sequence_table s"] by simp
  ultimately have act: "u32_sub (active_sequences s) 1 = active_sequences s - 1"
    by (simp add: u32_sub_le)
  have tomb: "sequence_id tombstone_entry \<noteq> sid"
    using sid by (auto simp: tombstone_entry_def IsReservedSequenceId_def)
  have free: "kv_free (ps @ F) ?s"
    by (rule kv_free_detach [OF kv_invD(4) [OF inv] own(3) len(1)])
       (use own(2) sid in \<open>auto simp: IsReservedSequenceId_def\<close>)
  have "kv_inv (ps @ F) ?s \<and> others_same sid s ?s"
  proof (rule kv_change [OF inv sid loc, where P = "nat ` set ps" and e' = tombstone_entry])
    show "sequence_id tombstone_entry = sid \<and> owns (page_owners ?s) (page_links ?s) tombstone_entry \<or>
             tombstone_entry = tombstone_entry \<and> (\<forall>p < num_pages s. page_owners ?s ! p \<noteq> sid)"
    proof (intro disjI2 conjI allI impI)
      fix p assume p: "p < num_pages s"
      show "page_owners ?s ! p \<noteq> sid"
        using own(1) [OF p] p sid len image_eqI [of p nat "int p" "set ps"]
        by (auto simp: nth_put_all IsReservedSequenceId_def)
    qed simp
  qed (use free own(2) len act tomb kv_shapeD [OF inv] in \<open>auto simp: nth_put_all\<close>)
  moreover have "held ?s sid = None"
  proof -
    have "sequence_id (sequence_table ?s ! j) \<noteq> sid" if "j < sequence_capacity s" for j
      using kv_entry_unique [OF inv ix(1) that ix(2)] loc tomb ix(1) len
      by (cases "j = ix") (auto simp: located_def)
    then show ?thesis using held_None_iff [of "ps @ F" ?s] calculation sid by simp
  qed
  moreover have "resident_pages ?s = resident_pages s"
    by (rule resident_put_all [where qs = ps and v = kEmptySequenceId])
       (use own(2) len sid in \<open>auto simp: IsReservedSequenceId_def\<close>)
  ultimately show ?thesis using run act by auto
qed

lemma prefix_detach_absent:
  assumes "kv_inv F s" and "\<not> IsReservedSequenceId sid" and "held s sid = None"
  shows "prefix_detach sid n s = (Inl (Out_of_range ''Sequence ID not found during prefix release''), s)"
proof -
  have "FindSequenceEntryLocked s sid = None"
    using kv_find_iff [OF assms(1,2)] held_None_iff [OF assms(1,2)] assms(3) by (metis not_None_eq)
  then show ?thesis by (simp add: prefix_detach_def)
qed

lemma prefix_detach_ok:
  assumes inv: "kv_inv F s" and sid: "\<not> IsReservedSequenceId sid" and h: "held s sid = Some qs"
  shows "if length qs < n
         then prefix_detach sid n s =
                (Inl (Out_of_range ''Requested prefix release of more pages than owned''), s)
         else \<exists>s'. prefix_detach sid n s = (Inr (take n qs), s') \<and> kv_inv (take n qs @ F) s'
           \<and> held s' sid = Some (drop n qs)
           \<and> others_same sid s s' \<and> free_stack s' = free_stack s \<and> free_stack_top s' = free_stack_top s
           \<and> resident_pages s' = resident_pages s \<and> active_sequences s' = active_sequences s"
proof -
  obtain ix where find: "FindSequenceEntryLocked s sid = Some ix" and loc: "located s sid ix qs"
    using held_SomeE [OF inv sid h] unfolding located_def by metis
  note own = located_owners [OF inv sid loc]
  have len: "length (page_owners s) = num_pages s" "length (page_links s) = num_pages s"
    "length (sequence_table s) = sequence_capacity s"
    using kv_shapeD [OF inv] by auto
  let ?e = "sequence_table s ! ix" and ?ps = "take n qs" and ?rs = "drop n qs"
  have e: "chain (page_links s) (head_page ?e) qs" "entry_pages ?e = length qs"
    "tail_page ?e = (if qs = [] then kInvalidPageIndex else last qs)" "sequence_id ?e = sid"
    "ix < sequence_capacity s"
    using loc by (auto simp: located_def entry_of_def)
  show ?thesis
  proof (cases "length qs < n")
    case True
    then show ?thesis using find e by (simp add: prefix_detach_def Let_def)
  next
    case False
    then have n: "length ?ps = n" by simp
    let ?e' = "?e\<lparr>head_page := (if ?rs = [] then kInvalidPageIndex else hd ?rs),
                  entry_pages := length qs - n,
                  tail_page := (if length qs - n = 0 then kInvalidPageIndex else tail_page ?e)\<rparr>"
    let ?s = "s\<lparr>page_owners := put_all kEmptySequenceId (map nat ?ps) (page_owners s),
                page_links := put_all kInvalidPageIndex (map nat ?ps) (page_links s),
                sequence_table := (sequence_table s)[ix := ?e']\<rparr>"
    have "chain (page_links s) (head_page ?e) (?ps @ ?rs)" using e(1) by simp
    note dp = detach_prefix_chain [OF this, of "page_owners s", unfolded n]
    have run: "prefix_detach sid n s = (Inr ?ps, ?s)"
      using find e False dp by (simp add: prefix_detach_def Let_def)
    have d: "set ?ps \<inter> set ?rs = {}" using own(3) by (metis set_take_disj_set_drop_if_distinct le_refl)
    have sub: "q \<in> set ?ps \<Longrightarrow> q \<in> set qs" for q by (rule in_set_takeD)
    have "chain (page_links s) (if ?rs = [] then kInvalidPageIndex else hd ?rs) ?rs"
    proof (cases ?rs)
      case (Cons r rs)
      then have "chain (page_links s) (head_page ?e) (?ps @ r # rs)" using e(1) by (metis append_take_drop_id)
      then show ?thesis using chain_suffix Cons by simp
    qed simp
    moreover have "\<forall>a \<in> set ?ps. 0 \<le> a" using own(2) sub by blast
    ultimately have "entry_of (page_links ?s) ?e' ?rs"
      using chain_put_all [of ?ps ?rs kInvalidPageIndex "page_links s"] d e(3) False
      by (auto simp: entry_of_def)
    moreover have "page_owners ?s ! p = sid \<longleftrightarrow> int p \<in> set ?rs" if "p < num_pages s" for p
    proof -
      have "p \<in> nat ` set ?ps \<longleftrightarrow> int p \<in> set ?ps"
        using own(2) sub by force
      moreover have "int p \<in> set qs \<longleftrightarrow> int p \<in> set ?ps \<or> int p \<in> set ?rs"
        by (metis Un_iff append_take_drop_id set_append)
      ultimately show ?thesis using own(1) [OF that] d sid that len
        by (auto simp: nth_put_all IsReservedSequenceId_def)
    qed
    ultimately have owns: "owns (page_owners ?s) (page_links ?s) ?e'"
      using e(4) len by (auto simp: owns_def)
    have free: "kv_free (?ps @ F) ?s"
      by (rule kv_free_detach [OF kv_invD(4) [OF inv] _ len(1)])
         (use own(2,3) sub sid in \<open>auto simp: IsReservedSequenceId_def\<close>)
    have ch: "kv_inv (?ps @ F) ?s \<and> others_same sid s ?s"
    proof (rule kv_change [OF inv sid loc, where P = "nat ` set ?ps" and e' = ?e'])
      show "page_owners s ! p \<in> {kEmptySequenceId, kPrefixResidentSequenceId, sid}
          \<and> page_owners ?s ! p \<in> {kEmptySequenceId, kPrefixResidentSequenceId, sid}
          \<and> (page_owners ?s ! p \<noteq> sid \<longrightarrow> page_links ?s ! p = kInvalidPageIndex)"
        if "p < num_pages s" "p \<in> nat ` set ?ps" for p
        using own(2) sub that len by (auto simp: nth_put_all)
    qed (use free len e(4) owns kv_shapeD [OF inv] in \<open>auto simp: nth_put_all\<close>)
    moreover have "located ?s sid ix ?rs"
      using \<open>entry_of (page_links ?s) ?e' ?rs\<close> e(4,5) len by (simp add: located_def)
    then have "held ?s sid = Some ?rs" using held_located [of "?ps @ F" ?s sid ?rs] sid ch by blast
    moreover have "resident_pages ?s = resident_pages s"
      by (rule resident_put_all [where qs = ?ps and v = kEmptySequenceId])
         (use own(2) sub len sid in \<open>auto simp: IsReservedSequenceId_def\<close>)
    ultimately show ?thesis using run False by auto
  qed
qed

section \<open>Prefix-resident pages\<close>

lemma check_page_ids_ok:
  "check_page_ids msgs n owners want seen ps = Inr () \<longleftrightarrow>
     distinct ps \<and> set ps \<inter> set seen = {}
     \<and> (\<forall>p \<in> set ps. 0 \<le> p \<and> p < int n \<and> owners ! nat p = want)"
  by (induction msgs n owners want seen ps rule: check_page_ids.induct) auto

lemma resident_put_resident:
  assumes "\<forall>q \<in> set qs. 0 \<le> q \<and> nat q < num_pages s" and "length (page_owners s) = num_pages s"
    and "page_owners s' = put_all kPrefixResidentSequenceId (map nat qs) (page_owners s)"
    and "num_pages s' = num_pages s"
  shows "resident_pages s' = resident_pages s \<union> set qs"
proof (intro equalityI subsetI)
  fix q assume "q \<in> resident_pages s'"
  then show "q \<in> resident_pages s \<union> set qs"
    using assms by (auto simp: resident_pages_def nth_put_all split: if_splits)
next
  fix q assume "q \<in> resident_pages s \<union> set qs"
  then have "0 \<le> q" "nat q < num_pages s"
    "q \<in> set qs \<or> page_owners s ! nat q = kPrefixResidentSequenceId"
    using assms(1) by (auto simp: resident_pages_def)
  then show "q \<in> resident_pages s'"
    unfolding resident_pages_def using assms(2-4)
    by (intro image_eqI [of _ _ "nat q"]) (auto simp: nth_put_all)
qed

text \<open>
  Retaining pages that the sequence owns always succeeds: the pages leave the
  sequence and become resident, and the order of the others is kept. The
  \<open>Logic_error\<close> of the source, raised when an owned page is not on the chain, cannot occur.
\<close>

lemma RetainPages_ok:
  assumes inv: "kv_inv F s" and sid: "\<not> IsReservedSequenceId sid" and h: "held s sid = Some ps"
    and ids: "distinct ids" "set ids \<subseteq> set ps"
  shows "\<exists>s'. RetainPages sid ids s = (Inr ids, s') \<and> kv_inv F s'
           \<and> held s' sid = Some (filter (\<lambda>p. p \<notin> set ids) ps)
           \<and> others_same sid s s' \<and> free_stack s' = free_stack s \<and> free_stack_top s' = free_stack_top s
           \<and> resident_pages s' = resident_pages s \<union> set ids \<and> active_sequences s' = active_sequences s"
proof (cases "ids = []")
  case True
  then show ?thesis using inv h by (simp add: RetainPages_def)
next
  case False
  obtain ix where find: "FindSequenceEntryLocked s sid = Some ix" and loc: "located s sid ix ps"
    using held_SomeE [OF inv sid h] unfolding located_def by metis
  note own = located_owners [OF inv sid loc]
  have len: "length (page_owners s) = num_pages s" "length (page_links s) = num_pages s"
    "length (sequence_table s) = sequence_capacity s"
    using kv_shapeD [OF inv] by auto
  let ?e = "sequence_table s ! ix" and ?ks = "filter (\<lambda>p. p \<notin> set ids) ps"
    and ?rs = "filter (\<lambda>p. p \<in> set ids) ps"
  have e: "entry_of (page_links s) ?e ps" "sequence_id ?e = sid" "ix < sequence_capacity s"
    using loc by (auto simp: located_def)
  then have c: "chain (page_links s) (head_page ?e) ps" by (simp add: entry_of_def)
  have rs: "set ?rs = set ids" using ids(2) by auto
  then have "length ?rs = length ids"
    using own(3) ids(1) by (metis distinct_card distinct_filter)
  then have found: "count_found (num_pages s + 2) (page_links s) ids (head_page ?e) = Some (length ids)"
    using count_found_chain [OF c, of "num_pages s + 2" ids] own(4) by simp
  have "length ps < 2 ^ 32" using own(4) kv_shapeD(1) [OF inv] by simp
  then obtain e' links' where walk:
      "unlink_walk (num_pages s + 2) ids kInvalidPageIndex (head_page ?e) ?e (page_owners s) (page_links s)
         = Some (e', put_all kPrefixResidentSequenceId (map nat ?rs) (page_owners s), links')"
    and e': "sequence_id e' = sid" "entry_of links' e' ?ks" "length links' = num_pages s"
    and keep: "\<forall>i. int i \<notin> set ps \<longrightarrow> links' ! i = page_links s ! i"
    and clear: "\<forall>a \<in> set ps \<inter> set ids. links' ! nat a = kInvalidPageIndex"
    using unlink_walk_chain [of "page_links s" ?e "[]" ps "num_pages s + 2" ids "page_owners s"]
      e own(4) chain_first [OF c] len(2) by (auto simp: last_page_def)
  let ?e' = "if entry_pages e' = 0
             then e'\<lparr>head_page := kInvalidPageIndex, tail_page := kInvalidPageIndex\<rparr> else e'"
  let ?s = "s\<lparr>page_owners := put_all kPrefixResidentSequenceId (map nat ?rs) (page_owners s),
              page_links := links', sequence_table := (sequence_table s)[ix := ?e']\<rparr>"
  have "0 \<le> p \<and> p < int (num_pages s) \<and> page_owners s ! nat p = sid" if "p \<in> set ids" for p
  proof -
    have "p \<in> set ps" using ids(2) that by blast
    then show ?thesis using own(2) [of p] by linarith
  qed
  then have "check_page_ids msgs (num_pages s) (page_owners s) sid [] ids = Inr ()" for msgs
    unfolding check_page_ids_ok using ids(1) by auto
  then have run: "RetainPages sid ids s = (Inr ids, ?s)"
    using False find found walk by (simp add: RetainPages_def Let_def)
  have ent: "entry_of links' ?e' ?ks" using e'(2) by (auto simp: entry_of_def)
  have pos: "p \<in> nat ` set ?rs \<longleftrightarrow> int p \<in> set ?rs" for p
    using own(2) by (force simp: rs)
  have "page_owners ?s ! p = sid \<longleftrightarrow> int p \<in> set ?ks" if "p < num_pages s" for p
    using own(1) [OF that] pos [of p] that len sid
    by (auto simp: nth_put_all IsReservedSequenceId_def simp del: set_filter) auto
  then have owns: "owns (page_owners ?s) (page_links ?s) ?e'"
    using ent e'(1) len by (auto simp: owns_def)
  have empty_same: "page_owners ?s ! p = kEmptySequenceId \<longleftrightarrow> page_owners s ! p = kEmptySequenceId"
    if "p < num_pages s" for p
    using own(1) [OF that] pos [of p] that len sid
    by (auto simp: nth_put_all IsReservedSequenceId_def simp del: set_filter) auto
  then have "{p. p < num_pages s \<and> page_owners ?s ! p = kEmptySequenceId}
      = {p. p < num_pages s \<and> page_owners s ! p = kEmptySequenceId}" by auto
  then have free: "kv_free F ?s" using kv_invD(4) [OF inv] by (simp add: kv_free_def)
  have ch: "kv_inv F ?s \<and> others_same sid s ?s"
  proof (rule kv_change [OF inv sid loc, where P = "nat ` set ps" and e' = ?e'])
    fix p assume p: "p < num_pages s"
    {
      assume "p \<notin> nat ` set ps"
      then have "int p \<notin> set ps" by (metis image_eqI nat_int)
      then show "page_owners ?s ! p = page_owners s ! p \<and> page_links ?s ! p = page_links s ! p"
        using keep pos [of p] p len by (simp add: nth_put_all)
    next
      assume "p \<in> nat ` set ps"
      then have q: "int p \<in> set ps" using own(2) by auto
      then show "page_owners s ! p \<in> {kEmptySequenceId, kPrefixResidentSequenceId, sid}
          \<and> page_owners ?s ! p \<in> {kEmptySequenceId, kPrefixResidentSequenceId, sid}
          \<and> (page_owners ?s ! p \<noteq> sid \<longrightarrow> page_links ?s ! p = kInvalidPageIndex)"
        using own(1) [OF p] pos [of p] clear p len by (auto simp: nth_put_all simp del: set_filter) force
    }
  qed (use free len e' owns kv_shapeD [OF inv] in auto)
  moreover have "held ?s sid = Some ?ks"
  proof -
    have "located ?s sid ix ?ks" using ent e'(1) e(3) len by (simp add: located_def)
    then show ?thesis using held_located [of F ?s sid ?ks] sid ch by blast
  qed
  moreover have "resident_pages ?s = resident_pages s \<union> set ids"
    using resident_put_resident [of ?rs s ?s] own(2) len rs by simp
  ultimately show ?thesis using run by auto
qed

lemma RetainPages_error:
  assumes inv: "kv_inv F s" and sid: "\<not> IsReservedSequenceId sid"
    and bad: "case held s sid of None \<Rightarrow> ids \<noteq> [] | Some ps \<Rightarrow> \<not> (distinct ids \<and> set ids \<subseteq> set ps)"
  shows "\<exists>e. RetainPages sid ids s = (Inl e, s)"
proof (cases "held s sid")
  case None
  then have "FindSequenceEntryLocked s sid = None"
    using kv_find_iff [OF inv sid] held_None_iff [OF inv sid] by (metis not_None_eq)
  then show ?thesis using bad None by (simp add: RetainPages_def)
next
  case (Some ps)
  obtain ix where find: "FindSequenceEntryLocked s sid = Some ix" and loc: "located s sid ix ps"
    using held_SomeE [OF inv sid Some] unfolding located_def by metis
  have "ids \<noteq> []" using bad Some by auto
  moreover have "check_page_ids msgs (num_pages s) (page_owners s) sid [] ids \<noteq> Inr ()" for msgs
  proof
    assume ok: "check_page_ids msgs (num_pages s) (page_owners s) sid [] ids = Inr ()"
    have "p \<in> set ps" if "p \<in> set ids" for p
      using ok that located_owners(1) [OF inv sid loc, of "nat p"] by (auto simp: check_page_ids_ok)
    then show False using ok bad Some by (auto simp: check_page_ids_ok)
  qed
  ultimately show ?thesis using find
    by (simp add: RetainPages_def split: sum.split)
qed

lemma owns_cong:
  assumes "owns owners links e" and "length owners' = length owners" and "length links' = length links"
    and "length links = length owners"
    and "\<And>p. p < length owners \<Longrightarrow> owners ! p = sequence_id e \<Longrightarrow> links' ! p = links ! p"
    and "\<And>p. p < length owners \<Longrightarrow> owners' ! p = sequence_id e \<longleftrightarrow> owners ! p = sequence_id e"
  shows "owns owners' links' e"
proof -
  from assms(1) obtain ps where ps: "entry_of links e ps"
    "\<forall>p < length owners. owners ! p = sequence_id e \<longleftrightarrow> int p \<in> set ps"
    by (auto simp: owns_def)
  then have c: "chain links (head_page e) ps" by (simp add: entry_of_def)
  have "links' ! nat q = links ! nat q" if "q \<in> set ps" for q
    using chain_range [OF c that] ps(2) assms(4) assms(5) [of "nat q"] that by auto
  then have "entry_of links' e ps"
    using ps(1) chain_cong [of ps links' links "head_page e"] assms(3) by (simp add: entry_of_def)
  then show ?thesis using ps(2) assms(2,6) by (auto simp: owns_def)
qed

lemma resident_detach_ok:
  assumes inv: "kv_inv F s" and run: "resident_detach ids s = (Inr u, s')"
  shows "kv_inv (ids @ F) s'" and "\<And>sid. \<not> IsReservedSequenceId sid \<Longrightarrow> held s' sid = held s sid"
    and "resident_pages s' = resident_pages s - set ids"
    and "set ids \<subseteq> resident_pages s" and "distinct ids"
    and "free_stack s' = free_stack s" "free_stack_top s' = free_stack_top s"
    and "num_pages s' = num_pages s" "sequence_capacity s' = sequence_capacity s"
    and "active_sequences s' = active_sequences s" "page_size_tokens s' = page_size_tokens s"
proof -
  have len: "length (page_owners s) = num_pages s" "length (page_links s) = num_pages s"
    "length (sequence_table s) = sequence_capacity s"
    using kv_shapeD [OF inv] by auto
  from run have s': "s' = s\<lparr>page_owners := put_all kEmptySequenceId (map nat ids) (page_owners s),
             page_links := put_all kInvalidPageIndex (map nat ids) (page_links s)\<rparr>"
    and "\<exists>msgs. check_page_ids msgs (num_pages s) (page_owners s) kPrefixResidentSequenceId [] ids = Inr ()"
    by (auto simp: resident_detach_def split: sum.splits)
  then have ids: "distinct ids"
    "\<And>p. p \<in> set ids \<Longrightarrow> 0 \<le> p \<and> nat p < num_pages s \<and> page_owners s ! nat p = kPrefixResidentSequenceId"
    by (auto simp: check_page_ids_ok)
  show "distinct ids" "free_stack s' = free_stack s" "free_stack_top s' = free_stack_top s"
    "num_pages s' = num_pages s" "sequence_capacity s' = sequence_capacity s"
    "active_sequences s' = active_sequences s" "page_size_tokens s' = page_size_tokens s"
    using ids by (simp_all add: s')
  show "set ids \<subseteq> resident_pages s"
  proof
    fix q assume "q \<in> set ids"
    then show "q \<in> resident_pages s"
      using ids(2) [of q] unfolding resident_pages_def by (intro image_eqI [of _ _ "nat q"]) auto
  qed
  have pos: "p \<in> nat ` set ids \<longleftrightarrow> int p \<in> set ids" for p using ids(2) by force
  have keep: "page_owners s' ! p = page_owners s ! p \<and> page_links s' ! p = page_links s ! p"
    if "p < num_pages s" "int p \<notin> set ids" for p
    using that len pos by (auto simp: s' nth_put_all)
  have put: "page_owners s' ! p = kEmptySequenceId \<and> page_links s' ! p = kInvalidPageIndex"
    if "p < num_pages s" "int p \<in> set ids" for p
    using that len pos by (auto simp: s' nth_put_all)
  have wf: "owns (page_owners s') (page_links s') e"
    if "owns (page_owners s) (page_links s) e" "\<not> IsReservedSequenceId (sequence_id e)" for e
  proof (rule owns_cong [OF that(1)])
    fix p assume "p < length (page_owners s)"
    then show "page_owners s ! p = sequence_id e \<Longrightarrow> page_links s' ! p = page_links s ! p"
      and "page_owners s' ! p = sequence_id e \<longleftrightarrow> page_owners s ! p = sequence_id e"
      using keep [of p] put [of p] ids(2) [of "int p"] that(2) len
      by (cases "int p \<in> set ids"; auto simp: IsReservedSequenceId_def)+
  qed (use len in \<open>simp_all add: s'\<close>)
  have "kv_free (ids @ F) s'"
    by (rule kv_free_detach [OF kv_invD(4) [OF inv] ids(1) len(1)]) (use ids(2) in \<open>auto simp: s'\<close>)
  moreover have "kv_shape s'" using kv_invD(1) [OF inv] by (simp add: s' kv_shape_def)
  moreover have "kv_entries s'"
    using kv_invD(2) [OF inv] wf unfolding kv_entries_def by (simp add: s')
  moreover have "kv_owners s'"
    unfolding kv_owners_def
  proof (intro allI impI)
    fix p assume "p < num_pages s'"
    then have "p < num_pages s" by (simp add: s')
    then show "if page_owners s' ! p = kEmptySequenceId \<or> page_owners s' ! p = kPrefixResidentSequenceId
        then page_links s' ! p = kInvalidPageIndex
        else \<exists>e \<in> set (sequence_table s'). is_live e \<and> sequence_id e = page_owners s' ! p"
      using kv_invD(3) [OF inv] keep [of p] put [of p] unfolding kv_owners_def
      by (cases "int p \<in> set ids") (simp_all add: s')
  qed
  ultimately show inv': "kv_inv (ids @ F) s'" by (simp add: kv_inv_def)
  show "resident_pages s' = resident_pages s - set ids"
  proof -
    have "page_owners s' ! p = kPrefixResidentSequenceId \<longleftrightarrow>
        page_owners s ! p = kPrefixResidentSequenceId \<and> int p \<notin> set ids" if "p < num_pages s" for p
      using keep [OF that] put [OF that] by (cases "int p \<in> set ids") simp_all
    then have "{p. p < num_pages s' \<and> page_owners s' ! p = kPrefixResidentSequenceId}
        = {p. p < num_pages s \<and> page_owners s ! p = kPrefixResidentSequenceId \<and> int p \<notin> set ids}"
      by (auto simp: s')
    then show ?thesis by (auto simp: resident_pages_def)
  qed
  fix sid assume sid: "\<not> IsReservedSequenceId sid"
  show "held s' sid = held s sid"
  proof (cases "held s sid")
    case None
    then show ?thesis using held_None_iff [OF inv sid] held_None_iff [OF inv' sid] by (simp add: s')
  next
    case (Some ps)
    then obtain ix where loc: "located s sid ix ps" using held_located [OF inv sid] by blast
    have "page_links s' ! nat q = page_links s ! nat q" if "q \<in> set ps" for q
      using located_owners(2) [OF inv sid loc that] keep [of "nat q"] ids(2) [of q] sid
      by (auto simp: IsReservedSequenceId_def)
    then have "located s' sid ix ps"
      using loc chain_cong [of ps "page_links s'" "page_links s"] by (simp add: located_def entry_of_def s')
    then show ?thesis using held_located [OF inv' sid] Some by metis
  qed
qed

end
