(* ===== verification/Kv_Operations.thy ===== *)
theory Kv_Operations
  imports Kv_Sections
begin

text \<open>
  The abstract allocator and the refinement of its operations. An abstract state says
  which pages every sequence holds, in order, which pages are prefix-resident and which
  are free. The operations of \<open>HostPagedKVBackend\<close> are shown to change it as their
  contracts say and to leave it alone when they fail.
\<close>

section \<open>The abstract allocator\<close>

record kv_spec =
  holds :: "int \<Rightarrow> int list option"
  residents :: "int set"
  frees :: "int set"

definition kv_abs :: "region \<Rightarrow> kv_spec" where
  "kv_abs s = \<lparr>holds = (\<lambda>sid. if IsReservedSequenceId sid then None else held s sid),
               residents = resident_pages s, frees = free_pages s\<rparr>"

definition held_pages :: "kv_spec \<Rightarrow> int \<Rightarrow> int list" where
  "held_pages a sid = (case holds a sid of None \<Rightarrow> [] | Some ps \<Rightarrow> ps)"

definition spec_grant :: "int \<Rightarrow> int list \<Rightarrow> kv_spec \<Rightarrow> kv_spec" where
  "spec_grant sid ps a =
     a\<lparr>holds := (holds a)(sid \<mapsto> held_pages a sid @ ps), frees := frees a - set ps\<rparr>"

definition spec_release :: "int \<Rightarrow> kv_spec \<Rightarrow> kv_spec" where
  "spec_release sid a =
     a\<lparr>holds := (holds a)(sid := None), frees := frees a \<union> set (held_pages a sid)\<rparr>"

definition spec_release_prefix :: "int \<Rightarrow> nat \<Rightarrow> kv_spec \<Rightarrow> kv_spec" where
  "spec_release_prefix sid n a =
     a\<lparr>holds := (holds a)(sid \<mapsto> drop n (held_pages a sid)),
       frees := frees a \<union> set (take n (held_pages a sid))\<rparr>"

definition spec_retain :: "int \<Rightarrow> int list \<Rightarrow> kv_spec \<Rightarrow> kv_spec" where
  "spec_retain sid ids a =
     a\<lparr>holds := (holds a)(sid \<mapsto> filter (\<lambda>p. p \<notin> set ids) (held_pages a sid)),
       residents := residents a \<union> set ids\<rparr>"

definition spec_release_resident :: "int list \<Rightarrow> kv_spec \<Rightarrow> kv_spec" where
  "spec_release_resident ids a =
     a\<lparr>residents := residents a - set ids, frees := frees a \<union> set ids\<rparr>"

lemma kv_abs_counters [simp]:
  "kv_abs (s\<lparr>acquire_failures := n\<rparr>) = kv_abs s"
  "kv_abs (s\<lparr>sequences_inserted := n\<rparr>) = kv_abs s"
  by (simp_all add: kv_abs_def fun_eq_iff resident_pages_def free_pages_def)

lemma kv_abs_eqI:
  assumes "others_same sid s s'" and "\<not> IsReservedSequenceId sid" and "held s' sid = h"
    and "resident_pages s' = R" and "free_pages s' = P"
  shows "kv_abs s' = (kv_abs s)\<lparr>holds := (holds (kv_abs s))(sid := h), residents := R, frees := P\<rparr>"
  using assms by (auto simp: kv_abs_def others_same_def fun_eq_iff)

lemma held_pages_abs:
  "\<not> IsReservedSequenceId sid \<Longrightarrow> held_pages (kv_abs s) sid = (case held s sid of None \<Rightarrow> [] | Some ps \<Rightarrow> ps)"
  by (simp add: held_pages_def kv_abs_def)

lemma card_free_pages: "kv_inv F s \<Longrightarrow> card (free_pages s) = free_stack_top s"
  using kv_invD(4) [of F s] kv_shapeD(4,8) [of F s]
  by (simp add: free_pages_def kv_free_def distinct_card)

section \<open>Acquiring\<close>

lemma table_full_iff:
  assumes inv: "kv_inv F s" and sid: "\<not> IsReservedSequenceId sid"
  shows "claim_entry_loop (sequence_table s) (sequence_capacity s) sid None
           (HashSequenceId (sequence_capacity s) sid) (sequence_capacity s) = None
         \<longleftrightarrow> held s sid = None \<and> active_sequences s = sequence_capacity s"
    (is "?L \<longleftrightarrow> ?R")
proof -
  note sh = kv_shapeD [OF inv]
  have "?L \<longleftrightarrow> (\<forall>i < sequence_capacity s. \<exists>k. seq_cls (sequence_table s ! i) = Held k \<and> k \<noteq> sid)"
    using claim_probe [OF sid sh(2)] seq_tab.claim_full_iff [OF sh(9), of sid] sh(7) by simp
  also have "\<dots> \<longleftrightarrow> (\<forall>i < sequence_capacity s. is_live (sequence_table s ! i))
                \<and> (\<forall>i < sequence_capacity s. sequence_id (sequence_table s ! i) \<noteq> sid)"
    unfolding seq_cls_Held by blast
  also have "(\<forall>i < sequence_capacity s. is_live (sequence_table s ! i)) \<longleftrightarrow>
      active_sequences s = sequence_capacity s"
    using sh(7,10) filter_id_conv [of is_live "sequence_table s"]
      length_filter_less [of _ "sequence_table s" is_live]
    by (metis in_set_conv_nth less_irrefl_nat)
  finally show ?thesis using held_None_iff [OF inv sid] by blast
qed

lemma acquire_attach_total:
  assumes inv: "kv_inv F s" and sid: "\<not> IsReservedSequenceId sid"
  shows "(\<exists>s'. acquire_attach sid ps s = (Inr (), s')) \<longleftrightarrow>
           held s sid \<noteq> None \<or> active_sequences s < sequence_capacity s"
proof -
  have "active_sequences s \<le> sequence_capacity s"
    using kv_shapeD(7,10) [OF inv] length_filter_le [of is_live "sequence_table s"] by simp
  then have "held s sid \<noteq> None \<or> active_sequences s < sequence_capacity s \<longleftrightarrow>
      claim_entry_loop (sequence_table s) (sequence_capacity s) sid None
           (HashSequenceId (sequence_capacity s) sid) (sequence_capacity s) \<noteq> None"
    using table_full_iff [OF inv sid] by auto
  also have "\<dots> \<longleftrightarrow> (\<exists>s'. acquire_attach sid ps s = (Inr (), s'))"
    by (auto simp: acquire_attach_def FindOrInsertSequenceEntryLocked_def Let_def
             split: option.split prod.split)
  finally show ?thesis by blast
qed

lemma acquire_ok:
  assumes inv: "kv_inv F s" and sid: "\<not> IsReservedSequenceId sid" and n: "0 < n"
    and room: "n \<le> free_stack_top s"
    and slot: "held s sid \<noteq> None \<or> active_sequences s < sequence_capacity s"
  shows "\<exists>ps s'. AcquirePages sid n s = (Inr ps, s') \<and> kv_inv F s' \<and> length ps = n \<and> distinct ps
           \<and> set ps \<subseteq> free_pages s \<and> kv_abs s' = spec_grant sid ps (kv_abs s)"
proof -
  obtain ps s1 where pop: "acquire_pop n s = (Inr ps, s1)"
    using room by (simp add: acquire_pop_def Let_def)
  note p = acquire_pop_inv [OF inv pop]
  have same: "held s1 = held s" "active_sequences s1 = active_sequences s"
    "sequence_capacity s1 = sequence_capacity s" "resident_pages s1 = resident_pages s"
    by (simp_all add: p(4) resident_pages_def)
  obtain s2 where att: "acquire_attach sid ps s1 = (Inr (), s2)"
    using acquire_attach_total [OF p(1) sid] slot same by auto
  note a = acquire_attach_ok [OF p(1) sid att]
  have "AcquirePages sid n s = (Inr ps, s2)"
    using n sid pop att by (simp add: AcquirePages_def)
  moreover have "distinct ps" using kv_invD(4) [OF p(1)] by (simp add: kv_free_def)
  moreover have "kv_abs s2 = spec_grant sid ps (kv_abs s)"
  proof -
    have "others_same sid s s2" using a(3) by (simp add: others_same_def p(4))
    moreover have "free_pages s2 = free_pages s - set ps"
      using a(4,5) p(6) by (simp add: free_pages_def)
    ultimately show ?thesis
      using kv_abs_eqI [OF _ sid, of s s2] a(2,6) same sid
      by (simp add: spec_grant_def held_pages_abs) (simp add: kv_abs_def)
  qed
  ultimately show ?thesis using a(1) p(2,3) by blast
qed

text \<open>Putting popped pages back after a failed attach restores the stack exactly.\<close>

lemma restore_same:
  assumes inv: "kv_inv F s" and pop: "acquire_pop n s = (Inr ps, s1)"
  shows "kv_inv F (push_free ps s1)" and "kv_abs (push_free ps s1) = kv_abs s"
    and "take (free_stack_top (push_free ps s1)) (free_stack (push_free ps s1))
           = take (free_stack_top s) (free_stack s)"
proof -
  note p = acquire_pop_inv [OF inv pop]
  show "kv_inv F (push_free ps s1)" by (rule push_free_inv(1) [OF p(1)])
  have "free_stack_top s1 + length ps \<le> length (free_stack s1)"
    using kv_free_room [OF p(1)] kv_shapeD(4) [OF p(1)] by simp
  then show st: "take (free_stack_top (push_free ps s1)) (free_stack (push_free ps s1))
           = take (free_stack_top s) (free_stack s)"
    using push_free_stack [of s1 ps] kv_shapeD(1,4) [OF p(1)] p(7) by auto
  then show "kv_abs (push_free ps s1) = kv_abs s"
    by (simp add: kv_abs_def free_pages_def fun_eq_iff) (simp add: p(4) resident_pages_def)
qed

lemma acquire_fails:
  assumes inv: "kv_inv F s" and sid: "\<not> IsReservedSequenceId sid" and n: "0 < n"
    and no: "free_stack_top s < n \<or> held s sid = None \<and> active_sequences s = sequence_capacity s"
  shows "\<exists>m s'. AcquirePages sid n s = (Inl (Runtime_error m), s') \<and> kv_inv F s' \<and> kv_abs s' = kv_abs s"
proof (cases "free_stack_top s < n")
  case True
  then show ?thesis using n sid inv by (simp add: AcquirePages_def acquire_pop_def)
next
  case False
  then obtain ps s1 where pop: "acquire_pop n s = (Inr ps, s1)"
    by (simp add: acquire_pop_def Let_def)
  note p = acquire_pop_inv [OF inv pop]
  have "\<nexists>s2. acquire_attach sid ps s1 = (Inr (), s2)"
    using acquire_attach_total [OF p(1) sid, of ps] no False by (simp add: p(4))
  then obtain e s2 where "acquire_attach sid ps s1 = (Inl e, s2)"
    by (metis old.sum.exhaust old.unit.exhaust surj_pair)
  with acquire_attach_full [OF this] have
    "AcquirePages sid n s = (Inl (Runtime_error ''Sequence table is full''), acquire_restore ps s1)"
    using n sid pop by (simp add: AcquirePages_def)
  then show ?thesis using restore_same [OF inv pop] by (simp add: acquire_restore_def Let_def)
qed

section \<open>Releasing\<close>

lemma kv_abs_push:
  assumes "kv_inv (ps @ F) s"
  shows "kv_abs (push_free ps s) = (kv_abs s)\<lparr>frees := frees (kv_abs s) \<union> set ps\<rparr>"
  using push_free_inv(2) [OF assms] by (simp add: kv_abs_def fun_eq_iff)

lemma release_ok:
  assumes inv: "kv_inv F s" and sid: "\<not> IsReservedSequenceId sid" and h: "held s sid \<noteq> None"
  shows "\<exists>s'. ReleaseSequence sid s = (Inr (), s') \<and> kv_inv F s' \<and> kv_abs s' = spec_release sid (kv_abs s)
           \<and> others_same sid s s' \<and> active_sequences s' = active_sequences s - 1"
proof -
  obtain ps where h: "held s sid = Some ps" using h by blast
  obtain s1 where s1: "release_detach sid s = (Inr ps, s1)" "kv_inv (ps @ F) s1" "held s1 sid = None"
    "others_same sid s s1" "free_stack s1 = free_stack s" "free_stack_top s1 = free_stack_top s"
    "resident_pages s1 = resident_pages s" "active_sequences s1 = active_sequences s - 1"
    using release_detach_ok [OF inv sid h] by blast
  have "ReleaseSequence sid s = (Inr (), push_free ps s1)"
    using s1(1) by (cases ps) (simp_all add: ReleaseSequence_def)
  moreover have "kv_abs s1 = (kv_abs s)\<lparr>holds := (holds (kv_abs s))(sid := None)\<rparr>"
    using kv_abs_eqI [OF s1(4) sid s1(3) s1(7), of "free_pages s"] s1(5,6)
    by (simp add: free_pages_def) (simp add: kv_abs_def free_pages_def)
  then have "kv_abs (push_free ps s1) = spec_release sid (kv_abs s)"
    using kv_abs_push [OF s1(2)] h sid by (simp add: spec_release_def held_pages_abs)
  moreover have "others_same sid s (push_free ps s1)"
    using s1(4) push_free_frame [of ps s1] by (auto simp: others_same_def)
  ultimately show ?thesis using push_free_inv(1) [OF s1(2)] s1(8) by simp
qed

lemma release_prefix_ok:
  assumes inv: "kv_inv F s" and sid: "\<not> IsReservedSequenceId sid" and h: "held s sid = Some qs"
    and n: "n \<le> length qs"
  shows "\<exists>s'. ReleasePrefixPages sid n s = (Inr (take n qs), s') \<and> kv_inv F s'
           \<and> kv_abs s' = spec_release_prefix sid n (kv_abs s)"
proof (cases "n = 0")
  case True
  have "kv_abs s = spec_release_prefix sid 0 (kv_abs s)"
    using h sid by (simp add: spec_release_prefix_def held_pages_abs) (auto simp: kv_abs_def fun_eq_iff)
  then show ?thesis using True inv by (simp add: ReleasePrefixPages_def)
next
  case False
  let ?ps = "take n qs"
  obtain s1 where s1: "prefix_detach sid n s = (Inr ?ps, s1)" "kv_inv (?ps @ F) s1"
    "held s1 sid = Some (drop n qs)" "others_same sid s s1" "free_stack s1 = free_stack s"
    "free_stack_top s1 = free_stack_top s" "resident_pages s1 = resident_pages s"
    using prefix_detach_ok [OF inv sid h, of n] n by auto
  have "ReleasePrefixPages sid n s = (Inr ?ps, push_free ?ps s1)"
    using s1(1) False by (cases ?ps) (simp_all add: ReleasePrefixPages_def)
  moreover have "kv_abs s1 = (kv_abs s)\<lparr>holds := (holds (kv_abs s))(sid \<mapsto> drop n qs)\<rparr>"
    using kv_abs_eqI [OF s1(4) sid s1(3) s1(7), of "free_pages s"] s1(5,6)
    by (simp add: free_pages_def) (simp add: kv_abs_def free_pages_def)
  then have "kv_abs (push_free ?ps s1) = spec_release_prefix sid n (kv_abs s)"
    using kv_abs_push [OF s1(2)] h sid by (simp add: spec_release_prefix_def held_pages_abs)
  ultimately show ?thesis using push_free_inv(1) [OF s1(2)] by simp
qed

lemma release_resident_ok:
  assumes inv: "kv_inv F s"
  shows "if distinct ids \<and> set ids \<subseteq> resident_pages s
         then \<exists>s'. ReleaseResidentPages ids s = (Inr (), s') \<and> kv_inv F s'
                \<and> kv_abs s' = spec_release_resident ids (kv_abs s)
         else \<exists>e. ReleaseResidentPages ids s = (Inl e, s)"
proof -
  have ok: "check_page_ids msgs (num_pages s) (page_owners s) kPrefixResidentSequenceId [] ids = Inr () \<longleftrightarrow>
      distinct ids \<and> set ids \<subseteq> resident_pages s" for msgs
    by (force simp: check_page_ids_ok resident_pages_def image_iff)
  show ?thesis
  proof (cases "distinct ids \<and> set ids \<subseteq> resident_pages s")
    case False
    then have "ids \<noteq> []" by auto
    moreover have "check_page_ids msgs (num_pages s) (page_owners s) kPrefixResidentSequenceId [] ids \<noteq> Inr ()"
      for msgs using False ok by blast
    ultimately show ?thesis using False
      by (auto simp: ReleaseResidentPages_def resident_detach_def split: sum.split)
  next
    case True
    then obtain s1 where run: "resident_detach ids s = (Inr (), s1)"
      using ok by (simp add: resident_detach_def)
    note d = resident_detach_ok [OF inv run]
    have "kv_abs s1 = (kv_abs s)\<lparr>residents := residents (kv_abs s) - set ids\<rparr>"
      using d(2,3,6,7) by (auto simp: kv_abs_def fun_eq_iff free_pages_def)
    then have "kv_abs (push_free ids s1) = spec_release_resident ids (kv_abs s)"
      using kv_abs_push [OF d(1)] by (simp add: spec_release_resident_def)
    moreover have "ids = [] \<Longrightarrow> s1 = s" using run by (simp add: resident_detach_def)
    ultimately show ?thesis using True run push_free_inv(1) [OF d(1)]
      by (cases "ids = []") (auto simp: ReleaseResidentPages_def)
  qed
qed

end
