(* ===== verification/Kv_Batch.thy ===== *)
theory Kv_Batch
  imports Kv_Operations
begin

text \<open>
  \<open>AcquirePagesForSequences\<close>: a batch is granted as a whole or not at all. The proof
  compares the region with the one the batch started from: outside the entries, tails and
  pages the loop has recorded, nothing has changed, so the rollback has everything it
  needs.
\<close>

section \<open>What one turn of the loop writes\<close>

lemma attach_page_links:
  assumes "located s sid ix ps" and "p \<noteq> nat q" and "ps \<noteq> [] \<longrightarrow> p \<noteq> nat (last ps)"
  shows "page_links (attach_page ix sid q s) ! p = page_links s ! p"
proof -
  have "head_page (sequence_table s ! ix) = kInvalidPageIndex \<longleftrightarrow> ps = []"
    using assms(1) by (cases ps) (auto simp: located_def entry_of_def page_consts)
  then show ?thesis using assms by (cases "ps = []") (simp_all add: attach_page_def Let_def located_def entry_of_def)
qed

lemma attach_page_table:
  "j \<noteq> ix \<Longrightarrow> sequence_table (attach_page ix sid q s) ! j = sequence_table s ! j"
  "length (sequence_table (attach_page ix sid q s)) = length (sequence_table s)"
  "length (page_links (attach_page ix sid q s)) = length (page_links s)"
  by (simp_all add: attach_page_def Let_def)

lemma fold_attach_writes:
  assumes "kv_inv (qs @ F) s" and "\<not> IsReservedSequenceId sid" and "located s sid ix ps"
    and "p \<notin> nat ` set qs" and "ps \<noteq> [] \<longrightarrow> p \<noteq> nat (last ps)"
  shows "page_links (fold (attach_page ix sid) qs s) ! p = page_links s ! p"
  using assms
proof (induction qs arbitrary: s ps)
  case (Cons q qs)
  have inv: "kv_inv (q # qs @ F) s" using Cons.prems(1) by simp
  note step = attach_page_inv [OF inv Cons.prems(2,3), THEN conjunct1]
    attach_page_entry(1) [OF inv Cons.prems(2,3)]
  have "page_links (fold (attach_page ix sid) (q # qs) s) ! p
      = page_links (attach_page ix sid q s) ! p"
    using Cons.IH [OF step(1) Cons.prems(2) step(2)] Cons.prems(4) by simp
  then show ?case using attach_page_links [OF Cons.prems(3)] Cons.prems(4,5) by simp
qed simp

lemma fold_attach_table:
  "j \<noteq> ix \<Longrightarrow> sequence_table (fold (attach_page ix sid) qs s) ! j = sequence_table s ! j"
  "length (sequence_table (fold (attach_page ix sid) qs s)) = length (sequence_table s)"
  "length (page_links (fold (attach_page ix sid) qs s)) = length (page_links s)"
  by (induction qs arbitrary: s) (simp_all add: attach_page_table)

lemma fold_attach_counters:
  "fold (attach_page ix sid) qs (s\<lparr>active_sequences := a\<rparr>)
     = (fold (attach_page ix sid) qs s)\<lparr>active_sequences := a\<rparr>"
  "fold (attach_page ix sid) qs (s\<lparr>sequences_inserted := b\<rparr>)
     = (fold (attach_page ix sid) qs s)\<lparr>sequences_inserted := b\<rparr>"
proof -
  have "attach_page ix sid q (s\<lparr>active_sequences := a\<rparr>) = (attach_page ix sid q s)\<lparr>active_sequences := a\<rparr>"
    "attach_page ix sid q (s\<lparr>sequences_inserted := b\<rparr>) = (attach_page ix sid q s)\<lparr>sequences_inserted := b\<rparr>"
    for q s
    by (simp_all add: attach_page_def Let_def)
  then show "fold (attach_page ix sid) qs (s\<lparr>active_sequences := a\<rparr>)
     = (fold (attach_page ix sid) qs s)\<lparr>active_sequences := a\<rparr>"
    "fold (attach_page ix sid) qs (s\<lparr>sequences_inserted := b\<rparr>)
     = (fold (attach_page ix sid) qs s)\<lparr>sequences_inserted := b\<rparr>"
    by (induction qs arbitrary: s) simp_all
qed

text \<open>The state after one turn, and what the loop records of the entry it found.\<close>

definition batch_turn :: "int \<Rightarrow> int list \<Rightarrow> nat \<Rightarrow> bool \<Rightarrow> region \<Rightarrow> region" where
  "batch_turn sid pages ix is_new s1 =
     (let s2 = fold (attach_page ix sid) pages s1
      in if is_new then s2\<lparr>active_sequences := u32 (active_sequences s2 + 1)\<rparr> else s2)"

definition batch_undo :: "nat \<Rightarrow> bool \<Rightarrow> region \<Rightarrow> undo_entry" where
  "batch_undo ix is_new s1 =
     (let e = sequence_table s1 ! ix in
      \<lparr>undo_index = ix, undo_saved = e, undo_is_new = is_new,
       undo_tail_link = (if tail_page e = kInvalidPageIndex then kInvalidPageIndex
                         else page_links s1 ! nat (tail_page e))\<rparr>)"

lemma batch_attach_Cons:
  "batch_attach ((sid, pages) # rest) undo inserted s =
     (case FindOrInsertSequenceEntryLocked sid s of
        (Inl e, s1) \<Rightarrow> ((undo, inserted, Some e), s1)
      | (Inr (ix, is_new), s1) \<Rightarrow>
          batch_attach rest (undo @ [batch_undo ix is_new s1]) (if is_new then inserted + 1 else inserted)
            (batch_turn sid pages ix is_new s1))"
  by (auto simp: batch_undo_def batch_turn_def Let_def split: prod.split sum.split)

lemma batch_turn_acquire:
  assumes "FindOrInsertSequenceEntryLocked sid s = (Inr (ix, is_new), s1)"
  shows "\<exists>v. acquire_attach sid pages s = (Inr (), (batch_turn sid pages ix is_new s1)\<lparr>sequences_inserted := v\<rparr>)"
proof (cases is_new)
  case True
  then show ?thesis using assms
    by (auto simp: acquire_attach_def batch_turn_def Let_def fold_attach_counters)
next
  case False
  then have "acquire_attach sid pages s = (Inr (), batch_turn sid pages ix is_new s1)"
    using assms by (auto simp: acquire_attach_def batch_turn_def Let_def)
  then show ?thesis
    by (intro exI [of _ "sequences_inserted (batch_turn sid pages ix is_new s1)"]) simp
qed

lemma FindOrInsert_cases:
  assumes "FindOrInsertSequenceEntryLocked sid s = (Inr (ix, is_new), s1)"
  shows "claim_entry_loop (sequence_table s) (sequence_capacity s) sid None
           (HashSequenceId (sequence_capacity s) sid) (sequence_capacity s) = Some (ix, is_new)"
    and "s1 = (if is_new
               then s\<lparr>sequence_table := (sequence_table s)[ix := fresh_entry\<lparr>sequence_id := sid\<rparr>]\<rparr> else s)"
  using assms by (auto simp: FindOrInsertSequenceEntryLocked_def split: option.splits prod.splits)

lemma batch_turn_ok:
  assumes inv: "kv_inv (pages @ F) s" and sid: "\<not> IsReservedSequenceId sid"
    and find: "FindOrInsertSequenceEntryLocked sid s = (Inr (ix, is_new), s1)"
  defines "s3 \<equiv> batch_turn sid pages ix is_new s1"
  shows "kv_inv F s3"
    and "held s3 sid = Some ((case held s sid of None \<Rightarrow> [] | Some ps \<Rightarrow> ps) @ pages)"
    and "others_same sid s s3" and "free_stack s3 = free_stack s" and "free_stack_top s3 = free_stack_top s"
    and "resident_pages s3 = resident_pages s" and "is_new \<longleftrightarrow> held s sid = None"
    and "active_sequences s3 = active_sequences s + (if is_new then 1 else 0)"
proof -
  obtain v where acq: "acquire_attach sid pages s = (Inr (), s3\<lparr>sequences_inserted := v\<rparr>)"
    using batch_turn_acquire [OF find] unfolding s3_def by blast
  note a = acquire_attach_ok [OF inv sid acq]
  show "kv_inv F s3" "held s3 sid = Some ((case held s sid of None \<Rightarrow> [] | Some ps \<Rightarrow> ps) @ pages)"
    "others_same sid s s3" "free_stack s3 = free_stack s" "free_stack_top s3 = free_stack_top s"
    "resident_pages s3 = resident_pages s"
    using a by (simp_all add: others_same_def resident_pages_def)
  show new: "is_new \<longleftrightarrow> held s sid = None"
  proof (cases is_new)
    case True
    then show ?thesis using insert_inv(1) [OF inv sid _ refl] FindOrInsert_cases(1) [OF find] by simp
  next
    case False
    then show ?thesis using claim_old [OF inv sid, of ix] FindOrInsert_cases(1) [OF find]
        held_located [OF inv sid] by auto
  qed
  then show "active_sequences s3 = active_sequences s + (if is_new then 1 else 0)"
    using a(7) by simp
qed

lemma batch_turn_writes:
  assumes inv: "kv_inv (pages @ F) s" and sid: "\<not> IsReservedSequenceId sid"
    and find: "FindOrInsertSequenceEntryLocked sid s = (Inr (ix, is_new), s1)"
  defines "s3 \<equiv> batch_turn sid pages ix is_new s1"
  shows "ix < sequence_capacity s" and "is_new \<Longrightarrow> \<not> is_live (sequence_table s ! ix)"
    and "\<not> is_new \<Longrightarrow> sequence_id (sequence_table s ! ix) = sid \<and> s1 = s"
    and "j \<noteq> ix \<Longrightarrow> sequence_table s3 ! j = sequence_table s ! j"
    and "page_owners s3 = put_all sid (map nat pages) (page_owners s)"
    and "p \<notin> nat ` set pages \<Longrightarrow>
         is_new \<or> tail_page (sequence_table s ! ix) = kInvalidPageIndex
           \<or> p \<noteq> nat (tail_page (sequence_table s ! ix)) \<Longrightarrow>
         page_links s3 ! p = page_links s ! p"
    and "sequence_id (sequence_table s3 ! ix) = sid"
    and "length (sequence_table s3) = length (sequence_table s)"
    and "length (page_links s3) = length (page_links s)"
proof -
  note c = FindOrInsert_cases [OF find]
  let ?s0 = "if is_new then s1\<lparr>active_sequences := u32 (active_sequences s + 1)\<rparr> else s1"
  let ?ps = "if is_new then [] else walk_pages (page_links s) (entry_pages (sequence_table s ! ix))
                                      (head_page (sequence_table s ! ix))"
  have old: "\<exists>ps. located s sid ix ps" if "\<not> is_new"
    using claim_old [OF inv sid, of ix] c(1) that by simp
  note new = insert_inv [OF inv sid _ refl, of ix]
  have loc: "located ?s0 sid ix ?ps" and inv0: "kv_inv (pages @ F) ?s0"
    using old new(2,3) inv c entry_of_walk by (auto simp: located_def)
  have s3: "s3 = fold (attach_page ix sid) pages ?s0"
    using c(2) by (auto simp: s3_def batch_turn_def Let_def fold_attach_counters)
  have len: "length (sequence_table s) = sequence_capacity s" by (rule kv_shapeD(7) [OF inv])
  show ix: "ix < sequence_capacity s" using loc c(2) by (auto simp: located_def split: if_splits)
  show "\<not> is_live (sequence_table s ! ix)" if is_new
  proof -
    have "seq_cls (sequence_table s ! ix) = Vacant \<or> seq_cls (sequence_table s ! ix) = Grave"
      using seq_tab.claim_newD(2) [OF kv_shapeD(9) [OF inv]] c(1) that
        claim_probe [OF sid kv_shapeD(2) [OF inv]] len by simp
    then show ?thesis using seq_cls_not_Held by blast
  qed
  show "sequence_id (sequence_table s ! ix) = sid \<and> s1 = s" if "\<not> is_new"
    using that old c(2) by (auto simp: located_def)
  show "sequence_table s3 ! j = sequence_table s ! j" if "j \<noteq> ix"
    using that c(2) by (simp add: s3 fold_attach_table)
  show "page_owners s3 = put_all sid (map nat pages) (page_owners s)"
    using c(2) by (simp add: s3)
  show "page_links s3 ! p = page_links s ! p"
    if p: "p \<notin> nat ` set pages" "is_new \<or> tail_page (sequence_table s ! ix) = kInvalidPageIndex
           \<or> p \<noteq> nat (tail_page (sequence_table s ! ix))"
  proof -
    have "p \<noteq> nat (last ?ps)" if ne: "?ps \<noteq> []"
    proof -
      from ne have "\<not> is_new" by auto
      with loc c(2) have e: "entry_of (page_links s) (sequence_table s ! ix) ?ps" by (simp add: located_def)
      then have "tail_page (sequence_table s ! ix) = last ?ps" using ne by (simp add: entry_of_def)
      moreover have "0 \<le> last ?ps"
        using chain_range [of "page_links s" _ ?ps "last ?ps"] e ne last_in_set [OF ne] by (auto simp: entry_of_def)
      ultimately show ?thesis using p(2) \<open>\<not> is_new\<close> by (auto simp: page_consts)
    qed
    then show ?thesis using fold_attach_writes [OF inv0 sid loc p(1)] c(2) by (simp add: s3)
  qed
  show "sequence_id (sequence_table s3 ! ix) = sid"
    using fold_attach_inv [OF inv0 sid loc] by (simp add: s3 located_def)
  show "length (sequence_table s3) = length (sequence_table s)"
    "length (page_links s3) = length (page_links s)"
    using c(2) by (simp_all add: s3 fold_attach_table)
qed

section \<open>The loop against the region it started from\<close>

definition undo_ok :: "region \<Rightarrow> undo_entry \<Rightarrow> bool" where
  "undo_ok s0 u \<longleftrightarrow>
     undo_index u < sequence_capacity s0
     \<and> (if undo_is_new u then \<not> is_live (sequence_table s0 ! undo_index u)
        else undo_saved u = sequence_table s0 ! undo_index u
          \<and> (tail_page (undo_saved u) \<noteq> kInvalidPageIndex \<longrightarrow>
               nat (tail_page (undo_saved u)) < num_pages s0
               \<and> undo_tail_link u = page_links s0 ! nat (tail_page (undo_saved u))))"

definition undo_tail :: "undo_entry \<Rightarrow> nat option" where
  "undo_tail u = (if undo_is_new u \<or> tail_page (undo_saved u) = kInvalidPageIndex then None
                  else Some (nat (tail_page (undo_saved u))))"

definition batch_track :: "region \<Rightarrow> undo_entry list \<Rightarrow> int list \<Rightarrow> int set \<Rightarrow> region \<Rightarrow> bool" where
  "batch_track s0 undo written seen s \<longleftrightarrow>
     num_pages s = num_pages s0 \<and> sequence_capacity s = sequence_capacity s0
     \<and> page_size_tokens s = page_size_tokens s0
     \<and> free_stack s = free_stack s0 \<and> length (page_owners s) = length (page_owners s0)
     \<and> length (page_links s) = length (page_links s0)
     \<and> length (sequence_table s) = length (sequence_table s0)
     \<and> (\<forall>u \<in> set undo. undo_ok s0 u \<and> sequence_id (sequence_table s ! undo_index u) \<in> seen)
     \<and> (\<forall>i. i \<notin> undo_index ` set undo \<longrightarrow> sequence_table s ! i = sequence_table s0 ! i)
     \<and> (\<forall>p. p \<notin> nat ` set written \<longrightarrow> page_owners s ! p = page_owners s0 ! p)
     \<and> (\<forall>p. p \<notin> nat ` set written \<longrightarrow> Some p \<notin> undo_tail ` set undo \<longrightarrow>
           page_links s ! p = page_links s0 ! p)
     \<and> distinct (map undo_index undo)
     \<and> active_sequences s = active_sequences s0 + length (filter undo_is_new undo)"

lemma batch_track_step:
  assumes tr: "batch_track s0 undo written seen s" and inv: "kv_inv (pages @ F) s"
    and sid: "\<not> IsReservedSequenceId sid" "sid \<notin> seen"
    and live: "\<forall>k \<in> seen. \<not> IsReservedSequenceId k"
    and wr: "\<forall>q \<in> set written. 0 \<le> q \<and> page_owners s ! nat q \<in> seen"
    and find: "FindOrInsertSequenceEntryLocked sid s = (Inr (ix, is_new), s1)"
    and tails: "\<forall>u \<in> set undo. \<forall>p. undo_tail u = Some p \<longrightarrow> page_owners s ! p \<in> seen"
  shows "batch_track s0 (undo @ [batch_undo ix is_new s1]) (written @ pages) (insert sid seen)
           (batch_turn sid pages ix is_new s1)"
    and "undo_tail (batch_undo ix is_new s1) = Some p \<Longrightarrow> page_owners s ! p = sid"
proof -
  let ?u = "batch_undo ix is_new s1" and ?s3 = "batch_turn sid pages ix is_new s1"
  note w = batch_turn_writes [OF inv sid(1) find] and ok = batch_turn_ok [OF inv sid(1) find]
  note t = tr [unfolded batch_track_def]
  have ix: "ix \<notin> undo_index ` set undo"
  proof
    assume "ix \<in> undo_index ` set undo"
    then have "sequence_id (sequence_table s ! ix) \<in> seen" using t by auto
    then show False using w(2,3) live sid not_reserved_live by (cases is_new) blast+
  qed
  have u: "undo_index ?u = ix" "undo_is_new ?u = is_new" by (simp_all add: batch_undo_def Let_def)
  have entry: "sequence_table s ! ix = sequence_table s0 ! ix" using t ix by blast
  have tail: "page_owners s ! p = sid \<and> p < num_pages s" if "undo_tail ?u = Some p" for p
  proof -
    from that have nn: "\<not> is_new" and p: "p = nat (tail_page (sequence_table s ! ix))"
      "tail_page (sequence_table s ! ix) \<noteq> kInvalidPageIndex"
      using w(3) by (auto simp: undo_tail_def batch_undo_def Let_def split: if_splits)
    then obtain ps where loc: "located s sid ix ps"
      using claim_old [OF inv sid(1), of ix] FindOrInsert_cases(1) [OF find] by auto
    have "tail_page (sequence_table s ! ix) \<in> set ps"
      using loc p(2) last_in_set [of ps] by (auto simp: located_def entry_of_def split: if_splits)
    then show ?thesis using located_owners(2) [OF inv sid(1) loc] p(1) by blast
  qed
  then show "undo_tail ?u = Some p \<Longrightarrow> page_owners s ! p = sid" by blast
  have cap: "sequence_capacity s = sequence_capacity s0" "num_pages s = num_pages s0" using t by blast+
  have uok: "undo_ok s0 ?u"
  proof (cases is_new)
    case True
    then show ?thesis using w(1,2) entry cap by (simp add: undo_ok_def batch_undo_def Let_def)
  next
    case False
    have s1: "s1 = s" using w(3) False by blast
    have "nat (tail_page (sequence_table s ! ix)) < num_pages s
        \<and> page_links s ! nat (tail_page (sequence_table s ! ix))
        = page_links s0 ! nat (tail_page (sequence_table s ! ix))"
      if "tail_page (sequence_table s ! ix) \<noteq> kInvalidPageIndex"
    proof -
      let ?p = "nat (tail_page (sequence_table s ! ix))"
      have o: "page_owners s ! ?p = sid" "?p < num_pages s"
        using tail [of ?p] that False s1 by (simp_all add: undo_tail_def batch_undo_def Let_def)
      then have "?p \<notin> nat ` set written" using wr sid(2) by auto
      moreover have "Some ?p \<notin> undo_tail ` set undo" using tails o(1) sid(2) by (metis imageE)
      ultimately show ?thesis using t o(2) by blast
    qed
    then show ?thesis using False s1 entry w(1) cap by (simp add: undo_ok_def batch_undo_def Let_def)
  qed
  show "batch_track s0 (undo @ [?u]) (written @ pages) (insert sid seen) ?s3"
    unfolding batch_track_def
  proof (intro conjI)
    show "\<forall>v \<in> set (undo @ [?u]). undo_ok s0 v \<and> sequence_id (sequence_table ?s3 ! undo_index v) \<in> insert sid seen"
    proof
      fix v assume v: "v \<in> set (undo @ [?u])"
      show "undo_ok s0 v \<and> sequence_id (sequence_table ?s3 ! undo_index v) \<in> insert sid seen"
      proof (cases "v \<in> set undo")
        case True
        then have "undo_index v \<noteq> ix" using ix by blast
        then show ?thesis using w(4) [of "undo_index v"] t True by simp
      next
        case False
        then have "v = ?u" using v by simp
        then show ?thesis using uok u(1) w(7) by simp
      qed
    qed
    show "\<forall>i. i \<notin> undo_index ` set (undo @ [?u]) \<longrightarrow> sequence_table ?s3 ! i = sequence_table s0 ! i"
      using t w(4) u by auto
    show "\<forall>p. p \<notin> nat ` set (written @ pages) \<longrightarrow> page_owners ?s3 ! p = page_owners s0 ! p"
    proof (intro allI impI)
      fix p assume p: "p \<notin> nat ` set (written @ pages)"
      have "put_all sid (map nat pages) (page_owners s) ! p = page_owners s ! p"
        using p by (intro nth_put_all_other) auto
      moreover have "page_owners s ! p = page_owners s0 ! p" using p t by auto
      ultimately show "page_owners ?s3 ! p = page_owners s0 ! p" using w(5) by simp
    qed
    show "\<forall>p. p \<notin> nat ` set (written @ pages) \<longrightarrow> Some p \<notin> undo_tail ` set (undo @ [?u]) \<longrightarrow>
           page_links ?s3 ! p = page_links s0 ! p"
    proof (intro allI impI)
      fix p assume p: "p \<notin> nat ` set (written @ pages)" "Some p \<notin> undo_tail ` set (undo @ [?u])"
      have "is_new \<or> tail_page (sequence_table s ! ix) = kInvalidPageIndex
           \<or> p \<noteq> nat (tail_page (sequence_table s ! ix))"
        using p(2) w(3) by (auto simp: undo_tail_def batch_undo_def Let_def split: if_splits)
      moreover have "p \<notin> nat ` set pages" "p \<notin> nat ` set written" "Some p \<notin> undo_tail ` set undo"
        using p by auto
      ultimately show "page_links ?s3 ! p = page_links s0 ! p" using w(6) t by metis
    qed
  qed (use t ok w(5,8,9) u ix in \<open>auto simp: others_same_def\<close>)
qed


section \<open>The rollback\<close>

lemma undo_attach_same [simp]:
  "page_owners (undo_attach u s) = page_owners s" "free_stack (undo_attach u s) = free_stack s"
  "num_pages (undo_attach u s) = num_pages s" "sequence_capacity (undo_attach u s) = sequence_capacity s"
  "page_size_tokens (undo_attach u s) = page_size_tokens s"
  "length (sequence_table (undo_attach u s)) = length (sequence_table s)"
  "length (page_links (undo_attach u s)) = length (page_links s)"
  by (simp_all add: undo_attach_def)

lemma fold_undo:
  assumes "\<forall>u \<in> set undo. undo_ok s0 u" and "distinct (map undo_index undo)"
    and "length (sequence_table s) = sequence_capacity s0" and "length (page_links s) = num_pages s0"
    and "length (filter undo_is_new undo) \<le> active_sequences s" and "active_sequences s < 2 ^ 32"
  shows "let s' = fold undo_attach undo s in
     length (sequence_table s') = sequence_capacity s0 \<and> length (page_links s') = num_pages s0
     \<and> page_owners s' = page_owners s \<and> free_stack s' = free_stack s \<and> num_pages s' = num_pages s
     \<and> sequence_capacity s' = sequence_capacity s \<and> page_size_tokens s' = page_size_tokens s
     \<and> active_sequences s' = active_sequences s - length (filter undo_is_new undo)
     \<and> (\<forall>i. i \<notin> undo_index ` set undo \<longrightarrow> sequence_table s' ! i = sequence_table s ! i)
     \<and> (\<forall>u \<in> set undo. sequence_table s' ! undo_index u
          = (if undo_is_new u then tombstone_entry else sequence_table s0 ! undo_index u))
     \<and> (\<forall>p. page_links s' ! p
          = (if Some p \<in> undo_tail ` set undo then page_links s0 ! p else page_links s ! p))"
  using assms
proof (induction undo arbitrary: s)
  case (Cons u undo)
  have ok: "undo_ok s0 u" using Cons.prems(1) by simp
  have new: "undo_is_new u \<Longrightarrow> u32_sub (active_sequences s) 1 = active_sequences s - 1"
    using Cons.prems(5,6) by (simp add: u32_sub_le)
  have ih: "let s' = fold undo_attach undo (undo_attach u s) in
     length (sequence_table s') = sequence_capacity s0 \<and> length (page_links s') = num_pages s0
     \<and> page_owners s' = page_owners s \<and> free_stack s' = free_stack s \<and> num_pages s' = num_pages s
     \<and> sequence_capacity s' = sequence_capacity s \<and> page_size_tokens s' = page_size_tokens s
     \<and> active_sequences s' = active_sequences s - length (filter undo_is_new (u # undo))
     \<and> (\<forall>i. i \<notin> undo_index ` set undo \<longrightarrow> sequence_table s' ! i = sequence_table (undo_attach u s) ! i)
     \<and> (\<forall>u \<in> set undo. sequence_table s' ! undo_index u
          = (if undo_is_new u then tombstone_entry else sequence_table s0 ! undo_index u))
     \<and> (\<forall>p. page_links s' ! p
          = (if Some p \<in> undo_tail ` set undo then page_links s0 ! p else page_links (undo_attach u s) ! p))"
  proof -
    have "active_sequences (undo_attach u s) = active_sequences s - (if undo_is_new u then 1 else 0)"
      using new by (simp add: undo_attach_def)
    then show ?thesis using Cons.IH [of "undo_attach u s"] Cons.prems
      by (cases "undo_is_new u") (simp_all add: Let_def)
  qed
  have here: "sequence_table (undo_attach u s) ! undo_index u
      = (if undo_is_new u then tombstone_entry else sequence_table s0 ! undo_index u)"
    using ok Cons.prems(3) by (simp add: undo_attach_def undo_ok_def)
  have links: "page_links (undo_attach u s) ! p
      = (if undo_tail u = Some p then page_links s0 ! p else page_links s ! p)" for p
    using ok Cons.prems(4) by (auto simp: undo_attach_def undo_ok_def undo_tail_def nth_list_update)
  have elsewhere: "i \<noteq> undo_index u \<Longrightarrow> sequence_table (undo_attach u s) ! i = sequence_table s ! i" for i
    by (simp add: undo_attach_def)
  have notin: "undo_index u \<notin> undo_index ` set undo" using Cons.prems(2) by simp
  from ih show ?case unfolding Let_def using here links elsewhere notin by (auto simp: image_iff)
qed (simp add: Let_def)

lemma kv_bury:
  assumes inv: "kv_inv F s" and len: "length (sequence_table s') = sequence_capacity s"
    and tab: "\<And>i. i < sequence_capacity s \<Longrightarrow> sequence_table s' ! i = sequence_table s ! i
                \<or> \<not> is_live (sequence_table s ! i) \<and> sequence_table s' ! i = tombstone_entry"
    and same: "num_pages s' = num_pages s" "sequence_capacity s' = sequence_capacity s"
      "page_owners s' = page_owners s" "page_links s' = page_links s" "free_stack s' = free_stack s"
      "free_stack_top s' = free_stack_top s" "active_sequences s' = active_sequences s"
  shows "kv_inv F s'" and "kv_abs s' = kv_abs s"
proof -
  note sh = kv_shapeD [OF inv]
  have tomb: "\<not> is_live tombstone_entry" "seq_cls tombstone_entry = Grave"
    by (auto simp: is_live_def tombstone_entry_def seq_cls_def)
  have live: "is_live (sequence_table s' ! i) \<longleftrightarrow> is_live (sequence_table s ! i)"
    "is_live (sequence_table s ! i) \<Longrightarrow> sequence_table s' ! i = sequence_table s ! i"
    if "i < sequence_capacity s" for i
    using tab [OF that] tomb by auto
  have "probe_inv seq_cls seq_order (sequence_table s')"
  proof (rule seq_tab.inv_mono [OF sh(9)])
    fix i k assume "i < length (sequence_table s)"
    then have i: "i < sequence_capacity s" using sh(7) by simp
    show "seq_cls (sequence_table s' ! i) = Held k \<longleftrightarrow> seq_cls (sequence_table s ! i) = Held k"
      using live [OF i] by (auto simp: seq_cls_Held)
    show "seq_cls (sequence_table s' ! i) = Vacant \<Longrightarrow> seq_cls (sequence_table s ! i) = Vacant"
      using tab [OF i] tomb by auto
  qed (use len sh(7) in simp)
  moreover have "length (filter is_live (sequence_table s')) = length (filter is_live (sequence_table s))"
    using live len sh(7) by (auto simp: length_filter_conv_card intro!: arg_cong [where f = card])
  moreover have sub: "e \<in> set (sequence_table s') \<longleftrightarrow> e \<in> set (sequence_table s)" if "is_live e" for e
    using that live len sh(7) by (metis in_set_conv_nth)
  ultimately have "kv_entries s'"
    using kv_invD(2) [OF inv] same by (auto simp: kv_entries_def)
  moreover have "(\<exists>e \<in> set (sequence_table s'). is_live e \<and> Q e) \<longleftrightarrow>
      (\<exists>e \<in> set (sequence_table s). is_live e \<and> Q e)" for Q
    using sub by blast
  then have "kv_owners s'" using kv_invD(3) [OF inv] same by (simp add: kv_owners_def)
  moreover have "kv_shape s'" using kv_invD(1) [OF inv] same len by (simp add: kv_shape_def)
  moreover have "kv_free F s'" using kv_invD(4) [OF inv] same by (simp add: kv_free_def)
  ultimately show inv': "kv_inv F s'" by (simp add: kv_inv_def)
  have "held s' sid = held s sid" if r: "\<not> IsReservedSequenceId sid" for sid
  proof (cases "held s sid")
    case None
    then have "sequence_id (sequence_table s' ! i) \<noteq> sid" if "i < sequence_capacity s" for i
      using held_None_iff [OF inv r] that tab [OF that] r
      by (auto simp: tombstone_entry_def IsReservedSequenceId_def)
    then show ?thesis using None held_None_iff [OF inv' r] same(2) by simp
  next
    case (Some ps)
    then obtain ix where l: "located s sid ix ps" using held_located [OF inv r] by blast
    then have "sequence_table s' ! ix = sequence_table s ! ix"
      using live(2) r not_reserved_live by (auto simp: located_def)
    with l have "located s' sid ix ps" using same by (simp add: located_def)
    then show ?thesis using held_located [OF inv' r] Some by metis
  qed
  then show "kv_abs s' = kv_abs s"
    using same by (auto simp: kv_abs_def fun_eq_iff resident_pages_def free_pages_def)
qed

text \<open>The pages written so far and the recorded tails belong to sequences of the batch.\<close>

definition batch_owned :: "undo_entry list \<Rightarrow> int list \<Rightarrow> int set \<Rightarrow> region \<Rightarrow> bool" where
  "batch_owned undo written seen s \<longleftrightarrow>
     (\<forall>k \<in> seen. \<not> IsReservedSequenceId k)
     \<and> (\<forall>q \<in> set written. 0 \<le> q \<and> page_owners s ! nat q \<in> seen)
     \<and> (\<forall>u \<in> set undo. \<forall>p. undo_tail u = Some p \<longrightarrow> page_owners s ! p \<in> seen)"

lemma batch_owned_step:
  assumes own: "batch_owned undo written seen s" and tr: "batch_track s0 undo written seen s"
    and inv: "kv_inv (pages @ F) s" and sid: "\<not> IsReservedSequenceId sid" "sid \<notin> seen"
    and find: "FindOrInsertSequenceEntryLocked sid s = (Inr (ix, is_new), s1)"
  shows "batch_owned (undo @ [batch_undo ix is_new s1]) (written @ pages) (insert sid seen)
           (batch_turn sid pages ix is_new s1)"
proof -
  note o = own [unfolded batch_owned_def]
  have ow: "page_owners (batch_turn sid pages ix is_new s1) = put_all sid (map nat pages) (page_owners s)"
    by (rule batch_turn_writes(5) [OF inv sid(1) find])
  have page: "0 \<le> q \<and> nat q < length (page_owners s)" if "q \<in> set pages" for q
    using in_flight_page [OF inv, of q] that kv_shapeD(5) [OF inv] by simp
  have put: "put_all sid (map nat pages) (page_owners s) ! p
      = (if p \<in> nat ` set pages then sid else page_owners s ! p)" for p
    using nth_put_all_other [of p "map nat pages"] nth_put_all [of p "page_owners s" sid "map nat pages"] page
    by auto
  have tail: "undo_tail (batch_undo ix is_new s1) = Some p \<Longrightarrow> page_owners s ! p = sid" for p
    by (rule batch_track_step(2) [OF tr inv sid _ _ find]) (use o in auto)
  show ?thesis unfolding batch_owned_def ow put using o sid tail page by auto
qed

lemma batch_attach_ok:
  assumes "batch_track s0 undo written seen s" and "batch_owned undo written seen s"
    and "kv_inv (concat (map snd rest) @ F) s"
    and "distinct (map fst rest)" and "\<forall>sid \<in> set (map fst rest). \<not> IsReservedSequenceId sid \<and> sid \<notin> seen"
  shows "case batch_attach rest undo inserted s of
       ((_, _, None), s') \<Rightarrow>
         kv_inv F s' \<and> free_stack s' = free_stack s \<and> free_stack_top s' = free_stack_top s
         \<and> resident_pages s' = resident_pages s \<and> num_pages s' = num_pages s
         \<and> (\<forall>sid. \<not> IsReservedSequenceId sid \<longrightarrow>
              held s' sid = (case map_of rest sid of None \<Rightarrow> held s sid
                | Some qs \<Rightarrow> Some ((case held s sid of None \<Rightarrow> [] | Some ps \<Rightarrow> ps) @ qs)))
     | ((undo', _, Some e), s') \<Rightarrow>
         \<exists>written' seen'. batch_track s0 undo' written' seen' s'
           \<and> set written' \<subseteq> set written \<union> set (concat (map snd rest))
           \<and> active_sequences s' < 2 ^ 32 \<and> e = Runtime_error ''Sequence table is full''"
  using assms
proof (induction rest arbitrary: undo written seen s inserted)
  case (Cons sp rest)
  obtain sid pages where sp: "sp = (sid, pages)" by fastforce
  have inv: "kv_inv (pages @ concat (map snd rest) @ F) s" using Cons.prems(3) by (simp add: sp)
  have sid: "\<not> IsReservedSequenceId sid" "sid \<notin> seen" using Cons.prems(5) by (simp_all add: sp)
  show ?case
  proof (cases "FindOrInsertSequenceEntryLocked sid s")
    case (Pair r s1)
    show ?thesis
    proof (cases r)
      case (Inl e)
      then have "e = Runtime_error ''Sequence table is full''" "s1 = s"
        using Pair by (auto simp: FindOrInsertSequenceEntryLocked_def split: option.splits prod.splits)
      moreover have "active_sequences s < 2 ^ 32"
        using kv_shapeD(3,7,10) [OF inv] length_filter_le [of is_live "sequence_table s"] by simp
      ultimately show ?thesis using Pair Inl Cons.prems(1) by (auto simp: sp)
    next
      case (Inr found)
      obtain ix is_new where r: "found = (ix, is_new)" by fastforce
      have find: "FindOrInsertSequenceEntryLocked sid s = (Inr (ix, is_new), s1)"
        using Pair Inr r by simp
      let ?s3 = "batch_turn sid pages ix is_new s1" and ?u = "batch_undo ix is_new s1"
      note ok = batch_turn_ok [OF inv sid(1) find]
      have tr: "batch_track s0 (undo @ [?u]) (written @ pages) (insert sid seen) ?s3"
        by (rule batch_track_step(1) [OF Cons.prems(1) inv sid _ _ find])
           (use Cons.prems(2) in \<open>auto simp: batch_owned_def\<close>)
      have ow: "batch_owned (undo @ [?u]) (written @ pages) (insert sid seen) ?s3"
        by (rule batch_owned_step [OF Cons.prems(2,1) inv sid find])
      have notin: "sid \<notin> fst ` set rest" using Cons.prems(4) by (simp add: sp)
      note ih = Cons.IH [OF tr ow ok(1), of "if is_new then inserted + 1 else inserted"]
      have eq: "batch_attach (sp # rest) undo inserted s =
          batch_attach rest (undo @ [?u]) (if is_new then inserted + 1 else inserted) ?s3"
        unfolding sp batch_attach_Cons by (simp add: find)
      have h: "held ?s3 k = (if k = sid then Some ((case held s sid of None \<Rightarrow> [] | Some ps \<Rightarrow> ps) @ pages)
          else held s k)" if "\<not> IsReservedSequenceId k" for k
        using ok(2,3) that by (auto simp: others_same_def)
      have m: "map_of rest sid = None" using notin by (simp add: map_of_eq_None_iff)
      obtain undo' ins' oe s' where run: "batch_attach rest (undo @ [?u])
          (if is_new then inserted + 1 else inserted) ?s3 = ((undo', ins', oe), s')"
        by (metis prod.exhaust)
      show ?thesis
      proof (cases oe)
        case None
        then have i: "kv_inv F s'" "free_stack s' = free_stack s" "free_stack_top s' = free_stack_top s"
          "resident_pages s' = resident_pages s" "num_pages s' = num_pages s"
          and hh: "\<And>k. \<not> IsReservedSequenceId k \<Longrightarrow>
              held s' k = (case map_of rest k of None \<Rightarrow> held ?s3 k
                | Some qs \<Rightarrow> Some ((case held ?s3 k of None \<Rightarrow> [] | Some ps \<Rightarrow> ps) @ qs))"
          using ih run Cons.prems(4,5) notin ok(3-6) by (auto simp: sp others_same_def)
        have "held s' k = (case map_of (sp # rest) k of None \<Rightarrow> held s k
                | Some qs \<Rightarrow> Some ((case held s k of None \<Rightarrow> [] | Some ps \<Rightarrow> ps) @ qs))"
          if "\<not> IsReservedSequenceId k" for k
          using hh [OF that] h [OF that] m by (cases "k = sid") (simp_all add: sp cong: option.case_cong)
        then show ?thesis using i run None eq by simp
      next
        case (Some e)
        then have "\<exists>written' seen'. batch_track s0 undo' written' seen' s'
           \<and> set written' \<subseteq> set (written @ pages) \<union> set (concat (map snd rest))
           \<and> active_sequences s' < 2 ^ 32 \<and> e = Runtime_error ''Sequence table is full''"
          using ih run Cons.prems(4,5) notin by (auto simp: sp)
        then show ?thesis using run Some eq by (auto simp: sp Un_assoc)
      qed
    qed
  qed
qed auto

lemma rollback_ok:
  assumes inv: "kv_inv F s0" and tr: "batch_track s0 undo written seen s"
    and sub: "set written \<subseteq> set pages"
    and pages: "\<And>q. q \<in> set pages \<Longrightarrow>
        0 \<le> q \<and> nat q < num_pages s0 \<and> page_owners s0 ! nat q = kEmptySequenceId"
    and act: "active_sequences s < 2 ^ 32"
  defines "s' \<equiv> batch_rollback undo pages (free_stack_top s0) s"
  shows "kv_inv F s'" and "kv_abs s' = kv_abs s0" and "free_stack s' = free_stack s0"
proof -
  note t = tr [unfolded batch_track_def] and sh = kv_shapeD [OF inv]
  let ?u = "fold undo_attach undo s"
  have "let s' = fold undo_attach undo s in
     length (sequence_table s') = sequence_capacity s0 \<and> length (page_links s') = num_pages s0
     \<and> page_owners s' = page_owners s \<and> free_stack s' = free_stack s \<and> num_pages s' = num_pages s
     \<and> sequence_capacity s' = sequence_capacity s \<and> page_size_tokens s' = page_size_tokens s
     \<and> active_sequences s' = active_sequences s - length (filter undo_is_new undo)
     \<and> (\<forall>i. i \<notin> undo_index ` set undo \<longrightarrow> sequence_table s' ! i = sequence_table s ! i)
     \<and> (\<forall>u \<in> set undo. sequence_table s' ! undo_index u
          = (if undo_is_new u then tombstone_entry else sequence_table s0 ! undo_index u))
     \<and> (\<forall>p. page_links s' ! p
          = (if Some p \<in> undo_tail ` set undo then page_links s0 ! p else page_links s ! p))"
    by (rule fold_undo) (use t sh(6,7) act in auto)
  note u = this [unfolded Let_def]
  have fields: "num_pages s' = num_pages s0" "sequence_capacity s' = sequence_capacity s0"
    "free_stack s' = free_stack s0" "free_stack_top s' = free_stack_top s0"
    "active_sequences s' = active_sequences s0" "sequence_table s' = sequence_table ?u"
    using u t by (simp_all add: s'_def batch_rollback_def Let_def)
  have in_pages: "nat ` set written \<subseteq> nat ` set pages" using sub by blast
  have owners: "page_owners s' = page_owners s0"
  proof (rule nth_equalityI)
    show "length (page_owners s') = length (page_owners s0)"
      using u t by (simp add: s'_def batch_rollback_def Let_def)
    fix p assume p: "p < length (page_owners s')"
    then have l: "p < length (page_owners s)" using u by (simp add: s'_def batch_rollback_def Let_def)
    have eq: "page_owners s' ! p = (if p \<in> nat ` set pages then kEmptySequenceId else page_owners s ! p)"
      using u nth_put_all [OF l] by (simp add: s'_def batch_rollback_def Let_def)
    have "p \<notin> nat ` set pages \<Longrightarrow> page_owners s ! p = page_owners s0 ! p" using in_pages t by blast
    then show "page_owners s' ! p = page_owners s0 ! p" using eq pages by auto
  qed
  have links: "page_links s' = page_links s0"
  proof (rule nth_equalityI)
    show "length (page_links s') = length (page_links s0)"
      using u sh(6) by (simp add: s'_def batch_rollback_def Let_def)
    fix p assume p: "p < length (page_links s')"
    then have l: "p < length (page_links ?u)" by (simp add: s'_def batch_rollback_def Let_def)
    have eq: "page_links s' ! p = (if p \<in> nat ` set pages then kInvalidPageIndex else page_links ?u ! p)"
      using nth_put_all [OF l] by (simp add: s'_def batch_rollback_def Let_def)
    show "page_links s' ! p = page_links s0 ! p"
    proof (cases "p \<in> nat ` set pages")
      case True
      then have "p < num_pages s0" "page_owners s0 ! p = kEmptySequenceId" using pages by auto
      then have "page_links s0 ! p = kInvalidPageIndex" using kv_invD(3) [OF inv] by (simp add: kv_owners_def)
      then show ?thesis using eq True by simp
    next
      case False
      then have "p \<notin> nat ` set written" using in_pages by blast
      then show ?thesis using eq False u t by auto
    qed
  qed
  have tab: "sequence_table s' ! i = sequence_table s0 ! i
                \<or> \<not> is_live (sequence_table s0 ! i) \<and> sequence_table s' ! i = tombstone_entry" for i
  proof (cases "i \<in> undo_index ` set undo")
    case True
    then obtain v where v: "v \<in> set undo" "i = undo_index v" by blast
    moreover have "undo_ok s0 v" using v t by blast
    ultimately show ?thesis using u fields(6) by (auto simp: undo_ok_def)
  next
    case False
    then show ?thesis using u t fields(6) by simp
  qed
  show "kv_inv F s'" "kv_abs s' = kv_abs s0"
    using kv_bury [OF inv, of s'] fields owners links tab u by auto
  show "free_stack s' = free_stack s0" by (rule fields(3))
qed


section \<open>The whole operation\<close>

definition spec_grants :: "(int \<times> int list) list \<Rightarrow> kv_spec \<Rightarrow> kv_spec" where
  "spec_grants gs a = fold (\<lambda>(sid, ps). spec_grant sid ps) gs a"

lemma spec_grants_all:
  assumes "distinct (map fst gs)"
  shows "residents (spec_grants gs a) = residents a
    \<and> frees (spec_grants gs a) = frees a - set (concat (map snd gs))
    \<and> holds (spec_grants gs a) k =
           (case map_of gs k of None \<Rightarrow> holds a k | Some qs \<Rightarrow> Some (held_pages a k @ qs))"
  using assms
proof (induction gs arbitrary: a)
  case (Cons g gs)
  obtain sid ps where g: "g = (sid, ps)" by fastforce
  have eq: "spec_grants (g # gs) a = spec_grants gs (spec_grant sid ps a)"
    by (simp add: spec_grants_def g)
  have m: "map_of gs sid = None" using Cons.prems by (simp add: g map_of_eq_None_iff)
  have ih: "residents (spec_grants gs (spec_grant sid ps a)) = residents a"
    "frees (spec_grants gs (spec_grant sid ps a)) = frees a - set ps - set (concat (map snd gs))"
    "holds (spec_grants gs (spec_grant sid ps a)) k =
      (case map_of gs k of None \<Rightarrow> holds (spec_grant sid ps a) k
       | Some qs \<Rightarrow> Some (held_pages (spec_grant sid ps a) k @ qs))"
    using Cons.IH [of "spec_grant sid ps a"] Cons.prems by (simp_all add: spec_grant_def)
  have "holds (spec_grants (g # gs) a) k =
      (case map_of (g # gs) k of None \<Rightarrow> holds a k | Some qs \<Rightarrow> Some (held_pages a k @ qs))"
    unfolding eq ih(3)
    using m by (cases "k = sid") (auto simp: g spec_grant_def held_pages_def split: option.split)
  then show ?case using ih(1,2) unfolding eq by (auto simp: g)
qed (simp add: spec_grants_def)

lemmas spec_grants_fields = spec_grants_all [THEN conjunct1]
  spec_grants_all [THEN conjunct2, THEN conjunct1] spec_grants_all [THEN conjunct2, THEN conjunct2]

lemma batch_requirements_ok:
  assumes "batch_requirements pt seen xs sofar = Inr (needs, required)"
  shows "needs = map (\<lambda>(sid, tokens). u64 (tokens + pt - 1) div pt) xs"
    and "required = sofar + sum_list needs"
    and "distinct (map fst xs) \<and> set (map fst xs) \<inter> set seen = {}"
  using assms
  by (induction pt seen xs sofar arbitrary: needs required rule: batch_requirements.induct)
     (auto simp: Let_def split: if_splits sum.splits prod.splits)

lemma map2_snd: "length xs = length ys \<Longrightarrow> map2 (\<lambda>x y. f y) xs ys = map f ys"
  by (induction xs ys rule: list_induct2) auto

lemma split_pages_ok:
  "sum_list ns = length ps \<Longrightarrow> concat (split_pages ns ps) = ps"
  "sum_list ns = length ps \<Longrightarrow> map length (split_pages ns ps) = ns"
  "length (split_pages ns ps) = length ns"
  by (induction ns ps rule: split_pages.induct) auto

lemma batch_requirements_iff:
  assumes "\<forall>(sid, tokens) \<in> set xs. u64 (tokens + pt - 1) div pt < 2 ^ 64"
  shows "(\<exists>needs required. batch_requirements pt seen xs sofar = Inr (needs, required)) \<longleftrightarrow>
    distinct (map fst xs) \<and> set (map fst xs) \<inter> set seen = {} \<and> 0 \<notin> set (map snd xs)
    \<and> (xs = [] \<or> sofar + sum_list (map (\<lambda>(sid, tokens). u64 (tokens + pt - 1) div pt) xs) < 2 ^ 64)"
  using assms
proof (induction pt seen xs sofar rule: batch_requirements.induct)
  case (2 pt seen sid tokens rest sofar)
  let ?pages = "u64 (tokens + pt - 1) div pt"
  have "?pages < 2 ^ 64" using 2(2) by simp
  then have lim: "sofar > 2 ^ 64 - 1 - ?pages \<longleftrightarrow> \<not> sofar + ?pages < 2 ^ 64" by linarith
  have step: "(\<exists>needs required. batch_requirements pt seen ((sid, tokens) # rest) sofar = Inr (needs, required)) \<longleftrightarrow>
      sid \<notin> set seen \<and> tokens \<noteq> 0 \<and> sofar + ?pages < 2 ^ 64
      \<and> (\<exists>needs required. batch_requirements pt (seen @ [sid]) rest (sofar + ?pages) = Inr (needs, required))"
    unfolding batch_requirements.simps Let_def lim by (auto split: sum.splits prod.splits)
  show ?case
  proof (cases "sid \<notin> set seen \<and> tokens \<noteq> 0 \<and> sofar + ?pages < 2 ^ 64")
    case True
    then have ih: "(\<exists>needs required. batch_requirements pt (seen @ [sid]) rest (sofar + ?pages) = Inr (needs, required)) \<longleftrightarrow>
        distinct (map fst rest) \<and> set (map fst rest) \<inter> set (seen @ [sid]) = {} \<and> 0 \<notin> set (map snd rest)
        \<and> (rest = [] \<or> sofar + ?pages + sum_list (map (\<lambda>(sid, tokens). u64 (tokens + pt - 1) div pt) rest) < 2 ^ 64)"
      using 2 by (intro 2(1) [OF _ _ refl]) auto
    show ?thesis unfolding step ih using True by (auto simp: add.assoc)
  next
    case False
    then show ?thesis unfolding step by auto
  qed
qed simp

text \<open>The loop serves every sequence if and only if the table has room for the new ones.\<close>

lemma batch_attach_room:
  assumes "kv_inv (concat (map snd gs) @ F) s" and "distinct (map fst gs)"
    and "\<forall>sid \<in> set (map fst gs). \<not> IsReservedSequenceId sid"
  shows "(\<exists>undo' ins' s'. batch_attach gs undo inserted s = ((undo', ins', None), s')) \<longleftrightarrow>
    active_sequences s + length (filter (\<lambda>sid. held s sid = None) (map fst gs)) \<le> sequence_capacity s"
  using assms
proof (induction gs arbitrary: undo inserted s)
  case Nil
  then have "active_sequences s \<le> sequence_capacity s"
    using kv_shapeD(7,10) [of F s] length_filter_le [of is_live "sequence_table s"] by simp
  then show ?case by simp
next
  case (Cons g gs)
  obtain sid pages where g: "g = (sid, pages)" by fastforce
  have inv: "kv_inv (pages @ concat (map snd gs) @ F) s" and sid: "\<not> IsReservedSequenceId sid"
    using Cons.prems by (simp_all add: g)
  obtain r s1 where find: "FindOrInsertSequenceEntryLocked sid s = (r, s1)" by fastforce
  show ?case
  proof (cases r)
    case (Inl e)
    then have "held s sid = None \<and> active_sequences s = sequence_capacity s"
      using find table_full_iff [OF inv sid]
      by (auto simp: FindOrInsertSequenceEntryLocked_def split: option.splits prod.splits)
    then show ?thesis using find Inl by (simp add: g)
  next
    case (Inr found)
    then obtain ix is_new where f: "FindOrInsertSequenceEntryLocked sid s = (Inr (ix, is_new), s1)"
      using find by (cases found) simp
    let ?s = "batch_turn sid pages ix is_new s1"
    note ok = batch_turn_ok [OF inv sid f]
    have "filter (\<lambda>k. held ?s k = None) (map fst gs) = filter (\<lambda>k. held s k = None) (map fst gs)"
      using ok(3) Cons.prems(2,3) by (intro filter_cong) (auto simp: g others_same_def)
    moreover have "sequence_capacity ?s = sequence_capacity s" using ok(3) by (simp add: others_same_def)
    moreover have "batch_attach (g # gs) undo inserted s =
        batch_attach gs (undo @ [batch_undo ix is_new s1]) (if is_new then inserted + 1 else inserted) ?s"
      unfolding g batch_attach_Cons by (simp add: f)
    ultimately show ?thesis
      using Cons.IH [OF ok(1)] Cons.prems(2,3) ok(7,8) by (simp add: g)
  qed
qed

lemma batch_succeeds_iff:
  fixes tokens :: "nat list"
  assumes inv: "kv_inv F s" and sids: "\<forall>sid \<in> set sids. \<not> IsReservedSequenceId sid"
  defines "needs \<equiv> map (\<lambda>t. u64 (t + page_size_tokens s - 1) div page_size_tokens s) tokens"
  shows "(\<exists>allocations s'. AcquirePagesForSequences sids tokens s = (Inr allocations, s')) \<longleftrightarrow>
    length sids = length tokens \<and> distinct sids \<and> 0 \<notin> set tokens \<and> sum_list needs \<le> free_stack_top s
    \<and> active_sequences s + length (filter (\<lambda>sid. held s sid = None) sids) \<le> sequence_capacity s"
proof (cases "length sids = length tokens \<and> sids \<noteq> []")
  case True
  let ?req = "batch_requirements (page_size_tokens s) [] (zip sids tokens) 0"
  have fields: "map fst (zip sids tokens) = sids" "map snd (zip sids tokens) = tokens"
    "map (\<lambda>(sid, t). u64 (t + page_size_tokens s - 1) div page_size_tokens s) (zip sids tokens) = needs"
    using True by (simp_all add: needs_def map2_snd)
  have small: "u64 n div k < 2 ^ 64" for n k
    by (rule le_less_trans [OF div_le_dividend]) (simp add: u64_def)
  have few: "free_stack_top s < 2 ^ 31" using kv_shapeD(1,8) [OF inv] by simp
  have some: "(\<exists>ns required. ?req = Inr (ns, required)) \<longleftrightarrow> distinct sids \<and> 0 \<notin> set tokens \<and> sum_list needs < 2 ^ 64"
  proof -
    have "\<forall>(sid, t) \<in> set (zip sids tokens). u64 (t + page_size_tokens s - 1) div page_size_tokens s < 2 ^ 64"
      using small by blast
    from batch_requirements_iff [OF this, of "[]" 0] show ?thesis unfolding fields using True by auto
  qed
  show ?thesis
  proof (cases "distinct sids \<and> 0 \<notin> set tokens \<and> sum_list needs \<le> free_stack_top s")
    case ok: True
    then obtain ns required where req: "?req = Inr (ns, required)" using some few by auto
    have ns: "ns = needs" "required = sum_list needs" using batch_requirements_ok(1,2) [OF req] fields by simp_all
    obtain ps s1 where pop: "acquire_pop required s = (Inr ps, s1)" using ok ns by (simp add: acquire_pop_def Let_def)
    note p = acquire_pop_inv [OF inv pop]
    let ?al = "split_pages needs ps"
    have ps: "ps = map (\<lambda>i. free_stack s ! (free_stack_top s - required + i)) [0..<required]"
      using pop ok ns by (simp add: acquire_pop_def Let_def split: if_splits)
    have len: "sum_list needs = length ps" using p(2) ns by simp
    have al: "concat ?al = ps" "length ?al = length sids" using split_pages_ok(1,3) len True by (simp_all add: needs_def)
    have gs: "map fst (zip sids ?al) = sids" "map snd (zip sids ?al) = ?al" using al(2) by simp_all
    have "AcquirePagesForSequences sids tokens s =
        (case batch_attach (zip sids ?al) [] 0 s1 of
           ((undo, ins, None), s2) \<Rightarrow> (Inr ?al, s2\<lparr>sequences_inserted := u64 (sequences_inserted s2 + ins)\<rparr>)
         | ((undo, ins, Some e), s2) \<Rightarrow> (Inl e, batch_rollback undo (concat ?al) (free_stack_top s) s2))"
      unfolding ps p(4) ns(2) using True ok ns req few
      by (simp add: AcquirePagesForSequences_def Let_def del: Nat.add_diff_assoc2)
    then have "(\<exists>allocations s'. AcquirePagesForSequences sids tokens s = (Inr allocations, s')) \<longleftrightarrow>
        (\<exists>undo ins s2. batch_attach (zip sids ?al) [] 0 s1 = ((undo, ins, None), s2))"
      by (auto split: prod.splits option.splits)
    also have "\<dots> \<longleftrightarrow> active_sequences s + length (filter (\<lambda>sid. held s sid = None) sids) \<le> sequence_capacity s"
      using batch_attach_room [of "zip sids ?al" F s1] p(1) al(1) ok sids gs by (simp add: p(4))
    finally show ?thesis using True ok by simp
  next
    case no: False
    have "\<exists>e s'. AcquirePagesForSequences sids tokens s = (Inl e, s')"
    proof (cases ?req)
      case (Inr x)
      obtain ns required where req: "?req = Inr (ns, required)" using Inr by (cases x) simp
      then have "required = sum_list needs" "distinct sids \<and> 0 \<notin> set tokens"
        using batch_requirements_ok(1,2) [OF req] fields some by auto
      then show ?thesis using no req by (auto simp: AcquirePagesForSequences_def Let_def True)
    qed (simp add: AcquirePagesForSequences_def True)
    then show ?thesis using no by auto
  qed
next
  case False
  have "active_sequences s \<le> sequence_capacity s"
    using kv_shapeD(7,10) [OF inv] length_filter_le [of is_live "sequence_table s"] by simp
  then show ?thesis using False by (auto simp: AcquirePagesForSequences_def needs_def)
qed

text \<open>The states after a batch: granted as a whole, or as before.\<close>

lemma batch_outcome:
  assumes inv: "kv_inv F s" and sids: "\<forall>sid \<in> set sids. \<not> IsReservedSequenceId sid"
    and run: "AcquirePagesForSequences sids tokens s = (r, s')"
  shows "kv_inv F s' \<and>
    (case r of
       Inl _ \<Rightarrow> kv_abs s' = kv_abs s
     | Inr allocations \<Rightarrow>
         map length allocations = map (\<lambda>t. u64 (t + page_size_tokens s - 1) div page_size_tokens s) tokens
         \<and> distinct sids \<and> distinct (concat allocations) \<and> set (concat allocations) \<subseteq> free_pages s
         \<and> kv_abs s' = spec_grants (zip sids allocations) (kv_abs s))"
proof -
  consider (trivial) "length sids = length tokens" "sids = []"
    | (refused) e where "r = Inl e" "s' = s \<or> s' = s\<lparr>acquire_failures := u64 (acquire_failures s + 1)\<rparr>"
    | (popped) needs required where "length sids = length tokens"
        "batch_requirements (page_size_tokens s) [] (zip sids tokens) 0 = Inr (needs, required)"
        "required \<le> free_stack_top s"
    using run by (auto simp: AcquirePagesForSequences_def Let_def not_less split: if_splits sum.splits prod.splits)
  then show ?thesis
  proof cases
    case trivial
    then show ?thesis using run inv by (auto simp: AcquirePagesForSequences_def spec_grants_def)
  next
    case refused
    then show ?thesis using inv by auto
  next
    case popped
    note req = batch_requirements_ok [OF popped(2)]
    show ?thesis
    proof (cases "sids = [] \<or> required > 2 ^ 32 - 1")
      case True
      then show ?thesis using run inv popped(1,2)
        by (auto simp: AcquirePagesForSequences_def spec_grants_def split: if_splits)
    next
      case False
      obtain ps s1 where pop: "acquire_pop required s = (Inr ps, s1)"
        using popped(3) by (simp add: acquire_pop_def Let_def)
      note p = acquire_pop_inv [OF inv pop]
      have ps: "ps = map (\<lambda>i. free_stack s ! (free_stack_top s - required + i)) [0..<required]"
        using pop popped(3) by (simp add: acquire_pop_def Let_def split: if_splits)
      let ?al = "split_pages needs ps" and ?top = "free_stack_top s"
      have len: "sum_list needs = length ps" using req(2) p(2) by simp
      have ln: "length needs = length sids" using req(1) popped(1) by simp
      have al: "concat ?al = ps" "length ?al = length sids"
        using split_pages_ok(1,3) len ln by simp_all
      have gs: "map fst (zip sids ?al) = sids" "map snd (zip sids ?al) = ?al" using al(2) by simp_all
      have d: "distinct sids" using req(3) popped(1) by simp
      have tr: "batch_track s [] [] {} s1" by (simp add: batch_track_def p(4))
      have ow: "batch_owned [] [] {} s1" by (simp add: batch_owned_def)
      have inv1: "kv_inv (concat (map snd (zip sids ?al)) @ F) s1" using p(1) gs al by simp
      obtain undo ins oe s2 where ba: "batch_attach (zip sids ?al) [] 0 s1 = ((undo, ins, oe), s2)"
        by (metis prod.exhaust)
      note ok = batch_attach_ok [OF tr ow inv1, of 0, unfolded ba gs]
      have run': "(r, s') = (case oe of
            None \<Rightarrow> (Inr ?al, s2\<lparr>sequences_inserted := u64 (sequences_inserted s2 + ins)\<rparr>)
          | Some e \<Rightarrow> (Inl e, batch_rollback undo ps ?top s2))"
      proof -
        have "AcquirePagesForSequences sids tokens s =
            (case batch_attach (zip sids ?al) [] 0 s1 of
               ((undo, ins, None), s2) \<Rightarrow>
                 (Inr ?al, s2\<lparr>sequences_inserted := u64 (sequences_inserted s2 + ins)\<rparr>)
             | ((undo, ins, Some e), s2) \<Rightarrow> (Inl e, batch_rollback undo (concat ?al) ?top s2))"
          unfolding ps p(4) using False popped by (simp add: AcquirePagesForSequences_def Let_def del: Nat.add_diff_assoc2)
        then show ?thesis using run ba al(1) by (simp split: option.split)
      qed
      show ?thesis
      proof (cases oe)
        case None
        then have i: "kv_inv F s2" "free_pages s2 = free_pages s1" "resident_pages s2 = resident_pages s1"
          and h: "\<And>k. \<not> IsReservedSequenceId k \<Longrightarrow>
              held s2 k = (case map_of (zip sids ?al) k of None \<Rightarrow> held s1 k
                | Some qs \<Rightarrow> Some ((case held s1 k of None \<Rightarrow> [] | Some ps \<Rightarrow> ps) @ qs))"
          using ok sids d by (auto simp: free_pages_def)
        have "kv_abs s2 = spec_grants (zip sids ?al) (kv_abs s)"
        proof (rule kv_spec.equality)
          show "holds (kv_abs s2) = holds (spec_grants (zip sids ?al) (kv_abs s))"
          proof
            fix k
            have "map_of (zip sids ?al) k = None" if "IsReservedSequenceId k"
              using that sids al(2) by (auto simp: map_of_eq_None_iff dest: set_zip_leftD)
            then show "holds (kv_abs s2) k = holds (spec_grants (zip sids ?al) (kv_abs s)) k"
              using h [of k] spec_grants_fields(3) [of "zip sids ?al"] d gs
              by (auto simp: kv_abs_def held_pages_def p(4) split: option.split)
          qed
        qed (use spec_grants_fields(1,2) [of "zip sids ?al" "kv_abs s"] d gs i p(4,6) al(1)
             in \<open>simp_all add: kv_abs_def resident_pages_def\<close>)
        moreover have "map length ?al = map (\<lambda>t. u64 (t + page_size_tokens s - 1) div page_size_tokens s) tokens"
          using split_pages_ok(2) [OF len] req(1) popped(1) by (simp add: map2_snd)
        moreover have "distinct ps" using kv_invD(4) [OF p(1)] by (simp add: kv_free_def)
        ultimately show ?thesis using run' None i(1) d al(1) p(3) by auto
      next
        case (Some e)
        then obtain written seen where tr2: "batch_track s undo written seen s2"
          and sub: "set written \<subseteq> set ps" and act: "active_sequences s2 < 2 ^ 32"
          using ok sids d al(1) by auto
        note rb = rollback_ok [OF inv tr2 sub _ act]
        show ?thesis using run' Some rb in_flight_page [OF p(1)] by (auto simp: p(4))
      qed
    qed
  qed
qed

end
