(* ===== verification/Kv_Audit.thy ===== *)
theory Kv_Audit
  imports Kv_Batch
begin

text \<open>
  The page identity: every page of the region is free, in flight, prefix-resident or held
  by exactly one sequence. The audit counts it, and \<open>ReleaseAllSequences\<close> restores a
  region whose in-flight pages were lost.
\<close>

section \<open>Every page has one place\<close>

lemma page_places:
  assumes inv: "kv_inv F s" and p: "p < num_pages s"
  shows "int p \<in> free_pages s \<union> set F \<longleftrightarrow> page_owners s ! p = kEmptySequenceId"
    and "int p \<in> resident_pages s \<longleftrightarrow> page_owners s ! p = kPrefixResidentSequenceId"
    and "\<not> IsReservedSequenceId sid \<Longrightarrow>
         (\<exists>ps. held s sid = Some ps \<and> int p \<in> set ps) \<longleftrightarrow> page_owners s ! p = sid"
    and "IsReservedSequenceId (page_owners s ! p) \<Longrightarrow>
         page_owners s ! p = kEmptySequenceId \<or> page_owners s ! p = kPrefixResidentSequenceId"
proof -
  have "free_pages s \<union> set F = int ` {p. p < num_pages s \<and> page_owners s ! p = kEmptySequenceId}"
    using kv_invD(4) [OF inv] by (simp add: kv_free_def free_pages_def)
  then show "int p \<in> free_pages s \<union> set F \<longleftrightarrow> page_owners s ! p = kEmptySequenceId"
    using p by auto
  show "int p \<in> resident_pages s \<longleftrightarrow> page_owners s ! p = kPrefixResidentSequenceId"
    using p by (auto simp: resident_pages_def)
  show "(\<exists>ps. held s sid = Some ps \<and> int p \<in> set ps) \<longleftrightarrow> page_owners s ! p = sid"
    if sid: "\<not> IsReservedSequenceId sid"
  proof
    assume "\<exists>ps. held s sid = Some ps \<and> int p \<in> set ps"
    then show "page_owners s ! p = sid"
      using held_located [OF inv sid] located_owners(1) [OF inv sid _ p] by blast
  next
    assume o: "page_owners s ! p = sid"
    then have "held s sid \<noteq> None" using no_page_of_absent [OF inv sid _ p] by blast
    then obtain ps where h: "held s sid = Some ps" by blast
    then obtain ix where "located s sid ix ps" using held_located [OF inv sid] by blast
    then show "\<exists>ps. held s sid = Some ps \<and> int p \<in> set ps"
      using h located_owners(1) [OF inv sid _ p] o by blast
  qed
  show "page_owners s ! p = kEmptySequenceId \<or> page_owners s ! p = kPrefixResidentSequenceId"
    if r: "IsReservedSequenceId (page_owners s ! p)"
  proof (rule ccontr)
    assume no: "\<not> ?thesis"
    then obtain e where "e \<in> set (sequence_table s)" "is_live e" "sequence_id e = page_owners s ! p"
      using kv_invD(3) [OF inv] p unfolding kv_owners_def by meson
    then show False using kv_invD(2) [OF inv] r by (auto simp: kv_entries_def)
  qed
qed

section \<open>The audit\<close>

lemma distinct_filterI:
  assumes "\<And>i j. i < length xs \<Longrightarrow> j < length xs \<Longrightarrow> P (xs ! i) \<Longrightarrow> xs ! i = xs ! j \<Longrightarrow> i = j"
  shows "distinct (filter P xs)"
  using assms
proof (induction xs)
  case (Cons x xs)
  have "i = j" if "i < length xs" "j < length xs" "P (xs ! i)" "xs ! i = xs ! j" for i j
    using Cons.prems [of "Suc i" "Suc j"] that by simp
  then have "distinct (filter P xs)" using Cons.IH by blast
  moreover have "x \<notin> set xs" if "P x"
  proof
    assume "x \<in> set xs"
    then obtain j where "j < length xs" "xs ! j = x" by (auto simp: in_set_conv_nth)
    then show False using Cons.prems [of 0 "Suc j"] that by simp
  qed
  ultimately show ?case by auto
qed simp

lemma audit_table_counts:
  "audit_table es =
     (length (filter is_live es), length (filter (\<lambda>e. sequence_id e = kTombstoneSequenceId) es),
      length (filter (\<lambda>e. sequence_id e = kEmptySequenceId) es),
      sum_list (map entry_pages (filter is_live es)))"
  by (induction es) (auto simp: is_live_def)

lemma live_pages_card:
  assumes inv: "kv_inv F s"
  shows "sum_list (map entry_pages (filter is_live (sequence_table s)))
       = card {p. p < num_pages s \<and> \<not> IsReservedSequenceId (page_owners s ! p)}"
proof -
  let ?live = "filter is_live (sequence_table s)"
  let ?own = "\<lambda>e. {p. p < num_pages s \<and> page_owners s ! p = sequence_id e}"
  have len: "length (sequence_table s) = sequence_capacity s" by (rule kv_shapeD(7) [OF inv])
  have uniq: "i = j" if "i < sequence_capacity s" "j < sequence_capacity s"
    "is_live (sequence_table s ! i)" "sequence_id (sequence_table s ! i) = sequence_id (sequence_table s ! j)"
    for i j using kv_entry_unique [OF inv that] .
  have inj: "inj_on sequence_id (set ?live)"
  proof (rule inj_onI)
    fix e e' assume e: "e \<in> set ?live" "e' \<in> set ?live" "sequence_id e = sequence_id e'"
    then have "e \<in> set (sequence_table s)" "e' \<in> set (sequence_table s)" "is_live e" by simp_all
    then obtain i j where ij: "i < sequence_capacity s" "sequence_table s ! i = e"
      "j < sequence_capacity s" "sequence_table s ! j = e'" "is_live e"
      using len by (metis in_set_conv_nth)
    then have "i = j" using e(3) by (intro uniq) simp_all
    with ij show "e = e'" by simp
  qed
  have d: "distinct ?live"
    by (rule distinct_filterI) (use uniq len in metis)
  have pages: "entry_pages e = card (?own e)" if "e \<in> set ?live" for e
  proof -
    from that obtain ix where ix: "ix < sequence_capacity s" "e = sequence_table s ! ix" "is_live e"
      using len by (auto simp: in_set_conv_nth)
    obtain ps where ps: "entry_of (page_links s) e ps"
      "\<forall>p < num_pages s. page_owners s ! p = sequence_id e \<longleftrightarrow> int p \<in> set ps"
      using kv_entryD(2) [OF inv ix(1)] ix by auto
    then have c: "chain (page_links s) (head_page e) ps" by (simp add: entry_of_def)
    have "int ` ?own e = set ps"
    proof
      show "int ` ?own e \<subseteq> set ps" using ps(2) by auto
      show "set ps \<subseteq> int ` ?own e"
      proof
        fix q assume q: "q \<in> set ps"
        have "0 \<le> q" "nat q < num_pages s" using chain_range [OF c q] kv_shapeD(6) [OF inv] by auto
        then show "q \<in> int ` ?own e" using ps(2) q by (intro image_eqI [of _ _ "nat q"]) auto
      qed
    qed
    then have "card (?own e) = card (set ps)" using card_image [of int "?own e"] by simp
    also have "\<dots> = length ps" using chain_distinct [OF c] by (rule distinct_card)
    also have "\<dots> = entry_pages e" using ps(1) by (simp add: entry_of_def)
    finally show ?thesis by simp
  qed
  have "sum_list (map entry_pages ?live) = sum entry_pages (set ?live)"
    using d by (rule sum_list_distinct_conv_sum_set)
  also have "\<dots> = (\<Sum>e \<in> set ?live. card (?own e))" using pages by (intro sum.cong) auto
  also have "\<dots> = card (\<Union>e \<in> set ?live. ?own e)"
    by (rule card_UN_disjoint [symmetric]) (use inj in \<open>auto simp: inj_on_def\<close>)
  also have "(\<Union>e \<in> set ?live. ?own e) = {p. p < num_pages s \<and> \<not> IsReservedSequenceId (page_owners s ! p)}"
  proof (intro equalityI subsetI)
    fix p assume "p \<in> (\<Union>e \<in> set ?live. ?own e)"
    then show "p \<in> {p. p < num_pages s \<and> \<not> IsReservedSequenceId (page_owners s ! p)}"
      using kv_invD(2) [OF inv] by (auto simp: kv_entries_def)
  next
    fix p assume "p \<in> {p. p < num_pages s \<and> \<not> IsReservedSequenceId (page_owners s ! p)}"
    then have p: "p < num_pages s" "page_owners s ! p \<noteq> kEmptySequenceId"
      "page_owners s ! p \<noteq> kPrefixResidentSequenceId" by (auto simp: IsReservedSequenceId_def)
    then obtain e where "e \<in> set (sequence_table s)" "is_live e" "sequence_id e = page_owners s ! p"
      using kv_invD(3) [OF inv] unfolding kv_owners_def by meson
    then show "p \<in> (\<Union>e \<in> set ?live. ?own e)" using p(1) by auto
  qed
  finally show ?thesis .
qed


lemma audit_delta:
  assumes inv: "kv_inv F s"
  shows "page_identity_delta (snd (CollectAuditedStats s)) = int (length F)"
    and "live_entries (snd (CollectAuditedStats s)) = active_sequences s"
    and "num_free_pages (fst (CollectAuditedStats s)) = card (free_pages s)"
proof -
  let ?n = "num_pages s"
  let ?E = "{p. p < ?n \<and> page_owners s ! p = kEmptySequenceId}"
    and ?R = "{p. p < ?n \<and> page_owners s ! p = kPrefixResidentSequenceId}"
    and ?L = "{p. p < ?n \<and> \<not> IsReservedSequenceId (page_owners s ! p)}"
  have "{..<?n} = ?E \<union> ?R \<union> ?L" using page_places(4) [OF inv] by auto
  moreover have "card (?E \<union> ?R \<union> ?L) = card ?E + card ?R + card ?L"
  proof -
    have "?E \<inter> ?R = {}" "(?E \<union> ?R) \<inter> ?L = {}" by (auto simp: IsReservedSequenceId_def)
    then show ?thesis by (simp add: card_Un_disjoint)
  qed
  ultimately have n: "?n = card ?E + card ?R + card ?L" by (metis card_lessThan)
  have "card ?E = card (set (take (free_stack_top s) (free_stack s) @ F))"
    using kv_invD(4) [OF inv] card_image [of int ?E] by (simp add: kv_free_def)
  also have "\<dots> = free_stack_top s + length F"
    using kv_invD(4) [OF inv] kv_shapeD(4,8) [OF inv] distinct_card [of "take (free_stack_top s) (free_stack s) @ F"]
    by (simp add: kv_free_def)
  finally have e: "card ?E = free_stack_top s + length F" .
  have r: "length (filter (\<lambda>p. page_owners s ! p = kPrefixResidentSequenceId) [0..<?n]) = card ?R"
    by (subst distinct_card [symmetric]) (auto intro!: arg_cong [where f = card])
  have used: "u64_sub ?n (free_stack_top s) = ?n - free_stack_top s"
    using kv_shapeD(1,8) [OF inv] by (simp add: u64_sub_le)
  show "page_identity_delta (snd (CollectAuditedStats s)) = int (length F)"
    using n e r used live_pages_card [OF inv]
    by (simp add: CollectAuditedStats_def CollectStats_def Let_def audit_table_counts)
  show "live_entries (snd (CollectAuditedStats s)) = active_sequences s"
    using kv_shapeD(10) [OF inv] by (simp add: CollectAuditedStats_def Let_def audit_table_counts)
  show "num_free_pages (fst (CollectAuditedStats s)) = card (free_pages s)"
    using card_free_pages [OF inv]
    by (simp add: CollectAuditedStats_def CollectStats_def Let_def audit_table_counts)
qed

section \<open>Releasing every sequence\<close>

lemma release_all_listed:
  assumes "kv_inv F s" and "distinct sids"
    and "\<forall>sid \<in> set sids. \<not> IsReservedSequenceId sid \<and> held s sid \<noteq> None"
  shows "\<exists>s'. ReleaseSequences sids s = (Inr (), s') \<and> kv_inv F s'
           \<and> resident_pages s' = resident_pages s \<and> num_pages s' = num_pages s
           \<and> sequence_capacity s' = sequence_capacity s
           \<and> (\<forall>sid. \<not> IsReservedSequenceId sid \<longrightarrow>
                held s' sid = (if sid \<in> set sids then None else held s sid))"
  using assms
proof (induction sids arbitrary: s)
  case (Cons sid sids)
  have sid: "\<not> IsReservedSequenceId sid" "held s sid \<noteq> None" using Cons.prems(3) by simp_all
  obtain s1 where s1: "ReleaseSequence sid s = (Inr (), s1)" "kv_inv F s1"
    "kv_abs s1 = spec_release sid (kv_abs s)" "others_same sid s s1"
    using release_ok [OF Cons.prems(1) sid] by blast
  have "holds (kv_abs s1) sid = None" using s1(3) by (simp add: spec_release_def)
  then have h: "held s1 k = (if k = sid then None else held s k)" if "\<not> IsReservedSequenceId k" for k
    using s1(4) that sid(1) by (auto simp: kv_abs_def others_same_def)
  have "\<forall>k \<in> set sids. \<not> IsReservedSequenceId k \<and> held s1 k \<noteq> None"
    using Cons.prems(2,3) h by auto
  then obtain s' where s': "ReleaseSequences sids s1 = (Inr (), s')" "kv_inv F s'"
    "resident_pages s' = resident_pages s1" "num_pages s' = num_pages s1"
    "sequence_capacity s' = sequence_capacity s1"
    "\<forall>k. \<not> IsReservedSequenceId k \<longrightarrow> held s' k = (if k \<in> set sids then None else held s1 k)"
    using Cons.IH [OF s1(2)] Cons.prems(2) by auto
  have "resident_pages s1 = resident_pages s"
    using s1(3) by (simp add: spec_release_def kv_abs_def)
  then show ?case using s1(1,4) s' h by (auto simp: others_same_def)
qed simp

lemma live_ids_iff:
  assumes "kv_inv F s"
  shows "sid \<in> set (live_ids s) \<longleftrightarrow> \<not> IsReservedSequenceId sid \<and> held s sid \<noteq> None"
proof -
  have tab: "sid \<in> set (live_ids s) \<longleftrightarrow> (\<exists>e \<in> set (sequence_table s). is_live e \<and> sequence_id e = sid)"
    by (auto simp: live_ids_def is_live_def)
  show ?thesis
  proof
    assume "sid \<in> set (live_ids s)"
    then obtain e where e: "e \<in> set (sequence_table s)" "is_live e" "sequence_id e = sid" using tab by blast
    then have r: "\<not> IsReservedSequenceId sid" using kv_invD(2) [OF assms] by (auto simp: kv_entries_def)
    then show "\<not> IsReservedSequenceId sid \<and> held s sid \<noteq> None"
      using e held_None_iff [OF assms r] kv_shapeD(7) [OF assms] by (metis in_set_conv_nth)
  next
    assume r: "\<not> IsReservedSequenceId sid \<and> held s sid \<noteq> None"
    then obtain ix where "ix < sequence_capacity s" "sequence_id (sequence_table s ! ix) = sid"
      using held_None_iff [OF assms, of sid] by auto
    then show "sid \<in> set (live_ids s)"
      using tab r not_reserved_live kv_shapeD(7) [OF assms] by (metis nth_mem)
  qed
qed

lemma live_ids_distinct:
  assumes "kv_inv F s"
  shows "distinct (live_ids s)"
  unfolding live_ids_def
proof (rule distinct_filterI)
  fix i j
  let ?ids = "map sequence_id (sequence_table s)"
  assume "i < length ?ids" "j < length ?ids"
    "?ids ! i \<noteq> kEmptySequenceId \<and> ?ids ! i \<noteq> kTombstoneSequenceId" "?ids ! i = ?ids ! j"
  then show "i = j"
    using kv_entry_unique [OF assms, of i j] kv_shapeD(7) [OF assms] by (simp add: is_live_def)
qed

section \<open>Rebuilding the free state\<close>

definition free_ids :: "int list \<Rightarrow> nat \<Rightarrow> nat list" where
  "free_ids owners n = rev (filter (\<lambda>p. owners ! p \<noteq> kPrefixResidentSequenceId) [0..<n])"

lemma free_ids_Suc:
  "free_ids owners (Suc n) =
     (if owners ! n = kPrefixResidentSequenceId then free_ids owners n else n # free_ids owners n)"
  by (simp add: free_ids_def)

lemma free_ids_update [simp]: "n \<le> i \<Longrightarrow> free_ids (owners[i := v]) n = free_ids owners n"
  by (auto simp: free_ids_def intro!: filter_cong)

lemma rebuild_loop_ok:
  assumes "tp + n \<le> length stack" and "length stack < 2 ^ 31"
    and "n \<le> length owners" and "length links = length owners"
  shows "\<exists>stack' owners' links'.
     rebuild_loop n tp stack owners links = (tp + length (free_ids owners n), stack', owners', links')
     \<and> take (tp + length (free_ids owners n)) stack' = take tp stack @ map int (free_ids owners n)
     \<and> length stack' = length stack \<and> length owners' = length owners \<and> length links' = length owners
     \<and> (\<forall>p < length owners. owners' ! p =
          (if p < n \<and> owners ! p \<noteq> kPrefixResidentSequenceId then kEmptySequenceId else owners ! p))
     \<and> (\<forall>p < length owners. links' ! p =
          (if p < n \<and> owners ! p \<noteq> kPrefixResidentSequenceId then kInvalidPageIndex else links ! p))"
  using assms
proof (induction n arbitrary: tp stack owners links)
  case (Suc n)
  show ?case
  proof (cases "owners ! n = kPrefixResidentSequenceId")
    case True
    then have "p < Suc n \<and> owners ! p \<noteq> kPrefixResidentSequenceId \<longleftrightarrow>
        p < n \<and> owners ! p \<noteq> kPrefixResidentSequenceId" for p
      by (auto simp: less_Suc_eq)
    then show ?thesis using True Suc.IH [of tp stack owners links] Suc.prems
      by (simp add: free_ids_Suc)
  next
    case False
    let ?st = "stack[tp := int n]" and ?ow = "owners[n := kEmptySequenceId]"
      and ?li = "links[n := kInvalidPageIndex]"
    have step: "rebuild_loop (Suc n) tp stack owners links = rebuild_loop n (Suc tp) ?st ?ow ?li"
      using False Suc.prems by (simp add: u32_id to_i32_id)
    obtain stack' owners' links' where ih:
      "rebuild_loop n (Suc tp) ?st ?ow ?li = (Suc tp + length (free_ids ?ow n), stack', owners', links')"
      "take (Suc tp + length (free_ids ?ow n)) stack' = take (Suc tp) ?st @ map int (free_ids ?ow n)"
      "length stack' = length ?st" "length owners' = length ?ow" "length links' = length ?ow"
      "\<forall>p < length ?ow. owners' ! p =
          (if p < n \<and> ?ow ! p \<noteq> kPrefixResidentSequenceId then kEmptySequenceId else ?ow ! p)"
      "\<forall>p < length ?ow. links' ! p =
          (if p < n \<and> ?ow ! p \<noteq> kPrefixResidentSequenceId then kInvalidPageIndex else ?li ! p)"
      using Suc.IH [of "Suc tp" ?st ?ow ?li] Suc.prems by auto
    have "take (Suc tp) ?st = take tp stack @ [int n]" using Suc.prems by (simp add: take_Suc_update)
    then have "take (tp + length (free_ids owners (Suc n))) stack'
        = take tp stack @ map int (free_ids owners (Suc n))"
      using ih(2) False by (simp add: free_ids_Suc)
    moreover have "owners' ! p = (if p < Suc n \<and> owners ! p \<noteq> kPrefixResidentSequenceId
          then kEmptySequenceId else owners ! p)" if "p < length owners" for p
      using ih(6) that False by (cases "p = n") auto
    moreover have "links' ! p = (if p < Suc n \<and> owners ! p \<noteq> kPrefixResidentSequenceId
          then kInvalidPageIndex else links ! p)" if "p < length owners" for p
      using ih(7) that False Suc.prems(4) by (cases "p = n") auto
    ultimately show ?thesis using step ih(1,3-5) False by (simp add: free_ids_Suc)
  qed
qed (simp add: free_ids_def)

text \<open>
  The region that the rebuild leaves: that of \<open>ConstructSharedState\<close>, without the
  prefix-resident pages.
\<close>

definition fresh_but_resident :: "region \<Rightarrow> region \<Rightarrow> bool" where
  "fresh_but_resident s s' \<longleftrightarrow>
     (let fresh = ConstructSharedState (num_pages s) (page_size_tokens s) (sequence_capacity s) (region_bytes s)
      in take (free_stack_top s') (free_stack s') = filter (\<lambda>p. p \<notin> resident_pages s) (free_stack fresh)
         \<and> page_owners s' = map (\<lambda>p. if int p \<in> resident_pages s then kPrefixResidentSequenceId
                                        else page_owners fresh ! p) [0..<num_pages s]
         \<and> page_links s' = page_links fresh
         \<and> sequence_table s' = sequence_table fresh \<and> active_sequences s' = 0
         \<and> num_pages s' = num_pages s \<and> sequence_capacity s' = sequence_capacity s)"

lemma rebuild_fresh:
  assumes sh: "kv_shape s" and none: "live_ids s = []"
    and quiet: "\<And>p. p < num_pages s \<Longrightarrow> page_owners s ! p = kPrefixResidentSequenceId \<Longrightarrow>
        page_links s ! p = kInvalidPageIndex"
  shows "\<exists>s'. RebuildFreeStateLocked s = (Inr (), s') \<and> kv_shape s' \<and> fresh_but_resident s s'"
proof -
  let ?n = "num_pages s"
  have len: "length (free_stack s) = ?n" "length (page_owners s) = ?n" "length (page_links s) = ?n"
    "?n < 2 ^ 31" "0 < sequence_capacity s" using sh by (simp_all add: kv_shape_def)
  obtain stack' owners' links' where r:
     "rebuild_loop ?n 0 (free_stack s) (page_owners s) (page_links s)
        = (length (free_ids (page_owners s) ?n), stack', owners', links')"
     "take (length (free_ids (page_owners s) ?n)) stack' = map int (free_ids (page_owners s) ?n)"
     "length stack' = ?n" "length owners' = ?n" "length links' = ?n"
     "\<forall>p < ?n. owners' ! p =
          (if page_owners s ! p \<noteq> kPrefixResidentSequenceId then kEmptySequenceId else page_owners s ! p)"
     "\<forall>p < ?n. links' ! p =
          (if page_owners s ! p \<noteq> kPrefixResidentSequenceId then kInvalidPageIndex else page_links s ! p)"
    using rebuild_loop_ok [of 0 ?n "free_stack s" "page_owners s" "page_links s"] len by auto
  let ?s = "s\<lparr>free_stack := stack', free_stack_top := length (free_ids (page_owners s) ?n),
              page_owners := owners', page_links := links',
              sequence_table := replicate (sequence_capacity s) fresh_entry, active_sequences := 0\<rparr>"
  have run: "RebuildFreeStateLocked s = (Inr (), ?s)"
    using none r(1) by (simp add: RebuildFreeStateLocked_def)
  have res: "int p \<in> resident_pages s \<longleftrightarrow> p < ?n \<and> page_owners s ! p = kPrefixResidentSequenceId" for p
    by (auto simp: resident_pages_def)
  have "length (free_ids (page_owners s) ?n) \<le> ?n"
    using length_filter_le [of _ "[0..<?n]"] by (simp add: free_ids_def)
  then have "kv_shape ?s" using sh r(3-5) by (simp add: kv_shape_def)
  moreover have "map int (free_ids (page_owners s) ?n)
      = filter (\<lambda>p. p \<notin> resident_pages s) (map (\<lambda>i. to_i32 (?n - 1 - i)) [0..<?n])"
  proof -
    have "map (\<lambda>i. to_i32 (?n - 1 - i)) [0..<?n] = map int (rev [0..<?n])"
      using len(4) by (intro nth_equalityI) (simp_all add: to_i32_id rev_nth)
    then have "filter (\<lambda>p. p \<notin> resident_pages s) (map (\<lambda>i. to_i32 (?n - 1 - i)) [0..<?n])
        = map int (rev (filter ((\<lambda>p. p \<notin> resident_pages s) \<circ> int) [0..<?n]))"
      by (simp add: filter_map rev_filter)
    also have "filter ((\<lambda>p. p \<notin> resident_pages s) \<circ> int) [0..<?n]
        = filter (\<lambda>p. page_owners s ! p \<noteq> kPrefixResidentSequenceId) [0..<?n]"
      by (rule filter_cong) (auto simp: res)
    finally show ?thesis by (simp add: free_ids_def)
  qed
  moreover have "owners' = map (\<lambda>p. if int p \<in> resident_pages s then kPrefixResidentSequenceId
                                    else replicate ?n kEmptySequenceId ! p) [0..<?n]"
    using r(4,6) by (intro nth_equalityI) (auto simp: res)
  moreover have "links' = replicate ?n kInvalidPageIndex"
    using r(5,7) quiet by (intro nth_equalityI) auto
  ultimately have "fresh_but_resident s ?s"
    using r(2) len(5) by (simp add: fresh_but_resident_def ConstructSharedState_def Let_def)
  then show ?thesis using run \<open>kv_shape ?s\<close> by blast
qed

lemma fresh_but_resident_inv:
  assumes sh: "kv_shape s'" and f: "fresh_but_resident s s'" and n: "num_pages s < 2 ^ 31"
  shows "kv_inv [] s'" and "resident_pages s' = resident_pages s"
    and "free_pages s' = int ` {p. p < num_pages s} - resident_pages s"
    and "\<not> IsReservedSequenceId sid \<Longrightarrow> held s' sid = None"
proof -
  note d = f [unfolded fresh_but_resident_def Let_def]
  let ?n = "num_pages s"
  have np: "num_pages s' = num_pages s" using d by blast
  have tab: "sequence_table s' = replicate (sequence_capacity s') fresh_entry"
    using d sh by (simp add: ConstructSharedState_def kv_shape_def)
  have own: "page_owners s' ! p = (if int p \<in> resident_pages s then kPrefixResidentSequenceId
      else kEmptySequenceId)" if "p < ?n" for p
    using d that by (simp add: ConstructSharedState_def)
  have lnk: "page_links s' ! p = kInvalidPageIndex" if "p < ?n" for p
    using d that by (simp add: ConstructSharedState_def)
  have stack: "map (\<lambda>i. to_i32 (?n - 1 - i)) [0..<?n] = map int (rev [0..<?n])"
    using n by (intro nth_equalityI) (simp_all add: to_i32_id rev_nth)
  have st: "take (free_stack_top s') (free_stack s')
      = filter (\<lambda>p. p \<notin> resident_pages s) (map int (rev [0..<?n]))"
    using d stack by (simp add: ConstructSharedState_def)
  then show fr: "free_pages s' = int ` {p. p < ?n} - resident_pages s"
    by (auto simp: free_pages_def)
  have "distinct (take (free_stack_top s') (free_stack s'))"
    unfolding st by (simp add: distinct_map)
  moreover have "int ` {p. p < num_pages s' \<and> page_owners s' ! p = kEmptySequenceId}
      = int ` {p. p < ?n} - resident_pages s"
  proof -
    have "{p. p < num_pages s' \<and> page_owners s' ! p = kEmptySequenceId} = {p. p < ?n \<and> int p \<notin> resident_pages s}"
      using np own by auto
    then show ?thesis by auto
  qed
  ultimately have "kv_free [] s'" using fr by (simp add: kv_free_def free_pages_def)
  moreover have "kv_entries s'"
    using d unfolding kv_entries_def tab
    by (auto simp: is_live_def fresh_entry_def intro!: probe_inv_vacant) (auto simp: seq_cls_def)
  moreover have "kv_owners s'" using np own lnk by (simp add: kv_owners_def)
  ultimately show inv: "kv_inv [] s'" using sh by (simp add: kv_inv_def)
  have "{p. p < num_pages s' \<and> page_owners s' ! p = kPrefixResidentSequenceId} = {p. p < ?n \<and> int p \<in> resident_pages s}"
    using np own by (auto split: if_splits)
  then show "resident_pages s' = resident_pages s" by (auto simp: resident_pages_def)
  assume sid: "\<not> IsReservedSequenceId sid"
  show "held s' sid = None"
    using held_None_iff [OF inv sid] sid by (auto simp: tab fresh_entry_def IsReservedSequenceId_def)
qed

lemma release_all_ok:
  assumes inv: "kv_inv F s"
  shows "\<exists>s'. ReleaseAllSequences s = (Inr (), s') \<and> kv_inv [] s' \<and> fresh_but_resident s s'"
proof -
  obtain s1 where s1: "ReleaseSequences (live_ids s) s = (Inr (), s1)" "kv_inv F s1"
    "resident_pages s1 = resident_pages s" "num_pages s1 = num_pages s"
    "sequence_capacity s1 = sequence_capacity s"
    "\<forall>sid. \<not> IsReservedSequenceId sid \<longrightarrow>
       held s1 sid = (if sid \<in> set (live_ids s) then None else held s sid)"
    using release_all_listed [OF inv live_ids_distinct [OF inv]] live_ids_iff [OF inv] by blast
  have "live_ids s1 = []"
    using live_ids_iff [OF s1(2)] live_ids_iff [OF inv] s1(6)
    by (metis list.set_intros(1) neq_Nil_conv)
  then obtain s' where s': "RebuildFreeStateLocked s1 = (Inr (), s')" "kv_shape s'" "fresh_but_resident s1 s'"
    using rebuild_fresh [OF kv_invD(1) [OF s1(2)]] kv_invD(3) [OF s1(2)] by (auto simp: kv_owners_def)
  have "fresh_but_resident s s'"
    using s'(3) s1(3-5) by (simp add: fresh_but_resident_def ConstructSharedState_def Let_def)
  moreover have "kv_inv [] s'"
    using fresh_but_resident_inv(1) [OF s'(2,3)] kv_shapeD(1) [OF s1(2)] by simp
  ultimately show ?thesis using s1(1) s'(1) by (simp add: ReleaseAllSequences_def)
qed

section \<open>Reading the pages of a sequence\<close>

lemma sequence_pages_spec:
  assumes "kv_inv F s" and "\<not> IsReservedSequenceId sid"
  shows "SequencePages s sid max_pages =
           (case holds (kv_abs s) sid of
              None \<Rightarrow> Inl (Out_of_range ''Sequence ID not found when fetching pages'')
            | Some ps \<Rightarrow>
                (case max_pages of
                   None \<Rightarrow> Inr ps
                 | Some m \<Rightarrow> if length ps < m
                     then Inl (Out_of_range ''Requested more pages than allocated for sequence'')
                     else Inr (take m ps)))"
proof (cases "held s sid")
  case None
  then have "FindSequenceEntryLocked s sid = None"
    using kv_find_iff [OF assms] held_None_iff [OF assms] by (metis not_None_eq)
  then show ?thesis using None assms(2) by (simp add: SequencePages_def kv_abs_def)
next
  case (Some ps)
  then obtain ix where ix: "FindSequenceEntryLocked s sid = Some ix"
    "entry_of (page_links s) (sequence_table s ! ix) ps" using held_SomeE [OF assms] by metis
  then have c: "chain (page_links s) (head_page (sequence_table s ! ix)) ps"
    "entry_pages (sequence_table s ! ix) = length ps" by (simp_all add: entry_of_def)
  then show ?thesis using ix(1) Some assms(2) walk_pages_chain [OF c(1)]
    by (auto simp: SequencePages_def kv_abs_def Let_def min_def split: option.split)
qed

text \<open>The pages of a sequence are pages of the region, distinct, and of no other sequence.\<close>

lemma sequence_pages_places:
  assumes "kv_inv F s" and "\<not> IsReservedSequenceId sid" and "SequencePages s sid max_pages = Inr ps"
  shows "distinct ps" and "p \<in> set ps \<Longrightarrow> 0 \<le> p \<and> nat p < num_pages s \<and> page_owners s ! nat p = sid"
proof -
  obtain qs where qs: "held s sid = Some qs" "ps = qs \<or> (\<exists>n. ps = take n qs)"
    using assms(2,3) unfolding sequence_pages_spec [OF assms(1,2)]
    by (cases max_pages) (auto simp: kv_abs_def split: option.splits if_splits)
  obtain ix where e: "entry_of (page_links s) (sequence_table s ! ix) qs"
      "\<forall>p < num_pages s. page_owners s ! p = sid \<longleftrightarrow> int p \<in> set qs"
    using held_SomeE [OF assms(1,2) qs(1)] by metis
  have c: "chain (page_links s) (head_page (sequence_table s ! ix)) qs" using e(1) by (simp add: entry_of_def)
  show "distinct ps" using chain_distinct [OF c] qs(2) by auto
  assume "p \<in> set ps"
  then have p: "p \<in> set qs" using qs(2) by (auto dest: in_set_takeD)
  have "0 \<le> p \<and> nat p < num_pages s" using chain_range [OF c p] kv_shapeD(6) [OF assms(1)] by auto
  then show "0 \<le> p \<and> nat p < num_pages s \<and> page_owners s ! nat p = sid" using e(2) p by auto
qed

end
