(* ===== verification/Kv_Concurrent.thy ===== *)
theory Kv_Concurrent
  imports Kv_Audit "HOL-Library.Multiset"
begin

text \<open>
  Several processes on one shared region. \<open>AcquirePages\<close> and the release paths are two
  critical sections each, so other processes run between the pop of the pages and their
  attachment, or between the detachment and the push. A state is the region, the tasks that
  sit between their two sections, and the pages lost by processes that were killed there.
\<close>

section \<open>The step relation\<close>

text \<open>
  A step is one critical section, or a process killed between two of them. The sections of
  \<open>ReleaseAllSequences\<close> are those of its releases and then the rebuild, which its caller runs
  only when every worker has exited: no task is left, and the pages of killed processes are
  reclaimed. The ids that the allocator reserves for its own markers are outside the contract
  of the callers; only \<open>AcquirePages\<close> refuses them.
\<close>

datatype task =
    Popped int "int list"
  | Restoring "int list"
  | Pushing "int list"

fun task_pages :: "task \<Rightarrow> int list" where
  "task_pages (Popped sid ps) = ps"
| "task_pages (Restoring ps) = ps"
| "task_pages (Pushing ps) = ps"

record kv_world =
  shared :: region
  tasks :: "task list"
  lost :: "int list"

definition in_flight :: "kv_world \<Rightarrow> int list" where
  "in_flight w = concat (map task_pages (tasks w)) @ lost w"

inductive kv_step :: "kv_world \<Rightarrow> kv_world \<Rightarrow> bool" where
  pop: "\<lbrakk>0 < n; \<not> IsReservedSequenceId sid; acquire_pop n (shared w) = (Inr ps, s')\<rbrakk> \<Longrightarrow>
        kv_step w (w\<lparr>shared := s', tasks := Popped sid ps # tasks w\<rparr>)"
| pop_refused: "acquire_pop n (shared w) = (Inl e, s') \<Longrightarrow> kv_step w (w\<lparr>shared := s'\<rparr>)"
| attach: "\<lbrakk>tasks w = us @ Popped sid ps # vs; acquire_attach sid ps (shared w) = (Inr u, s')\<rbrakk> \<Longrightarrow>
        kv_step w (w\<lparr>shared := s', tasks := us @ vs\<rparr>)"
| attach_failed: "\<lbrakk>tasks w = us @ Popped sid ps # vs; acquire_attach sid ps (shared w) = (Inl e, s')\<rbrakk> \<Longrightarrow>
        kv_step w (w\<lparr>shared := s', tasks := us @ Restoring ps # vs\<rparr>)"
| restore: "tasks w = us @ Restoring ps # vs \<Longrightarrow>
        kv_step w (w\<lparr>shared := acquire_restore ps (shared w), tasks := us @ vs\<rparr>)"
| detach: "\<lbrakk>\<not> IsReservedSequenceId sid; release_detach sid (shared w) = (Inr ps, s')\<rbrakk> \<Longrightarrow>
        kv_step w (w\<lparr>shared := s', tasks := Pushing ps # tasks w\<rparr>)"
| detach_prefix: "\<lbrakk>\<not> IsReservedSequenceId sid; prefix_detach sid n (shared w) = (Inr ps, s')\<rbrakk> \<Longrightarrow>
        kv_step w (w\<lparr>shared := s', tasks := Pushing ps # tasks w\<rparr>)"
| detach_resident: "resident_detach ids (shared w) = (Inr u, s') \<Longrightarrow>
        kv_step w (w\<lparr>shared := s', tasks := Pushing ids # tasks w\<rparr>)"
| push: "tasks w = us @ Pushing ps # vs \<Longrightarrow>
        kv_step w (w\<lparr>shared := push_free ps (shared w), tasks := us @ vs\<rparr>)"
| batch: "\<lbrakk>\<forall>sid \<in> set sids. \<not> IsReservedSequenceId sid;
           AcquirePagesForSequences sids tokens (shared w) = (r, s')\<rbrakk> \<Longrightarrow>
        kv_step w (w\<lparr>shared := s'\<rparr>)"
| retain: "\<lbrakk>\<not> IsReservedSequenceId sid; RetainPages sid ids (shared w) = (r, s')\<rbrakk> \<Longrightarrow>
        kv_step w (w\<lparr>shared := s'\<rparr>)"
| rebuild: "\<lbrakk>tasks w = []; RebuildFreeStateLocked (shared w) = (Inr u, s')\<rbrakk> \<Longrightarrow>
        kv_step w (w\<lparr>shared := s', lost := []\<rparr>)"
| killed: "tasks w = us @ t # vs \<Longrightarrow>
        kv_step w (w\<lparr>tasks := us @ vs, lost := task_pages t @ lost w\<rparr>)"

inductive kv_reach :: "kv_world \<Rightarrow> bool" where
  start: "\<lbrakk>pages < 2 ^ 31; 0 < pages; capacity < 2 ^ 32\<rbrakk> \<Longrightarrow>
        kv_reach \<lparr>shared = ConstructSharedState pages page_tokens capacity bytes, tasks = [], lost = []\<rparr>"
| step: "\<lbrakk>kv_reach w; kv_step w w'\<rbrakk> \<Longrightarrow> kv_reach w'"

section \<open>Conservation of pages\<close>

lemma kv_inv_perm:
  assumes "mset F = mset F'"
  shows "kv_inv F s \<longleftrightarrow> kv_inv F' s"
proof -
  have "set F = set F'" "distinct F = distinct F'"
    using assms mset_eq_setD mset_eq_imp_distinct_iff by blast+
  then show ?thesis by (simp add: kv_inv_def kv_free_def)
qed

lemma RetainPages_inv:
  assumes inv: "kv_inv F s" and sid: "\<not> IsReservedSequenceId sid" and run: "RetainPages sid ids s = (r, s')"
  shows "kv_inv F s'"
proof (cases "case held s sid of None \<Rightarrow> ids \<noteq> [] | Some ps \<Rightarrow> \<not> (distinct ids \<and> set ids \<subseteq> set ps)")
  case True
  then show ?thesis using RetainPages_error [OF inv sid] run inv by fastforce
next
  case False
  then show ?thesis
  proof (cases "held s sid")
    case None
    then show ?thesis using False run inv by (simp add: RetainPages_def)
  next
    case (Some ps)
    then show ?thesis using False RetainPages_ok [OF inv sid Some, of ids] run by auto
  qed
qed

lemma release_detach_inv:
  assumes inv: "kv_inv F s" and sid: "\<not> IsReservedSequenceId sid" and run: "release_detach sid s = (Inr ps, s')"
  shows "kv_inv (ps @ F) s'"
  using release_detach_absent [OF inv sid] release_detach_ok [OF inv sid] run
  by (cases "held s sid") auto

lemma prefix_detach_inv:
  assumes inv: "kv_inv F s" and sid: "\<not> IsReservedSequenceId sid" and run: "prefix_detach sid n s = (Inr ps, s')"
  shows "kv_inv (ps @ F) s'"
proof (cases "held s sid")
  case None
  then show ?thesis using prefix_detach_absent [OF inv sid] run by simp
next
  case (Some qs)
  then show ?thesis using prefix_detach_ok [OF inv sid Some, of n] run by (auto split: if_splits)
qed

lemma rebuild_inv:
  assumes inv: "kv_inv F s" and run: "RebuildFreeStateLocked s = (Inr u, s')"
  shows "kv_inv [] s'"
proof -
  have "live_ids s = []" using run by (auto simp: RebuildFreeStateLocked_def split: if_splits)
  then have "kv_shape s' \<and> fresh_but_resident s s'"
    using rebuild_fresh [OF kv_invD(1) [OF inv]] kv_invD(3) [OF inv] run by (auto simp: kv_owners_def)
  then show ?thesis using fresh_but_resident_inv(1) [of s' s] kv_shapeD(1) [OF inv] by simp
qed

lemma kv_step_inv:
  assumes "kv_step w w'" and "\<forall>sid ps. Popped sid ps \<in> set (tasks w) \<longrightarrow> \<not> IsReservedSequenceId sid"
    and "kv_inv (in_flight w) (shared w)"
  shows "kv_inv (in_flight w') (shared w')
         \<and> (\<forall>sid ps. Popped sid ps \<in> set (tasks w') \<longrightarrow> \<not> IsReservedSequenceId sid)"
  using assms
proof (induction rule: kv_step.induct)
  case (pop n sid w ps s')
  then show ?case using acquire_pop_inv(1) [OF pop.prems(2) pop.hyps(3)] by (auto simp: in_flight_def)
next
  case (pop_refused n w e s')
  then show ?case by (auto simp: acquire_pop_def in_flight_def Let_def split: if_splits)
next
  case (attach w us sid ps vs u s')
  have "kv_inv (ps @ concat (map task_pages (us @ vs)) @ lost w) (shared w)"
    using attach.prems(2) attach.hyps(1) kv_inv_perm
      [of "in_flight w" "ps @ concat (map task_pages (us @ vs)) @ lost w"] by (simp add: in_flight_def)
  moreover have "\<not> IsReservedSequenceId sid" using attach.prems(1) attach.hyps(1) by simp
  ultimately have "kv_inv (concat (map task_pages (us @ vs)) @ lost w) s'"
    using acquire_attach_ok(1) attach.hyps(2) by blast
  then show ?case using attach.hyps(1) attach.prems(1) by (auto simp: in_flight_def)
next
  case (attach_failed w us sid ps vs e s')
  then show ?case using acquire_attach_full(1) [OF attach_failed.hyps(2)] by (auto simp: in_flight_def)
next
  case (restore w us ps vs)
  have "kv_inv (ps @ concat (map task_pages (us @ vs)) @ lost w) (shared w)"
    using restore.prems(2) restore.hyps kv_inv_perm
      [of "in_flight w" "ps @ concat (map task_pages (us @ vs)) @ lost w"] by (simp add: in_flight_def)
  then show ?case using push_free_inv(1) restore
    by (auto simp: in_flight_def acquire_restore_def Let_def)
next
  case (detach sid w ps s')
  then show ?case using release_detach_inv [OF detach.prems(2) detach.hyps] by (auto simp: in_flight_def)
next
  case (detach_prefix sid n w ps s')
  then show ?case using prefix_detach_inv [OF detach_prefix.prems(2) detach_prefix.hyps]
    by (auto simp: in_flight_def)
next
  case (detach_resident ids w u s')
  then show ?case using resident_detach_ok(1) [OF detach_resident.prems(2) detach_resident.hyps]
    by (auto simp: in_flight_def)
next
  case (push w us ps vs)
  have "kv_inv (ps @ concat (map task_pages (us @ vs)) @ lost w) (shared w)"
    using push.prems(2) push.hyps kv_inv_perm
      [of "in_flight w" "ps @ concat (map task_pages (us @ vs)) @ lost w"] by (simp add: in_flight_def)
  then show ?case using push_free_inv(1) push by (auto simp: in_flight_def)
next
  case (batch sids tokens w r s')
  then show ?case using batch_outcome [OF batch.prems(2) batch.hyps] by (auto simp: in_flight_def)
next
  case (retain sid ids w r s')
  then show ?case using RetainPages_inv [OF retain.prems(2) retain.hyps] by (auto simp: in_flight_def)
next
  case (rebuild w u s')
  then show ?case using rebuild_inv [OF rebuild.prems(2) rebuild.hyps(2)] by (simp add: in_flight_def)
next
  case (killed w us t vs)
  have "kv_inv (concat (map task_pages (us @ vs)) @ task_pages t @ lost w) (shared w)"
    using killed.prems(2) killed.hyps kv_inv_perm
      [of "in_flight w" "concat (map task_pages (us @ vs)) @ task_pages t @ lost w"]
    by (simp add: in_flight_def)
  then show ?case using killed by (auto simp: in_flight_def)
qed

lemma kv_reach_inv:
  assumes "kv_reach w"
  shows "kv_inv (in_flight w) (shared w)"
proof -
  from assms have "kv_inv (in_flight w) (shared w)
      \<and> (\<forall>sid ps. Popped sid ps \<in> set (tasks w) \<longrightarrow> \<not> IsReservedSequenceId sid)"
  proof (induction rule: kv_reach.induct)
    case (start pages capacity page_tokens bytes)
    then show ?case by (simp add: in_flight_def construct_inv)
  next
    case (step w w')
    then show ?case using kv_step_inv by blast
  qed
  then show ?thesis by blast
qed

text \<open>A process that runs alone: each public operation is a run of steps.\<close>

lemma AcquirePages_steps:
  assumes "AcquirePages sid n s = (r, s')" and "\<not> IsReservedSequenceId sid"
  shows "kv_step\<^sup>*\<^sup>* \<lparr>shared = s, tasks = [], lost = ls\<rparr> \<lparr>shared = s', tasks = [], lost = ls\<rparr>"
proof (cases "n = 0")
  case True
  then show ?thesis using assms by (simp add: AcquirePages_def)
next
  case n: False
  let ?w = "\<lambda>s ts. \<lparr>shared = s, tasks = ts, lost = ls\<rparr>"
  obtain p s1 where pop: "acquire_pop n s = (p, s1)" by fastforce
  show ?thesis
  proof (cases p)
    case (Inl e)
    then have "kv_step (?w s []) (?w s1 [])" using kv_step.pop_refused [of n "?w s []" e s1] pop by simp
    then show ?thesis using assms n pop Inl by (auto simp: AcquirePages_def)
  next
    case (Inr ps)
    then have a: "kv_step (?w s []) (?w s1 [Popped sid ps])"
      using kv_step.pop [of n sid "?w s []" ps s1] pop n assms(2) by simp
    obtain q s2 where att: "acquire_attach sid ps s1 = (q, s2)" by fastforce
    show ?thesis
    proof (cases q)
      case (Inr u)
      then have "kv_step (?w s1 [Popped sid ps]) (?w s2 [])"
        using kv_step.attach [of "?w s1 [Popped sid ps]" "[]" sid ps "[]" u s2] att by simp
      with a show ?thesis using assms n pop \<open>p = Inr ps\<close> att Inr
        by (auto simp: AcquirePages_def intro: rtranclp.rtrancl_into_rtrancl)
    next
      case (Inl e)
      then have "kv_step (?w s1 [Popped sid ps]) (?w s2 [Restoring ps])"
        using kv_step.attach_failed [of "?w s1 [Popped sid ps]" "[]" sid ps "[]" e s2] att by simp
      moreover have "kv_step (?w s2 [Restoring ps]) (?w (acquire_restore ps s2) [])"
        using kv_step.restore [of "?w s2 [Restoring ps]" "[]" ps "[]"] by simp
      ultimately show ?thesis using a assms n pop \<open>p = Inr ps\<close> att Inl
        by (auto simp: AcquirePages_def intro: rtranclp.rtrancl_into_rtrancl)
    qed
  qed
qed

inductive_cases kv_step_idle: "kv_step \<lparr>shared = s, tasks = [], lost = ls\<rparr> w'"

end
