(* ===== verification/Kv_Properties.thy ===== *)
theory Kv_Properties
  imports Kv_Concurrent
begin

text \<open>
  The properties of the host KV page allocator, each with a concrete region on which its
  hypotheses hold: \<open>kv_demo\<close>, four pages of sixteen tokens and a table of two entries, and
  the regions reached from it.
\<close>

section \<open>A small region\<close>

definition kv_demo :: region where
  "kv_demo = ConstructSharedState 4 16 2 0"

definition kv_demo_held :: region where
  "kv_demo_held = snd (AcquirePages 7 2 kv_demo)"

lemma kv_demo_inv: "kv_inv [] kv_demo"
  unfolding kv_demo_def by (rule construct_inv) simp_all

lemma small_lists:
  "replicate 4 x = [x, x, x, x]" "replicate 2 x = [x, x]"
  "claim_entry_loop t c sid g ix 2 = claim_entry_loop t c sid g ix (Suc (Suc 0))"
  "find_entry_loop t c sid ix 2 = find_entry_loop t c sid ix (Suc (Suc 0))"
  "walk_pages l 2 p = walk_pages l (Suc (Suc 0)) p"
  by (simp_all add: numeral_eq_Suc)

lemma demo_hash:
  "HashSequenceId 2 7 = 1" "HashSequenceId 2 8 = 1" "HashSequenceId 2 9 = 1"
  by (simp_all add: HashSequenceId_def Let_def)

lemma demo_hash_reserved: "HashSequenceId 2 kEmptySequenceId = 1"
  by (simp add: HashSequenceId_def Let_def kEmptySequenceId_def)

lemmas id_eval = kEmptySequenceId_def kTombstoneSequenceId_def kPrefixResidentSequenceId_def
  IsReservedSequenceId_def kInvalidPageIndex_def

lemma kv_demo_eval:
  "kv_demo = \<lparr>num_pages = 4, page_size_tokens = 16, sequence_capacity = 2,
     free_stack = [3, 2, 1, 0], free_stack_top = 4,
     page_owners = [kEmptySequenceId, kEmptySequenceId, kEmptySequenceId, kEmptySequenceId],
     page_links = [-1, -1, -1, -1], sequence_table = [fresh_entry, fresh_entry],
     active_sequences = 0, sequences_inserted = 0, sequences_released = 0,
     acquire_failures = 0, region_bytes = 0\<rparr>"
  by (simp add: kv_demo_def ConstructSharedState_def u32_def to_i32_def upt_rec Let_def
      kInvalidPageIndex_def small_lists)

lemmas acquire_eval = AcquirePages_def acquire_pop_def acquire_attach_def
  FindOrInsertSequenceEntryLocked_def attach_page_def Let_def upt_rec small_lists demo_hash
  fresh_entry_def tombstone_entry_def u32_def u64_def id_eval

lemma demo_acquire: "AcquirePages 7 2 kv_demo = (Inr [1, 0], kv_demo_held)"
  and kv_demo_held_eval:
  "kv_demo_held = \<lparr>num_pages = 4, page_size_tokens = 16, sequence_capacity = 2,
     free_stack = [3, 2, 1, 0], free_stack_top = 2,
     page_owners = [7, 7, kEmptySequenceId, kEmptySequenceId],
     page_links = [-1, 0, -1, -1],
     sequence_table = [fresh_entry,
       \<lparr>sequence_id = 7, entry_pages = 2, head_page = 1, tail_page = 0\<rparr>],
     active_sequences = 1, sequences_inserted = 1, sequences_released = 0,
     acquire_failures = 0, region_bytes = 0\<rparr>"
  by (simp_all add: kv_demo_held_def kv_demo_eval acquire_eval)

lemma demo_pages: "SequencePages kv_demo_held 7 None = Inr [1, 0]"
  by (simp add: kv_demo_held_eval SequencePages_def FindSequenceEntryLocked_def demo_hash small_lists
      fresh_entry_def id_eval Let_def)

section \<open>Acquiring pages\<close>

text \<open>
  C2. \<open>AcquirePages\<close> refines the abstract allocator on every branch. It succeeds exactly when
  enough pages are free and the sequence is known or the table has room; it then grants
  that many distinct free pages, appends them to the pages of the sequence, and changes
  nothing else. Otherwise it fails and no page and no sequence has changed.
\<close>

theorem AcquirePages_refines:
  assumes "kv_inv [] s" and "\<not> IsReservedSequenceId sid" and "0 < n"
  shows "if n \<le> card (frees (kv_abs s))
            \<and> (holds (kv_abs s) sid \<noteq> None \<or> active_sequences s < sequence_capacity s)
         then \<exists>ps s'. AcquirePages sid n s = (Inr ps, s') \<and> kv_inv [] s'
                \<and> length ps = n \<and> distinct ps \<and> set ps \<subseteq> frees (kv_abs s)
                \<and> kv_abs s' = spec_grant sid ps (kv_abs s)
         else \<exists>m s'. AcquirePages sid n s = (Inl (Runtime_error m), s') \<and> kv_inv [] s'
                \<and> kv_abs s' = kv_abs s"
proof -
  have "active_sequences s \<le> sequence_capacity s"
    using kv_shapeD(7,10) [OF assms(1)] length_filter_le [of is_live "sequence_table s"] by simp
  moreover have "frees (kv_abs s) = free_pages s" "holds (kv_abs s) sid = held s sid"
    using assms(2) by (simp_all add: kv_abs_def)
  ultimately show ?thesis
    using acquire_ok [OF assms] acquire_fails [OF assms] card_free_pages [OF assms(1)] by auto
qed

theorem AcquirePages_refines_witness:
  "\<exists>s'. AcquirePages 7 2 kv_demo = (Inr [1, 0], s') \<and> kv_inv [] s'
     \<and> kv_abs s' = spec_grant 7 [1, 0] (kv_abs kv_demo)"
proof -
  have "card (frees (kv_abs kv_demo)) = 4"
    using card_free_pages [OF kv_demo_inv] by (simp add: kv_abs_def kv_demo_eval)
  moreover have "active_sequences kv_demo < sequence_capacity kv_demo" by (simp add: kv_demo_eval)
  ultimately show ?thesis
    using AcquirePages_refines [OF kv_demo_inv, of 7 2] demo_acquire by (simp add: id_eval)
qed

text \<open>
  C8. \<open>AcquirePagesForSequences\<close> is all or nothing, and exact. For sequence ids that the
  allocator does not reserve for its markers it succeeds if and only if there is one token
  count per id, the ids are distinct, no count is zero, enough pages are free and the table
  has room for the new sequences. It then grants every sequence its pages, all of them
  distinct and free before, as if it had been granted them in turn. Otherwise the abstract
  state is the one before the call: the rollback undoes every sequence already served. The
  pages of a sequence are its tokens divided by the page size, rounded up, when that sum
  stays below 2^64; a larger count wraps, as in the source.
\<close>

theorem AcquirePagesForSequences_all_or_nothing:
  assumes "kv_inv [] s" and "\<forall>sid \<in> set sids. \<not> IsReservedSequenceId sid" and "0 < page_size_tokens s"
  shows "let needs = map (\<lambda>t. u64 (t + page_size_tokens s - 1) div page_size_tokens s) tokens in
    (if length sids = length tokens \<and> distinct sids \<and> 0 \<notin> set tokens \<and> sum_list needs \<le> card (frees (kv_abs s))
       \<and> active_sequences s + length (filter (\<lambda>sid. holds (kv_abs s) sid = None) sids) \<le> sequence_capacity s
     then \<exists>allocations s'. AcquirePagesForSequences sids tokens s = (Inr allocations, s') \<and> kv_inv [] s'
         \<and> map length allocations = needs \<and> distinct (concat allocations)
         \<and> set (concat allocations) \<subseteq> frees (kv_abs s)
         \<and> kv_abs s' = spec_grants (zip sids allocations) (kv_abs s)
     else \<exists>e s'. AcquirePagesForSequences sids tokens s = (Inl e, s') \<and> kv_inv [] s' \<and> kv_abs s' = kv_abs s)
    \<and> ((\<forall>t \<in> set tokens. t + page_size_tokens s \<le> 2 ^ 64) \<longrightarrow>
         needs = map (\<lambda>t. (t + page_size_tokens s - 1) div page_size_tokens s) tokens)"
proof -
  let ?needs = "map (\<lambda>t. u64 (t + page_size_tokens s - 1) div page_size_tokens s) tokens"
  obtain r s' where run: "AcquirePagesForSequences sids tokens s = (r, s')" by fastforce
  note out = batch_outcome [OF assms(1,2) run]
  have "filter (\<lambda>sid. holds (kv_abs s) sid = None) sids = filter (\<lambda>sid. held s sid = None) sids"
    using assms(2) by (intro filter_cong) (auto simp: kv_abs_def)
  moreover have "card (frees (kv_abs s)) = free_stack_top s" "frees (kv_abs s) = free_pages s"
    using card_free_pages [OF assms(1)] by (simp_all add: kv_abs_def)
  moreover have "?needs = map (\<lambda>t. (t + page_size_tokens s - 1) div page_size_tokens s) tokens"
    if fits: "\<forall>t \<in> set tokens. t + page_size_tokens s \<le> 2 ^ 64"
  proof -
    have "u64 (t + page_size_tokens s - 1) = t + page_size_tokens s - 1" if "t \<in> set tokens" for t
      using fits assms(3) that by (auto intro!: u64_id)
    then show ?thesis by (intro map_cong) simp_all
  qed
  ultimately show ?thesis
    using batch_succeeds_iff [OF assms(1,2), of tokens] out run unfolding Let_def by (cases r) auto
qed

lemma demo_batches:
  "AcquirePagesForSequences [7, 8] [20, 20] kv_demo = (Inr [[3, 2], [1, 0]], snd (AcquirePagesForSequences [7, 8] [20, 20] kv_demo))"
  "fst (AcquirePagesForSequences [7, 8, 9] [20, 3, 1] kv_demo) = Inl (Runtime_error ''Sequence table is full'')"
  by (simp_all add: AcquirePagesForSequences_def kv_demo_eval acquire_eval)

lemma demo_empty: "holds (kv_abs kv_demo) sid = None"
proof -
  have "held kv_demo sid = None" if "\<not> IsReservedSequenceId sid"
    using held_None_iff [OF kv_demo_inv that] that by (auto simp: kv_demo_eval less_Suc_eq numeral_2_eq_2 fresh_entry_def id_eval)
  then show ?thesis by (simp add: kv_abs_def)
qed

theorem AcquirePagesForSequences_all_or_nothing_witness:
  "(\<exists>s'. AcquirePagesForSequences [7, 8] [20, 20] kv_demo = (Inr [[3, 2], [1, 0]], s')
      \<and> kv_abs s' = spec_grants [(7, [3, 2]), (8, [1, 0])] (kv_abs kv_demo))
   \<and> (\<exists>e s'. AcquirePagesForSequences [7, 8, 9] [20, 3, 1] kv_demo = (Inl e, s') \<and> kv_abs s' = kv_abs kv_demo)"
proof -
  have "card (frees (kv_abs kv_demo)) = 4"
    using card_free_pages [OF kv_demo_inv] by (simp add: kv_abs_def kv_demo_eval)
  then show ?thesis
    using AcquirePagesForSequences_all_or_nothing [OF kv_demo_inv, of "[7, 8]" "[20, 20]"] demo_batches(1)
      AcquirePagesForSequences_all_or_nothing [OF kv_demo_inv, of "[7, 8, 9]" "[20, 3, 1]"]
    by (auto simp: demo_empty id_eval Let_def u64_def) (auto simp: kv_demo_eval)
qed

section \<open>Releasing pages\<close>

lemma kv_demo_held_inv: "kv_inv [] kv_demo_held"
proof -
  have "\<exists>ps s'. AcquirePages 7 2 kv_demo = (Inr ps, s') \<and> kv_inv [] s' \<and> length ps = 2 \<and> distinct ps
           \<and> set ps \<subseteq> free_pages kv_demo \<and> kv_abs s' = spec_grant 7 ps (kv_abs kv_demo)"
    by (rule acquire_ok [OF kv_demo_inv]) (simp_all add: id_eval kv_demo_eval)
  then show ?thesis using demo_acquire by simp
qed

lemma demo_holds: "holds (kv_abs kv_demo_held) 7 = Some [1, 0]"
  using demo_pages by (simp add: kv_abs_def held_def id_eval)

text \<open>
  C16. \<open>ReleaseSequence\<close> of a known sequence always succeeds, whatever the length of its
  chain: the sequence is gone, exactly its pages are free again, and no other sequence has
  changed. For an unknown sequence it raises \<open>out_of_range\<close> and changes nothing.
\<close>

theorem ReleaseSequence_refines:
  assumes "kv_inv [] s" and "\<not> IsReservedSequenceId sid"
  shows "if holds (kv_abs s) sid = None
         then ReleaseSequence sid s = (Inl (Out_of_range ''Sequence ID not found during release''), s)
         else \<exists>s'. ReleaseSequence sid s = (Inr (), s') \<and> kv_inv [] s'
                \<and> kv_abs s' = spec_release sid (kv_abs s)
                \<and> active_sequences s' = active_sequences s - 1"
proof -
  have "holds (kv_abs s) sid = held s sid" using assms(2) by (simp add: kv_abs_def)
  then show ?thesis
    using release_ok [OF assms] release_detach_absent [OF assms] by (auto simp: ReleaseSequence_def)
qed

theorem ReleaseSequence_refines_witness:
  "\<exists>s'. ReleaseSequence 7 kv_demo_held = (Inr (), s') \<and> kv_inv [] s'
     \<and> holds (kv_abs s') 7 = None \<and> {0, 1} \<subseteq> frees (kv_abs s')"
  using ReleaseSequence_refines [OF kv_demo_held_inv, of 7] demo_holds
  by (auto simp: id_eval spec_release_def held_pages_def)

text \<open>
  C17. \<open>ReleasePrefixPages\<close> gives back exactly the first \<open>n\<close> pages of a sequence, in order,
  and leaves the rest in place; it refuses to give back more than the sequence holds, and
  the corrupt-chain error of the source cannot occur.
\<close>

theorem ReleasePrefixPages_refines:
  assumes "kv_inv [] s" and "\<not> IsReservedSequenceId sid" and "holds (kv_abs s) sid = Some qs"
  shows "if length qs < n
         then ReleasePrefixPages sid n s =
                (Inl (Out_of_range ''Requested prefix release of more pages than owned''), s)
         else \<exists>s'. ReleasePrefixPages sid n s = (Inr (take n qs), s') \<and> kv_inv [] s'
                \<and> kv_abs s' = spec_release_prefix sid n (kv_abs s)"
proof -
  have h: "held s sid = Some qs" using assms(2,3) by (simp add: kv_abs_def)
  show ?thesis
    using release_prefix_ok [OF assms(1,2) h, of n] prefix_detach_ok [OF assms(1,2) h, of n]
    by (auto simp: ReleasePrefixPages_def not_less)
qed

theorem ReleasePrefixPages_refines_witness:
  "\<exists>s'. ReleasePrefixPages 7 1 kv_demo_held = (Inr [1], s') \<and> holds (kv_abs s') 7 = Some [0]"
  using ReleasePrefixPages_refines [OF kv_demo_held_inv _ demo_holds, of 1] demo_holds
  by (auto simp: id_eval spec_release_prefix_def held_pages_def)

text \<open>
  C15. \<open>RetainPages\<close> moves distinct pages of a sequence to the prefix cache: they leave the
  sequence, keep the order of the others, and become resident, so that no later release of
  the sequence frees them. Any other request is refused and changes nothing.
\<close>

theorem RetainPages_refines:
  assumes "kv_inv [] s" and "\<not> IsReservedSequenceId sid" and "holds (kv_abs s) sid = Some ps"
  shows "if distinct ids \<and> set ids \<subseteq> set ps
         then \<exists>s'. RetainPages sid ids s = (Inr ids, s') \<and> kv_inv [] s'
                \<and> kv_abs s' = spec_retain sid ids (kv_abs s)
         else \<exists>e. RetainPages sid ids s = (Inl e, s)"
proof -
  have h: "held s sid = Some ps" using assms(2,3) by (simp add: kv_abs_def)
  show ?thesis
  proof (cases "distinct ids \<and> set ids \<subseteq> set ps")
    case True
    then obtain s' where s': "RetainPages sid ids s = (Inr ids, s')" "kv_inv [] s'"
      "held s' sid = Some (filter (\<lambda>p. p \<notin> set ids) ps)" "others_same sid s s'"
      "free_stack s' = free_stack s" "free_stack_top s' = free_stack_top s"
      "resident_pages s' = resident_pages s \<union> set ids"
      using RetainPages_ok [OF assms(1,2) h] by blast
    have "kv_abs s' = spec_retain sid ids (kv_abs s)"
      using kv_abs_eqI [OF s'(4) assms(2) s'(3) s'(7), of "free_pages s"] s'(5,6) h assms(2)
      by (simp add: free_pages_def spec_retain_def held_pages_abs) (simp add: kv_abs_def free_pages_def)
    then show ?thesis using True s'(1,2) by auto
  next
    case False
    then show ?thesis using RetainPages_error [OF assms(1,2), of ids] h by auto
  qed
qed

theorem RetainPages_refines_witness:
  "\<exists>s'. RetainPages 7 [1] kv_demo_held = (Inr [1], s') \<and> kv_inv [] s'
     \<and> holds (kv_abs s') 7 = Some [0] \<and> 1 \<in> residents (kv_abs s')"
  using RetainPages_refines [OF kv_demo_held_inv _ demo_holds, of "[1]"] demo_holds
  by (auto simp: id_eval spec_retain_def held_pages_def)

text \<open>
  C18. \<open>ReleaseResidentPages\<close> frees distinct resident pages and touches no sequence; a list
  that repeats a page, or names a page that is not resident, is refused as a whole.
\<close>

theorem ReleaseResidentPages_refines:
  assumes "kv_inv [] s"
  shows "if distinct ids \<and> set ids \<subseteq> residents (kv_abs s)
         then \<exists>s'. ReleaseResidentPages ids s = (Inr (), s') \<and> kv_inv [] s'
                \<and> kv_abs s' = spec_release_resident ids (kv_abs s)
         else \<exists>e. ReleaseResidentPages ids s = (Inl e, s)"
  using release_resident_ok [OF assms, of ids] by (simp add: kv_abs_def)

theorem ReleaseResidentPages_refines_witness:
  "\<exists>s' s''. RetainPages 7 [1] kv_demo_held = (Inr [1], s') \<and> ReleaseResidentPages [1] s' = (Inr (), s'')
     \<and> 1 \<in> frees (kv_abs s'')"
proof -
  have "held kv_demo_held 7 = Some [1, 0]" using demo_holds by (simp add: kv_abs_def id_eval)
  then obtain s' where s': "RetainPages 7 [1] kv_demo_held = (Inr [1], s')" "kv_inv [] s'"
    "resident_pages s' = resident_pages kv_demo_held \<union> {1}"
    using RetainPages_ok [OF kv_demo_held_inv, of 7 "[1, 0]" "[1]"] by (auto simp: id_eval)
  then show ?thesis
    using ReleaseResidentPages_refines [OF s'(2), of "[1]"]
    by (auto simp: kv_abs_def spec_release_resident_def)
qed

section \<open>Several processes\<close>

text \<open>
  C1. Conservation of pages under concurrency. Whatever way the critical sections of any
  number of processes interleave, for sequence ids other than the two reserved markers, and
  wherever processes are killed between their sections,
  every page of the region is in exactly one place: on the free stack, in the hands of one
  process, lost with a killed one, resident for the prefix cache, or in the chain of exactly
  one sequence. In particular no page is ever handed out twice.
\<close>

theorem pages_conserved:
  assumes "kv_reach w" and "p < num_pages (shared w)"
  shows "distinct (take (free_stack_top (shared w)) (free_stack (shared w)) @ in_flight w) \<and>
        (if int p \<in> free_pages (shared w) \<union> set (in_flight w)
         then int p \<notin> resident_pages (shared w)
              \<and> (\<nexists>sid ps. holds (kv_abs (shared w)) sid = Some ps \<and> int p \<in> set ps)
         else if int p \<in> resident_pages (shared w)
         then (\<nexists>sid ps. holds (kv_abs (shared w)) sid = Some ps \<and> int p \<in> set ps)
         else (\<exists>!sid. \<exists>ps. holds (kv_abs (shared w)) sid = Some ps \<and> int p \<in> set ps))"
    (is "?D \<and> ?P")
proof (rule conjI)
  note inv = kv_reach_inv [OF assms(1)]
  show ?D
    using kv_invD(4) [OF inv] by (simp add: kv_free_def)
  let ?o = "page_owners (shared w) ! p"
  have own: "(\<exists>ps. holds (kv_abs (shared w)) sid = Some ps \<and> int p \<in> set ps) \<longleftrightarrow>
      \<not> IsReservedSequenceId sid \<and> ?o = sid" for sid
    using page_places(3) [OF inv assms(2), of sid] by (auto simp: kv_abs_def)
  show ?P
    unfolding page_places(1,2) [OF inv assms(2)] own
    using page_places(4) [OF inv assms(2)] by (auto simp: IsReservedSequenceId_def)
qed

definition kv_demo_world :: kv_world where
  "kv_demo_world = \<lparr>shared = kv_demo\<lparr>free_stack_top := 2\<rparr>, tasks = [Popped 7 [1, 0]], lost = []\<rparr>"

lemma kv_demo_reach: "kv_reach kv_demo_world"
proof -
  have "kv_reach \<lparr>shared = kv_demo, tasks = [], lost = []\<rparr>"
    unfolding kv_demo_def by (rule kv_reach.start) simp_all
  moreover have "kv_step \<lparr>shared = kv_demo, tasks = [], lost = []\<rparr> kv_demo_world"
    using kv_step.pop [of 2 7 "\<lparr>shared = kv_demo, tasks = [], lost = []\<rparr>" "[1, 0]" "kv_demo\<lparr>free_stack_top := 2\<rparr>"]
    by (simp add: kv_demo_world_def kv_demo_eval acquire_pop_def Let_def upt_rec id_eval)
  ultimately show ?thesis by (rule kv_reach.step)
qed

theorem pages_conserved_witness:
  "\<nexists>sid ps. holds (kv_abs (shared kv_demo_world)) sid = Some ps \<and> 1 \<in> set ps"
  using pages_conserved [OF kv_demo_reach, of 1]
  by (simp add: kv_demo_world_def in_flight_def kv_demo_eval)

text \<open>
  C19. The audit under concurrency. At any moment, \<open>page_identity_delta\<close> is the number of pages
  that processes hold between their critical sections or have lost there: never negative, and
  zero when no process is between its sections and none was killed there. The live entries the
  audit counts are the active sequences of the header.
\<close>

theorem audit_measures_in_flight:
  assumes "kv_reach w"
  shows "page_identity_delta (snd (CollectAuditedStats (shared w))) = int (length (in_flight w))
         \<and> live_entries (snd (CollectAuditedStats (shared w))) = active_sequences (shared w)"
  using audit_delta(1,2) [OF kv_reach_inv [OF assms]] by simp

theorem audit_measures_in_flight_witness:
  "page_identity_delta (snd (CollectAuditedStats (shared kv_demo_world))) = 2"
  using audit_measures_in_flight [OF kv_demo_reach] by (simp add: kv_demo_world_def in_flight_def)

text \<open>
  C11. Recovery. In any reachable state in which no process is between its sections,
  \<open>ReleaseAllSequences\<close> succeeds and leaves the region of \<open>ConstructSharedState\<close> less the
  prefix-resident pages: the same free stack order, owners, links, table and counters. Pages
  lost with killed processes are free again.
\<close>

theorem ReleaseAllSequences_recovers:
  assumes "kv_reach w" and "tasks w = []"
  shows "\<exists>s'. ReleaseAllSequences (shared w) = (Inr (), s') \<and> kv_inv [] s'
           \<and> fresh_but_resident (shared w) s'
           \<and> set (lost w) \<subseteq> free_pages s'"
proof -
  note inv = kv_reach_inv [OF assms(1)]
  obtain s' where s': "ReleaseAllSequences (shared w) = (Inr (), s')" "kv_inv [] s'"
    "fresh_but_resident (shared w) s'"
    using release_all_ok [OF inv] by blast
  have fr: "free_pages s' = int ` {p. p < num_pages (shared w)} - resident_pages (shared w)"
    by (rule fresh_but_resident_inv(3) [OF kv_invD(1) [OF s'(2)] s'(3) kv_shapeD(1) [OF inv]])
  have "q \<in> free_pages s'" if "q \<in> set (lost w)" for q
  proof -
    have "q \<in> set (in_flight w)" using that by (simp add: in_flight_def)
    note q = in_flight_page [OF inv this]
    have "q \<notin> resident_pages (shared w)" using q by (auto simp: resident_pages_def)
    moreover have "q \<in> int ` {p. p < num_pages (shared w)}"
      using q by (intro image_eqI [of _ _ "nat q"]) auto
    ultimately show ?thesis by (simp add: fr)
  qed
  then show ?thesis using s' by blast
qed

theorem ReleaseAllSequences_recovers_witness:
  "\<exists>s'. ReleaseAllSequences (kv_demo\<lparr>free_stack_top := 2\<rparr>) = (Inr (), s') \<and> {0, 1} \<subseteq> free_pages s'"
proof -
  let ?w = "\<lparr>shared = kv_demo\<lparr>free_stack_top := 2\<rparr>, tasks = [], lost = [1, 0]\<rparr>"
  have "kv_step kv_demo_world ?w"
    using kv_step.killed [of kv_demo_world "[]" "Popped 7 [1, 0]" "[]"] by (simp add: kv_demo_world_def)
  then have "kv_reach ?w" using kv_demo_reach kv_reach.step by blast
  then show ?thesis using ReleaseAllSequences_recovers [of ?w] by auto
qed

section \<open>Requests outside the contract\<close>

lemma demo_reserved_steps:
  "batch_requirements 16 [] [(kEmptySequenceId, 20)] 0 = Inr ([2], 2)"
  "sequence_id (tab ! Suc 0) = kEmptySequenceId \<Longrightarrow>
     claim_entry_loop tab 2 kEmptySequenceId None (Suc 0) 2 = Some (Suc 0, False)"
  by (simp_all add: u64_def Let_def small_lists)

definition kv_demo_leaked :: region where
  "kv_demo_leaked = kv_demo\<lparr>free_stack_top := 2, page_links := [-1, 0, -1, -1],
     sequence_table := [fresh_entry, fresh_entry\<lparr>entry_pages := 2, head_page := 1, tail_page := 0\<rparr>]\<rparr>"

lemma demo_reserved:
  "AcquirePagesForSequences [kEmptySequenceId] [20] kv_demo = (Inr [[1, 0]], kv_demo_leaked)"
  by (simp add: AcquirePagesForSequences_def kv_demo_leaked_def kv_demo_eval demo_reserved_steps
      demo_hash_reserved Let_def upt_rec FindOrInsertSequenceEntryLocked_def attach_page_def u32_def
      u64_def kInvalidPageIndex_def fresh_entry_def del: batch_requirements.simps)

lemma demo_leaked_audit: "page_identity_delta (snd (CollectAuditedStats kv_demo_leaked)) = 2"
proof -
  have "filter (\<lambda>p. [kEmptySequenceId, kEmptySequenceId, kEmptySequenceId, kEmptySequenceId] ! p
          = kPrefixResidentSequenceId) [0..<4] = []" by (simp add: upt_rec)
  moreover have "u64_sub 4 2 = 2" by (simp add: u64_sub_def)
  ultimately show ?thesis
    by (simp add: kv_demo_leaked_def CollectAuditedStats_def CollectStats_def kv_demo_eval
        fresh_entry_def Let_def)
qed

text \<open>
  \<open>AcquirePages\<close> refuses the reserved ids, but \<open>AcquirePagesForSequences\<close> does not check
  for them. Asked to serve the id that marks an empty entry, it takes an empty entry for an
  existing one and hangs the pages on it: no page is in flight, yet the audit finds two pages
  that no sequence owns, and the sequence counter has not moved.
\<close>

lemma batch_accepts_reserved_id:
  "case AcquirePagesForSequences [kEmptySequenceId] [20] kv_demo of
     (r, s') \<Rightarrow> r = Inr [[1, 0]] \<and> page_identity_delta (snd (CollectAuditedStats s')) = 2
       \<and> active_sequences s' = 0
       \<and> fst (AcquirePages kEmptySequenceId 2 kv_demo)
           = Inl (Invalid_argument ''Sequence ID is reserved by HostPagedKV'')"
  by (simp add: demo_reserved demo_leaked_audit AcquirePages_def IsReservedSequenceId_def)
     (simp add: kv_demo_leaked_def kv_demo_eval)

text \<open>
  The sum that rounds tokens up to pages wraps at 64 bits before the overflow check of
  \<open>AcquirePagesForSequences\<close> sees it: a request for the largest token count is granted with no
  page at all.
\<close>

lemma batch_rounding_wraps:
  "fst (AcquirePagesForSequences [7] [2 ^ 64 - 1] kv_demo) = Inr [[]]"
  by (simp add: AcquirePagesForSequences_def kv_demo_eval acquire_eval)

text \<open>
  C20. The page walks end. In every region with the invariant, under any number of pages in flight,
  the three walks over the links of a known sequence reach the end of its chain after as many steps
  as its entry counts pages, and that is never more than the region has pages: the bound on the
  walks of the model is not a restriction.
\<close>

theorem page_walks_end:
  assumes "kv_inv F s" and "\<not> IsReservedSequenceId sid" and "FindSequenceEntryLocked s sid = Some ix"
  shows "entry_pages (sequence_table s ! ix) \<le> num_pages s
    \<and> detach_chain (entry_pages (sequence_table s ! ix)) (head_page (sequence_table s ! ix)) (page_owners s) (page_links s) \<noteq> None
    \<and> count_found (entry_pages (sequence_table s ! ix)) (page_links s) page_ids (head_page (sequence_table s ! ix)) \<noteq> None
    \<and> unlink_walk (entry_pages (sequence_table s ! ix)) page_ids kInvalidPageIndex (head_page (sequence_table s ! ix))
        (sequence_table s ! ix) (page_owners s) (page_links s) \<noteq> None"
proof -
  let ?e = "sequence_table s ! ix"
  have ix: "ix < sequence_capacity s" "sequence_id ?e = sid" using kv_find_iff [OF assms(1,2)] assms(3) by auto
  then have "is_live ?e" using not_reserved_live assms(2) by (simp add: is_live_def IsReservedSequenceId_def)
  then obtain ps where e: "entry_of (page_links s) ?e ps" using kv_entryD(2) [OF assms(1) ix(1)] by blast
  then have c: "chain (page_links s) (head_page ?e) ps" "entry_pages ?e = length ps" by (simp_all add: entry_of_def)
  have len: "length ps \<le> num_pages s" "num_pages s < 2 ^ 31"
    using chain_length [OF c(1)] kv_shapeD [OF assms(1)] by simp_all
  have "unlink_walk (length ps) page_ids (last_page []) (first_page ps) ?e (page_owners s) (page_links s) \<noteq> None"
    using unlink_walk_chain [of "page_links s" ?e "[]" ps "length ps" page_ids "page_owners s"] e len by force
  then show ?thesis
    using detach_chain_chain [OF c(1) le_refl] count_found_chain [OF c(1) le_refl] chain_first [OF c(1)] c(2) len(1)
    by (simp add: last_page_def)
qed

theorem page_walks_end_witness:
  "detach_chain 2 1 (page_owners kv_demo_held) (page_links kv_demo_held) \<noteq> None"
proof -
  have "FindSequenceEntryLocked kv_demo_held 7 = Some 1"
    by (simp add: kv_demo_held_eval FindSequenceEntryLocked_def demo_hash small_lists id_eval)
  then show ?thesis using page_walks_end [OF kv_demo_held_inv, of 7 1] by (simp add: kv_demo_held_eval id_eval)
qed

end
