(* ===== verification/Weight_Slots.thy ===== *)
theory Weight_Slots
  imports Prelude
begin

text \<open>
  The slot table of the GPU weight ring (\<open>GPU_Weight_Buffer/weight_slot_table.h\<close>), one
  definition per method of \<open>WeightSlotTable\<close>. The unordered maps that the code iterates
  over are association lists in iteration order; the maps it only looks up are HOL maps;
  the ordered set of pending skips is a set. Pass ids are \<open>int\<close> (they count forwards, one
  at a time, from 1). A method that can throw returns a result and the table it leaves;
  \<open>cursors_.at\<close> on an unknown type is the \<open>Out_of_range\<close> error of \<open>std::unordered_map::at\<close>.
\<close>

section \<open>Data\<close>

datatype WeightSlotState = kFree | kFilling | kPresent | kLeased | kPendingRelease

datatype WeightSkipOutcome = kFreedPresent | kReleaseOnLanding | kPending

record WeightSkipCounts =
  freed_present :: nat
  release_on_landing_count :: nat
  pending_count :: nat

datatype WeightProduction = kNone | kParked | kCopy | kSkip

datatype WeightLeaseCheck = kReady | kWait

record Slot =
  slot_state :: WeightSlotState
  slot_name :: string
  slot_pass :: int
  release_on_landing :: bool

definition free_slot :: Slot where
  "free_slot = \<lparr>slot_state = kFree, slot_name = [], slot_pass = 0, release_on_landing = False\<rparr>"

type_synonym SlotRef = "string \<times> int"

record HeldSlot =
  held_type :: string
  held_index :: int
  held_name :: string
  held_state :: WeightSlotState
  held_pass :: int

record Cursor =
  cursor_pass :: int
  cursor_position :: nat

definition start_cursor :: Cursor where
  "start_cursor = \<lparr>cursor_pass = 1, cursor_position = 0\<rparr>"

record Production =
  prod_kind :: WeightProduction
  prod_pass :: int
  prod_position :: nat
  prod_name :: string

record PassCounts =
  copied :: nat
  skipped :: nat
  released_on_landing :: nat

definition no_counts :: PassCounts where
  "no_counts = \<lparr>copied = 0, skipped = 0, released_on_landing = 0\<rparr>"

record PassSummary =
  summary_pass :: int
  by_type :: "string \<Rightarrow> PassCounts option"
  carried :: nat

record AbortCounts =
  aborted_passes :: nat
  aborted_skips :: nat
  freed :: "WeightSlotState \<Rightarrow> nat"

type_synonym type_counts = "string \<Rightarrow> PassCounts option"

record WeightSlotTable =
  wt_slots :: "(string \<times> Slot list) list"
  wt_index :: "string \<times> int \<Rightarrow> SlotRef option"
  wt_pending_skips :: "(int \<times> string) set"
  wt_installed :: "string \<Rightarrow> (string \<times> nat) option"
  wt_lists :: "(string \<times> string list) list"
  wt_cursors :: "string \<Rightarrow> Cursor option"
  wt_open_passes :: "int list"
  wt_next_pass :: int
  wt_pass_counts :: "int \<Rightarrow> type_counts option"
  wt_schedule_lost :: bool

definition empty_table :: WeightSlotTable where
  "empty_table =
     \<lparr>wt_slots = [], wt_index = Map.empty, wt_pending_skips = {}, wt_installed = Map.empty,
      wt_lists = [], wt_cursors = Map.empty, wt_open_passes = [], wt_next_pass = 1,
      wt_pass_counts = Map.empty, wt_schedule_lost = False\<rparr>"

definition kMaxOpenPasses :: nat where
  "kMaxOpenPasses = 2"

section \<open>Private helpers\<close>

definition type_slots :: "WeightSlotTable \<Rightarrow> string \<Rightarrow> Slot list option" where
  "type_slots t module_type = map_of (wt_slots t) module_type"

definition slot_at :: "WeightSlotTable \<Rightarrow> string \<Rightarrow> int \<Rightarrow> Slot result" where
  "slot_at t module_type i =
     (case type_slots t module_type of
        None \<Rightarrow> Inl (Runtime_error ''Invalid weight-buffer slot'')
      | Some slots \<Rightarrow>
          if i < 0 \<or> int (length slots) \<le> i
          then Inl (Runtime_error ''Invalid weight-buffer slot'')
          else Inr (slots ! nat i))"

text \<open>Writing through the reference that \<open>slot_at\<close> returned.\<close>

definition set_slot :: "string \<Rightarrow> int \<Rightarrow> Slot \<Rightarrow> WeightSlotTable \<Rightarrow> WeightSlotTable" where
  "set_slot module_type i slot t =
     (case type_slots t module_type of
        None \<Rightarrow> t
      | Some slots \<Rightarrow> t\<lparr>wt_slots := assoc_put module_type (slots[nat i := slot]) (wt_slots t)\<rparr>)"

definition unindex :: "string \<Rightarrow> int \<Rightarrow> WeightSlotTable \<Rightarrow> WeightSlotTable" where
  "unindex module_type i t =
     (case slot_at t module_type i of
        Inl _ \<Rightarrow> t
      | Inr slot \<Rightarrow>
          if slot_name slot = [] then t
          else if wt_index t (slot_name slot, slot_pass slot) = Some (module_type, i)
          then t\<lparr>wt_index := (wt_index t)((slot_name slot, slot_pass slot) := None)\<rparr>
          else t)"

definition cursor_at :: "WeightSlotTable \<Rightarrow> string \<Rightarrow> Cursor result" where
  "cursor_at t module_type =
     (case wt_cursors t module_type of
        None \<Rightarrow> Inl (Out_of_range ''unordered_map::at'')
      | Some c \<Rightarrow> Inr c)"

definition advance :: "string \<Rightarrow> WeightSlotTable \<Rightarrow> unit result \<times> WeightSlotTable" where
  "advance module_type t =
     (case cursor_at t module_type of
        Inl e \<Rightarrow> (Inl e, t)
      | Inr c \<Rightarrow>
          (case map_of (wt_lists t) module_type of
             None \<Rightarrow> (Inl (Out_of_range ''unordered_map::at''), t)
           | Some names \<Rightarrow>
               let c1 = c\<lparr>cursor_position := cursor_position c + 1\<rparr>;
                   c2 = (if length names \<le> cursor_position c1
                         then \<lparr>cursor_pass = cursor_pass c1 + 1, cursor_position = 0\<rparr> else c1)
               in (Inr (), t\<lparr>wt_cursors := (wt_cursors t)(module_type \<mapsto> c2)\<rparr>)))"

definition moved_past :: "Cursor \<Rightarrow> int \<Rightarrow> nat \<Rightarrow> bool" where
  "moved_past c pass position \<longleftrightarrow>
     cursor_pass c > pass \<or> cursor_pass c = pass \<and> cursor_position c > position"

definition produced :: "WeightSlotTable \<Rightarrow> string \<Rightarrow> int \<Rightarrow> nat \<Rightarrow> bool result" where
  "produced t module_type pass position =
     (case cursor_at t module_type of
        Inl e \<Rightarrow> Inl e
      | Inr c \<Rightarrow> Inr (moved_past c pass position))"

definition require_schedule_aligned :: "WeightSlotTable \<Rightarrow> unit result" where
  "require_schedule_aligned t =
     (if wt_schedule_lost t
      then Inl (Runtime_error ''weight schedule lost alignment with the node daemon'')
      else Inr ())"

definition require_no_open_pass :: "WeightSlotTable \<Rightarrow> unit result" where
  "require_no_open_pass t =
     (if wt_open_passes t \<noteq> [] then Inl (Runtime_error ''weight passes are open'') else Inr ())"

definition current_pass :: "WeightSlotTable \<Rightarrow> int option" where
  "current_pass t = (case wt_open_passes t of [] \<Rightarrow> None | p # _ \<Rightarrow> Some p)"

definition is_open :: "WeightSlotTable \<Rightarrow> int \<Rightarrow> bool" where
  "is_open t pass \<longleftrightarrow> pass \<in> set (wt_open_passes t)"

definition require_current_pass :: "WeightSlotTable \<Rightarrow> int result" where
  "require_current_pass t =
     (case current_pass t of
        None \<Rightarrow> Inl (Runtime_error ''no weight pass is open'')
      | Some p \<Rightarrow> Inr p)"

definition require_open :: "WeightSlotTable \<Rightarrow> int \<Rightarrow> unit result" where
  "require_open t pass =
     (if is_open t pass then Inr () else Inl (Runtime_error ''weight pass is not open''))"

definition require_installed :: "WeightSlotTable \<Rightarrow> string \<Rightarrow> (string \<times> nat) result" where
  "require_installed t module_name =
     (case wt_installed t module_name of
        None \<Rightarrow> Inl (Runtime_error ''it is not an installed weight copy task'')
      | Some x \<Rightarrow> Inr x)"

text \<open>
  Every slot that is not free. The code sorts the types first; only emptiness, counts and
  membership of the result are ever used outside messages.
\<close>

definition held_of_type :: "string \<Rightarrow> Slot list \<Rightarrow> HeldSlot list" where
  "held_of_type module_type slots =
     map (\<lambda>i. \<lparr>held_type = module_type, held_index = int i, held_name = slot_name (slots ! i),
               held_state = slot_state (slots ! i), held_pass = slot_pass (slots ! i)\<rparr>)
       (filter (\<lambda>i. slot_state (slots ! i) \<noteq> kFree) [0..<length slots])"

definition held_slots :: "WeightSlotTable \<Rightarrow> HeldSlot list" where
  "held_slots t = concat (map (\<lambda>(module_type, slots). held_of_type module_type slots) (wt_slots t))"

definition transition_error :: cpp_error where
  "transition_error = Runtime_error ''Illegal weight-buffer transition''"

definition consumed_error :: cpp_error where
  "consumed_error = Runtime_error ''it was already consumed''"

definition skipped_error :: cpp_error where
  "skipped_error = Runtime_error ''it is skipped''"

section \<open>Layout\<close>

fun unindex_all :: "string \<Rightarrow> nat \<Rightarrow> WeightSlotTable \<Rightarrow> WeightSlotTable" where
  "unindex_all module_type 0 t = t"
| "unindex_all module_type (Suc n) t = unindex module_type (int n) (unindex_all module_type n t)"

text \<open>
  A count is an \<open>int64_t\<close>. The cast of a negative one to \<open>size_t\<close> exceeds the largest size of a
  vector, so that \<open>assign\<close> throws a \<open>length_error\<close>, a \<open>logic_error\<close>, after \<open>slots_[module_type]\<close> has
  made an empty list for an unknown type. The memory for a non-negative count is not a concern here.
\<close>

definition reset_type :: "string \<Rightarrow> int \<Rightarrow> WeightSlotTable \<Rightarrow> unit result \<times> WeightSlotTable" where
  "reset_type module_type count t =
     (case require_no_open_pass t of
        Inl e \<Rightarrow> (Inl e, t)
      | Inr _ \<Rightarrow>
          let t1 = (case type_slots t module_type of
                      None \<Rightarrow> t
                    | Some slots \<Rightarrow> unindex_all module_type (length slots) t)
          in if count < 0
             then (Inl (Logic_error ''length_error''),
                   case type_slots t1 module_type of
                     None \<Rightarrow> t1\<lparr>wt_slots := assoc_put module_type [] (wt_slots t1)\<rparr>
                   | Some _ \<Rightarrow> t1)
             else (Inr (), t1\<lparr>wt_slots := assoc_put module_type (replicate (nat count) free_slot) (wt_slots t1)\<rparr>))"

definition grow_type :: "string \<Rightarrow> int \<Rightarrow> WeightSlotTable \<Rightarrow> WeightSlotTable" where
  "grow_type module_type count t =
     (let slots = (case type_slots t module_type of None \<Rightarrow> [] | Some xs \<Rightarrow> xs) in
      t\<lparr>wt_slots := assoc_put module_type
          (if int (length slots) < count then slots @ replicate (nat count - length slots) free_slot else slots)
          (wt_slots t)\<rparr>)"

definition slot_count :: "WeightSlotTable \<Rightarrow> string \<Rightarrow> nat" where
  "slot_count t module_type = (case type_slots t module_type of None \<Rightarrow> 0 | Some xs \<Rightarrow> length xs)"

fun install_names ::
  "string \<Rightarrow> nat \<Rightarrow> string list \<Rightarrow> (string \<Rightarrow> (string \<times> nat) option)
     \<Rightarrow> (string \<Rightarrow> (string \<times> nat) option) result" where
  "install_names module_type position [] installed = Inr installed"
| "install_names module_type position (n # ns) installed =
     (case installed n of
        None \<Rightarrow> install_names module_type (Suc position) ns (installed(n \<mapsto> (module_type, position)))
      | Some (other, _) \<Rightarrow>
          if other \<noteq> module_type
          then Inl (Runtime_error ''Weight copy task is installed for two types'')
          else Inl (Runtime_error ''Weight copy task is installed twice''))"

fun install_tasks ::
  "(string \<times> string list) list \<Rightarrow> (string \<Rightarrow> (string \<times> nat) option)
     \<Rightarrow> (string \<Rightarrow> (string \<times> nat) option) result" where
  "install_tasks [] installed = Inr installed"
| "install_tasks ((module_type, names) # tasks) installed =
     (case install_names module_type 0 names installed of
        Inl e \<Rightarrow> Inl e
      | Inr installed' \<Rightarrow> install_tasks tasks installed')"

definition install ::
  "(string \<times> string list) list \<Rightarrow> WeightSlotTable \<Rightarrow> unit result \<times> WeightSlotTable" where
  "install tasks t =
     (case require_schedule_aligned t of
        Inl e \<Rightarrow> (Inl e, t)
      | Inr _ \<Rightarrow>
          (case require_no_open_pass t of
             Inl e \<Rightarrow> (Inl e, t)
           | Inr _ \<Rightarrow>
               (case install_tasks tasks Map.empty of
                  Inl e \<Rightarrow> (Inl e, t)
                | Inr installed \<Rightarrow>
                    if held_slots t \<noteq> []
                    then (Inl (Runtime_error ''Cannot install weight copy tasks while slots are held''), t)
                    else
                      (Inr (),
                       t\<lparr>wt_installed := installed, wt_lists := tasks,
                         wt_cursors := (\<lambda>m. if m \<in> fst ` set tasks then Some start_cursor else None),
                         wt_pending_skips := {}, wt_pass_counts := Map.empty,
                         wt_next_pass := 1\<rparr>))))"

section \<open>Passes\<close>

definition begin_pass :: "WeightSlotTable \<Rightarrow> int result \<times> WeightSlotTable" where
  "begin_pass t =
     (case require_schedule_aligned t of
        Inl e \<Rightarrow> (Inl e, t)
      | Inr _ \<Rightarrow>
          if wt_installed t = Map.empty then (Inr 0, t)
          else if length (wt_open_passes t) \<ge> kMaxOpenPasses
          then (Inl (Runtime_error ''Cannot begin weight pass: passes are already open''), t)
          else (Inr (wt_next_pass t),
                t\<lparr>wt_next_pass := wt_next_pass t + 1,
                  wt_open_passes := wt_open_passes t @ [wt_next_pass t]\<rparr>))"

text \<open>
  The three loops of \<open>cancel_pass\<close>: over the slots of one type, over the types, and over
  the lists. \<open>cancel_slots\<close> also returns the keys erased from the index.
\<close>

fun cancel_slots ::
  "int \<Rightarrow> Slot list \<Rightarrow> WeightSkipCounts \<Rightarrow> Slot list \<times> (string \<times> int) list \<times> WeightSkipCounts" where
  "cancel_slots pass [] counts = ([], [], counts)"
| "cancel_slots pass (s # ss) counts =
     (if slot_name s = [] \<or> slot_pass s \<noteq> pass
      then (case cancel_slots pass ss counts of (ss', ks, counts') \<Rightarrow> (s # ss', ks, counts'))
      else if slot_state s = kPresent
      then (case cancel_slots pass ss (counts\<lparr>freed_present := freed_present counts + 1\<rparr>) of
              (ss', ks, counts') \<Rightarrow> (free_slot # ss', (slot_name s, pass) # ks, counts'))
      else if slot_state s = kFilling \<and> \<not> release_on_landing s
      then (case cancel_slots pass ss
                   (counts\<lparr>release_on_landing_count := release_on_landing_count counts + 1\<rparr>) of
              (ss', ks, counts') \<Rightarrow> (s\<lparr>release_on_landing := True\<rparr> # ss', ks, counts'))
      else (case cancel_slots pass ss counts of (ss', ks, counts') \<Rightarrow> (s # ss', ks, counts')))"

fun cancel_types ::
  "int \<Rightarrow> (string \<times> Slot list) list \<Rightarrow> WeightSkipCounts
     \<Rightarrow> (string \<times> Slot list) list \<times> (string \<times> int) list \<times> WeightSkipCounts" where
  "cancel_types pass [] counts = ([], [], counts)"
| "cancel_types pass ((m, ss) # ts) counts =
     (case cancel_slots pass ss counts of (ss', ks, counts1) \<Rightarrow>
      (case cancel_types pass ts counts1 of (ts', ks', counts2) \<Rightarrow>
         ((m, ss') # ts', ks @ ks', counts2)))"

fun cancel_names ::
  "WeightSlotTable \<Rightarrow> string \<Rightarrow> int \<Rightarrow> nat \<Rightarrow> string list \<Rightarrow> (int \<times> string) set \<Rightarrow> nat
     \<Rightarrow> ((int \<times> string) set \<times> nat) result" where
  "cancel_names t module_type pass position [] pending n = Inr (pending, n)"
| "cancel_names t module_type pass position (x # xs) pending n =
     (case produced t module_type pass position of
        Inl e \<Rightarrow> Inl e
      | Inr done \<Rightarrow>
          if done then cancel_names t module_type pass (Suc position) xs pending n
          else if (pass, x) \<in> pending
          then cancel_names t module_type pass (Suc position) xs pending n
          else cancel_names t module_type pass (Suc position) xs (insert (pass, x) pending) (Suc n))"

fun cancel_lists ::
  "WeightSlotTable \<Rightarrow> int \<Rightarrow> (string \<times> string list) list \<Rightarrow> (int \<times> string) set \<Rightarrow> nat
     \<Rightarrow> ((int \<times> string) set \<times> nat) result" where
  "cancel_lists t pass [] pending n = Inr (pending, n)"
| "cancel_lists t pass ((m, names) # ls) pending n =
     (case cancel_names t m pass 0 names pending n of
        Inl e \<Rightarrow> Inl e
      | Inr (pending', n') \<Rightarrow> cancel_lists t pass ls pending' n')"

definition cancel_pass :: "int \<Rightarrow> WeightSlotTable \<Rightarrow> WeightSkipCounts result \<times> WeightSlotTable" where
  "cancel_pass pass t =
     (let none = \<lparr>freed_present = 0, release_on_landing_count = 0, pending_count = 0\<rparr> in
      if pass = 0 then (Inr none, t)
      else case require_open t pass of
        Inl e \<Rightarrow> (Inl e, t)
      | Inr _ \<Rightarrow>
          if list_ex (\<lambda>h. held_pass h = pass \<and> held_state h = kLeased) (held_slots t)
          then (Inl (Runtime_error ''Cannot cancel weight pass: a module is still LEASED''), t)
          else
            (case cancel_types pass (wt_slots t) none of (slots, keys, counts) \<Rightarrow>
               let t1 = t\<lparr>wt_slots := slots,
                          wt_index := (\<lambda>k. if k \<in> set keys then None else wt_index t k)\<rparr>
               in (case cancel_lists t1 pass (wt_lists t1) (wt_pending_skips t1) 0 of
                     Inl e \<Rightarrow> (Inl e, t1)
                   | Inr (pending, n) \<Rightarrow>
                       (Inr (counts\<lparr>pending_count := n\<rparr>), t1\<lparr>wt_pending_skips := pending\<rparr>))))"

fun finished_lists :: "WeightSlotTable \<Rightarrow> int \<Rightarrow> (string \<times> string list) list \<Rightarrow> bool result" where
  "finished_lists t pass [] = Inr True"
| "finished_lists t pass ((m, names) # ls) =
     (if names = [] then finished_lists t pass ls
      else case cursor_at t m of
        Inl e \<Rightarrow> Inl e
      | Inr c \<Rightarrow> if cursor_pass c \<le> pass then Inr False else finished_lists t pass ls)"

definition producer_finished :: "WeightSlotTable \<Rightarrow> int \<Rightarrow> bool result" where
  "producer_finished t pass = finished_lists t pass (wt_lists t)"

definition pending_skip_count :: "WeightSlotTable \<Rightarrow> int \<Rightarrow> nat" where
  "pending_skip_count t pass = card {n. (pass, n) \<in> wt_pending_skips t}"

definition end_pass :: "int \<Rightarrow> WeightSlotTable \<Rightarrow> PassSummary result \<times> WeightSlotTable" where
  "end_pass pass t =
     (if pass = 0
      then (Inr \<lparr>summary_pass = 0, by_type = Map.empty, carried = 0\<rparr>, t)
      else if current_pass t \<noteq> Some pass
      then (Inl (Runtime_error ''Cannot end weight pass: it is not the oldest open pass''), t)
      else case producer_finished t pass of
        Inl e \<Rightarrow> (Inl e, t)
      | Inr finished \<Rightarrow>
          if \<not> finished
             \<or> list_ex (\<lambda>h. held_pass h = pass \<and> held_name h \<noteq> []) (held_slots t)
             \<or> pending_skip_count t pass \<noteq> 0
          then (Inl (Runtime_error ''Cannot end weight pass''), t)
          else
            let listed = (\<lambda>m. if \<exists>(k, names) \<in> set (wt_lists t). k = m \<and> names \<noteq> []
                              then Some no_counts else None);
                types = (case wt_pass_counts t pass of
                           None \<Rightarrow> listed
                         | Some counts \<Rightarrow> listed ++ counts)
            in (Inr \<lparr>summary_pass = pass, by_type = types,
                     carried = length (filter (\<lambda>h. held_pass h = pass + 1) (held_slots t))\<rparr>,
                t\<lparr>wt_open_passes := tl (wt_open_passes t),
                  wt_pass_counts := (wt_pass_counts t)(pass := None)\<rparr>))"

definition abort :: "bool \<Rightarrow> WeightSlotTable \<Rightarrow> AbortCounts \<times> WeightSlotTable" where
  "abort lose_schedule t =
     (\<lparr>aborted_passes = length (wt_open_passes t), aborted_skips = card (wt_pending_skips t),
       freed = (\<lambda>st. if st = kFree then 0
                 else length (filter (\<lambda>h. held_state h = st) (held_slots t)))\<rparr>,
      t\<lparr>wt_slots := map (\<lambda>(m, ss). (m, map (\<lambda>s. if slot_state s \<noteq> kFree then free_slot else s) ss))
                       (wt_slots t),
        wt_index := Map.empty, wt_pending_skips := {}, wt_pass_counts := Map.empty,
        wt_open_passes := [],
        wt_cursors := (\<lambda>m. map_option (\<lambda>_. \<lparr>cursor_pass = wt_next_pass t, cursor_position = 0\<rparr>)
                            (wt_cursors t m)),
        wt_schedule_lost := (lose_schedule \<or> wt_schedule_lost t)\<rparr>)"

section \<open>Producer\<close>

fun first_free :: "nat \<Rightarrow> Slot list \<Rightarrow> nat option" where
  "first_free i [] = None"
| "first_free i (s # ss) = (if slot_state s = kFree then Some i else first_free (Suc i) ss)"

definition reserve :: "string \<Rightarrow> WeightSlotTable \<Rightarrow> int option \<times> WeightSlotTable" where
  "reserve module_type t =
     (case type_slots t module_type of
        None \<Rightarrow> (None, t)
      | Some slots \<Rightarrow>
          (case first_free 0 slots of
             None \<Rightarrow> (None, t)
           | Some i \<Rightarrow>
               (Some (int i), set_slot module_type (int i) (free_slot\<lparr>slot_state := kFilling\<rparr>) t)))"

definition next_production :: "WeightSlotTable \<Rightarrow> string \<Rightarrow> Production result" where
  "next_production t module_type =
     (let none = \<lparr>prod_kind = kNone, prod_pass = 0, prod_position = 0, prod_name = []\<rparr> in
      case map_of (wt_lists t) module_type of
        None \<Rightarrow> Inr none
      | Some names \<Rightarrow>
          if names = [] then Inr none
          else case cursor_at t module_type of
            Inl e \<Rightarrow> Inl e
          | Inr c \<Rightarrow>
              let n = names ! cursor_position c in
              Inr \<lparr>prod_kind = (if \<not> is_open t (cursor_pass c) then kParked
                                 else if (cursor_pass c, n) \<in> wt_pending_skips t then kSkip
                                 else kCopy),
                   prod_pass = cursor_pass c, prod_position = cursor_position c, prod_name = n\<rparr>)"

definition abandon :: "string \<Rightarrow> int \<Rightarrow> WeightSlotTable \<Rightarrow> unit result \<times> WeightSlotTable" where
  "abandon module_type i t =
     (case slot_at t module_type i of
        Inl e \<Rightarrow> (Inl e, t)
      | Inr slot \<Rightarrow>
          if slot_state slot \<noteq> kFilling then (Inl transition_error, t)
          else (Inr (), set_slot module_type i free_slot (unindex module_type i t)))"

definition claim ::
  "string \<Rightarrow> int \<Rightarrow> string \<Rightarrow> WeightSlotTable \<Rightarrow> WeightProduction result \<times> WeightSlotTable" where
  "claim module_type i module_name t =
     (case next_production t module_type of
        Inl e \<Rightarrow> (Inl e, t)
      | Inr p \<Rightarrow>
          if (prod_kind p \<noteq> kCopy \<and> prod_kind p \<noteq> kSkip) \<or> prod_name p \<noteq> module_name
          then (Inl (Runtime_error ''Producer claimed a module that is not at its cursor''), t)
          else if prod_kind p = kSkip
          then (if i \<ge> 0
                then (case abandon module_type i t of
                        (Inl e, t1) \<Rightarrow> (Inl e, t1)
                      | (Inr _, t1) \<Rightarrow> (Inr kSkip, t1))
                else (Inr kSkip, t))
          else
            (case slot_at t module_type i of
               Inl e \<Rightarrow> (Inl e, t)
             | Inr slot \<Rightarrow>
                 if slot_state slot \<noteq> kFilling \<or> slot_name slot \<noteq> []
                 then (Inl transition_error, t)
                 else if wt_index t (module_name, prod_pass p) \<noteq> None
                 then (Inl transition_error, t)
                 else
                   let t1 = set_slot module_type i
                              (slot\<lparr>slot_name := module_name, slot_pass := prod_pass p\<rparr>) t;
                       t2 = t1\<lparr>wt_index := (wt_index t1)((module_name, prod_pass p) \<mapsto> (module_type, i))\<rparr>
                   in (case advance module_type t2 of
                         (Inl e, t3) \<Rightarrow> (Inl e, t3)
                       | (Inr _, t3) \<Rightarrow> (Inr kCopy, t3))))"

text \<open>\<open>pass_counts_[pass][module_type]\<close> creates missing entries with zero counts.\<close>

definition counts_of :: "WeightSlotTable \<Rightarrow> int \<Rightarrow> string \<Rightarrow> PassCounts" where
  "counts_of t pass module_type =
     (case wt_pass_counts t pass of
        None \<Rightarrow> no_counts
      | Some by \<Rightarrow> (case by module_type of None \<Rightarrow> no_counts | Some c \<Rightarrow> c))"

definition set_counts :: "int \<Rightarrow> string \<Rightarrow> PassCounts \<Rightarrow> WeightSlotTable \<Rightarrow> WeightSlotTable" where
  "set_counts pass module_type c t =
     t\<lparr>wt_pass_counts := (wt_pass_counts t)
         (pass \<mapsto> (case wt_pass_counts t pass of None \<Rightarrow> Map.empty | Some by \<Rightarrow> by)(module_type \<mapsto> c))\<rparr>"

definition retire_skip :: "string \<Rightarrow> string \<Rightarrow> WeightSlotTable \<Rightarrow> unit result \<times> WeightSlotTable" where
  "retire_skip module_type module_name t =
     (case next_production t module_type of
        Inl e \<Rightarrow> (Inl e, t)
      | Inr p \<Rightarrow>
          if prod_kind p \<noteq> kSkip \<or> prod_name p \<noteq> module_name
          then (Inl (Runtime_error ''Producer retired a skip that is not pending at its cursor''), t)
          else
            let t1 = t\<lparr>wt_pending_skips := wt_pending_skips t - {(prod_pass p, module_name)}\<rparr>;
                c = counts_of t1 (prod_pass p) module_type;
                t2 = set_counts (prod_pass p) module_type (c\<lparr>skipped := skipped c + 1\<rparr>) t1
            in advance module_type t2)"

definition landed :: "string \<Rightarrow> int \<Rightarrow> WeightSlotTable \<Rightarrow> bool result \<times> WeightSlotTable" where
  "landed module_type i t =
     (case slot_at t module_type i of
        Inl e \<Rightarrow> (Inl e, t)
      | Inr slot \<Rightarrow>
          if slot_state slot \<noteq> kFilling \<or> slot_name slot = [] then (Inl transition_error, t)
          else
            let c = counts_of t (slot_pass slot) module_type;
                c1 = c\<lparr>copied := copied c + 1\<rparr>
            in if release_on_landing slot
               then
                 let t1 = set_counts (slot_pass slot) module_type
                            (c1\<lparr>released_on_landing := released_on_landing c1 + 1\<rparr>) t;
                     t2 = t1\<lparr>wt_index := (wt_index t1)((slot_name slot, slot_pass slot) := None)\<rparr>
                 in (Inr False, set_slot module_type i free_slot t2)
               else (Inr True, set_slot module_type i (slot\<lparr>slot_state := kPresent\<rparr>)
                                 (set_counts (slot_pass slot) module_type c1 t)))"

section \<open>Consumer\<close>

definition check_lease :: "string \<Rightarrow> WeightSlotTable \<Rightarrow> WeightLeaseCheck result" where
  "check_lease module_name t =
     (case require_current_pass t of
        Inl e \<Rightarrow> Inl e
      | Inr pass \<Rightarrow>
          (case require_installed t module_name of
             Inl e \<Rightarrow> Inl e
           | Inr (module_type, position) \<Rightarrow>
               (case wt_index t (module_name, pass) of
                  Some (m, i) \<Rightarrow>
                    (case slot_at t m i of
                       Inl e \<Rightarrow> Inl e
                     | Inr slot \<Rightarrow>
                         if slot_state slot = kPresent then Inr kReady
                         else if slot_state slot = kFilling
                         then (if release_on_landing slot then Inl skipped_error else Inr kWait)
                         else Inl transition_error)
                | None \<Rightarrow>
                    if (pass, module_name) \<in> wt_pending_skips t then Inl skipped_error
                    else (case produced t module_type pass position of
                            Inl e \<Rightarrow> Inl e
                          | Inr done \<Rightarrow> if done then Inl consumed_error else Inr kWait))))"

definition lease :: "string \<Rightarrow> WeightSlotTable \<Rightarrow> SlotRef result \<times> WeightSlotTable" where
  "lease module_name t =
     (case check_lease module_name t of
        Inl e \<Rightarrow> (Inl e, t)
      | Inr kWait \<Rightarrow> (Inl transition_error, t)
      | Inr kReady \<Rightarrow>
          (case require_current_pass t of
             Inl e \<Rightarrow> (Inl e, t)
           | Inr pass \<Rightarrow>
               (case wt_index t (module_name, pass) of
                  None \<Rightarrow> (Inl (Out_of_range ''map::at''), t)
                | Some (m, i) \<Rightarrow>
                    (case slot_at t m i of
                       Inl e \<Rightarrow> (Inl e, t)
                     | Inr slot \<Rightarrow> (Inr (m, i), set_slot m i (slot\<lparr>slot_state := kLeased\<rparr>) t)))))"

text \<open>
  The reference of a module leased in the current pass, as both releases look it up; the
  message is that of the caller.
\<close>

definition resident_lease :: "string \<Rightarrow> WeightSlotTable \<Rightarrow> string \<Rightarrow> (SlotRef \<times> int) result" where
  "resident_lease missing t module_name =
     (case current_pass t of
        None \<Rightarrow> Inl (Runtime_error missing)
      | Some pass \<Rightarrow>
          (case wt_index t (module_name, pass) of
             None \<Rightarrow> Inl (Runtime_error missing)
           | Some (m, i) \<Rightarrow>
               (case slot_at t m i of
                  Inl e \<Rightarrow> Inl e
                | Inr slot \<Rightarrow>
                    if slot_state slot \<noteq> kLeased
                    then Inl (Runtime_error missing)
                    else Inr ((m, i), pass))))"

definition release :: "string \<Rightarrow> WeightSlotTable \<Rightarrow> SlotRef result \<times> WeightSlotTable" where
  "release module_name t =
     (case resident_lease ''Cannot release missing weight-buffer lease'' t module_name of
        Inl e \<Rightarrow> (Inl e, t)
      | Inr ((m, i), pass) \<Rightarrow>
          (Inr (m, i),
           set_slot m i free_slot
             (t\<lparr>wt_index := (wt_index t)((module_name, pass) := None)\<rparr>)))"

fun collect_leases ::
  "WeightSlotTable \<Rightarrow> string list \<Rightarrow> string list \<Rightarrow> SlotRef list result" where
  "collect_leases t seen [] = Inr []"
| "collect_leases t seen (n # ns) =
     (if n \<in> set seen
      then Inl (Runtime_error ''Duplicate module in asynchronous weight release'')
      else case resident_lease ''Cannot asynchronously release missing weight-buffer lease'' t n of
        Inl e \<Rightarrow> Inl e
      | Inr (ref, _) \<Rightarrow>
          (case collect_leases t (n # seen) ns of
             Inl e \<Rightarrow> Inl e
           | Inr refs \<Rightarrow> Inr (ref # refs)))"

fun mark_pending :: "int \<Rightarrow> (string \<times> SlotRef) list \<Rightarrow> WeightSlotTable \<Rightarrow> WeightSlotTable" where
  "mark_pending pass [] t = t"
| "mark_pending pass ((n, m, i) # xs) t =
     (let t1 = t\<lparr>wt_index := (wt_index t)((n, pass) := None)\<rparr>
      in mark_pending pass xs
           (case slot_at t1 m i of
              Inl _ \<Rightarrow> t1
            | Inr slot \<Rightarrow> set_slot m i (slot\<lparr>slot_state := kPendingRelease\<rparr>) t1))"

definition release_async :: "string list \<Rightarrow> WeightSlotTable \<Rightarrow> SlotRef list result \<times> WeightSlotTable" where
  "release_async names t =
     (case collect_leases t [] names of
        Inl e \<Rightarrow> (Inl e, t)
      | Inr refs \<Rightarrow>
          (Inr refs,
           case current_pass t of
             None \<Rightarrow> t
           | Some pass \<Rightarrow> mark_pending pass (zip names refs) t))"

definition reclaim :: "string \<Rightarrow> int \<Rightarrow> WeightSlotTable \<Rightarrow> unit result \<times> WeightSlotTable" where
  "reclaim module_type i t =
     (case slot_at t module_type i of
        Inl e \<Rightarrow> (Inl e, t)
      | Inr slot \<Rightarrow>
          if slot_state slot \<noteq> kPendingRelease then (Inl transition_error, t)
          else (Inr (), set_slot module_type i free_slot t))"

section \<open>Routing-informed skip\<close>

definition check_skip :: "string \<Rightarrow> WeightSlotTable \<Rightarrow> unit result" where
  "check_skip module_name t =
     (case require_current_pass t of
        Inl e \<Rightarrow> Inl e
      | Inr pass \<Rightarrow>
          (case require_installed t module_name of
             Inl e \<Rightarrow> Inl e
           | Inr (module_type, position) \<Rightarrow>
               (case wt_index t (module_name, pass) of
                  Some (m, i) \<Rightarrow>
                    (case slot_at t m i of
                       Inl e \<Rightarrow> Inl e
                     | Inr slot \<Rightarrow>
                         if slot_state slot = kLeased
                            \<or> slot_state slot = kFilling \<and> release_on_landing slot
                         then Inl transition_error else Inr ())
                | None \<Rightarrow>
                    if (pass, module_name) \<in> wt_pending_skips t
                    then Inl (Runtime_error ''Duplicate skip'')
                    else (case produced t module_type pass position of
                            Inl e \<Rightarrow> Inl e
                          | Inr done \<Rightarrow> if done then Inl consumed_error else Inr ()))))"

definition skip :: "string \<Rightarrow> WeightSlotTable \<Rightarrow> WeightSkipOutcome result \<times> WeightSlotTable" where
  "skip module_name t =
     (case check_skip module_name t of
        Inl e \<Rightarrow> (Inl e, t)
      | Inr _ \<Rightarrow>
          (case require_current_pass t of
             Inl e \<Rightarrow> (Inl e, t)
           | Inr pass \<Rightarrow>
               (case wt_index t (module_name, pass) of
                  Some (m, i) \<Rightarrow>
                    (case slot_at t m i of
                       Inl e \<Rightarrow> (Inl e, t)
                     | Inr slot \<Rightarrow>
                         if slot_state slot = kFilling
                         then (Inr kReleaseOnLanding,
                               set_slot m i (slot\<lparr>release_on_landing := True\<rparr>) t)
                         else (Inr kFreedPresent,
                               set_slot m i free_slot
                                 (t\<lparr>wt_index := (wt_index t)((module_name, pass) := None)\<rparr>)))
                | None \<Rightarrow>
                    (Inr kPending,
                     t\<lparr>wt_pending_skips := insert (pass, module_name) (wt_pending_skips t)\<rparr>))))"

section \<open>Queries\<close>

definition state_of :: "WeightSlotTable \<Rightarrow> string \<Rightarrow> int \<Rightarrow> WeightSlotState option" where
  "state_of t module_name pass =
     (case wt_index t (module_name, pass) of
        None \<Rightarrow> None
      | Some (m, i) \<Rightarrow> (case slot_at t m i of Inl _ \<Rightarrow> None | Inr s \<Rightarrow> Some (slot_state s)))"

definition is_present :: "WeightSlotTable \<Rightarrow> string \<Rightarrow> int \<Rightarrow> bool" where
  "is_present t module_name pass \<longleftrightarrow> state_of t module_name pass = Some kPresent"

definition skip_pending :: "WeightSlotTable \<Rightarrow> string \<Rightarrow> int \<Rightarrow> bool" where
  "skip_pending t module_name pass \<longleftrightarrow> (pass, module_name) \<in> wt_pending_skips t"

definition state_at :: "WeightSlotTable \<Rightarrow> string \<Rightarrow> int \<Rightarrow> WeightSlotState result" where
  "state_at t module_type i = map_sum id slot_state (slot_at t module_type i)"

definition name_at :: "WeightSlotTable \<Rightarrow> string \<Rightarrow> int \<Rightarrow> string result" where
  "name_at t module_type i = map_sum id slot_name (slot_at t module_type i)"

definition pass_at :: "WeightSlotTable \<Rightarrow> string \<Rightarrow> int \<Rightarrow> int result" where
  "pass_at t module_type i = map_sum id slot_pass (slot_at t module_type i)"

definition count_state :: "WeightSlotTable \<Rightarrow> string \<Rightarrow> WeightSlotState \<Rightarrow> nat" where
  "count_state t module_type st =
     (case type_slots t module_type of
        None \<Rightarrow> 0
      | Some slots \<Rightarrow> length (filter (\<lambda>s. slot_state s = st) slots))"

definition count_in_pass :: "WeightSlotTable \<Rightarrow> int \<Rightarrow> WeightSlotState \<Rightarrow> nat" where
  "count_in_pass t pass st =
     sum_list (map (\<lambda>(m, slots). length (filter (\<lambda>s. slot_name s \<noteq> [] \<and> slot_pass s = pass
                                                      \<and> slot_state s = st) slots)) (wt_slots t))"

end
