(* ===== verification/Weight_Invariant.thy ===== *)
theory Weight_Invariant
  imports Weight_Slots
begin

text \<open>
  The invariant of the weight slot table and its preservation by every method, for any
  sequence of calls.
\<close>

section \<open>Reading and writing slots\<close>

lemma slot_at_iff:
  "slot_at t m i = Inr s \<longleftrightarrow>
     (\<exists>ss. map_of (wt_slots t) m = Some ss \<and> 0 \<le> i \<and> i < int (length ss) \<and> ss ! nat i = s)"
  by (auto simp: slot_at_def type_slots_def split: option.splits)

lemma slot_at_cong: "wt_slots t' = wt_slots t \<Longrightarrow> slot_at t' m i = slot_at t m i"
  by (simp add: slot_at_def type_slots_def)

lemma slot_at_set_slot:
  assumes "slot_at t m i = Inr old"
  shows "slot_at (set_slot m i s t) m' i' = (if m' = m \<and> i' = i then Inr s else slot_at t m' i')"
proof -
  obtain ss where "map_of (wt_slots t) m = Some ss" "0 \<le> i" "i < int (length ss)"
    using assms slot_at_iff by blast
  then show ?thesis
    by (auto simp: slot_at_def set_slot_def type_slots_def map_of_assoc_put nth_list_update eq_nat_nat_iff)
qed

lemma set_slot_fields [simp]:
  "wt_index (set_slot m i s t) = wt_index t" "wt_pending_skips (set_slot m i s t) = wt_pending_skips t"
  "wt_installed (set_slot m i s t) = wt_installed t" "wt_lists (set_slot m i s t) = wt_lists t"
  "wt_cursors (set_slot m i s t) = wt_cursors t" "wt_open_passes (set_slot m i s t) = wt_open_passes t"
  "wt_next_pass (set_slot m i s t) = wt_next_pass t" "wt_pass_counts (set_slot m i s t) = wt_pass_counts t"
  "wt_schedule_lost (set_slot m i s t) = wt_schedule_lost t"
  by (simp_all add: set_slot_def split: option.split)

lemma set_slot_distinct:
  "distinct (map fst (wt_slots t)) \<Longrightarrow> distinct (map fst (wt_slots (set_slot m i s t)))"
  by (simp add: set_slot_def distinct_assoc_put split: option.split)

lemma set_counts_fields [simp]:
  "wt_index (set_counts p m c t) = wt_index t" "wt_pending_skips (set_counts p m c t) = wt_pending_skips t"
  "wt_installed (set_counts p m c t) = wt_installed t" "wt_lists (set_counts p m c t) = wt_lists t"
  "wt_cursors (set_counts p m c t) = wt_cursors t" "wt_open_passes (set_counts p m c t) = wt_open_passes t"
  "wt_next_pass (set_counts p m c t) = wt_next_pass t" "wt_slots (set_counts p m c t) = wt_slots t"
  by (simp_all add: set_counts_def)

lemma slot_at_fields [simp]:
  "slot_at (set_counts p m c t) m' i' = slot_at t m' i'"
  "slot_at (t\<lparr>wt_index := x\<rparr>) m' i' = slot_at t m' i'"
  "slot_at (t\<lparr>wt_pending_skips := y\<rparr>) m' i' = slot_at t m' i'"
  "slot_at (t\<lparr>wt_cursors := z\<rparr>) m' i' = slot_at t m' i'"
  by (simp_all add: slot_at_def type_slots_def set_counts_def)

lemma counts_of_set_counts:
  "counts_of (set_counts p m c t) p' m' = (if p' = p \<and> m' = m then c else counts_of t p' m')"
  by (auto simp: counts_of_def set_counts_def no_counts_def split: option.split)

lemma free_slot_fields [simp]:
  "slot_state free_slot = kFree" "slot_name free_slot = []" "slot_pass free_slot = 0"
  "\<not> release_on_landing free_slot"
  by (simp_all add: free_slot_def)

section \<open>The invariant\<close>

text \<open>The producer has moved past a module in a pass.\<close>

definition past :: "WeightSlotTable \<Rightarrow> string \<Rightarrow> int \<Rightarrow> bool" where
  "past t n p \<longleftrightarrow>
     (\<exists>m pos c. wt_installed t n = Some (m, pos) \<and> wt_cursors t m = Some c \<and> moved_past c p pos)"

definition wt_static :: "WeightSlotTable \<Rightarrow> bool" where
  "wt_static t \<longleftrightarrow>
     distinct (map fst (wt_slots t)) \<and> distinct (map fst (wt_lists t)) \<and> wt_installed t [] = None
     \<and> (\<forall>n m pos. wt_installed t n = Some (m, pos) \<longleftrightarrow>
          (\<exists>names. map_of (wt_lists t) m = Some names \<and> pos < length names \<and> names ! pos = n))"

text \<open>The open passes are the last ones begun, at most two.\<close>

definition wt_passes :: "WeightSlotTable \<Rightarrow> bool" where
  "wt_passes t \<longleftrightarrow>
     length (wt_open_passes t) \<le> kMaxOpenPasses
     \<and> int (length (wt_open_passes t)) < wt_next_pass t
     \<and> wt_open_passes t = [wt_next_pass t - int (length (wt_open_passes t)) .. wt_next_pass t - 1]"

definition wt_cursors_ok :: "WeightSlotTable \<Rightarrow> bool" where
  "wt_cursors_ok t \<longleftrightarrow>
     (\<forall>m names. map_of (wt_lists t) m = Some names \<longrightarrow>
        (\<exists>c. wt_cursors t m = Some c \<and>
             (names \<noteq> [] \<longrightarrow> cursor_position c < length names
                \<and> cursor_pass c \<in> insert (wt_next_pass t) (set (wt_open_passes t)))))"

definition wt_pending_ok :: "WeightSlotTable \<Rightarrow> bool" where
  "wt_pending_ok t \<longleftrightarrow>
     finite (wt_pending_skips t)
     \<and> (\<forall>p n. (p, n) \<in> wt_pending_skips t \<longrightarrow>
          p \<in> set (wt_open_passes t) \<and> wt_installed t n \<noteq> None \<and> \<not> past t n p)"

definition slot_ok :: "WeightSlotTable \<Rightarrow> string \<Rightarrow> int \<Rightarrow> Slot \<Rightarrow> bool" where
  "slot_ok t m i s \<longleftrightarrow>
     (slot_state s = kFree \<longrightarrow> s = free_slot)
     \<and> (slot_name s = [] \<longrightarrow> slot_state s = kFree \<or> s = free_slot\<lparr>slot_state := kFilling\<rparr>)
     \<and> (release_on_landing s \<longrightarrow> slot_state s = kFilling)
     \<and> (slot_name s \<noteq> [] \<longrightarrow> slot_pass s \<in> set (wt_open_passes t)
          \<and> (slot_state s \<noteq> kPendingRelease \<longrightarrow>
               wt_index t (slot_name s, slot_pass s) = Some (m, i)))"

definition wt_slots_ok :: "WeightSlotTable \<Rightarrow> bool" where
  "wt_slots_ok t \<longleftrightarrow> (\<forall>m i s. slot_at t m i = Inr s \<longrightarrow> slot_ok t m i s)"

text \<open>The index covers the named slots that are filling, present or leased.\<close>

definition wt_index_ok :: "WeightSlotTable \<Rightarrow> bool" where
  "wt_index_ok t \<longleftrightarrow>
     (\<forall>n p m i. wt_index t (n, p) = Some (m, i) \<longrightarrow>
        (\<exists>s. slot_at t m i = Inr s \<and> slot_name s = n \<and> slot_pass s = p \<and> n \<noteq> []
             \<and> slot_state s \<in> {kFilling, kPresent, kLeased})
        \<and> (\<exists>pos. wt_installed t n = Some (m, pos)) \<and> past t n p)"

text \<open>
  The ledger of a pass: copies landed, skips retired and copies under way of a type never
  exceed the positions its producer has passed.
\<close>

definition filling :: "WeightSlotTable \<Rightarrow> string \<Rightarrow> int \<Rightarrow> nat" where
  "filling t m p =
     (case map_of (wt_slots t) m of
        None \<Rightarrow> 0
      | Some ss \<Rightarrow> length (filter (\<lambda>s. slot_state s = kFilling \<and> slot_name s \<noteq> [] \<and> slot_pass s = p) ss))"

definition passed :: "Cursor \<Rightarrow> string list \<Rightarrow> int \<Rightarrow> nat" where
  "passed c names p =
     (if cursor_pass c > p then length names else if cursor_pass c = p then min (cursor_position c) (length names) else 0)"

definition wt_ledger :: "WeightSlotTable \<Rightarrow> bool" where
  "wt_ledger t \<longleftrightarrow>
     (\<forall>p. wt_pass_counts t p \<noteq> None \<longrightarrow> p \<in> set (wt_open_passes t))
     \<and> (\<forall>p m. released_on_landing (counts_of t p m) \<le> copied (counts_of t p m))
     \<and> (\<forall>p m names c. map_of (wt_lists t) m = Some names \<longrightarrow> wt_cursors t m = Some c \<longrightarrow>
          copied (counts_of t p m) + skipped (counts_of t p m) + filling t m p \<le> passed c names p)
     \<and> (\<forall>p m. map_of (wt_lists t) m = None \<longrightarrow> counts_of t p m = no_counts)"

definition wt_inv :: "WeightSlotTable \<Rightarrow> bool" where
  "wt_inv t \<longleftrightarrow> wt_static t \<and> wt_passes t \<and> wt_cursors_ok t \<and> wt_pending_ok t
     \<and> wt_slots_ok t \<and> wt_index_ok t \<and> wt_ledger t"

lemmas wt_parts = wt_static_def wt_passes_def wt_cursors_ok_def wt_pending_ok_def wt_slots_ok_def
  wt_index_ok_def wt_ledger_def

lemma wt_invD:
  assumes "wt_inv t"
  shows "wt_static t" "wt_passes t" "wt_cursors_ok t" "wt_pending_ok t" "wt_slots_ok t"
    "wt_index_ok t" "wt_ledger t"
  using assms by (auto simp: wt_inv_def)

lemma past_cong:
  "wt_installed t' = wt_installed t \<Longrightarrow> wt_cursors t' = wt_cursors t \<Longrightarrow> past t' n p = past t n p"
  by (simp add: past_def)

lemma empty_table_inv: "wt_inv empty_table"
  by (auto simp: wt_inv_def wt_parts empty_table_def slot_at_iff past_def counts_of_def filling_def
      no_counts_def)

text \<open>Changing one slot and the index, and nothing of the schedule.\<close>

definition same_schedule :: "WeightSlotTable \<Rightarrow> WeightSlotTable \<Rightarrow> bool" where
  "same_schedule t t' \<longleftrightarrow>
     wt_installed t' = wt_installed t \<and> wt_lists t' = wt_lists t \<and> wt_cursors t' = wt_cursors t
     \<and> wt_open_passes t' = wt_open_passes t \<and> wt_next_pass t' = wt_next_pass t"

lemma filling_set_slot:
  assumes "slot_at t m i = Inr old"
  shows "filling (set_slot m i s t) m' p + (if m' = m \<and> slot_state old = kFilling \<and> slot_name old \<noteq> [] \<and> slot_pass old = p then 1 else 0)
       = filling t m' p + (if m' = m \<and> slot_state s = kFilling \<and> slot_name s \<noteq> [] \<and> slot_pass s = p then 1 else 0)"
proof -
  obtain ss where ss: "map_of (wt_slots t) m = Some ss" "0 \<le> i" "i < int (length ss)" "ss ! nat i = old"
    using assms slot_at_iff by blast
  then show ?thesis
    using length_filter_update [of "nat i" ss "\<lambda>s. slot_state s = kFilling \<and> slot_name s \<noteq> [] \<and> slot_pass s = p" s]
    by (cases "m' = m") (simp_all add: filling_def set_slot_def type_slots_def map_of_assoc_put)
qed

section \<open>Changing one slot\<close>

abbreviation indexed_state :: "WeightSlotState \<Rightarrow> bool" where
  "indexed_state st \<equiv> st \<in> {kFilling, kPresent, kLeased}"

lemma same_schedule_past: "same_schedule t t' \<Longrightarrow> past t' n p = past t n p"
  by (simp add: same_schedule_def past_def)

text \<open>A slot that stays in the index, or was never in it.\<close>

lemma wt_keep_index:
  assumes ok: "wt_slots_ok t" "wt_index_ok t" and old: "slot_at t m i = Inr old"
    and upd: "\<And>m' i'. slot_at t' m' i' = (if m' = m \<and> i' = i then Inr s else slot_at t m' i')"
    and sch: "same_schedule t t'" and idx: "wt_index t' = wt_index t"
    and s: "slot_name old \<noteq> [] \<and> slot_name s = slot_name old \<and> slot_pass s = slot_pass old
              \<and> indexed_state (slot_state s) \<and> indexed_state (slot_state old)
              \<and> (release_on_landing s \<longrightarrow> slot_state s = kFilling)
            \<or> (slot_name old = [] \<or> slot_state old = kPendingRelease)
              \<and> (s = free_slot \<or> s = free_slot\<lparr>slot_state := kFilling\<rparr>)"
  shows "wt_slots_ok t' \<and> wt_index_ok t'"
proof
  have so: "slot_ok t m i old" using ok(1) old by (simp add: wt_slots_ok_def)
  have op: "wt_open_passes t' = wt_open_passes t" "wt_installed t' = wt_installed t"
    using sch by (simp_all add: same_schedule_def)
  have pa: "past t' n p = past t n p" for n p
    by (rule same_schedule_past [OF sch])
  show "wt_slots_ok t'"
    unfolding wt_slots_ok_def
  proof (intro allI impI)
    fix m' i' s' assume a: "slot_at t' m' i' = Inr s'"
    show "slot_ok t' m' i' s'"
    proof (cases "m' = m \<and> i' = i")
      case True
      then have eq: "s' = s" using a upd [of m' i'] by simp
      from s show ?thesis
      proof
        assume "slot_name old \<noteq> [] \<and> slot_name s = slot_name old \<and> slot_pass s = slot_pass old
              \<and> indexed_state (slot_state s) \<and> indexed_state (slot_state old)
              \<and> (release_on_landing s \<longrightarrow> slot_state s = kFilling)"
        then show ?thesis using so True eq op idx by (auto simp: slot_ok_def)
      qed (use eq in \<open>auto simp: slot_ok_def\<close>)
    next
      case False
      then have "slot_at t m' i' = Inr s'" using a upd [of m' i'] by auto
      then have "slot_ok t m' i' s'" using ok(1) by (simp add: wt_slots_ok_def)
      then show ?thesis using op idx by (simp add: slot_ok_def)
    qed
  qed
  show "wt_index_ok t'"
    unfolding wt_index_ok_def
  proof (intro allI impI)
    fix n p m' i' assume k: "wt_index t' (n, p) = Some (m', i')"
    then obtain s' where s': "slot_at t m' i' = Inr s'" "slot_name s' = n" "slot_pass s' = p" "n \<noteq> []"
      "indexed_state (slot_state s')" and r: "\<exists>pos. wt_installed t n = Some (m', pos)" "past t n p"
      using ok(2) idx unfolding wt_index_ok_def by metis
    have "\<exists>s'. slot_at t' m' i' = Inr s' \<and> slot_name s' = n \<and> slot_pass s' = p \<and> n \<noteq> []
             \<and> indexed_state (slot_state s')"
      using upd [of m' i'] s' s old by (cases "m' = m \<and> i' = i") auto
    then show "(\<exists>s. slot_at t' m' i' = Inr s \<and> slot_name s = n \<and> slot_pass s = p \<and> n \<noteq> []
             \<and> slot_state s \<in> {kFilling, kPresent, kLeased})
        \<and> (\<exists>pos. wt_installed t' n = Some (m', pos)) \<and> past t' n p"
      using r op pa by simp
  qed
qed

text \<open>A slot that leaves the index.\<close>

lemma wt_drop_index:
  assumes ok: "wt_slots_ok t" "wt_index_ok t" and old: "slot_at t m i = Inr old"
    and upd: "\<And>m' i'. slot_at t' m' i' = (if m' = m \<and> i' = i then Inr s else slot_at t m' i')"
    and sch: "same_schedule t t'"
    and idx: "wt_index t' = (wt_index t)((slot_name old, slot_pass old) := None)"
    and o: "slot_name old \<noteq> []" "indexed_state (slot_state old)"
    and s: "s = free_slot \<or> slot_state old = kLeased \<and> s = old\<lparr>slot_state := kPendingRelease\<rparr>"
  shows "wt_slots_ok t' \<and> wt_index_ok t'"
proof
  have so: "slot_ok t m i old" using ok(1) old by (simp add: wt_slots_ok_def)
  then have io: "wt_index t (slot_name old, slot_pass old) = Some (m, i)"
    using o by (auto simp: slot_ok_def)
  have op: "wt_open_passes t' = wt_open_passes t" "wt_installed t' = wt_installed t"
    using sch by (simp_all add: same_schedule_def)
  have pa: "past t' n p = past t n p" for n p
    by (rule same_schedule_past [OF sch])
  show "wt_slots_ok t'"
    unfolding wt_slots_ok_def
  proof (intro allI impI)
    fix m' i' s' assume a: "slot_at t' m' i' = Inr s'"
    show "slot_ok t' m' i' s'"
    proof (cases "m' = m \<and> i' = i")
      case True
      then have "s' = s" using a upd [of m' i'] by simp
      then show ?thesis using s so o op by (auto simp: slot_ok_def free_slot_def)
    next
      case False
      then have s': "slot_at t m' i' = Inr s'" using a upd [of m' i'] by auto
      then have ok': "slot_ok t m' i' s'" using ok(1) by (simp add: wt_slots_ok_def)
      then have "(slot_name s', slot_pass s') \<noteq> (slot_name old, slot_pass old)"
        if "slot_name s' \<noteq> []" "slot_state s' \<noteq> kPendingRelease"
        using that False io by (auto simp: slot_ok_def)
      then show ?thesis using ok' op idx by (auto simp: slot_ok_def)
    qed
  qed
  show "wt_index_ok t'"
    unfolding wt_index_ok_def
  proof (intro allI impI)
    fix n p m' i' assume k: "wt_index t' (n, p) = Some (m', i')"
    then have k': "wt_index t (n, p) = Some (m', i')" "(n, p) \<noteq> (slot_name old, slot_pass old)"
      using idx by (auto split: if_splits)
    then obtain s' where s': "slot_at t m' i' = Inr s'" "slot_name s' = n" "slot_pass s' = p" "n \<noteq> []"
      "indexed_state (slot_state s')" and r: "\<exists>pos. wt_installed t n = Some (m', pos)" "past t n p"
      using ok(2) unfolding wt_index_ok_def by metis
    have "\<not> (m' = m \<and> i' = i)" using s'(1-3) old k'(2) by auto
    then show "(\<exists>s. slot_at t' m' i' = Inr s \<and> slot_name s = n \<and> slot_pass s = p \<and> n \<noteq> []
             \<and> slot_state s \<in> {kFilling, kPresent, kLeased})
        \<and> (\<exists>pos. wt_installed t' n = Some (m', pos)) \<and> past t' n p"
      using upd [of m' i'] s' r op pa by auto
  qed
qed

text \<open>The rest of the invariant follows when only slots, index and counts change.\<close>

lemma wt_inv_slotsI:
  assumes inv: "wt_inv t" and sch: "same_schedule t t'"
    and d: "distinct (map fst (wt_slots t'))"
    and pend: "wt_pending_skips t' = wt_pending_skips t"
    and ok: "wt_slots_ok t' \<and> wt_index_ok t'" and led: "wt_ledger t'"
  shows "wt_inv t'"
proof -
  note I = wt_invD [OF inv]
  have pa: "past t' n p = past t n p" for n p
    by (rule same_schedule_past [OF sch])
  have "wt_static t'" using I(1) sch d by (simp add: wt_static_def same_schedule_def)
  moreover have "wt_passes t'" using I(2) sch by (simp add: wt_passes_def same_schedule_def)
  moreover have "wt_cursors_ok t'" using I(3) sch by (simp add: wt_cursors_ok_def same_schedule_def)
  moreover have "wt_pending_ok t'"
    using I(4) sch pend pa by (simp add: wt_pending_ok_def same_schedule_def)
  ultimately show ?thesis using ok led by (simp add: wt_inv_def)
qed

text \<open>The ledger when the counts do not change and no copy starts.\<close>

lemma wt_ledger_same:
  assumes "wt_ledger t" and "same_schedule t t'" and "wt_pass_counts t' = wt_pass_counts t"
    and "\<And>m p. filling t' m p \<le> filling t m p"
  shows "wt_ledger t'"
proof -
  have c: "counts_of t' = counts_of t" using assms(3) by (simp add: counts_of_def fun_eq_iff)
  have "copied (counts_of t' p m) + skipped (counts_of t' p m) + filling t' m p \<le> passed cu names p"
    if "map_of (wt_lists t') m = Some names" "wt_cursors t' m = Some cu" for p m names cu
  proof -
    have "copied (counts_of t p m) + skipped (counts_of t p m) + filling t m p \<le> passed cu names p"
      using assms(1,2) that unfolding wt_ledger_def same_schedule_def by simp
    then show ?thesis using assms(4) [of m p] c by simp
  qed
  then show ?thesis using assms(1-3) c by (simp add: wt_ledger_def same_schedule_def)
qed

lemma wt_set_slot_keep:
  assumes inv: "wt_inv t" and old: "slot_at t m i = Inr old"
    and s: "slot_name old \<noteq> [] \<and> slot_name s = slot_name old \<and> slot_pass s = slot_pass old
              \<and> indexed_state (slot_state s) \<and> indexed_state (slot_state old)
              \<and> (release_on_landing s \<longrightarrow> slot_state s = kFilling)
            \<or> (slot_name old = [] \<or> slot_state old = kPendingRelease)
              \<and> (s = free_slot \<or> s = free_slot\<lparr>slot_state := kFilling\<rparr>)"
    and f: "slot_state s = kFilling \<longrightarrow> slot_state old = kFilling \<or> slot_name s = []"
  shows "wt_inv (set_slot m i s t)"
proof (rule wt_inv_slotsI [OF inv])
  let ?t = "set_slot m i s t"
  show sch: "same_schedule t ?t" by (simp add: same_schedule_def)
  show "distinct (map fst (wt_slots ?t))"
    using wt_invD(1) [OF inv] set_slot_distinct by (auto simp: wt_static_def)
  show "wt_slots_ok ?t \<and> wt_index_ok ?t"
    by (rule wt_keep_index [OF wt_invD(5,6) [OF inv] old slot_at_set_slot [OF old] sch _ s]) simp
  have "filling ?t m' p \<le> filling t m' p" for m' p
    using filling_set_slot [OF old, of s m' p] s f by (auto simp: free_slot_def split: if_splits)
  then show "wt_ledger ?t"
    by (intro wt_ledger_same [OF wt_invD(7) [OF inv] sch]) simp_all
qed simp

lemma wt_set_slot_drop:
  assumes inv: "wt_inv t" and old: "slot_at t m i = Inr old"
    and o: "slot_name old \<noteq> []" "indexed_state (slot_state old)"
    and s: "s = free_slot \<or> slot_state old = kLeased \<and> s = old\<lparr>slot_state := kPendingRelease\<rparr>"
  shows "wt_inv (set_slot m i s (t\<lparr>wt_index := (wt_index t)((slot_name old, slot_pass old) := None)\<rparr>))"
proof (rule wt_inv_slotsI [OF inv])
  let ?u = "t\<lparr>wt_index := (wt_index t)((slot_name old, slot_pass old) := None)\<rparr>"
  let ?t = "set_slot m i s ?u"
  have old0: "slot_at ?u m i = Inr old" using old by simp
  show sch: "same_schedule t ?t" by (simp add: same_schedule_def)
  have "distinct (map fst (wt_slots ?u))" using wt_invD(1) [OF inv] by (simp add: wt_static_def)
  then show "distinct (map fst (wt_slots ?t))" by (rule set_slot_distinct)
  have upd: "slot_at ?t m' i' = (if m' = m \<and> i' = i then Inr s else slot_at t m' i')" for m' i'
    using slot_at_set_slot [OF old0, of s m' i'] by simp
  show "wt_slots_ok ?t \<and> wt_index_ok ?t"
    by (rule wt_drop_index [OF wt_invD(5,6) [OF inv] old upd sch _ o s]) simp
  have "filling ?u = filling t" by (simp add: filling_def fun_eq_iff)
  then have "filling ?t m' p \<le> filling t m' p" for m' p
    using filling_set_slot [OF old0, of s m' p] s by (auto simp: free_slot_def split: if_splits)
  then show "wt_ledger ?t"
    by (intro wt_ledger_same [OF wt_invD(7) [OF inv] sch]) simp_all
qed simp

section \<open>Consumer and slot methods\<close>

lemma slot_at_ok: "wt_inv t \<Longrightarrow> slot_at t m i = Inr s \<Longrightarrow> slot_ok t m i s"
  using wt_invD(5) by (auto simp: wt_slots_ok_def)

lemma indexD:
  assumes "wt_inv t" and "wt_index t (n, p) = Some (m, i)"
  shows "\<exists>s. slot_at t m i = Inr s \<and> slot_name s = n \<and> slot_pass s = p \<and> n \<noteq> []
           \<and> indexed_state (slot_state s)"
    and "\<exists>pos. wt_installed t n = Some (m, pos)" and "past t n p"
  using wt_invD(6) [OF assms(1)] assms(2) unfolding wt_index_ok_def by blast+

lemma first_free_SomeD:
  assumes "first_free i ss = Some j"
  shows "i \<le> j \<and> j < i + length ss \<and> slot_state (ss ! (j - i)) = kFree"
  using assms
proof (induction i ss rule: first_free.induct)
  case (2 i s ss)
  then show ?case
    by (auto simp: nth_Cons' split: if_splits)
qed simp

lemma reserve_slot:
  assumes "reserve m t = (Some i, t')"
  shows "slot_at t m i = Inr s \<Longrightarrow> slot_state s = kFree"
    and "\<exists>s. slot_at t m i = Inr s"
    and "t' = set_slot m i (free_slot\<lparr>slot_state := kFilling\<rparr>) t"
  using assms
  by (auto simp: reserve_def slot_at_def type_slots_def dest!: first_free_SomeD split: option.splits)

lemma reserve_inv:
  assumes inv: "wt_inv t"
  shows "wt_inv (snd (reserve m t))"
proof (cases "fst (reserve m t)")
  case None
  then have "snd (reserve m t) = t" by (auto simp: reserve_def split: option.splits)
  then show ?thesis using inv by simp
next
  case (Some i)
  then have r: "reserve m t = (Some i, snd (reserve m t))" by (metis prod.collapse)
  obtain s where s: "slot_at t m i = Inr s" using reserve_slot(2) [OF r] by blast
  have "slot_state s = kFree" by (rule reserve_slot(1) [OF r s])
  then have "s = free_slot" using slot_at_ok [OF inv s] by (simp add: slot_ok_def)
  then show ?thesis using reserve_slot(3) [OF r] wt_set_slot_keep [OF inv s] by simp
qed

lemma unindex_named:
  assumes inv: "wt_inv t" and s: "slot_at t m i = Inr s"
  shows "unindex m i t =
           (if slot_name s \<noteq> [] \<and> slot_state s \<noteq> kPendingRelease
            then t\<lparr>wt_index := (wt_index t)((slot_name s, slot_pass s) := None)\<rparr> else t)"
proof -
  have "wt_index t (slot_name s, slot_pass s) \<noteq> Some (m, i)" if "slot_state s = kPendingRelease"
  proof
    assume "wt_index t (slot_name s, slot_pass s) = Some (m, i)"
    then show False using indexD(1) [OF inv] s that by fastforce
  qed
  then show ?thesis using slot_at_ok [OF inv s] s by (auto simp: unindex_def slot_ok_def)
qed

lemma abandon_inv:
  assumes inv: "wt_inv t"
  shows "wt_inv (snd (abandon m i t))"
proof (cases "slot_at t m i")
  case (Inr s)
  show ?thesis
  proof (cases "slot_state s = kFilling")
    case True
    then show ?thesis
      using Inr unindex_named [OF inv Inr] wt_set_slot_keep [OF inv Inr, of free_slot]
        wt_set_slot_drop [OF inv Inr, of free_slot]
      by (cases "slot_name s = []") (simp_all add: abandon_def)
  qed (use inv Inr in \<open>simp add: abandon_def\<close>)
qed (use inv in \<open>simp add: abandon_def\<close>)

lemma reclaim_inv:
  assumes inv: "wt_inv t"
  shows "wt_inv (snd (reclaim m i t))"
proof (cases "slot_at t m i")
  case (Inr s)
  then show ?thesis using inv wt_set_slot_keep [OF inv Inr, of free_slot]
    by (auto simp: reclaim_def)
qed (use inv in \<open>simp add: reclaim_def\<close>)

lemma lease_cases:
  assumes inv: "wt_inv t"
  obtains (fails) e where "lease n t = (Inl e, t)"
  | (ok) p m i s where "current_pass t = Some p" "wt_index t (n, p) = Some (m, i)" "slot_at t m i = Inr s"
      "slot_state s = kPresent" "slot_name s = n" "slot_pass s = p" "n \<noteq> []"
      "check_lease n t = Inr kReady"
      "lease n t = (Inr (m, i), set_slot m i (s\<lparr>slot_state := kLeased\<rparr>) t)"
proof (cases "check_lease n t")
  case (Inl e)
  then show thesis using fails by (simp add: lease_def)
next
  case (Inr c)
  show thesis
  proof (cases c)
    case kWait
    then show thesis using fails Inr by (simp add: lease_def)
  next
    case kReady
    then obtain p m i s where "current_pass t = Some p" "wt_index t (n, p) = Some (m, i)" "slot_at t m i = Inr s"
      "slot_state s = kPresent"
      using Inr by (auto simp: check_lease_def require_current_pass_def
          split: option.splits sum.splits prod.splits if_splits)
    moreover from this have "slot_name s = n" "slot_pass s = p" "n \<noteq> []"
      using indexD(1) [OF inv, of n p m i] by auto
    ultimately show thesis using ok Inr kReady by (simp add: lease_def require_current_pass_def)
  qed
qed

lemma lease_inv:
  assumes inv: "wt_inv t"
  shows "wt_inv (snd (lease n t))"
  using inv
proof (cases rule: lease_cases [where n = n])
  case (ok p m i s)
  moreover have "\<not> release_on_landing s" using slot_at_ok [OF inv ok(3)] ok(4) by (auto simp: slot_ok_def)
  ultimately show ?thesis
    using wt_set_slot_keep [OF inv ok(3), of "s\<lparr>slot_state := kLeased\<rparr>"] by simp
qed (use inv in simp)

lemma resident_lease_ok:
  assumes inv: "wt_inv t" and r: "resident_lease msg t n = Inr ((m, i), p)"
  shows "\<exists>s. slot_at t m i = Inr s \<and> slot_state s = kLeased \<and> slot_name s = n \<and> slot_pass s = p \<and> n \<noteq> []"
    and "current_pass t = Some p" and "wt_index t (n, p) = Some (m, i)"
proof -
  from r obtain s where s: "current_pass t = Some p" "wt_index t (n, p) = Some (m, i)" "slot_at t m i = Inr s"
    "slot_state s = kLeased"
    by (auto simp: resident_lease_def split: option.splits sum.splits prod.splits if_splits)
  then show "\<exists>s. slot_at t m i = Inr s \<and> slot_state s = kLeased \<and> slot_name s = n \<and> slot_pass s = p \<and> n \<noteq> []"
    "current_pass t = Some p" "wt_index t (n, p) = Some (m, i)"
    using indexD(1) [OF inv s(2)] by auto
qed

lemma release_inv:
  assumes inv: "wt_inv t"
  shows "wt_inv (snd (release n t))"
proof (cases "resident_lease ''Cannot release missing weight-buffer lease'' t n")
  case (Inl e)
  then show ?thesis using inv by (simp add: release_def)
next
  case (Inr x)
  obtain m i p where x: "x = ((m, i), p)" by (metis prod.exhaust)
  obtain s where "slot_at t m i = Inr s" "slot_state s = kLeased" "slot_name s = n" "slot_pass s = p" "n \<noteq> []"
    using resident_lease_ok(1) [OF inv Inr [unfolded x]] by blast
  then show ?thesis using wt_set_slot_drop [OF inv, of m i s free_slot] Inr x by (simp add: release_def)
qed

lemma pending_inv:
  assumes inv: "wt_inv t" and s: "slot_at t m i = Inr s" "slot_state s = kLeased" "slot_name s = n"
    "slot_pass s = p" "n \<noteq> []"
  shows "wt_inv (set_slot m i (s\<lparr>slot_state := kPendingRelease\<rparr>)
           (t\<lparr>wt_index := (wt_index t)((n, p) := None)\<rparr>))"
  using wt_set_slot_drop [OF inv s(1), of "s\<lparr>slot_state := kPendingRelease\<rparr>"] s by simp

text \<open>Both skips of a resident module.\<close>

lemma skip_cases:
  assumes inv: "wt_inv t"
  obtains (fails) e where "check_skip n t = Inl e" "skip n t = (Inl e, t)"
  | (filling) p m i s where "check_skip n t = Inr ()" "current_pass t = Some p" "wt_index t (n, p) = Some (m, i)"
      "slot_at t m i = Inr s" "slot_state s = kFilling" "\<not> release_on_landing s" "slot_name s = n"
      "slot_pass s = p" "n \<noteq> []"
      "skip n t = (Inr kReleaseOnLanding, set_slot m i (s\<lparr>release_on_landing := True\<rparr>) t)"
  | (present) p m i s where "check_skip n t = Inr ()" "current_pass t = Some p" "wt_index t (n, p) = Some (m, i)"
      "slot_at t m i = Inr s" "slot_state s = kPresent" "slot_name s = n" "slot_pass s = p" "n \<noteq> []"
      "skip n t = (Inr kFreedPresent, set_slot m i free_slot (t\<lparr>wt_index := (wt_index t)((n, p) := None)\<rparr>))"
  | (pending) p where "check_skip n t = Inr ()" "current_pass t = Some p" "wt_index t (n, p) = None"
      "(p, n) \<notin> wt_pending_skips t" "wt_installed t n \<noteq> None" "\<not> past t n p"
      "skip n t = (Inr kPending, t\<lparr>wt_pending_skips := insert (p, n) (wt_pending_skips t)\<rparr>)"
proof (cases "check_skip n t")
  case (Inl e)
  then show thesis using fails by (simp add: skip_def)
next
  case (Inr u)
  then obtain p where p: "current_pass t = Some p"
    by (auto simp: check_skip_def require_current_pass_def split: option.splits)
  show thesis
  proof (cases "wt_index t (n, p)")
    case None
    with Inr p obtain m pos c where "(p, n) \<notin> wt_pending_skips t" "wt_installed t n = Some (m, pos)"
      "wt_cursors t m = Some c" "\<not> moved_past c p pos"
      by (auto simp: check_skip_def require_current_pass_def require_installed_def produced_def cursor_at_def
          split: option.splits sum.splits if_splits)
    then show thesis using pending [of p] None Inr p
      by (auto simp: skip_def require_current_pass_def past_def)
  next
    case (Some mi)
    obtain m i where mi: "mi = (m, i)" by fastforce
    obtain s where s: "slot_at t m i = Inr s" "slot_name s = n" "slot_pass s = p" "n \<noteq> []"
      "indexed_state (slot_state s)" using indexD(1) [OF inv] Some mi by blast
    have c: "slot_state s \<noteq> kLeased" "\<not> (slot_state s = kFilling \<and> release_on_landing s)"
      using Inr p Some mi s(1)
      by (auto simp: check_skip_def require_current_pass_def require_installed_def
          split: option.splits sum.splits if_splits)
    show thesis
    proof (cases "slot_state s = kFilling")
      case True
      then show thesis using filling [of p m i s] Inr p Some mi s c
        by (simp add: skip_def require_current_pass_def)
    next
      case False
      then show thesis using present [of p m i s] Inr p Some mi s c
        by (auto simp: skip_def require_current_pass_def)
    qed
  qed
qed

lemma pending_insert_inv:
  assumes inv: "wt_inv t" and p: "p \<in> set (wt_open_passes t)" and n: "wt_installed t n \<noteq> None" "\<not> past t n p"
  shows "wt_inv (t\<lparr>wt_pending_skips := insert (p, n) (wt_pending_skips t)\<rparr>)"
proof -
  let ?t = "t\<lparr>wt_pending_skips := insert (p, n) (wt_pending_skips t)\<rparr>"
  have pa: "past ?t k q = past t k q" for k q by (simp add: past_def)
  then have "wt_pending_ok ?t" using wt_invD(4) [OF inv] p n by (auto simp: wt_pending_ok_def)
  moreover have "slot_at ?t = slot_at t" by (simp add: fun_eq_iff)
  moreover have "filling ?t = filling t" "counts_of ?t = counts_of t"
    by (simp_all add: filling_def counts_of_def fun_eq_iff)
  moreover have "wt_static ?t = wt_static t" "wt_passes ?t = wt_passes t" "wt_cursors_ok ?t = wt_cursors_ok t"
    by (simp_all add: wt_static_def wt_passes_def wt_cursors_ok_def)
  moreover have "slot_ok ?t = slot_ok t" by (simp add: slot_ok_def fun_eq_iff)
  ultimately show ?thesis using inv pa
    by (simp add: wt_inv_def wt_slots_ok_def wt_index_ok_def wt_ledger_def)
qed

lemma current_open: "current_pass t = Some p \<Longrightarrow> p \<in> set (wt_open_passes t)"
  by (auto simp: current_pass_def split: list.splits)

lemma skip_inv:
  assumes inv: "wt_inv t"
  shows "wt_inv (snd (skip n t))"
  using inv
proof (cases rule: skip_cases [where n = n])
  case (filling p m i s)
  then show ?thesis
    using wt_set_slot_keep [OF inv filling(4), of "s\<lparr>release_on_landing := True\<rparr>"] by simp
next
  case (present p m i s)
  then show ?thesis using wt_set_slot_drop [OF inv present(4), of free_slot] by simp
next
  case (pending p)
  then show ?thesis using pending_insert_inv [OF inv current_open] by simp
qed (use inv in simp)

lemma mark_pending_inv:
  assumes "wt_inv t" and "distinct (map fst xs)"
    and "\<forall>(n, m, i) \<in> set xs. n \<noteq> [] \<and> (\<exists>s. slot_at t m i = Inr s \<and> slot_state s = kLeased
           \<and> slot_name s = n \<and> slot_pass s = p)"
  shows "wt_inv (mark_pending p xs t)"
  using assms
proof (induction xs arbitrary: t)
  case (Cons x xs)
  obtain n m i where x: "x = (n, m, i)" by (metis prod.exhaust)
  obtain s where s: "slot_at t m i = Inr s" "slot_state s = kLeased" "slot_name s = n" "slot_pass s = p" "n \<noteq> []"
    using Cons.prems(3) x by auto
  let ?u = "t\<lparr>wt_index := (wt_index t)((n, p) := None)\<rparr>"
  let ?t = "set_slot m i (s\<lparr>slot_state := kPendingRelease\<rparr>) ?u"
  have su: "slot_at ?u m i = Inr s" using s by simp
  have "wt_inv ?t" by (rule pending_inv [OF Cons.prems(1) s])
  moreover have "\<forall>(n', m', i') \<in> set xs. n' \<noteq> [] \<and> (\<exists>s. slot_at ?t m' i' = Inr s \<and> slot_state s = kLeased
           \<and> slot_name s = n' \<and> slot_pass s = p)"
  proof clarify
    fix n' m' i' assume y: "(n', m', i') \<in> set xs"
    then obtain s' where s': "n' \<noteq> []" "slot_at t m' i' = Inr s'" "slot_state s' = kLeased" "slot_name s' = n'"
      "slot_pass s' = p" using Cons.prems(3) by fastforce
    have "n' \<noteq> n" using Cons.prems(2) x y by force
    then have "\<not> (m' = m \<and> i' = i)" using s s' by auto
    then show "n' \<noteq> [] \<and> (\<exists>s. slot_at ?t m' i' = Inr s \<and> slot_state s = kLeased
           \<and> slot_name s = n' \<and> slot_pass s = p)"
      using slot_at_set_slot [OF su] s' by auto
  qed
  ultimately have "wt_inv (mark_pending p xs ?t)" using Cons.IH Cons.prems(2) by simp
  then show ?case using s(1) by (simp add: x Let_def)
qed simp

lemma collect_leases_ok:
  assumes "wt_inv t" and "collect_leases t seen ns = Inr refs" and "current_pass t = Some p"
  shows "length refs = length ns \<and> distinct ns \<and> set ns \<inter> set seen = {}
     \<and> (\<forall>(n, m, i) \<in> set (zip ns refs). n \<noteq> [] \<and> (\<exists>s. slot_at t m i = Inr s \<and> slot_state s = kLeased
           \<and> slot_name s = n \<and> slot_pass s = p) \<and> wt_index t (n, p) = Some (m, i))"
  using assms(2)
proof (induction ns arbitrary: seen refs)
  case (Cons n ns)
  let ?msg = "''Cannot asynchronously release missing weight-buffer lease''"
  from Cons.prems obtain m i q refs' where r: "n \<notin> set seen" "resident_lease ?msg t n = Inr ((m, i), q)"
    "collect_leases t (n # seen) ns = Inr refs'" "refs = (m, i) # refs'"
    by (auto split: if_splits sum.splits prod.splits)
  then show ?case using Cons.IH [OF r(3)] resident_lease_ok [OF assms(1) r(2)] assms(3) by auto
qed simp

lemma release_async_inv:
  assumes inv: "wt_inv t"
  shows "wt_inv (snd (release_async ns t))"
proof (cases "collect_leases t [] ns")
  case (Inr refs)
  show ?thesis
  proof (cases "current_pass t")
    case (Some p)
    note ok = collect_leases_ok [OF inv Inr Some]
    then have "distinct (map fst (zip ns refs))" by simp
    moreover have "\<forall>(n, m, i) \<in> set (zip ns refs). n \<noteq> [] \<and> (\<exists>s. slot_at t m i = Inr s
        \<and> slot_state s = kLeased \<and> slot_name s = n \<and> slot_pass s = p)"
      using ok by blast
    ultimately have "wt_inv (mark_pending p (zip ns refs) t)" by (rule mark_pending_inv [OF inv])
    then show ?thesis using Inr Some by (simp add: release_async_def)
  qed (use inv Inr in \<open>simp add: release_async_def\<close>)
qed (use inv in \<open>simp add: release_async_def\<close>)

section \<open>Producer methods\<close>

lemma counts_known:
  assumes inv: "wt_inv t" and s: "slot_at t m i = Inr s" "slot_name s \<noteq> []" "slot_state s \<noteq> kPendingRelease"
  shows "\<exists>names. map_of (wt_lists t) m = Some names"
proof -
  have "wt_index t (slot_name s, slot_pass s) = Some (m, i)"
    using slot_at_ok [OF inv s(1)] s(2,3) by (simp add: slot_ok_def)
  then obtain pos where "wt_installed t (slot_name s) = Some (m, pos)" using indexD(2) [OF inv] by blast
  then show ?thesis using wt_invD(1) [OF inv] unfolding wt_static_def by blast
qed

lemma landed_ledger:
  assumes inv: "wt_inv t" and s: "slot_at t m i = Inr s" "slot_state s = kFilling" "slot_name s \<noteq> []"
    and sch: "same_schedule t t'"
    and f: "\<And>m' p. filling t' m' p + (if m' = m \<and> p = slot_pass s then 1 else 0) = filling t m' p"
    and c: "\<And>p m'. counts_of t' p m' = (if p = slot_pass s \<and> m' = m then c else counts_of t p m')"
    and new: "copied c = copied (counts_of t (slot_pass s) m) + 1" "skipped c = skipped (counts_of t (slot_pass s) m)"
      "released_on_landing c \<le> copied c"
    and dom: "\<And>p. wt_pass_counts t' p \<noteq> None \<Longrightarrow> p = slot_pass s \<or> wt_pass_counts t p \<noteq> None"
  shows "wt_ledger t'"
proof -
  note L = wt_invD(7) [OF inv, unfolded wt_ledger_def]
  have known: "map_of (wt_lists t) m \<noteq> None" using counts_known [OF inv s(1,3)] s(2) by auto
  have op: "slot_pass s \<in> set (wt_open_passes t)" using slot_at_ok [OF inv s(1)] s(3) by (simp add: slot_ok_def)
  have "copied (counts_of t' p m') + skipped (counts_of t' p m') + filling t' m' p \<le> passed cu names p"
    if "map_of (wt_lists t') m' = Some names" "wt_cursors t' m' = Some cu" for p m' names cu
  proof -
    have "copied (counts_of t p m') + skipped (counts_of t p m') + filling t m' p \<le> passed cu names p"
      using L that sch unfolding same_schedule_def by simp
    then show ?thesis using c [of p m'] f [of m' p] new by (auto split: if_splits)
  qed
  moreover have "released_on_landing (counts_of t' p m') \<le> copied (counts_of t' p m')" for p m'
    using c [of p m'] new(3) L by auto
  moreover have "counts_of t' p m' = no_counts" if "map_of (wt_lists t') m' = None" for p m'
    using c [of p m'] known L that sch by (auto simp: same_schedule_def)
  moreover have "p \<in> set (wt_open_passes t')" if "wt_pass_counts t' p \<noteq> None" for p
    using dom [OF that] op L sch by (auto simp: same_schedule_def)
  ultimately show ?thesis by (simp add: wt_ledger_def)
qed

lemma set_counts_dom: "wt_pass_counts (set_counts p m c t) q \<noteq> None \<Longrightarrow> q = p \<or> wt_pass_counts t q \<noteq> None"
  by (auto simp: set_counts_def split: if_splits)

lemma landed_inv:
  assumes inv: "wt_inv t"
  shows "wt_inv (snd (landed m i t))"
proof (cases "slot_at t m i")
  case (Inr s)
  show ?thesis
  proof (cases "slot_state s = kFilling \<and> slot_name s \<noteq> []")
    case True
    define c where "c = (counts_of t (slot_pass s) m)\<lparr>copied := copied (counts_of t (slot_pass s) m) + 1\<rparr>"
    have le: "released_on_landing (counts_of t (slot_pass s) m) \<le> copied (counts_of t (slot_pass s) m)"
      using wt_invD(7) [OF inv] by (simp add: wt_ledger_def)
    show ?thesis
    proof (cases "release_on_landing s")
      case rel: True
      define d where "d = c\<lparr>released_on_landing := released_on_landing c + 1\<rparr>"
      let ?u = "(set_counts (slot_pass s) m d t)\<lparr>wt_index := (wt_index t)((slot_name s, slot_pass s) := None)\<rparr>"
      let ?t = "set_slot m i free_slot ?u"
      have u: "slot_at ?u m i = Inr s" using Inr by simp
      have eq: "snd (landed m i t) = ?t"
        using Inr True rel by (simp add: landed_def Let_def c_def d_def)
      have sch: "same_schedule t ?t" by (simp add: same_schedule_def)
      have upd: "slot_at ?t m' i' = (if m' = m \<and> i' = i then Inr free_slot else slot_at t m' i')" for m' i'
        using slot_at_set_slot [OF u, of free_slot m' i'] by simp
      have "filling ?u = filling t" by (simp add: filling_def fun_eq_iff)
      then have fi: "filling ?t m' p + (if m' = m \<and> p = slot_pass s then 1 else 0) = filling t m' p" for m' p
        using filling_set_slot [OF u, of free_slot m' p] True by (auto split: if_splits)
      have co: "counts_of ?t p m' = (if p = slot_pass s \<and> m' = m then d else counts_of t p m')" for p m'
        using counts_of_set_counts [of "slot_pass s" m d t p m'] by (simp add: counts_of_def)
      have "wt_slots_ok ?t \<and> wt_index_ok ?t"
        by (rule wt_drop_index [OF wt_invD(5,6) [OF inv] Inr upd sch]) (use True in auto)
      moreover have "wt_ledger ?t"
        by (rule landed_ledger [OF inv Inr _ _ sch fi co])
           (use True le set_counts_dom [of "slot_pass s" m d t] in \<open>auto simp: c_def d_def\<close>)
      moreover have "distinct (map fst (wt_slots ?t))"
        using wt_invD(1) [OF inv] by (intro set_slot_distinct) (simp add: wt_static_def)
      ultimately show ?thesis unfolding eq by (intro wt_inv_slotsI [OF inv sch]) simp_all
    next
      case rel: False
      let ?u = "set_counts (slot_pass s) m c t"
      let ?t = "set_slot m i (s\<lparr>slot_state := kPresent\<rparr>) ?u"
      have u: "slot_at ?u m i = Inr s" using Inr by simp
      have eq: "snd (landed m i t) = ?t" using Inr True rel by (simp add: landed_def Let_def c_def)
      have sch: "same_schedule t ?t" by (simp add: same_schedule_def)
      have upd: "slot_at ?t m' i' = (if m' = m \<and> i' = i then Inr (s\<lparr>slot_state := kPresent\<rparr>) else slot_at t m' i')"
        for m' i' using slot_at_set_slot [OF u, of _ m' i'] by simp
      have "filling ?u = filling t" by (simp add: filling_def fun_eq_iff)
      then have fi: "filling ?t m' p + (if m' = m \<and> p = slot_pass s then 1 else 0) = filling t m' p" for m' p
        using filling_set_slot [OF u, of "s\<lparr>slot_state := kPresent\<rparr>" m' p] True by (auto split: if_splits)
      have co: "counts_of ?t p m' = (if p = slot_pass s \<and> m' = m then c else counts_of t p m')" for p m'
        using counts_of_set_counts [of "slot_pass s" m c t p m'] by (simp add: counts_of_def)
      have "wt_slots_ok ?t \<and> wt_index_ok ?t"
        by (rule wt_keep_index [OF wt_invD(5,6) [OF inv] Inr upd sch]) (use True rel in auto)
      moreover have "wt_ledger ?t"
        by (rule landed_ledger [OF inv Inr _ _ sch fi co])
           (use True le set_counts_dom [of "slot_pass s" m c t] in \<open>auto simp: c_def\<close>)
      moreover have "distinct (map fst (wt_slots ?t))"
        using wt_invD(1) [OF inv] by (intro set_slot_distinct) (simp add: wt_static_def)
      ultimately show ?thesis unfolding eq by (intro wt_inv_slotsI [OF inv sch]) simp_all
    qed
  qed (use inv Inr in \<open>auto simp: landed_def\<close>)
qed (use inv in \<open>simp add: landed_def\<close>)

end
