(* ===== verification/Weight_Producer.thy ===== *)
theory Weight_Producer
  imports Weight_Invariant
begin

text \<open>
  The producer of a type: its cursor, the modules it has passed, and the methods
  \<open>claim\<close> and \<open>retire_skip\<close> that move it.
\<close>

section \<open>Moving a cursor\<close>

definition bump :: "string list \<Rightarrow> Cursor \<Rightarrow> Cursor" where
  "bump names c =
     (if length names \<le> cursor_position c + 1 then \<lparr>cursor_pass = cursor_pass c + 1, cursor_position = 0\<rparr>
      else c\<lparr>cursor_position := cursor_position c + 1\<rparr>)"

lemma advance_bump:
  assumes "wt_cursors t m = Some c" and "map_of (wt_lists t) m = Some names"
  shows "advance m t = (Inr (), t\<lparr>wt_cursors := (wt_cursors t)(m \<mapsto> bump names c)\<rparr>)"
  using assms by (simp add: advance_def cursor_at_def bump_def Let_def)

lemma moved_past_bump:
  assumes "cursor_position c < length names" and "pos < length names"
  shows "moved_past (bump names c) p pos \<longleftrightarrow>
           moved_past c p pos \<or> p = cursor_pass c \<and> pos = cursor_position c"
  using assms by (auto simp: moved_past_def bump_def)

lemma passed_bump:
  assumes "cursor_position c < length names"
  shows "passed (bump names c) names p = passed c names p + (if p = cursor_pass c then 1 else 0)"
  using assms by (auto simp: passed_def bump_def)

lemma installed_iff:
  assumes "wt_inv t"
  shows "wt_installed t n = Some (m, pos) \<longleftrightarrow>
     (\<exists>names. map_of (wt_lists t) m = Some names \<and> pos < length names \<and> names ! pos = n)"
  using wt_invD(1) [OF assms] by (simp only: wt_static_def)

lemma installed_nonempty: "wt_inv t \<Longrightarrow> wt_installed t n = Some x \<Longrightarrow> n \<noteq> []"
  using wt_invD(1) by (fastforce simp: wt_static_def)

lemma cursor_of_list:
  assumes "wt_inv t" and "map_of (wt_lists t) m = Some names"
  obtains c where "wt_cursors t m = Some c"
    and "names \<noteq> [] \<Longrightarrow> cursor_position c < length names"
    and "names \<noteq> [] \<Longrightarrow> cursor_pass c \<in> insert (wt_next_pass t) (set (wt_open_passes t))"
  using wt_invD(3) [OF assms(1)] assms(2) unfolding wt_cursors_ok_def by blast

lemma installed_finite:
  assumes inv: "wt_inv t"
  shows "finite {n. wt_installed t n \<noteq> None}"
proof (rule finite_subset)
  show "{n. wt_installed t n \<noteq> None} \<subseteq> (\<Union>(m, names) \<in> set (wt_lists t). set names)"
  proof
    fix n assume "n \<in> {n. wt_installed t n \<noteq> None}"
    then obtain m pos where "wt_installed t n = Some (m, pos)" by auto
    then obtain names where "map_of (wt_lists t) m = Some names" "pos < length names" "names ! pos = n"
      using installed_iff [OF inv] by blast
    then show "n \<in> (\<Union>(m, names) \<in> set (wt_lists t). set names)" using map_of_SomeD by fastforce
  qed
qed auto

text \<open>The producer of a type stands on a module of an open pass.\<close>

definition at_cursor :: "WeightSlotTable \<Rightarrow> string \<Rightarrow> string list \<Rightarrow> Cursor \<Rightarrow> string \<Rightarrow> bool" where
  "at_cursor t m names c n \<longleftrightarrow>
     map_of (wt_lists t) m = Some names \<and> wt_cursors t m = Some c \<and> cursor_position c < length names
     \<and> names ! cursor_position c = n \<and> cursor_pass c \<in> set (wt_open_passes t)"

lemma at_cursor_installed:
  assumes "wt_inv t" and "at_cursor t m names c n"
  shows "wt_installed t n = Some (m, cursor_position c)"
  using installed_iff [OF assms(1)] assms(2) unfolding at_cursor_def by blast

lemma at_cursor_name:
  assumes "wt_inv t" and "at_cursor t m names c n"
  shows "n \<noteq> []" and "\<not> past t n (cursor_pass c)" and "wt_index t (n, cursor_pass c) = None"
proof -
  note i = at_cursor_installed [OF assms]
  show "n \<noteq> []" using i installed_nonempty [OF assms(1)] by blast
  show np: "\<not> past t n (cursor_pass c)" using i assms(2) by (auto simp: past_def at_cursor_def moved_past_def)
  show "wt_index t (n, cursor_pass c) = None"
  proof (rule ccontr)
    assume "wt_index t (n, cursor_pass c) \<noteq> None"
    then obtain m' i' where "wt_index t (n, cursor_pass c) = Some (m', i')" by auto
    then show False using indexD(3) [OF assms(1)] np by blast
  qed
qed

lemma next_production_at_cursor:
  assumes inv: "wt_inv t" and p: "next_production t m = Inr pr" "prod_kind pr \<in> {kCopy, kSkip}"
  obtains names c where "at_cursor t m names c (prod_name pr)" "prod_pass pr = cursor_pass c"
    "prod_position pr = cursor_position c"
    "prod_kind pr = kSkip \<longleftrightarrow> (cursor_pass c, prod_name pr) \<in> wt_pending_skips t"
proof -
  from p obtain names c where c: "map_of (wt_lists t) m = Some names" "names \<noteq> []" "wt_cursors t m = Some c"
    "is_open t (cursor_pass c)" "prod_name pr = names ! cursor_position c" "prod_pass pr = cursor_pass c"
    "prod_position pr = cursor_position c"
    "prod_kind pr = kSkip \<longleftrightarrow> (cursor_pass c, prod_name pr) \<in> wt_pending_skips t"
    by (auto simp: next_production_def cursor_at_def Let_def split: option.splits if_splits sum.splits)
  have "cursor_position c < length names"
    by (rule cursor_of_list [OF inv c(1)]) (use c(2,3) in auto)
  then have "at_cursor t m names c (prod_name pr)" using c by (simp add: at_cursor_def is_open_def)
  then show thesis using c(6-8) by (rule that)
qed

text \<open>What an advance keeps, and the module it puts behind the cursor.\<close>

definition cursor_moved :: "WeightSlotTable \<Rightarrow> string \<Rightarrow> string list \<Rightarrow> Cursor \<Rightarrow> WeightSlotTable \<Rightarrow> bool" where
  "cursor_moved t m names c t' \<longleftrightarrow>
     wt_installed t' = wt_installed t \<and> wt_lists t' = wt_lists t
     \<and> wt_cursors t' = (wt_cursors t)(m \<mapsto> bump names c)
     \<and> wt_open_passes t' = wt_open_passes t \<and> wt_next_pass t' = wt_next_pass t"

lemma past_moved:
  assumes inv: "wt_inv t" and at: "at_cursor t m names c n" and mv: "cursor_moved t m names c t'"
  shows "past t' k q \<longleftrightarrow> past t k q \<or> k = n \<and> q = cursor_pass c"
proof (cases "wt_installed t k")
  case None
  then show ?thesis using mv at_cursor_installed [OF inv at] by (auto simp: past_def cursor_moved_def)
next
  case (Some mp)
  obtain m' pos where mp: "mp = (m', pos)" by fastforce
  show ?thesis
  proof (cases "m' = m")
    case True
    then have k: "pos < length names" "names ! pos = k"
      using installed_iff [OF inv, THEN iffD1, of k m pos] Some mp at by (auto simp: at_cursor_def)
    have kn: "k = n \<longleftrightarrow> pos = cursor_position c"
    proof
      assume "k = n"
      then show "pos = cursor_position c" using at_cursor_installed [OF inv at] Some mp by simp
    next
      assume "pos = cursor_position c"
      then show "k = n" using k(2) at by (simp add: at_cursor_def)
    qed
    have "past t' k q \<longleftrightarrow> moved_past (bump names c) q pos"
      using Some mp True mv by (simp add: past_def cursor_moved_def)
    also have "\<dots> \<longleftrightarrow> moved_past c q pos \<or> q = cursor_pass c \<and> pos = cursor_position c"
      by (rule moved_past_bump) (use at k(1) in \<open>simp_all add: at_cursor_def\<close>)
    also have "moved_past c q pos \<longleftrightarrow> past t k q"
      using Some mp True at by (simp add: past_def at_cursor_def)
    finally show ?thesis using kn by blast
  next
    case False
    then have "k \<noteq> n" using at_cursor_installed [OF inv at] Some mp by auto
    then show ?thesis using Some mp False mv by (auto simp: past_def cursor_moved_def)
  qed
qed

lemma moved_schedule:
  assumes inv: "wt_inv t" and at: "at_cursor t m names c n" and mv: "cursor_moved t m names c t'"
    and d: "distinct (map fst (wt_slots t'))"
    and pend: "wt_pending_skips t' \<subseteq> wt_pending_skips t" "(cursor_pass c, n) \<notin> wt_pending_skips t'"
  shows "wt_static t' \<and> wt_passes t' \<and> wt_cursors_ok t' \<and> wt_pending_ok t'"
proof (intro conjI)
  note I = wt_invD [OF inv]
  show "wt_static t'" using I(1) mv d by (simp add: wt_static_def cursor_moved_def)
  show "wt_passes t'" using I(2) mv by (simp add: wt_passes_def cursor_moved_def)
  have op: "wt_open_passes t = [wt_next_pass t - int (length (wt_open_passes t)) .. wt_next_pass t - 1]"
    using I(2) by (simp add: wt_passes_def)
  have "cursor_pass c \<in> set [wt_next_pass t - int (length (wt_open_passes t)) .. wt_next_pass t - 1]"
    using at op by (simp add: at_cursor_def)
  then have "cursor_pass c + 1 \<in> insert (wt_next_pass t) (set [wt_next_pass t - int (length (wt_open_passes t)) .. wt_next_pass t - 1])"
    by auto
  then have nx: "cursor_pass c + 1 \<in> insert (wt_next_pass t) (set (wt_open_passes t))"
    using op by simp
  show "wt_cursors_ok t'"
    unfolding wt_cursors_ok_def
  proof (intro allI impI)
    fix m' names' assume l: "map_of (wt_lists t') m' = Some names'"
    show "\<exists>c. wt_cursors t' m' = Some c \<and>
             (names' \<noteq> [] \<longrightarrow> cursor_position c < length names'
                \<and> cursor_pass c \<in> insert (wt_next_pass t') (set (wt_open_passes t')))"
      using l mv at nx I(3)
      by (cases "m' = m") (auto simp: cursor_moved_def at_cursor_def wt_cursors_ok_def bump_def)
  qed
  have "(p, k) \<in> wt_pending_skips t' \<Longrightarrow> \<not> past t' k p" for p k
    using past_moved [OF inv at mv, of k p] I(4) pend by (auto simp: wt_pending_ok_def)
  then show "wt_pending_ok t'"
    using I(4) pend(1) mv finite_subset [OF pend(1)] by (auto simp: wt_pending_ok_def cursor_moved_def)
qed

text \<open>The ledger after a step of the producer: one position more, and one module more.\<close>

lemma moved_ledger:
  assumes inv: "wt_inv t" and at: "at_cursor t m names c n" and mv: "cursor_moved t m names c t'"
    and dom: "\<And>p. wt_pass_counts t' p \<noteq> None \<Longrightarrow> p = cursor_pass c \<or> wt_pass_counts t p \<noteq> None"
    and rel: "\<And>p m'. released_on_landing (counts_of t' p m') \<le> copied (counts_of t' p m')"
    and oth: "\<And>p m'. m' \<noteq> m \<Longrightarrow> counts_of t' p m' = counts_of t p m'"
    and sum: "\<And>p m'. copied (counts_of t' p m') + skipped (counts_of t' p m') + filling t' m' p
       = copied (counts_of t p m') + skipped (counts_of t p m') + filling t m' p
         + (if m' = m \<and> p = cursor_pass c then 1 else 0)"
  shows "wt_ledger t'"
proof -
  note L = wt_invD(7) [OF inv, unfolded wt_ledger_def]
  have "copied (counts_of t' p m') + skipped (counts_of t' p m') + filling t' m' p \<le> passed cu ns p"
    if l: "map_of (wt_lists t') m' = Some ns" "wt_cursors t' m' = Some cu" for p m' ns cu
  proof (cases "m' = m")
    case True
    then have eq: "ns = names" "cu = bump names c" using l at mv by (auto simp: cursor_moved_def at_cursor_def)
    have "copied (counts_of t p m) + skipped (counts_of t p m) + filling t m p \<le> passed c names p"
      using L at by (simp add: at_cursor_def)
    then show ?thesis using sum [of p m'] passed_bump [of c names p] at eq True by (simp add: at_cursor_def)
  next
    case False
    then show ?thesis using L l mv sum [of p m'] by (simp add: cursor_moved_def)
  qed
  moreover have "counts_of t' p m' = no_counts" if "map_of (wt_lists t') m' = None" for p m'
  proof -
    have "m' \<noteq> m" using that at mv by (auto simp: cursor_moved_def at_cursor_def)
    then show ?thesis using oth L that mv by (simp add: cursor_moved_def)
  qed
  moreover have "p \<in> set (wt_open_passes t')" if "wt_pass_counts t' p \<noteq> None" for p
    using dom [OF that] L at mv by (auto simp: cursor_moved_def at_cursor_def)
  ultimately show ?thesis using rel by (simp add: wt_ledger_def)
qed

section \<open>Claiming and retiring\<close>

definition claimed :: "string \<Rightarrow> int \<Rightarrow> string \<Rightarrow> string list \<Rightarrow> Cursor \<Rightarrow> Slot \<Rightarrow> WeightSlotTable \<Rightarrow> WeightSlotTable" where
  "claimed m i n names c s t =
     (set_slot m i (s\<lparr>slot_name := n, slot_pass := cursor_pass c\<rparr>) t)
       \<lparr>wt_index := (wt_index t)((n, cursor_pass c) \<mapsto> (m, i)),
        wt_cursors := (wt_cursors t)(m \<mapsto> bump names c)\<rparr>"

lemma claim_cases:
  assumes inv: "wt_inv t"
  obtains (fails) e where "claim m i n t = (Inl e, t)"
  | (skips) names c where "at_cursor t m names c n" "(cursor_pass c, n) \<in> wt_pending_skips t" "i < 0"
      "claim m i n t = (Inr kSkip, t)"
  | (abandons) names c where "at_cursor t m names c n" "(cursor_pass c, n) \<in> wt_pending_skips t" "0 \<le> i"
      "fst (abandon m i t) = Inr ()" "claim m i n t = (Inr kSkip, snd (abandon m i t))"
  | (copies) names c s where "at_cursor t m names c n" "(cursor_pass c, n) \<notin> wt_pending_skips t"
      "slot_at t m i = Inr s" "slot_state s = kFilling" "slot_name s = []"
      "claim m i n t = (Inr kCopy, claimed m i n names c s t)"
proof (cases "next_production t m")
  case (Inl e)
  then show thesis using fails by (simp add: claim_def)
next
  case (Inr pr)
  show thesis
  proof (cases "prod_kind pr \<in> {kCopy, kSkip} \<and> prod_name pr = n")
    case False
    then have "claim m i n t = (Inl (Runtime_error ''Producer claimed a module that is not at its cursor''), t)"
      using Inr by (auto simp: claim_def)
    then show thesis by (rule fails)
  next
    case True
    then obtain names c where at: "at_cursor t m names c n" and pr: "prod_pass pr = cursor_pass c"
      "prod_kind pr = kSkip \<longleftrightarrow> (cursor_pass c, n) \<in> wt_pending_skips t"
      using next_production_at_cursor [OF inv Inr] by metis
    show thesis
    proof (cases "prod_kind pr = kSkip")
      case skip: True
      obtain r u where ab: "abandon m i t = (r, u)" by fastforce
      have u: "r = Inl e \<Longrightarrow> u = t" for e using ab by (auto simp: abandon_def split: sum.splits if_splits)
      show thesis
      proof (cases "i < 0")
        case True
        then have "claim m i n t = (Inr kSkip, t)" using Inr skip \<open>_ \<and> prod_name pr = n\<close> by (simp add: claim_def)
        then show thesis using skips [OF at] pr(2) skip True by blast
      next
        case False
        then have cl: "claim m i n t = (case abandon m i t of (Inl e, t1) \<Rightarrow> (Inl e, t1) | (Inr _, t1) \<Rightarrow> (Inr kSkip, t1))"
          using Inr skip \<open>_ \<and> prod_name pr = n\<close> by (simp add: claim_def)
        show thesis
        proof (cases r)
          case (Inl e)
          then show thesis using fails [of e] cl ab u by simp
        next
          case (Inr x)
          then show thesis using abandons [OF at] cl ab pr(2) skip False by simp
        qed
      qed
    next
      case copy: False
      then have k: "prod_kind pr = kCopy" using True by simp
      show thesis
      proof (cases "slot_at t m i")
        case (Inl e)
        then show thesis using fails [of e] \<open>next_production t m = Inr pr\<close> True k by (simp add: claim_def)
      next
        case s: (Inr s)
        show thesis
        proof (cases "slot_state s = kFilling \<and> slot_name s = []")
          case False
          then have "claim m i n t = (Inl transition_error, t)"
            using Inr True k s by (auto simp: claim_def)
          then show thesis by (rule fails)
        next
          case ok: True
          let ?u = "(set_slot m i (s\<lparr>slot_name := n, slot_pass := cursor_pass c\<rparr>) t)
                      \<lparr>wt_index := (wt_index t)((n, cursor_pass c) \<mapsto> (m, i))\<rparr>"
          have "advance m ?u = (Inr (), ?u\<lparr>wt_cursors := (wt_cursors ?u)(m \<mapsto> bump names c)\<rparr>)"
            by (rule advance_bump) (use at in \<open>simp_all add: at_cursor_def\<close>)
          then have "claim m i n t = (Inr kCopy, claimed m i n names c s t)"
            using Inr True k s ok pr(1) at_cursor_name(3) [OF inv at] by (simp add: claim_def claimed_def Let_def)
          then show thesis using copies [OF at _ s] ok pr(2) copy by blast
        qed
      qed
    qed
  qed
qed

lemma claimed_slot_at:
  assumes "slot_at t m i = Inr s"
  shows "slot_at (claimed m i n names c s t) m' i' =
    (if m' = m \<and> i' = i then Inr (s\<lparr>slot_name := n, slot_pass := cursor_pass c\<rparr>) else slot_at t m' i')"
  using slot_at_set_slot [OF assms, of _ m' i']
  by (simp add: claimed_def slot_at_def type_slots_def)

lemma claimed_filling:
  assumes "slot_at t m i = Inr s" "slot_state s = kFilling" "slot_name s = []" "n \<noteq> []"
  shows "filling (claimed m i n names c s t) m' p =
    filling t m' p + (if m' = m \<and> p = cursor_pass c then 1 else 0)"
proof -
  have "filling (claimed m i n names c s t) m' p = filling (set_slot m i (s\<lparr>slot_name := n, slot_pass := cursor_pass c\<rparr>) t) m' p"
    by (simp add: filling_def claimed_def)
  then show ?thesis
    using filling_set_slot [OF assms(1), of "s\<lparr>slot_name := n, slot_pass := cursor_pass c\<rparr>" m' p] assms(2-4)
    by (auto split: if_splits)
qed

lemma claimed_inv:
  assumes inv: "wt_inv t" and at: "at_cursor t m names c n"
    and np: "(cursor_pass c, n) \<notin> wt_pending_skips t"
    and s: "slot_at t m i = Inr s" "slot_state s = kFilling" "slot_name s = []"
  shows "wt_inv (claimed m i n names c s t)"
proof -
  let ?t = "claimed m i n names c s t"
  note I = wt_invD [OF inv]
  have mv: "cursor_moved t m names c ?t" by (simp add: cursor_moved_def claimed_def)
  have nn: "n \<noteq> []" by (rule at_cursor_name(1) [OF inv at])
  have idx: "wt_index ?t = (wt_index t)((n, cursor_pass c) \<mapsto> (m, i))" by (simp add: claimed_def)
  have op: "wt_open_passes ?t = wt_open_passes t" "wt_installed ?t = wt_installed t" by (simp_all add: claimed_def)
  have "distinct (map fst (wt_slots (set_slot m i (s\<lparr>slot_name := n, slot_pass := cursor_pass c\<rparr>) t)))"
    using I(1) by (intro set_slot_distinct) (simp add: wt_static_def)
  then have sch: "wt_static ?t \<and> wt_passes ?t \<and> wt_cursors_ok ?t \<and> wt_pending_ok ?t"
    by (intro moved_schedule [OF inv at mv]) (use np in \<open>simp_all add: claimed_def\<close>)
  have rol: "\<not> release_on_landing s" using slot_at_ok [OF inv s(1)] s(2,3) by (auto simp: slot_ok_def)
  have "wt_slots_ok ?t"
    unfolding wt_slots_ok_def
  proof (intro allI impI)
    fix m' i' s' assume a: "slot_at ?t m' i' = Inr s'"
    show "slot_ok ?t m' i' s'"
    proof (cases "m' = m \<and> i' = i")
      case True
      then have "s' = s\<lparr>slot_name := n, slot_pass := cursor_pass c\<rparr>" using a claimed_slot_at [OF s(1)] by auto
      then show ?thesis using True s(2) nn rol at op idx by (simp add: slot_ok_def at_cursor_def)
    next
      case False
      then have s': "slot_at t m' i' = Inr s'" using a claimed_slot_at [OF s(1), of n names c m' i'] by auto
      have "wt_index t (n, cursor_pass c) = None" by (rule at_cursor_name(3) [OF inv at])
      then show ?thesis using slot_at_ok [OF inv s'] op idx by (auto simp: slot_ok_def)
    qed
  qed
  moreover have "wt_index_ok ?t"
    unfolding wt_index_ok_def
  proof (intro allI impI)
    fix k p m' i' assume k: "wt_index ?t (k, p) = Some (m', i')"
    show "(\<exists>s. slot_at ?t m' i' = Inr s \<and> slot_name s = k \<and> slot_pass s = p \<and> k \<noteq> []
             \<and> slot_state s \<in> {kFilling, kPresent, kLeased})
        \<and> (\<exists>pos. wt_installed ?t k = Some (m', pos)) \<and> past ?t k p"
    proof (cases "(k, p) = (n, cursor_pass c)")
      case True
      then show ?thesis
        using k idx claimed_slot_at [OF s(1), of n names c m i] s(2) nn op at_cursor_installed [OF inv at]
          past_moved [OF inv at mv, of n "cursor_pass c"] by auto
    next
      case False
      then have k': "wt_index t (k, p) = Some (m', i')" using k idx by auto
      obtain s' where s': "slot_at t m' i' = Inr s'" "slot_name s' = k" "slot_pass s' = p" "k \<noteq> []"
        "indexed_state (slot_state s')" using indexD(1) [OF inv k'] by blast
      have "\<not> (m' = m \<and> i' = i)" using s' s by auto
      then have "slot_at ?t m' i' = Inr s'" using claimed_slot_at [OF s(1), of n names c m' i'] s'(1) by auto
      then show ?thesis
        using s' indexD(2,3) [OF inv k'] op past_moved [OF inv at mv, of k p] by auto
    qed
  qed
  moreover have cc: "counts_of ?t = counts_of t" by (simp add: counts_of_def claimed_def fun_eq_iff)
  have "wt_ledger ?t"
  proof (rule moved_ledger [OF inv at mv])
    show "wt_pass_counts ?t p \<noteq> None \<Longrightarrow> p = cursor_pass c \<or> wt_pass_counts t p \<noteq> None" for p
      by (simp add: claimed_def)
  qed (use cc claimed_filling [OF s nn] I(7) in \<open>simp_all add: wt_ledger_def\<close>)
  ultimately show ?thesis using sch by (simp add: wt_inv_def)
qed

lemma claim_inv:
  assumes inv: "wt_inv t"
  shows "wt_inv (snd (claim m i n t))"
  using inv
proof (cases rule: claim_cases [where m = m and i = i and n = n])
  case (copies names c s)
  then show ?thesis using claimed_inv [OF inv copies(1-5)] by simp
qed (use inv abandon_inv [OF inv] in simp_all)

definition retired :: "string \<Rightarrow> string \<Rightarrow> string list \<Rightarrow> Cursor \<Rightarrow> WeightSlotTable \<Rightarrow> WeightSlotTable" where
  "retired m n names c t =
     (set_counts (cursor_pass c) m
        ((counts_of t (cursor_pass c) m)\<lparr>skipped := skipped (counts_of t (cursor_pass c) m) + 1\<rparr>)
        (t\<lparr>wt_pending_skips := wt_pending_skips t - {(cursor_pass c, n)}\<rparr>))
      \<lparr>wt_cursors := (wt_cursors t)(m \<mapsto> bump names c)\<rparr>"

lemma retire_cases:
  assumes inv: "wt_inv t"
  obtains (fails) e where "retire_skip m n t = (Inl e, t)"
  | (retires) names c where "at_cursor t m names c n" "(cursor_pass c, n) \<in> wt_pending_skips t"
      "retire_skip m n t = (Inr (), retired m n names c t)"
proof (cases "next_production t m")
  case (Inl e)
  then show thesis using fails by (simp add: retire_skip_def)
next
  case (Inr pr)
  show thesis
  proof (cases "prod_kind pr = kSkip \<and> prod_name pr = n")
    case False
    then have "retire_skip m n t = (Inl (Runtime_error ''Producer retired a skip that is not pending at its cursor''), t)"
      using Inr by (auto simp: retire_skip_def)
    then show thesis by (rule fails)
  next
    case True
    then obtain names c where at: "at_cursor t m names c n" and pr: "prod_pass pr = cursor_pass c"
      "(cursor_pass c, n) \<in> wt_pending_skips t"
      using next_production_at_cursor [OF inv Inr] by (metis insertCI)
    let ?v = "t\<lparr>wt_pending_skips := wt_pending_skips t - {(cursor_pass c, n)}\<rparr>"
    have cv: "counts_of ?v = counts_of t" by (simp add: counts_of_def fun_eq_iff)
    let ?u = "set_counts (cursor_pass c) m
        ((counts_of t (cursor_pass c) m)\<lparr>skipped := skipped (counts_of t (cursor_pass c) m) + 1\<rparr>) ?v"
    have "advance m ?u = (Inr (), ?u\<lparr>wt_cursors := (wt_cursors ?u)(m \<mapsto> bump names c)\<rparr>)"
      by (rule advance_bump) (use at in \<open>simp_all add: at_cursor_def\<close>)
    then have "retire_skip m n t = (Inr (), retired m n names c t)"
      using Inr True pr(1) cv by (simp add: retire_skip_def retired_def Let_def)
    then show thesis using retires [OF at pr(2)] by blast
  qed
qed

lemma retired_inv:
  assumes inv: "wt_inv t" and at: "at_cursor t m names c n"
  shows "wt_inv (retired m n names c t)"
proof -
  let ?t = "retired m n names c t"
  note I = wt_invD [OF inv]
  have mv: "cursor_moved t m names c ?t" by (simp add: cursor_moved_def retired_def)
  have eq: "slot_at ?t m' i' = slot_at t m' i'" "wt_index ?t = wt_index t" "wt_open_passes ?t = wt_open_passes t"
    "wt_installed ?t = wt_installed t" "filling ?t = filling t" for m' i'
    by (simp_all add: retired_def slot_at_def type_slots_def filling_def fun_eq_iff)
  have co: "counts_of ?t p m' = (if p = cursor_pass c \<and> m' = m
      then (counts_of t (cursor_pass c) m)\<lparr>skipped := skipped (counts_of t (cursor_pass c) m) + 1\<rparr>
      else counts_of t p m')" for p m'
    by (simp add: retired_def counts_of_def set_counts_def no_counts_def split: option.split)
  have "wt_static ?t \<and> wt_passes ?t \<and> wt_cursors_ok ?t \<and> wt_pending_ok ?t"
    by (intro moved_schedule [OF inv at mv]) (use I(1) in \<open>auto simp: retired_def wt_static_def\<close>)
  moreover have "wt_slots_ok ?t" using I(5) eq by (simp add: wt_slots_ok_def slot_ok_def)
  moreover have "wt_index_ok ?t"
    using I(6) eq past_moved [OF inv at mv] unfolding wt_index_ok_def by metis
  moreover have "wt_ledger ?t"
  proof (rule moved_ledger [OF inv at mv])
    show "wt_pass_counts ?t p \<noteq> None \<Longrightarrow> p = cursor_pass c \<or> wt_pass_counts t p \<noteq> None" for p
      by (auto simp: retired_def set_counts_def split: if_splits)
    show "released_on_landing (counts_of ?t p m') \<le> copied (counts_of ?t p m')" for p m'
      using I(7) co [of p m'] by (simp add: wt_ledger_def)
  qed (use co eq in auto)
  ultimately show ?thesis by (simp add: wt_inv_def)
qed

lemma retire_skip_inv:
  assumes inv: "wt_inv t"
  shows "wt_inv (snd (retire_skip m n t))"
  using inv
proof (cases rule: retire_cases [where m = m and n = n])
  case (retires names c)
  then show ?thesis using retired_inv [OF inv retires(1)] by simp
qed (use inv in simp)

end
