(* ===== verification/Weight_Passes.thy ===== *)
theory Weight_Passes
  imports Weight_Producer
begin

text \<open>
  Opening, closing and aborting passes, installing the copy lists and laying out the slots:
  each keeps the invariant of the slot table.
\<close>

section \<open>Held slots\<close>

lemma held_of_type_iff:
  "h \<in> set (held_of_type m ss) \<longleftrightarrow>
     (\<exists>i < length ss. slot_state (ss ! i) \<noteq> kFree \<and>
        h = \<lparr>held_type = m, held_index = int i, held_name = slot_name (ss ! i),
             held_state = slot_state (ss ! i), held_pass = slot_pass (ss ! i)\<rparr>)"
  by (auto simp: held_of_type_def)

lemma held_iff:
  assumes "distinct (map fst (wt_slots t))"
  shows "h \<in> set (held_slots t) \<longleftrightarrow>
     (\<exists>m i s. slot_at t m i = Inr s \<and> slot_state s \<noteq> kFree \<and>
        h = \<lparr>held_type = m, held_index = i, held_name = slot_name s,
             held_state = slot_state s, held_pass = slot_pass s\<rparr>)"
proof -
  have "h \<in> set (held_slots t) \<longleftrightarrow> (\<exists>m ss. map_of (wt_slots t) m = Some ss \<and> h \<in> set (held_of_type m ss))"
    using assms by (fastforce simp: held_slots_def)
  also have "\<dots> \<longleftrightarrow> (\<exists>m i s. slot_at t m i = Inr s \<and> slot_state s \<noteq> kFree \<and>
        h = \<lparr>held_type = m, held_index = i, held_name = slot_name s,
             held_state = slot_state s, held_pass = slot_pass s\<rparr>)" (is "?L \<longleftrightarrow> ?R")
  proof
    assume ?L
    then obtain m ss i where "map_of (wt_slots t) m = Some ss" "i < length ss" "slot_state (ss ! i) \<noteq> kFree"
      "h = \<lparr>held_type = m, held_index = int i, held_name = slot_name (ss ! i),
             held_state = slot_state (ss ! i), held_pass = slot_pass (ss ! i)\<rparr>"
      by (auto simp: held_of_type_iff)
    moreover from this have "slot_at t m (int i) = Inr (ss ! i)" by (simp add: slot_at_iff)
    ultimately show ?R by blast
  next
    assume ?R
    then obtain m i s ss where "map_of (wt_slots t) m = Some ss" "0 \<le> i" "i < int (length ss)" "ss ! nat i = s"
      "slot_state s \<noteq> kFree"
      "h = \<lparr>held_type = m, held_index = i, held_name = slot_name s,
             held_state = slot_state s, held_pass = slot_pass s\<rparr>"
      by (auto simp: slot_at_iff)
    then show ?L by (intro exI [of _ m] exI [of _ ss]) (auto simp: held_of_type_iff intro!: exI [of _ "nat i"])
  qed
  finally show ?thesis .
qed

lemma held_pred_iff:
  assumes "wt_inv t"
  shows "list_ex P (held_slots t) \<longleftrightarrow>
    (\<exists>m i s. slot_at t m i = Inr s \<and> slot_state s \<noteq> kFree \<and>
       P \<lparr>held_type = m, held_index = i, held_name = slot_name s,
             held_state = slot_state s, held_pass = slot_pass s\<rparr>)"
proof -
  have "distinct (map fst (wt_slots t))" using wt_invD(1) [OF assms] by (simp add: wt_static_def)
  then show ?thesis by (auto simp: list_ex_iff Bex_def held_iff)
qed

lemma no_held:
  assumes "wt_inv t" and "held_slots t = []" and "slot_at t m i = Inr s"
  shows "s = free_slot"
proof -
  have "\<not> list_ex (\<lambda>_. True) (held_slots t)" using assms(2) by simp
  then have "slot_state s = kFree" using held_pred_iff [OF assms(1), of "\<lambda>_. True"] assms(3) by blast
  then show ?thesis using slot_at_ok [OF assms(1,3)] by (simp add: slot_ok_def)
qed

section \<open>Opening and closing passes\<close>

lemma begin_pass_inv:
  assumes inv: "wt_inv t"
  shows "wt_inv (snd (begin_pass t))"
proof (cases "snd (begin_pass t) = t")
  case False
  let ?t = "t\<lparr>wt_next_pass := wt_next_pass t + 1, wt_open_passes := wt_open_passes t @ [wt_next_pass t]\<rparr>"
  have eq: "snd (begin_pass t) = ?t" and len: "length (wt_open_passes t) < kMaxOpenPasses"
    using False by (auto simp: begin_pass_def split: sum.splits if_splits)
  note I = wt_invD [OF inv]
  have op: "wt_open_passes t = [wt_next_pass t - int (length (wt_open_passes t)) .. wt_next_pass t - 1]"
    and lt: "int (length (wt_open_passes t)) < wt_next_pass t"
    using I(2) by (simp_all add: wt_passes_def)
  have pa: "past ?t k p = past t k p" for k p by (simp add: past_def)
  have "[wt_next_pass t - int (length (wt_open_passes t)) .. wt_next_pass t - 1] @ [wt_next_pass t]
      = [wt_next_pass t - int (length (wt_open_passes t)) .. wt_next_pass t]"
    by (rule upto_rec2 [symmetric]) simp
  then have "wt_open_passes t @ [wt_next_pass t] = [wt_next_pass t - int (length (wt_open_passes t)) .. wt_next_pass t]"
    using op by metis
  then have "wt_passes ?t" using len lt by (simp add: wt_passes_def)
  moreover have "wt_static ?t" using I(1) by (simp add: wt_static_def)
  moreover have "wt_cursors_ok ?t" using I(3) by (fastforce simp: wt_cursors_ok_def)
  moreover have "wt_pending_ok ?t" using I(4) pa by (auto simp: wt_pending_ok_def)
  moreover have "wt_slots_ok ?t"
    using I(5) by (simp add: wt_slots_ok_def slot_ok_def slot_at_def type_slots_def)
  moreover have "wt_index_ok ?t"
    using I(6) pa by (simp add: wt_index_ok_def slot_at_def type_slots_def)
  moreover have "filling ?t = filling t" "counts_of ?t = counts_of t"
    by (simp_all add: filling_def counts_of_def fun_eq_iff)
  then have "wt_ledger ?t" using I(7) by (auto simp: wt_ledger_def)
  ultimately show ?thesis unfolding eq by (simp add: wt_inv_def)
qed (use inv in simp)

lemma finished_lists_iff:
  assumes "\<forall>(m, names) \<in> set ls. \<exists>c. wt_cursors t m = Some c"
  shows "finished_lists t p ls =
    Inr (\<forall>(m, names) \<in> set ls. names \<noteq> [] \<longrightarrow> p < cursor_pass (the (wt_cursors t m)))"
  using assms
proof (induction ls)
  case (Cons x ls)
  obtain m names where x: "x = (m, names)" by fastforce
  then obtain c where "wt_cursors t m = Some c" using Cons.prems by auto
  then show ?case using Cons x by (auto simp: cursor_at_def)
qed simp

lemma listed_cursor:
  assumes "wt_inv t" and "(m, names) \<in> set (wt_lists t)"
  shows "map_of (wt_lists t) m = Some names"
  using wt_invD(1) [OF assms(1)] assms(2) by (simp add: wt_static_def)

lemma listed_cursors:
  assumes "wt_inv t"
  shows "\<forall>(m, names) \<in> set (wt_lists t). \<exists>c. wt_cursors t m = Some c"
proof clarify
  fix m names assume "(m, names) \<in> set (wt_lists t)"
  then have "map_of (wt_lists t) m = Some names" by (rule listed_cursor [OF assms])
  then show "\<exists>c. wt_cursors t m = Some c" by (rule cursor_of_list [OF assms]) blast
qed

lemma producer_finished_iff:
  assumes "wt_inv t"
  shows "producer_finished t p =
    Inr (\<forall>(m, names) \<in> set (wt_lists t). names \<noteq> [] \<longrightarrow> p < cursor_pass (the (wt_cursors t m)))"
  unfolding producer_finished_def by (rule finished_lists_iff [OF listed_cursors [OF assms]])

text \<open>When the producer has finished a pass it has moved past every module of it.\<close>

lemma finished_past:
  assumes inv: "wt_inv t" and f: "producer_finished t p = Inr True" and n: "wt_installed t n \<noteq> None"
  shows "past t n p"
proof -
  obtain m pos where i: "wt_installed t n = Some (m, pos)" using n by auto
  then obtain names where l: "map_of (wt_lists t) m = Some names" "pos < length names"
    using installed_iff [OF inv] by blast
  from l(1) obtain c where c: "wt_cursors t m = Some c" by (rule cursor_of_list [OF inv])
  have "(m, names) \<in> set (wt_lists t)" using l(1) by (rule map_of_SomeD)
  then have "p < cursor_pass c" using f producer_finished_iff [OF inv, of p] l(2) c by fastforce
  then show ?thesis using i c by (simp add: past_def moved_past_def)
qed

text \<open>A pass that can be closed, and the table it leaves.\<close>

definition closable :: "WeightSlotTable \<Rightarrow> int \<Rightarrow> bool" where
  "closable t p \<longleftrightarrow>
     current_pass t = Some p \<and> producer_finished t p = Inr True
     \<and> (\<forall>m i s. slot_at t m i = Inr s \<longrightarrow> slot_name s \<noteq> [] \<longrightarrow> slot_pass s \<noteq> p)"

lemma finished_no_pending:
  assumes inv: "wt_inv t" and f: "producer_finished t p = Inr True"
  shows "pending_skip_count t p = 0"
proof -
  have "(p, n) \<notin> wt_pending_skips t" for n
    using wt_invD(4) [OF inv] finished_past [OF inv f, of n] by (auto simp: wt_pending_ok_def)
  then show ?thesis by (simp add: pending_skip_count_def)
qed

lemma end_pass_cases:
  assumes inv: "wt_inv t" and "p \<noteq> 0"
  shows "closable t p \<Longrightarrow> \<exists>r. end_pass p t =
      (Inr r, t\<lparr>wt_open_passes := tl (wt_open_passes t), wt_pass_counts := (wt_pass_counts t)(p := None)\<rparr>)"
    and "\<not> closable t p \<Longrightarrow> \<exists>e. end_pass p t = (Inl e, t)"
proof -
  let ?P = "\<lambda>h. held_pass h = p \<and> held_name h \<noteq> []"
  obtain f where f: "producer_finished t p = Inr f" using producer_finished_iff [OF inv] by blast
  have named: "slot_state s \<noteq> kFree" if "slot_at t m i = Inr s" "slot_name s \<noteq> []" for m i s
    using slot_at_ok [OF inv that(1)] that(2) by (auto simp: slot_ok_def)
  have h: "list_ex ?P (held_slots t) \<longleftrightarrow> (\<exists>m i s. slot_at t m i = Inr s \<and> slot_name s \<noteq> [] \<and> slot_pass s = p)"
    unfolding held_pred_iff [OF inv] using named by fastforce
  show "\<exists>r. end_pass p t =
      (Inr r, t\<lparr>wt_open_passes := tl (wt_open_passes t), wt_pass_counts := (wt_pass_counts t)(p := None)\<rparr>)"
    if "closable t p"
  proof -
    have "\<not> list_ex ?P (held_slots t)" using that h by (auto simp: closable_def)
    then show ?thesis using that assms(2) finished_no_pending [OF inv, of p]
      by (simp add: end_pass_def closable_def Let_def)
  qed
  show "\<exists>e. end_pass p t = (Inl e, t)" if "\<not> closable t p"
  proof (cases "current_pass t = Some p \<and> f")
    case True
    then have "list_ex ?P (held_slots t)" using that f h by (auto simp: closable_def)
    then show ?thesis using True assms(2) f by (simp add: end_pass_def)
  qed (use assms(2) f in \<open>auto simp: end_pass_def\<close>)
qed

lemma closed_inv:
  assumes inv: "wt_inv t" and c: "closable t p"
  shows "wt_inv (t\<lparr>wt_open_passes := tl (wt_open_passes t), wt_pass_counts := (wt_pass_counts t)(p := None)\<rparr>)"
    (is "wt_inv ?t")
proof -
  note I = wt_invD [OF inv]
  from c have cl: "current_pass t = Some p" "producer_finished t p = Inr True" by (simp_all add: closable_def)
  obtain ps where ps: "wt_open_passes t = p # ps" using cl(1) by (auto simp: current_pass_def split: list.splits)
  have op: "wt_open_passes t = [wt_next_pass t - int (length (wt_open_passes t)) .. wt_next_pass t - 1]"
    and lt: "int (length (wt_open_passes t)) < wt_next_pass t" "length (wt_open_passes t) \<le> kMaxOpenPasses"
    using I(2) by (simp_all add: wt_passes_def)
  have "[wt_next_pass t - int (length (wt_open_passes t)) .. wt_next_pass t - 1]
      = (wt_next_pass t - int (length (wt_open_passes t)))
        # [wt_next_pass t - int (length (wt_open_passes t)) + 1 .. wt_next_pass t - 1]"
    using ps by (intro upto_rec1) simp
  then have pp: "p = wt_next_pass t - int (length (wt_open_passes t))" "ps = [wt_next_pass t - int (length ps) .. wt_next_pass t - 1]"
    using ps op by simp_all
  have pa: "past ?t k q = past t k q" for k q by (simp add: past_def)
  have sl: "slot_at ?t = slot_at t" by (simp add: slot_at_def type_slots_def fun_eq_iff)
  have "tl (wt_open_passes t) = ps" "length (wt_open_passes t) = Suc (length ps)" using ps by simp_all
  then have "wt_passes ?t" using pp(2) lt by (simp add: wt_passes_def)
  moreover have "wt_static ?t" using I(1) by (simp add: wt_static_def)
  moreover have "wt_cursors_ok ?t"
    unfolding wt_cursors_ok_def
  proof (intro allI impI)
    fix m names assume "map_of (wt_lists ?t) m = Some names"
    then have l: "map_of (wt_lists t) m = Some names" by simp
    from l I(3) obtain cu where cu: "wt_cursors t m = Some cu" "names \<noteq> [] \<longrightarrow> cursor_position cu < length names
      \<and> cursor_pass cu \<in> insert (wt_next_pass t) (set (wt_open_passes t))"
      unfolding wt_cursors_ok_def by blast
    have "(m, names) \<in> set (wt_lists t)" using l by (rule map_of_SomeD)
    then have "names \<noteq> [] \<Longrightarrow> p < cursor_pass cu" using cl(2) producer_finished_iff [OF inv, of p] cu(1) by fastforce
    then show "\<exists>c. wt_cursors ?t m = Some c \<and> (names \<noteq> [] \<longrightarrow> cursor_position c < length names
                \<and> cursor_pass c \<in> insert (wt_next_pass ?t) (set (wt_open_passes ?t)))"
      using cu ps by auto
  qed
  moreover have "(q, k) \<in> wt_pending_skips t \<Longrightarrow> q \<in> set ps" for q k
    using I(4) ps finished_past [OF inv cl(2), of k] by (auto simp: wt_pending_ok_def)
  then have "wt_pending_ok ?t" using I(4) pa ps by (auto simp: wt_pending_ok_def)
  moreover have "wt_slots_ok ?t"
    unfolding wt_slots_ok_def sl
  proof (intro allI impI)
    fix m i s assume a: "slot_at t m i = Inr s"
    then have "slot_name s \<noteq> [] \<Longrightarrow> slot_pass s \<noteq> p" using c by (simp add: closable_def)
    then show "slot_ok ?t m i s" using slot_at_ok [OF inv a] ps by (auto simp: slot_ok_def)
  qed
  moreover have "wt_index_ok ?t" using I(6) pa sl by (simp add: wt_index_ok_def)
  moreover have "wt_ledger ?t"
  proof -
    have co: "counts_of ?t q m = (if q = p then no_counts else counts_of t q m)" for q m
      by (simp add: counts_of_def)
    have fi: "filling ?t = filling t" by (simp add: filling_def fun_eq_iff)
    have L: "copied (counts_of t q m) + skipped (counts_of t q m) + filling t m q \<le> passed cu names q"
      if "map_of (wt_lists t) m = Some names" "wt_cursors t m = Some cu" for q m names cu
      using I(7) that by (simp add: wt_ledger_def)
    have "copied (counts_of ?t q m) + skipped (counts_of ?t q m) + filling ?t m q \<le> passed cu names q"
      if "map_of (wt_lists t) m = Some names" "wt_cursors t m = Some cu" for q m names cu
      using L [OF that, of q] co [of q m] fi by (cases "q = p") (simp_all add: no_counts_def)
    moreover have "released_on_landing (counts_of ?t q m) \<le> copied (counts_of ?t q m)" for q m
      using I(7) co [of q m] by (simp add: wt_ledger_def no_counts_def)
    moreover have "counts_of ?t q m = no_counts" if "map_of (wt_lists t) m = None" for q m
      using I(7) co [of q m] that by (simp add: wt_ledger_def)
    moreover have "q \<in> set (wt_open_passes ?t)" if "wt_pass_counts ?t q \<noteq> None" for q
      using I(7) that ps by (auto simp: wt_ledger_def split: if_splits)
    ultimately show ?thesis by (simp add: wt_ledger_def)
  qed
  ultimately show ?thesis by (simp add: wt_inv_def)
qed

lemma end_pass_inv:
  assumes inv: "wt_inv t"
  shows "wt_inv (snd (end_pass p t))"
proof (cases "p = 0")
  case True
  then show ?thesis using inv by (simp add: end_pass_def)
next
  case False
  then show ?thesis
    using end_pass_cases [OF inv False] closed_inv [OF inv] inv by (cases "closable t p") auto
qed

lemma abort_slot_at:
  assumes inv: "wt_inv t" and "slot_at (snd (abort b t)) m i = Inr s"
  shows "s = free_slot"
proof -
  let ?f = "\<lambda>s. if slot_state s \<noteq> kFree then free_slot else s"
  have m: "map_of (wt_slots (snd (abort b t))) m = map_option (map ?f) (map_of (wt_slots t) m)"
    by (simp add: abort_def map_of_map)
  from assms(2) obtain ss where ss: "map_of (wt_slots t) m = Some ss" "0 \<le> i" "i < int (length ss)"
    "s = ?f (ss ! nat i)"
    unfolding slot_at_iff m by auto
  then have "slot_at t m i = Inr (ss ! nat i)" by (simp add: slot_at_iff)
  then show ?thesis using slot_at_ok [OF inv] ss(4) by (auto simp: slot_ok_def)
qed

lemma filling_free:
  assumes "\<And>m i s. slot_at t m i = Inr s \<Longrightarrow> slot_name s = []"
  shows "filling t m p = 0"
proof -
  have "slot_name s = []" if ss: "map_of (wt_slots t) m = Some ss" "s \<in> set ss" for ss s
  proof -
    obtain j where "j < length ss" "ss ! j = s" using ss(2) by (auto simp: in_set_conv_nth)
    then have "slot_at t m (int j) = Inr s" using ss(1) by (simp add: slot_at_iff)
    then show ?thesis by (rule assms)
  qed
  then show ?thesis by (auto simp: filling_def split: option.split)
qed

text \<open>A table with no open pass, no pending skip, no count and only free slots.\<close>

lemma wt_inv_idleI:
  assumes st: "wt_static t" and nx: "0 < wt_next_pass t" and idle: "wt_open_passes t = []" "wt_pending_skips t = {}"
      "wt_index t = Map.empty" "wt_pass_counts t = Map.empty"
    and cu: "\<And>m names. map_of (wt_lists t) m = Some names \<Longrightarrow>
      wt_cursors t m = Some \<lparr>cursor_pass = wt_next_pass t, cursor_position = 0\<rparr>"
    and sl: "\<And>m i s. slot_at t m i = Inr s \<Longrightarrow> s = free_slot \<or> s = free_slot\<lparr>slot_state := kFilling\<rparr>"
  shows "wt_inv t"
proof -
  have nm: "slot_name s = []" if "slot_at t m i = Inr s" for m i s using sl [OF that] by auto
  have "wt_passes t" using nx idle(1) by (simp add: wt_passes_def)
  moreover have "wt_cursors_ok t" using cu by (auto simp: wt_cursors_ok_def)
  moreover have "wt_pending_ok t" using idle(2) by (simp add: wt_pending_ok_def)
  moreover have "wt_slots_ok t" unfolding wt_slots_ok_def slot_ok_def using sl by fastforce
  moreover have "wt_index_ok t" using idle(3) by (simp add: wt_index_ok_def)
  moreover have "wt_ledger t" using filling_free [OF nm] idle(4) by (simp add: wt_ledger_def counts_of_def no_counts_def)
  ultimately show ?thesis using st by (simp add: wt_inv_def)
qed

lemma abort_inv:
  assumes inv: "wt_inv t"
  shows "wt_inv (snd (abort b t))"
proof (rule wt_inv_idleI)
  note I = wt_invD [OF inv]
  have "map fst (wt_slots (snd (abort b t))) = map fst (wt_slots t)"
    by (simp add: abort_def case_prod_beta)
  then have d: "distinct (map fst (wt_slots (snd (abort b t))))" using I(1) by (simp add: wt_static_def)
  show "wt_static (snd (abort b t))" using I(1) d unfolding wt_static_def by (simp add: abort_def)
  show "0 < wt_next_pass (snd (abort b t))" using I(2) by (simp add: abort_def wt_passes_def)
  fix m names assume "map_of (wt_lists (snd (abort b t))) m = Some names"
  then have "map_of (wt_lists t) m = Some names" by (simp add: abort_def)
  then obtain c where "wt_cursors t m = Some c" by (rule cursor_of_list [OF inv])
  then show "wt_cursors (snd (abort b t)) m = Some \<lparr>cursor_pass = wt_next_pass (snd (abort b t)), cursor_position = 0\<rparr>"
    by (simp add: abort_def)
qed (use abort_slot_at [OF inv] in \<open>auto simp: abort_def\<close>)

section \<open>Layout and installation\<close>

lemma install_names_iff:
  assumes "install_names m p ns inst = Inr inst'"
  shows "inst' k = Some x \<longleftrightarrow> inst k = Some x \<or> (\<exists>i < length ns. ns ! i = k \<and> x = (m, p + i))"
  using assms
proof (induction ns arbitrary: p inst)
  case (Cons n ns)
  from Cons.prems have n: "inst n = None" "install_names m (Suc p) ns (inst(n \<mapsto> (m, p))) = Inr inst'"
    by (auto split: option.splits if_splits)
  have "(\<exists>i < length (n # ns). (n # ns) ! i = k \<and> x = (m, p + i)) \<longleftrightarrow>
      (n = k \<and> x = (m, p)) \<or> (\<exists>i < length ns. ns ! i = k \<and> x = (m, Suc p + i))"
    by (auto simp: less_Suc_eq_0_disj)
  then show ?case using Cons.IH [OF n(2)] n(1) by (auto simp: fun_upd_def split: if_splits)
qed simp

lemma install_tasks_iff:
  assumes "install_tasks ts inst = Inr inst'"
  shows "inst' k = Some (m, pos) \<longleftrightarrow>
    inst k = Some (m, pos) \<or> (\<exists>names. (m, names) \<in> set ts \<and> pos < length names \<and> names ! pos = k)"
  using assms
proof (induction ts arbitrary: inst)
  case (Cons a ts)
  obtain m' ns where a: "a = (m', ns)" by fastforce
  with Cons.prems obtain inst1 where i: "install_names m' 0 ns inst = Inr inst1" "install_tasks ts inst1 = Inr inst'"
    by (auto split: sum.splits)
  have "inst1 k = Some (m, pos) \<longleftrightarrow> inst k = Some (m, pos) \<or> m = m' \<and> pos < length ns \<and> ns ! pos = k"
    using install_names_iff [OF i(1), of k "(m, pos)"] by auto
  then show ?case using Cons.IH [OF i(2)] a by auto
qed simp

text \<open>
  What a task list has by its C++ type, one list per type, and what every other method
  takes for granted, that no module is named by the empty string.
\<close>

definition valid_tasks :: "(string \<times> string list) list \<Rightarrow> bool" where
  "valid_tasks tasks \<longleftrightarrow> distinct (map fst tasks) \<and> (\<forall>(m, names) \<in> set tasks. [] \<notin> set names)"

lemma no_held_index:
  assumes inv: "wt_inv t" and h: "held_slots t = []"
  shows "wt_index t = Map.empty"
proof
  fix x :: "string \<times> int"
  obtain n p where x: "x = (n, p)" by fastforce
  show "wt_index t x = None"
  proof (rule ccontr)
    assume "wt_index t x \<noteq> None"
    then obtain m i where "wt_index t (n, p) = Some (m, i)" using x by auto
    then show False using indexD(1) [OF inv] no_held [OF inv h] by fastforce
  qed
qed

lemma install_inv:
  assumes inv: "wt_inv t" and v: "valid_tasks tasks"
  shows "wt_inv (snd (install tasks t))"
proof (cases "snd (install tasks t) = t")
  case False
  then obtain inst where o: "wt_open_passes t = []" and i: "install_tasks tasks Map.empty = Inr inst"
    and h: "held_slots t = []"
    and eq: "snd (install tasks t) = t\<lparr>wt_installed := inst, wt_lists := tasks,
        wt_cursors := (\<lambda>m. if m \<in> fst ` set tasks then Some start_cursor else None),
        wt_pending_skips := {}, wt_pass_counts := Map.empty, wt_next_pass := 1\<rparr>" (is "_ = ?t")
    by (auto simp: install_def require_no_open_pass_def split: sum.splits if_splits)
  have sl: "slot_at ?t = slot_at t" by (simp add: slot_at_def type_slots_def fun_eq_iff)
  have mo: "map_of tasks m = Some names \<longleftrightarrow> (m, names) \<in> set tasks" for m names
    using v by (simp add: valid_tasks_def)
  have it: "inst k = Some (m, pos) \<longleftrightarrow> (\<exists>names. map_of tasks m = Some names \<and> pos < length names \<and> names ! pos = k)"
    for k m pos using install_tasks_iff [OF i, of k m pos] by (simp add: mo)
  have "inst [] = None"
  proof (rule ccontr)
    assume "inst [] \<noteq> None"
    then obtain m pos names where "(m, names) \<in> set tasks" "pos < length names" "names ! pos = []"
      using it mo by fastforce
    then have "(m, names) \<in> set tasks" "[] \<in> set names" by (auto simp: in_set_conv_nth)
    then show False using v by (auto simp: valid_tasks_def)
  qed
  then have "wt_static ?t" using wt_invD(1) [OF inv] v it by (simp add: wt_static_def valid_tasks_def)
  moreover have "wt_cursors ?t m = Some \<lparr>cursor_pass = wt_next_pass ?t, cursor_position = 0\<rparr>"
    if "map_of (wt_lists ?t) m = Some names" for m names
    using that mo [of m names] by (force simp: start_cursor_def)
  ultimately have "wt_inv ?t"
    by (intro wt_inv_idleI) (use o no_held_index [OF inv h] sl no_held [OF inv h] in auto)
  then show ?thesis by (simp only: eq)
qed (use inv in simp)

lemma unnamed_when_closed:
  assumes inv: "wt_inv t" and o: "wt_open_passes t = []" and s: "slot_at t m i = Inr s"
  shows "s = free_slot \<or> s = free_slot\<lparr>slot_state := kFilling\<rparr>"
  using slot_at_ok [OF inv s] o by (auto simp: slot_ok_def)

lemma unindex_all_unnamed:
  assumes "\<And>i s. slot_at t m i = Inr s \<Longrightarrow> slot_name s = []"
  shows "unindex_all m k t = t"
proof (induction k)
  case (Suc k)
  then show ?case using assms by (auto simp: unindex_def split: sum.split)
qed simp

lemma index_empty_when_closed:
  assumes inv: "wt_inv t" and o: "wt_open_passes t = []"
  shows "wt_index t = Map.empty"
proof
  fix x :: "string \<times> int"
  obtain n p where x: "x = (n, p)" by fastforce
  show "wt_index t x = None"
  proof (rule ccontr)
    assume "wt_index t x \<noteq> None"
    then obtain m i where "wt_index t (n, p) = Some (m, i)" using x by auto
    then show False using indexD(1) [OF inv] unnamed_when_closed [OF inv o] by fastforce
  qed
qed

text \<open>Replacing the slots of one type by slots that carry no name.\<close>

lemma put_slots_at:
  "slot_at (t\<lparr>wt_slots := assoc_put m ss (wt_slots t)\<rparr>) m' i =
     (if m' = m
      then if i < 0 \<or> int (length ss) \<le> i then Inl (Runtime_error ''Invalid weight-buffer slot'') else Inr (ss ! nat i)
      else slot_at t m' i)"
  by (simp add: slot_at_def type_slots_def map_of_assoc_put)

lemma put_slots_inv:
  assumes inv: "wt_inv t"
    and sl: "\<And>m i s. slot_at (t\<lparr>wt_slots := ss\<rparr>) m i = Inr s \<Longrightarrow>
        slot_at t m i = Inr s \<or> s = free_slot"
    and keep: "\<And>m i s. slot_at t m i = Inr s \<Longrightarrow> slot_name s \<noteq> [] \<Longrightarrow> slot_at (t\<lparr>wt_slots := ss\<rparr>) m i = Inr s"
    and d: "distinct (map fst ss)"
    and fi: "\<And>m p. filling (t\<lparr>wt_slots := ss\<rparr>) m p \<le> filling t m p"
  shows "wt_inv (t\<lparr>wt_slots := ss\<rparr>)"
proof (rule wt_inv_slotsI [OF inv])
  let ?t = "t\<lparr>wt_slots := ss\<rparr>"
  show sch: "same_schedule t ?t" by (simp add: same_schedule_def)
  have pa: "past ?t k q = past t k q" for k q by (simp add: past_def)
  have "wt_slots_ok ?t"
    unfolding wt_slots_ok_def
  proof (intro allI impI)
    fix m i s assume "slot_at ?t m i = Inr s"
    then have "slot_at t m i = Inr s \<or> s = free_slot" by (rule sl)
    then show "slot_ok ?t m i s" using slot_at_ok [OF inv, of m i s] by (auto simp: slot_ok_def)
  qed
  moreover have "wt_index_ok ?t"
    unfolding wt_index_ok_def
  proof (intro allI impI)
    fix n p m i assume "wt_index ?t (n, p) = Some (m, i)"
    then have k: "wt_index t (n, p) = Some (m, i)" by simp
    then show "(\<exists>s. slot_at ?t m i = Inr s \<and> slot_name s = n \<and> slot_pass s = p \<and> n \<noteq> []
             \<and> slot_state s \<in> {kFilling, kPresent, kLeased})
        \<and> (\<exists>pos. wt_installed ?t n = Some (m, pos)) \<and> past ?t n p"
      using indexD [OF inv k] keep pa by fastforce
  qed
  ultimately show "wt_slots_ok ?t \<and> wt_index_ok ?t" ..
  show "wt_ledger ?t" by (rule wt_ledger_same [OF wt_invD(7) [OF inv] sch _ fi]) simp
qed (use d in simp_all)

lemma reset_type_inv:
  assumes inv: "wt_inv t"
  shows "wt_inv (snd (reset_type m k t))"
proof (cases "wt_open_passes t = []")
  case True
  have un: "slot_name s = []" if "slot_at t m' i = Inr s" for m' i s
    using unnamed_when_closed [OF inv True that] by auto
  let ?ss = "assoc_put m (replicate (nat k) free_slot) (wt_slots t)"
  have eq: "snd (reset_type m k t) \<in> {t, t\<lparr>wt_slots := ?ss\<rparr>}"
    using True unindex_all_unnamed [OF un]
    by (auto simp: reset_type_def require_no_open_pass_def Let_def split: option.split)
  have at: "slot_at t m' i = Inr s \<or> s = free_slot" if "slot_at (t\<lparr>wt_slots := ?ss\<rparr>) m' i = Inr s" for m' i s
    using that by (auto simp: put_slots_at split: if_splits)
  have "filling (t\<lparr>wt_slots := ?ss\<rparr>) m' p \<le> filling t m' p" for m' p
    using filling_free [of "t\<lparr>wt_slots := ?ss\<rparr>" m' p] at un by fastforce
  then have "wt_inv (t\<lparr>wt_slots := ?ss\<rparr>)"
    using at un wt_invD(1) [OF inv]
    by (intro put_slots_inv [OF inv]) (auto simp: wt_static_def intro: distinct_assoc_put)
  then show ?thesis using eq inv by auto
qed (use inv in \<open>simp add: reset_type_def require_no_open_pass_def\<close>)

lemma grow_type_inv:
  assumes inv: "wt_inv t"
  shows "wt_inv (grow_type m k t)"
proof -
  define old where "old = (case type_slots t m of None \<Rightarrow> [] | Some xs \<Rightarrow> xs)"
  define new where "new = old @ replicate (nat k - length old) free_slot"
  let ?ss = "assoc_put m new (wt_slots t)"
  have eq: "grow_type m k t = t\<lparr>wt_slots := ?ss\<rparr>"
    by (auto simp: grow_type_def old_def new_def Let_def nat_le_iff split: option.split)
  have at: "slot_at t m' i = Inr s \<or> s = free_slot" if "slot_at (t\<lparr>wt_slots := ?ss\<rparr>) m' i = Inr s" for m' i s
    using that by (auto simp: slot_at_def type_slots_def map_of_assoc_put new_def old_def nth_append nat_less_iff split: if_splits option.splits)
  have keep: "slot_at (t\<lparr>wt_slots := ?ss\<rparr>) m' i = Inr s" if "slot_at t m' i = Inr s" for m' i s
    using that by (auto simp: slot_at_def type_slots_def map_of_assoc_put new_def old_def nth_append nat_less_iff split: if_splits option.splits)
  have "filling (t\<lparr>wt_slots := ?ss\<rparr>) m' p \<le> filling t m' p" for m' p
    by (auto simp: filling_def map_of_assoc_put new_def old_def type_slots_def split: option.split)
  then have "wt_inv (t\<lparr>wt_slots := ?ss\<rparr>)"
    using at keep wt_invD(1) [OF inv]
    by (intro put_slots_inv [OF inv]) (auto simp: wt_static_def intro: distinct_assoc_put)
  then show ?thesis by (simp only: eq)
qed

end
