(* ===== verification/Weight_Cancel.thy ===== *)
theory Weight_Cancel
  imports Weight_Passes
begin

text \<open>
  \<open>cancel_pass\<close>: its three loops in closed form, and preservation of the invariant.
\<close>

section \<open>Cancelling a pass\<close>

definition cancel_slot :: "int \<Rightarrow> Slot \<Rightarrow> Slot" where
  "cancel_slot p s =
     (if slot_name s = [] \<or> slot_pass s \<noteq> p then s
      else if slot_state s = kPresent then free_slot
      else if slot_state s = kFilling then s\<lparr>release_on_landing := True\<rparr> else s)"

definition cancelled_keys :: "int \<Rightarrow> Slot list \<Rightarrow> (string \<times> int) list" where
  "cancelled_keys p ss =
     map (\<lambda>s. (slot_name s, p)) (filter (\<lambda>s. slot_name s \<noteq> [] \<and> slot_pass s = p \<and> slot_state s = kPresent) ss)"

lemma cancel_slots_eq:
  "\<exists>c'. cancel_slots p ss c = (map (cancel_slot p) ss, cancelled_keys p ss, c')"
proof (induction ss arbitrary: c)
  case (Cons s ss)
  have r: "s\<lparr>release_on_landing := True\<rparr> = s" if "release_on_landing s" using that by simp
  obtain c1 where "cancel_slots p ss c = (map (cancel_slot p) ss, cancelled_keys p ss, c1)" using Cons by blast
  moreover obtain c2 where "cancel_slots p ss (c\<lparr>freed_present := freed_present c + 1\<rparr>)
      = (map (cancel_slot p) ss, cancelled_keys p ss, c2)" using Cons by blast
  moreover obtain c3 where "cancel_slots p ss (c\<lparr>release_on_landing_count := release_on_landing_count c + 1\<rparr>)
      = (map (cancel_slot p) ss, cancelled_keys p ss, c3)" using Cons by blast
  ultimately show ?case using r by (auto simp: cancel_slot_def cancelled_keys_def)
qed (simp add: cancelled_keys_def)

lemma cancel_types_eq:
  "\<exists>c'. cancel_types p ts c = (map (\<lambda>(m, ss). (m, map (cancel_slot p) ss)) ts,
      concat (map (\<lambda>(m, ss). cancelled_keys p ss) ts), c')"
proof (induction ts arbitrary: c)
  case (Cons a ts)
  obtain m ss where a: "a = (m, ss)" by fastforce
  obtain c1 where c1: "cancel_slots p ss c = (map (cancel_slot p) ss, cancelled_keys p ss, c1)"
    using cancel_slots_eq by blast
  obtain c2 where "cancel_types p ts c1 = (map (\<lambda>(m, ss). (m, map (cancel_slot p) ss)) ts,
      concat (map (\<lambda>(m, ss). cancelled_keys p ss) ts), c2)" using Cons by blast
  then show ?case using a c1 by simp
qed simp

lemma cancel_names_eq:
  assumes "wt_cursors t m = Some c"
  shows "\<exists>k'. cancel_names t m p pos ns pend k =
    Inr (pend \<union> {(p, ns ! i) | i. i < length ns \<and> \<not> moved_past c p (pos + i)}, k')"
  using assms
proof (induction ns arbitrary: pos pend k)
  case (Cons n ns)
  have s: "{(p, (n # ns) ! i) | i. i < length (n # ns) \<and> \<not> moved_past c p (pos + i)}
      = (if moved_past c p pos then {} else {(p, n)})
        \<union> {(p, ns ! i) | i. i < length ns \<and> \<not> moved_past c p (Suc pos + i)}"
  proof (rule set_eqI)
    fix x
    show "x \<in> {(p, (n # ns) ! i) | i. i < length (n # ns) \<and> \<not> moved_past c p (pos + i)} \<longleftrightarrow>
      x \<in> (if moved_past c p pos then {} else {(p, n)})
        \<union> {(p, ns ! i) | i. i < length ns \<and> \<not> moved_past c p (Suc pos + i)}"
      using Ex_less_Suc2 [of "length ns" "\<lambda>i. x = (p, (n # ns) ! i) \<and> \<not> moved_past c p (pos + i)"] by auto
  qed
  have pr: "produced t m p pos = Inr (moved_past c p pos)"
    using Cons.prems by (simp add: produced_def cursor_at_def)
  show ?case
  proof (cases "moved_past c p pos")
    case True
    then show ?thesis unfolding s using Cons.IH [OF Cons.prems, of "Suc pos" pend k] pr by simp
  next
    case False
    show ?thesis
    proof (cases "(p, n) \<in> pend")
      case True
      then have "pend \<union> ({(p, n)} \<union> S) = pend \<union> S" for S by blast
      then show ?thesis unfolding s using Cons.IH [OF Cons.prems, of "Suc pos" pend k] pr False True by simp
    next
      case new: False
      have "pend \<union> ({(p, n)} \<union> S) = insert (p, n) pend \<union> S" for S by blast
      then show ?thesis unfolding s
        using Cons.IH [OF Cons.prems, of "Suc pos" "insert (p, n) pend" "Suc k"] pr False new by simp
    qed
  qed
qed simp

lemma cancel_lists_eq:
  assumes "\<forall>(m, names) \<in> set ls. \<exists>c. wt_cursors t m = Some c"
  shows "\<exists>k'. cancel_lists t p ls pend k =
    Inr (pend \<union> {(p, names ! i) | m names i. (m, names) \<in> set ls \<and> i < length names
                    \<and> \<not> moved_past (the (wt_cursors t m)) p i}, k')"
  using assms
proof (induction ls arbitrary: pend k)
  case (Cons a ls)
  obtain m ns where a: "a = (m, ns)" by fastforce
  obtain c where c: "wt_cursors t m = Some c" using Cons.prems a by auto
  let ?S = "{(p, ns ! i) | i. i < length ns \<and> \<not> moved_past c p (0 + i)}"
  let ?R = "\<lambda>ls. {(p, names ! i) | m names i. (m, names) \<in> set ls \<and> i < length names
                    \<and> \<not> moved_past (the (wt_cursors t m)) p i}"
  obtain k1 where k1: "cancel_names t m p 0 ns pend k = Inr (pend \<union> ?S, k1)" using cancel_names_eq [OF c] by blast
  obtain k2 where "cancel_lists t p ls (pend \<union> ?S) k1 = Inr (pend \<union> ?S \<union> ?R ls, k2)"
    using Cons.IH [of "pend \<union> ?S" k1] Cons.prems by auto
  moreover have "?R (a # ls) = ?S \<union> ?R ls"
    using c a by (auto simp: a; fastforce)
  ultimately show ?case using a k1 by (simp add: Un_assoc)
qed simp

text \<open>The table a cancellation leaves, in closed form.\<close>

definition cancelled :: "int \<Rightarrow> WeightSlotTable \<Rightarrow> WeightSlotTable" where
  "cancelled p t =
     t\<lparr>wt_slots := map (\<lambda>(m, ss). (m, map (cancel_slot p) ss)) (wt_slots t),
       wt_index := (\<lambda>k. if k \<in> set (concat (map (\<lambda>(m, ss). cancelled_keys p ss) (wt_slots t))) then None else wt_index t k),
       wt_pending_skips := wt_pending_skips t \<union> {(p, n) | n. wt_installed t n \<noteq> None \<and> \<not> past t n p}\<rparr>"

lemma past_the_cursor:
  assumes "wt_inv t" and "wt_installed t n = Some (m, i)"
  shows "past t n p \<longleftrightarrow> moved_past (the (wt_cursors t m)) p i"
proof -
  obtain names where "map_of (wt_lists t) m = Some names" using installed_iff [OF assms(1)] assms(2) by blast
  then obtain c where "wt_cursors t m = Some c" by (rule cursor_of_list [OF assms(1)])
  then show ?thesis using assms(2) by (simp add: past_def)
qed

lemma cancel_pass_cases:
  assumes inv: "wt_inv t" and p: "p \<noteq> 0"
  obtains (closed) e where "p \<notin> set (wt_open_passes t)" "cancel_pass p t = (Inl e, t)"
  | (leased) e m i s where "p \<in> set (wt_open_passes t)" "slot_at t m i = Inr s" "slot_state s = kLeased"
      "slot_pass s = p" "cancel_pass p t = (Inl e, t)"
  | (ok) r where "p \<in> set (wt_open_passes t)"
      "\<forall>m i s. slot_at t m i = Inr s \<longrightarrow> slot_pass s = p \<longrightarrow> slot_state s \<noteq> kLeased"
      "cancel_pass p t = (Inr r, cancelled p t)"
proof (cases "p \<in> set (wt_open_passes t)")
  case False
  then show thesis using closed p by (simp add: cancel_pass_def require_open_def is_open_def Let_def)
next
  case op: True
  let ?P = "\<lambda>h. held_pass h = p \<and> held_state h = kLeased"
  have h: "list_ex ?P (held_slots t) \<longleftrightarrow> (\<exists>m i s. slot_at t m i = Inr s \<and> slot_pass s = p \<and> slot_state s = kLeased)"
    unfolding held_pred_iff [OF inv] by fastforce
  show thesis
  proof (cases "list_ex ?P (held_slots t)")
    case True
    then show thesis using leased h op p by (auto simp: cancel_pass_def require_open_def is_open_def Let_def)
  next
    case False
    let ?z = "\<lparr>freed_present = 0, release_on_landing_count = 0, pending_count = 0\<rparr>"
    let ?ks = "concat (map (\<lambda>(m, ss). cancelled_keys p ss) (wt_slots t))"
    obtain c where c: "cancel_types p (wt_slots t) ?z
        = (map (\<lambda>(m, ss). (m, map (cancel_slot p) ss)) (wt_slots t), ?ks, c)" using cancel_types_eq by blast
    let ?u = "t\<lparr>wt_slots := map (\<lambda>(m, ss). (m, map (cancel_slot p) ss)) (wt_slots t),
                wt_index := (\<lambda>k. if k \<in> set ?ks then None else wt_index t k)\<rparr>"
    let ?R = "{(p, names ! i) | m names i. (m, names) \<in> set (wt_lists t) \<and> i < length names
                    \<and> \<not> moved_past (the (wt_cursors t m)) p i}"
    obtain k where k: "cancel_lists ?u p (wt_lists ?u) (wt_pending_skips ?u) 0 = Inr (wt_pending_skips t \<union> ?R, k)"
      using cancel_lists_eq [of "wt_lists t" ?u p "wt_pending_skips t" 0] listed_cursors [OF inv] by auto
    have "?R = {(p, n) | n. wt_installed t n \<noteq> None \<and> \<not> past t n p}" (is "_ = ?Q")
    proof (intro equalityI subsetI)
      fix x assume "x \<in> ?R"
      then obtain m names i where x: "x = (p, names ! i)" "(m, names) \<in> set (wt_lists t)" "i < length names"
        "\<not> moved_past (the (wt_cursors t m)) p i" by blast
      then have "wt_installed t (names ! i) = Some (m, i)"
        using installed_iff [OF inv] listed_cursor [OF inv x(2)] by blast
      then show "x \<in> ?Q" using x past_the_cursor [OF inv] by auto
    next
      fix x assume "x \<in> ?Q"
      then obtain n m i where x: "x = (p, n)" "wt_installed t n = Some (m, i)" "\<not> past t n p" by auto
      then obtain names where "map_of (wt_lists t) m = Some names" "i < length names" "names ! i = n"
        using installed_iff [OF inv] by blast
      then show "x \<in> ?R" using x past_the_cursor [OF inv x(2)] map_of_SomeD by fastforce
    qed
    then have "cancel_pass p t = (Inr (c\<lparr>pending_count := k\<rparr>), cancelled p t)"
      using c k op p False by (simp add: cancel_pass_def require_open_def is_open_def Let_def cancelled_def)
    then show thesis using ok op False h by blast
  qed
qed

lemma cancelled_slot_at:
  "slot_at (cancelled p t) m i = map_sum id (cancel_slot p) (slot_at t m i)"
proof -
  have "map_of (wt_slots (cancelled p t)) m = map_option (map (cancel_slot p)) (map_of (wt_slots t) m)"
    by (simp add: cancelled_def map_of_map)
  then show ?thesis by (auto simp: slot_at_def type_slots_def split: option.split)
qed

lemma cancelled_index:
  assumes inv: "wt_inv t"
  shows "wt_index (cancelled p t) (n, q) =
    (if q = p \<and> (\<exists>m i s. slot_at t m i = Inr s \<and> slot_name s = n \<and> n \<noteq> [] \<and> slot_pass s = p \<and> slot_state s = kPresent)
     then None else wt_index t (n, q))"
proof -
  have d: "distinct (map fst (wt_slots t))" using wt_invD(1) [OF inv] by (simp add: wt_static_def)
  have "(n, q) \<in> set (concat (map (\<lambda>(m, ss). cancelled_keys p ss) (wt_slots t))) \<longleftrightarrow>
      (\<exists>m ss. (m, ss) \<in> set (wt_slots t) \<and> (n, q) \<in> set (cancelled_keys p ss))" by auto
  also have "\<dots> \<longleftrightarrow> (\<exists>m ss. map_of (wt_slots t) m = Some ss \<and> (n, q) \<in> set (cancelled_keys p ss))"
    using d by simp
  also have "\<dots> \<longleftrightarrow> (\<exists>m ss j. map_of (wt_slots t) m = Some ss \<and> j < length ss \<and> q = p \<and> slot_name (ss ! j) = n
      \<and> n \<noteq> [] \<and> slot_pass (ss ! j) = p \<and> slot_state (ss ! j) = kPresent)"
    by (auto simp: cancelled_keys_def in_set_conv_nth)
  also have "\<dots> \<longleftrightarrow> q = p \<and> (\<exists>m i s. slot_at t m i = Inr s \<and> slot_name s = n \<and> n \<noteq> [] \<and> slot_pass s = p
      \<and> slot_state s = kPresent)" (is "?L \<longleftrightarrow> ?R")
  proof
    assume ?L
    then obtain m ss j where a: "map_of (wt_slots t) m = Some ss" "j < length ss" "q = p" "slot_name (ss ! j) = n"
      "n \<noteq> []" "slot_pass (ss ! j) = p" "slot_state (ss ! j) = kPresent" by blast
    then have "slot_at t m (int j) = Inr (ss ! j)" by (simp add: slot_at_iff)
    then show ?R using a(3-) by blast
  next
    assume ?R
    then obtain m i s ss where "q = p" "map_of (wt_slots t) m = Some ss" "0 \<le> i" "i < int (length ss)" "ss ! nat i = s"
      "slot_name s = n" "n \<noteq> []" "slot_pass s = p" "slot_state s = kPresent"
      unfolding slot_at_iff by blast
    moreover from this have "nat i < length ss" by simp
    ultimately show ?L by blast
  qed
  finally show ?thesis by (simp add: cancelled_def)
qed

text \<open>Two slots of the same name and pass, neither pending release, are the same slot.\<close>

lemma named_slot_unique:
  assumes inv: "wt_inv t" and s: "slot_at t m i = Inr s" "slot_at t m' i' = Inr s'"
    and n: "slot_name s \<noteq> []" "slot_name s' = slot_name s" "slot_pass s' = slot_pass s"
    and p: "slot_state s \<noteq> kPendingRelease" "slot_state s' \<noteq> kPendingRelease"
  shows "m' = m" and "i' = i" and "s' = s"
proof -
  have "wt_index t (slot_name s, slot_pass s) = Some (m, i)" using slot_at_ok [OF inv s(1)] n p by (simp add: slot_ok_def)
  moreover have "wt_index t (slot_name s, slot_pass s) = Some (m', i')"
    using slot_at_ok [OF inv s(2)] n p by (simp add: slot_ok_def)
  ultimately show "m' = m" "i' = i" by simp_all
  then show "s' = s" using s by simp
qed

lemma cancelled_filling: "filling (cancelled p t) m q = filling t m q"
proof (cases "map_of (wt_slots t) m")
  case None
  then show ?thesis by (simp add: filling_def cancelled_def map_of_map)
next
  case (Some ss)
  have "map_of (wt_slots (cancelled p t)) m = Some (map (cancel_slot p) ss)"
    using Some by (simp add: cancelled_def map_of_map)
  moreover have "slot_state (cancel_slot p s) = kFilling \<and> slot_name (cancel_slot p s) \<noteq> [] \<and> slot_pass (cancel_slot p s) = q
     \<longleftrightarrow> slot_state s = kFilling \<and> slot_name s \<noteq> [] \<and> slot_pass s = q" for s
    by (auto simp: cancel_slot_def)
  ultimately show ?thesis using Some by (simp add: filling_def filter_map o_def)
qed

lemma cancelled_inv:
  assumes inv: "wt_inv t" and op: "p \<in> set (wt_open_passes t)"
  shows "wt_inv (cancelled p t)"
proof -
  let ?t = "cancelled p t"
  note I = wt_invD [OF inv]
  have sch: "same_schedule t ?t" by (simp add: same_schedule_def cancelled_def)
  have pa: "past ?t k q = past t k q" for k q by (rule same_schedule_past [OF sch])
  have fe: "wt_open_passes ?t = wt_open_passes t" "wt_installed ?t = wt_installed t"
    using sch by (simp_all add: same_schedule_def)
  have "map fst (wt_slots ?t) = map fst (wt_slots t)" by (simp add: cancelled_def case_prod_beta)
  then have d: "distinct (map fst (wt_slots ?t))" using I(1) by (simp add: wt_static_def)
  have "wt_static ?t" using I(1) sch d by (simp add: wt_static_def same_schedule_def)
  moreover have "wt_passes ?t" using I(2) sch by (simp add: wt_passes_def same_schedule_def)
  moreover have "wt_cursors_ok ?t" using I(3) sch by (simp add: wt_cursors_ok_def same_schedule_def)
  moreover have "wt_pending_ok ?t"
  proof -
    have pe: "wt_pending_skips ?t = wt_pending_skips t \<union> {(p, n) | n. wt_installed t n \<noteq> None \<and> \<not> past t n p}"
      by (simp add: cancelled_def)
    have "finite {n. wt_installed t n \<noteq> None}" by (rule installed_finite [OF inv])
    then have "finite (Pair p ` {n. wt_installed t n \<noteq> None})" by simp
    then have "finite {(p, n) | n. wt_installed t n \<noteq> None \<and> \<not> past t n p}"
      by (rule rev_finite_subset) auto
    then show ?thesis using I(4) pe op pa fe unfolding wt_pending_ok_def by auto
  qed
  moreover have "wt_slots_ok ?t"
    unfolding wt_slots_ok_def
  proof (intro allI impI)
    fix m i s' assume "slot_at ?t m i = Inr s'"
    then obtain s where s: "slot_at t m i = Inr s" "s' = cancel_slot p s"
      by (cases "slot_at t m i") (auto simp: cancelled_slot_at)
    note ok = slot_at_ok [OF inv s(1)]
    have "wt_index ?t (slot_name s, slot_pass s) = Some (m, i)"
      if a: "slot_name s \<noteq> []" "slot_state s \<noteq> kPendingRelease" "\<not> (slot_pass s = p \<and> slot_state s = kPresent)"
    proof -
      have "\<not> (slot_pass s = p \<and> (\<exists>m' i' r. slot_at t m' i' = Inr r \<and> slot_name r = slot_name s \<and> slot_name s \<noteq> []
           \<and> slot_pass r = p \<and> slot_state r = kPresent))"
      proof
        assume h: "slot_pass s = p \<and> (\<exists>m' i' r. slot_at t m' i' = Inr r \<and> slot_name r = slot_name s \<and> slot_name s \<noteq> []
           \<and> slot_pass r = p \<and> slot_state r = kPresent)"
        then obtain m' i' r where r: "slot_at t m' i' = Inr r" "slot_name r = slot_name s" "slot_pass r = slot_pass s"
          "slot_state r = kPresent" by auto
        then have "r = s" by (intro named_slot_unique(3) [OF inv s(1) r(1) a(1) r(2,3) a(2)]) simp
        then show False using r(4) a(3) h by simp
      qed
      then show ?thesis using ok a cancelled_index [OF inv, of p "slot_name s" "slot_pass s"] by (auto simp: slot_ok_def)
    qed
    then show "slot_ok ?t m i s'" using ok s(2) fe by (auto simp: slot_ok_def cancel_slot_def)
  qed
  moreover have "wt_index_ok ?t"
    unfolding wt_index_ok_def
  proof (intro allI impI)
    fix n q m i assume k: "wt_index ?t (n, q) = Some (m, i)"
    then have k0: "wt_index t (n, q) = Some (m, i)"
      and np: "\<not> (q = p \<and> (\<exists>m i s. slot_at t m i = Inr s \<and> slot_name s = n \<and> n \<noteq> [] \<and> slot_pass s = p \<and> slot_state s = kPresent))"
      by (auto simp: cancelled_index [OF inv] split: if_splits)
    obtain s where s: "slot_at t m i = Inr s" "slot_name s = n" "slot_pass s = q" "n \<noteq> []"
      "indexed_state (slot_state s)" using indexD(1) [OF inv k0] by blast
    have "\<not> (slot_pass s = p \<and> slot_state s = kPresent)" using s np by blast
    then have "slot_name (cancel_slot p s) = n \<and> slot_pass (cancel_slot p s) = q \<and> indexed_state (slot_state (cancel_slot p s))"
      using s by (auto simp: cancel_slot_def)
    moreover have "slot_at ?t m i = Inr (cancel_slot p s)" using s(1) by (simp add: cancelled_slot_at)
    ultimately show "(\<exists>s. slot_at ?t m i = Inr s \<and> slot_name s = n \<and> slot_pass s = q \<and> n \<noteq> []
             \<and> slot_state s \<in> {kFilling, kPresent, kLeased})
        \<and> (\<exists>pos. wt_installed ?t n = Some (m, pos)) \<and> past ?t n q"
      using s(4) indexD(2,3) [OF inv k0] fe pa by auto
  qed
  moreover have "wt_ledger ?t"
    by (rule wt_ledger_same [OF I(7) sch]) (simp_all add: cancelled_filling, simp add: cancelled_def)
  ultimately show ?thesis by (simp add: wt_inv_def)
qed

lemma cancel_pass_inv:
  assumes inv: "wt_inv t"
  shows "wt_inv (snd (cancel_pass p t))"
proof (cases "p = 0")
  case True
  then show ?thesis using inv by (simp add: cancel_pass_def Let_def)
next
  case False
  show ?thesis
    using inv False
  proof (cases rule: cancel_pass_cases)
    case (ok r)
    then show ?thesis using cancelled_inv [OF inv ok(1)] by simp
  qed (use inv in simp_all)
qed

end
