(* ===== verification/Weight_Calls.thy ===== *)
theory Weight_Calls
  imports Weight_Cancel
begin

text \<open>
  Sequences of calls on the slot table: every method as one call, the tables that calls can
  produce, and the lemmas on keys and states that the properties share.
\<close>

section \<open>Calls and reachable tables\<close>

text \<open>One call of a method that changes the table.\<close>

datatype wt_call =
    Reset_type string int
  | Grow_type string int
  | Install "(string \<times> string list) list"
  | Begin_pass
  | Cancel_pass int
  | End_pass int
  | Abort bool
  | Reserve string
  | Claim string int string
  | Retire_skip string string
  | Landed string int
  | Abandon string int
  | Lease string
  | Release string
  | Release_async "string list"
  | Reclaim string int
  | Skip string

definition outcome :: "'a result \<times> WeightSlotTable \<Rightarrow> cpp_error option \<times> WeightSlotTable" where
  "outcome r = (case fst r of Inl e \<Rightarrow> Some e | Inr _ \<Rightarrow> None, snd r)"

fun wt_exec :: "wt_call \<Rightarrow> WeightSlotTable \<Rightarrow> cpp_error option \<times> WeightSlotTable" where
  "wt_exec (Reset_type m k) t = outcome (reset_type m k t)"
| "wt_exec (Grow_type m k) t = (None, grow_type m k t)"
| "wt_exec (Install tasks) t = outcome (install tasks t)"
| "wt_exec Begin_pass t = outcome (begin_pass t)"
| "wt_exec (Cancel_pass p) t = outcome (cancel_pass p t)"
| "wt_exec (End_pass p) t = outcome (end_pass p t)"
| "wt_exec (Abort b) t = (None, snd (abort b t))"
| "wt_exec (Reserve m) t = (None, snd (reserve m t))"
| "wt_exec (Claim m i n) t = outcome (claim m i n t)"
| "wt_exec (Retire_skip m n) t = outcome (retire_skip m n t)"
| "wt_exec (Landed m i) t = outcome (landed m i t)"
| "wt_exec (Abandon m i) t = outcome (abandon m i t)"
| "wt_exec (Lease n) t = outcome (lease n t)"
| "wt_exec (Release n) t = outcome (release n t)"
| "wt_exec (Release_async ns) t = outcome (release_async ns t)"
| "wt_exec (Reclaim m i) t = outcome (reclaim m i t)"
| "wt_exec (Skip n) t = outcome (skip n t)"

text \<open>
  The calls a client may make: any of them with any arguments, in any order, except that
  the task lists of an installation name no module by the empty string.
\<close>

fun callable :: "wt_call \<Rightarrow> bool" where
  "callable (Install tasks) \<longleftrightarrow> valid_tasks tasks"
| "callable _ \<longleftrightarrow> True"

inductive wt_reach :: "WeightSlotTable \<Rightarrow> bool" where
  start: "wt_reach empty_table"
| call: "wt_reach t \<Longrightarrow> callable op \<Longrightarrow> wt_reach (snd (wt_exec op t))"

lemmas wt_preserved = reset_type_inv grow_type_inv install_inv begin_pass_inv cancel_pass_inv end_pass_inv
  abort_inv reserve_inv claim_inv retire_skip_inv landed_inv abandon_inv lease_inv release_inv
  release_async_inv reclaim_inv skip_inv

lemma wt_exec_inv:
  assumes "wt_inv t" and "callable op"
  shows "wt_inv (snd (wt_exec op t))"
  using assms by (cases op) (simp_all add: outcome_def wt_preserved)

lemma wt_reach_inv: "wt_reach t \<Longrightarrow> wt_inv t"
proof (induction rule: wt_reach.induct)
  case start
  show ?case by (rule empty_table_inv)
next
  case (call t op)
  then show ?case using wt_exec_inv by blast
qed

text \<open>A run of calls, for concrete tables.\<close>

definition run_calls :: "wt_call list \<Rightarrow> WeightSlotTable" where
  "run_calls ops = fold (\<lambda>op t. snd (wt_exec op t)) ops empty_table"

lemma reach_fold:
  "wt_reach t \<Longrightarrow> list_all callable ops \<Longrightarrow> wt_reach (fold (\<lambda>op t. snd (wt_exec op t)) ops t)"
  by (induction ops arbitrary: t) (simp_all add: wt_reach.call)

lemma run_calls_reach: "list_all callable ops \<Longrightarrow> wt_reach (run_calls ops)"
  unfolding run_calls_def by (rule reach_fold [OF wt_reach.start])

section \<open>Failing calls\<close>

text \<open>
  The one call that leaves a trace when it throws: \<open>reset_type\<close> with a negative count has made an
  empty list of slots for a type that had none.
\<close>

definition after_failure :: "wt_call \<Rightarrow> WeightSlotTable \<Rightarrow> WeightSlotTable" where
  "after_failure op t =
     (case op of
        Reset_type m count \<Rightarrow>
          if wt_open_passes t = [] \<and> type_slots t m = None then t\<lparr>wt_slots := assoc_put m [] (wt_slots t)\<rparr> else t
      | _ \<Rightarrow> t)"

lemma failing_keeps:
  assumes inv: "wt_inv t" and f: "fst (wt_exec op t) = Some e"
  shows "snd (wt_exec op t) = after_failure op t"
proof (cases op)
  case (Reset_type m k)
  show ?thesis
  proof (cases "wt_open_passes t = []")
    case True
    have "slot_name s = []" if "slot_at t m' i = Inr s" for m' i s
      using unnamed_when_closed [OF inv True that] by auto
    then show ?thesis using f True Reset_type
      by (auto simp: outcome_def after_failure_def reset_type_def require_no_open_pass_def Let_def unindex_all_unnamed
          split: option.splits if_splits)
  qed (use f Reset_type in \<open>simp add: outcome_def after_failure_def reset_type_def require_no_open_pass_def\<close>)
next
  case (Cancel_pass p)
  show ?thesis
  proof (cases "p = 0")
    case True
    then show ?thesis using f Cancel_pass by (simp add: outcome_def after_failure_def cancel_pass_def Let_def)
  next
    case False
    show ?thesis using inv False
      by (cases rule: cancel_pass_cases) (use f Cancel_pass in \<open>simp_all add: outcome_def after_failure_def\<close>)
  qed
next
  case (End_pass p)
  show ?thesis
  proof (cases "p = 0")
    case True
    then show ?thesis using f End_pass by (simp add: outcome_def after_failure_def end_pass_def)
  next
    case False
    show ?thesis
      using end_pass_cases [OF inv False] f End_pass by (cases "closable t p") (auto simp: outcome_def after_failure_def)
  qed
next
  case (Claim m i n)
  show ?thesis using inv
    by (cases rule: claim_cases [where m = m and i = i and n = n]) (use f Claim in \<open>simp_all add: outcome_def after_failure_def\<close>)
next
  case (Retire_skip m n)
  show ?thesis using inv
    by (cases rule: retire_cases [where m = m and n = n]) (use f Retire_skip in \<open>simp_all add: outcome_def after_failure_def\<close>)
next
  case (Lease n)
  show ?thesis using inv
    by (cases rule: lease_cases [where n = n]) (use f Lease in \<open>simp_all add: outcome_def after_failure_def\<close>)
next
  case (Skip n)
  show ?thesis using inv
    by (cases rule: skip_cases [where n = n]) (use f Skip in \<open>simp_all add: outcome_def after_failure_def\<close>)
qed (use f in \<open>auto simp: outcome_def after_failure_def install_def begin_pass_def landed_def abandon_def
      release_def release_async_def reclaim_def Let_def split: sum.splits if_splits prod.splits\<close>)

section \<open>What the calls guarantee\<close>

lemma index_exact:
  assumes inv: "wt_inv t"
  shows "wt_index t (n, p) = Some (m, i) \<longleftrightarrow>
    (\<exists>s. slot_at t m i = Inr s \<and> slot_name s = n \<and> slot_pass s = p \<and> n \<noteq> [] \<and> indexed_state (slot_state s))"
proof
  assume "wt_index t (n, p) = Some (m, i)"
  then show "\<exists>s. slot_at t m i = Inr s \<and> slot_name s = n \<and> slot_pass s = p \<and> n \<noteq> [] \<and> indexed_state (slot_state s)"
    by (rule indexD(1) [OF inv])
next
  assume "\<exists>s. slot_at t m i = Inr s \<and> slot_name s = n \<and> slot_pass s = p \<and> n \<noteq> [] \<and> indexed_state (slot_state s)"
  then show "wt_index t (n, p) = Some (m, i)" using slot_at_ok [OF inv] by (auto simp: slot_ok_def)
qed

lemma state_of_iff:
  assumes inv: "wt_inv t"
  shows "state_of t n p = Some st \<longleftrightarrow>
    (\<exists>m i s. wt_index t (n, p) = Some (m, i) \<and> slot_at t m i = Inr s \<and> slot_state s = st)"
  by (auto simp: state_of_def split: option.split sum.split prod.split)

lemma state_of_None:
  assumes inv: "wt_inv t"
  shows "state_of t n p = None \<longleftrightarrow> wt_index t (n, p) = None"
proof (cases "wt_index t (n, p)")
  case (Some mi)
  obtain m i where mi: "mi = (m, i)" by fastforce
  then show ?thesis using Some indexD(1) [OF inv, of n p m i] by (auto simp: state_of_def)
qed (simp add: state_of_def)

lemma state_of_eqI:
  assumes "wt_index t' (n, p) = wt_index t (n, p)"
    and "\<And>m i. wt_index t (n, p) = Some (m, i) \<Longrightarrow> slot_at t' m i = slot_at t m i"
  shows "state_of t' n p = state_of t n p"
  using assms by (auto simp: state_of_def split: option.split)

text \<open>A slot of one module is never reached through the key of another.\<close>

lemma other_key_slot:
  assumes inv: "wt_inv t" and "slot_at t m i = Inr s" and "wt_index t (n, p) = Some (m', i')"
    and "(n, p) \<noteq> (slot_name s, slot_pass s)"
  shows "\<not> (m' = m \<and> i' = i)"
  using indexD(1) [OF inv assms(3)] assms(2,4) by auto

lemma reserve_production:
  assumes "reserve m t = (Some i, u)"
  shows "next_production u m' = next_production t m'"
  using reserve_slot(3) [OF assms]
  by (simp add: next_production_def cursor_at_def is_open_def Let_def split: option.split)

lemma claim_reserved:
  assumes inv: "wt_inv t" and pr: "next_production t m = Inr pr" "prod_kind pr = kCopy"
    and r: "reserve m t = (Some i, u)"
  obtains names c where "at_cursor t m names c (prod_name pr)" "prod_pass pr = cursor_pass c"
    "at_cursor u m names c (prod_name pr)" "wt_inv u"
    "slot_at u m i = Inr (free_slot\<lparr>slot_state := kFilling\<rparr>)"
    "claim m i (prod_name pr) u = (Inr kCopy, claimed m i (prod_name pr) names c (free_slot\<lparr>slot_state := kFilling\<rparr>) u)"
proof -
  obtain names c where at: "at_cursor t m names c (prod_name pr)" and c: "prod_pass pr = cursor_pass c"
    "prod_kind pr = kSkip \<longleftrightarrow> (cursor_pass c, prod_name pr) \<in> wt_pending_skips t"
    using next_production_at_cursor [OF inv pr(1)] pr(2) by (metis insertCI)
  obtain s where s: "slot_at t m i = Inr s" using reserve_slot(2) [OF r] by blast
  have u: "u = set_slot m i (free_slot\<lparr>slot_state := kFilling\<rparr>) t" by (rule reserve_slot(3) [OF r])
  have iu: "wt_inv u" using reserve_inv [OF inv, of m] r by simp
  have su: "slot_at u m i = Inr (free_slot\<lparr>slot_state := kFilling\<rparr>)"
    unfolding u slot_at_set_slot [OF s] by simp
  have atu: "at_cursor u m names c (prod_name pr)" using at by (simp add: at_cursor_def u)
  have np: "(cursor_pass c, prod_name pr) \<notin> wt_pending_skips u" using c(2) pr(2) u by simp
  have "claim m i (prod_name pr) u = (Inr kCopy, claimed m i (prod_name pr) names c (free_slot\<lparr>slot_state := kFilling\<rparr>) u)"
    using iu
  proof (cases rule: claim_cases [where m = m and i = i and n = "prod_name pr"])
    case (fails e)
    let ?v = "(set_slot m i ((free_slot\<lparr>slot_state := kFilling\<rparr>)\<lparr>slot_name := prod_name pr, slot_pass := cursor_pass c\<rparr>) u)
                      \<lparr>wt_index := (wt_index u)((prod_name pr, cursor_pass c) \<mapsto> (m, i))\<rparr>"
    have "advance m ?v = (Inr (), ?v\<lparr>wt_cursors := (wt_cursors ?v)(m \<mapsto> bump names c)\<rparr>)"
      by (rule advance_bump) (use atu in \<open>simp_all add: at_cursor_def\<close>)
    then show ?thesis
      using fails pr reserve_production [OF r, of m] su c(1) at_cursor_name(3) [OF iu atu]
      by (simp add: claim_def Let_def)
  next
    case (copies names' c' s')
    then show ?thesis using atu su by (simp add: at_cursor_def)
  qed (use atu np in \<open>simp_all add: at_cursor_def\<close>)
  with at c(1) atu iu su show thesis by (rule that)
qed

lemma claimed_state_of:
  assumes inv: "wt_inv u" and at: "at_cursor u m names c n"
    and s: "slot_at u m i = Inr s" "slot_state s = kFilling" "slot_name s = []"
  shows "state_of (claimed m i n names c s u) n' p' =
    (if (n', p') = (n, cursor_pass c) then Some kFilling else state_of u n' p')"
proof (cases "(n', p') = (n, cursor_pass c)")
  case True
  then show ?thesis using claimed_slot_at [OF s(1), of n names c m i] s(2) by (simp add: state_of_def claimed_def)
next
  case False
  have "state_of (claimed m i n names c s u) n' p' = state_of u n' p'"
  proof (rule state_of_eqI)
    show "wt_index (claimed m i n names c s u) (n', p') = wt_index u (n', p')" using False by (auto simp: claimed_def)
    fix m' i' assume k: "wt_index u (n', p') = Some (m', i')"
    have "n' \<noteq> []" using indexD(1) [OF inv k] by blast
    then have "\<not> (m' = m \<and> i' = i)" using other_key_slot [OF inv s(1) k] s(3) by simp
    then show "slot_at (claimed m i n names c s u) m' i' = slot_at u m' i'" using claimed_slot_at [OF s(1)] by auto
  qed
  then show ?thesis using False by auto
qed

lemma reserved_state_of:
  assumes inv: "wt_inv t" and r: "reserve m t = (Some i, u)"
  shows "state_of u n p = state_of t n p"
proof (rule state_of_eqI)
  obtain s where s: "slot_at t m i = Inr s" using reserve_slot(2) [OF r] by blast
  have f: "slot_state s = kFree" by (rule reserve_slot(1) [OF r s])
  show "wt_index u (n, p) = wt_index t (n, p)" using reserve_slot(3) [OF r] by simp
  fix m' i' assume k: "wt_index t (n, p) = Some (m', i')"
  then have "\<not> (m' = m \<and> i' = i)" using indexD(1) [OF inv k] s f by auto
  then show "slot_at u m' i' = slot_at t m' i'" using reserve_slot(3) [OF r] slot_at_set_slot [OF s] by auto
qed

section \<open>A small table\<close>

text \<open>Two slots of one type, two modules, one pass open; then the first module is copied.\<close>

definition demo_opened :: "wt_call list" where
  "demo_opened = [Reset_type ''e'' 2, Install [(''e'', [''a'', ''b''])], Begin_pass]"

definition demo_calls :: "wt_call list" where
  "demo_calls = demo_opened @ [Reserve ''e'', Claim ''e'' 0 ''a'', Landed ''e'' 0]"

definition demo_state :: "Slot list \<Rightarrow> (string \<times> int \<Rightarrow> SlotRef option) \<Rightarrow> int list \<Rightarrow> int \<Rightarrow> nat \<Rightarrow> (int \<Rightarrow> type_counts option) \<Rightarrow> WeightSlotTable" where
  "demo_state ss idx ps nx pos counts =
     \<lparr>wt_slots = [(''e'', ss)], wt_index = idx, wt_pending_skips = {},
      wt_installed = [''a'' \<mapsto> (''e'', 0), ''b'' \<mapsto> (''e'', 1)],
      wt_lists = [(''e'', [''a'', ''b''])], wt_cursors = [''e'' \<mapsto> \<lparr>cursor_pass = 1, cursor_position = pos\<rparr>],
      wt_open_passes = ps, wt_next_pass = nx, wt_pass_counts = counts, wt_schedule_lost = False\<rparr>"

lemma held_none: "held_slots t = [] \<longleftrightarrow> (\<forall>(m, ss) \<in> set (wt_slots t). \<forall>s \<in> set ss. slot_state s = kFree)"
  by (force simp: held_slots_def held_of_type_def filter_empty_conv all_set_conv_all_nth)

lemma demo_install:
  "snd (wt_exec (Install [(''e'', [''a'', ''b''])]) (snd (wt_exec (Reset_type ''e'' 2) empty_table)))
     = demo_state [free_slot, free_slot] Map.empty [] 1 0 Map.empty"
proof -
  let ?u = "empty_table\<lparr>wt_slots := [(''e'', [free_slot, free_slot])]\<rparr>"
  have r: "snd (wt_exec (Reset_type ''e'' 2) empty_table) = ?u"
    by (simp add: outcome_def reset_type_def require_no_open_pass_def type_slots_def empty_table_def numeral_2_eq_2)
  have i: "install_tasks [(''e'', [''a'', ''b''])] Map.empty = Inr [''a'' \<mapsto> (''e'', 0), ''b'' \<mapsto> (''e'', 1)]"
    by simp
  have h: "held_slots ?u = []" by (simp add: held_none)
  show ?thesis
    unfolding r using i h
    by (simp add: install_def outcome_def require_no_open_pass_def require_schedule_aligned_def empty_table_def
        demo_state_def del: install_tasks.simps) (simp add: start_cursor_def fun_eq_iff)
qed

lemma demo_begin:
  "snd (wt_exec Begin_pass (demo_state [free_slot, free_slot] Map.empty [] 1 0 Map.empty))
     = demo_state [free_slot, free_slot] Map.empty [1] 2 0 Map.empty"
  by (simp add: demo_state_def outcome_def begin_pass_def require_schedule_aligned_def kMaxOpenPasses_def)

lemma demo_reserve:
  "snd (wt_exec (Reserve ''e'') (demo_state [free_slot, free_slot] Map.empty [1] 2 0 Map.empty))
     = demo_state [free_slot\<lparr>slot_state := kFilling\<rparr>, free_slot] Map.empty [1] 2 0 Map.empty"
  by (simp add: demo_state_def reserve_def type_slots_def set_slot_def)

lemma demo_claim:
  "snd (wt_exec (Claim ''e'' 0 ''a'') (demo_state [free_slot\<lparr>slot_state := kFilling\<rparr>, free_slot] Map.empty [1] 2 0 Map.empty))
     = demo_state [\<lparr>slot_state = kFilling, slot_name = ''a'', slot_pass = 1, release_on_landing = False\<rparr>, free_slot]
         [(''a'', 1) \<mapsto> (''e'', 0)] [1] 2 1 Map.empty"
  by (simp add: demo_state_def outcome_def claim_def next_production_def cursor_at_def is_open_def
      slot_at_def type_slots_def set_slot_def advance_def free_slot_def Let_def)

lemma demo_land:
  "snd (wt_exec (Landed ''e'' 0) (demo_state [\<lparr>slot_state = kFilling, slot_name = ''a'', slot_pass = 1, release_on_landing = False\<rparr>, free_slot]
         [(''a'', 1) \<mapsto> (''e'', 0)] [1] 2 1 Map.empty))
     = demo_state [\<lparr>slot_state = kPresent, slot_name = ''a'', slot_pass = 1, release_on_landing = False\<rparr>, free_slot]
         [(''a'', 1) \<mapsto> (''e'', 0)] [1] 2 1 [1 \<mapsto> [''e'' \<mapsto> \<lparr>copied = 1, skipped = 0, released_on_landing = 0\<rparr>]]"
  by (simp add: demo_state_def outcome_def landed_def slot_at_def type_slots_def set_slot_def
      counts_of_def set_counts_def no_counts_def Let_def)

lemmas demo_steps = demo_install demo_begin demo_reserve demo_claim demo_land

lemma demo_table:
  "run_calls demo_calls = demo_state [\<lparr>slot_state = kPresent, slot_name = ''a'', slot_pass = 1, release_on_landing = False\<rparr>, free_slot]
         [(''a'', 1) \<mapsto> (''e'', 0)] [1] 2 1 [1 \<mapsto> [''e'' \<mapsto> \<lparr>copied = 1, skipped = 0, released_on_landing = 0\<rparr>]]"
  by (simp only: demo_calls_def demo_opened_def append.simps run_calls_def fold_simps demo_steps)

lemma demo_reach: "wt_reach (run_calls demo_calls)"
  by (rule run_calls_reach) (simp add: demo_calls_def demo_opened_def valid_tasks_def)

lemma demo_opened_table: "run_calls demo_opened = demo_state [free_slot, free_slot] Map.empty [1] 2 0 Map.empty"
  by (simp only: demo_opened_def run_calls_def fold_simps demo_steps)

lemma demo_opened_reach: "wt_reach (run_calls demo_opened)"
  by (rule run_calls_reach) (simp add: demo_opened_def valid_tasks_def)

end
