(* ===== verification/Weight_Drain.thy ===== *)
theory Weight_Drain
  imports Weight_Calls
begin

text \<open>
  What skips, leases and releases leave behind, and how a cancelled pass is drained: the
  lemmas behind the properties of the slot table.
\<close>

section \<open>Settling a module: skip, lease, release\<close>

lemma current_past:
  assumes inv: "wt_inv t" and k: "wt_index t (n, p) = Some (m, i)"
  obtains pos c where "wt_installed t n = Some (m, pos)" "wt_cursors t m = Some c" "moved_past c p pos"
proof -
  obtain pos where i: "wt_installed t n = Some (m, pos)" using indexD(2) [OF inv k] by blast
  moreover obtain c where "wt_cursors t m = Some c" "moved_past c p pos"
    using indexD(3) [OF inv k] i by (auto simp: past_def)
  ultimately show thesis by (rule that)
qed

text \<open>What \<open>skip\<close> leaves is refused by the next lease and the next skip of the module.\<close>

definition settled :: "WeightSlotTable \<Rightarrow> string \<Rightarrow> bool" where
  "settled t n \<longleftrightarrow> check_lease n t \<in> {Inl skipped_error, Inl consumed_error} \<and> (\<exists>e. check_skip n t = Inl e)"

lemma settled_gone:
  assumes "current_pass t = Some p" and "wt_index t (n, p) = None" and "wt_installed t n = Some (m, pos)"
    and "wt_cursors t m = Some c" and "moved_past c p pos \<or> (p, n) \<in> wt_pending_skips t"
  shows "settled t n"
  using assms by (auto simp: settled_def check_lease_def check_skip_def require_current_pass_def
      require_installed_def produced_def cursor_at_def)

lemma settled_landing:
  assumes "current_pass t = Some p" and "wt_index t (n, p) = Some (m, i)" and "wt_installed t n \<noteq> None"
    and "slot_at t m i = Inr s" "slot_state s = kFilling" "release_on_landing s"
  shows "settled t n"
  using assms by (auto simp: settled_def check_lease_def check_skip_def require_current_pass_def
      require_installed_def)

definition skip_verdict :: "WeightSlotState option \<Rightarrow> WeightSkipOutcome" where
  "skip_verdict st = (case st of None \<Rightarrow> kPending | Some x \<Rightarrow> if x = kFilling then kReleaseOnLanding else kFreedPresent)"

lemma skip_ok:
  assumes inv: "wt_inv t" and c: "check_skip n t = Inr ()"
  shows "\<exists>p u. current_pass t = Some p \<and> skip n t = (Inr (skip_verdict (state_of t n p)), u) \<and> settled u n"
  using inv
proof (cases rule: skip_cases [where n = n])
  case (fails e)
  then show ?thesis using c by simp
next
  case (filling p m i s)
  obtain pos cu where i: "wt_installed t n = Some (m, pos)" using current_past [OF inv filling(3)] by metis
  let ?u = "set_slot m i (s\<lparr>release_on_landing := True\<rparr>) t"
  have "settled ?u n"
    by (rule settled_landing [where p = p and m = m and i = i and s = "s\<lparr>release_on_landing := True\<rparr>"])
       (use filling i slot_at_set_slot [OF filling(4), of _ m i] in \<open>simp_all add: current_pass_def\<close>)
  moreover have "state_of t n p = Some kFilling" using filling by (simp add: state_of_def)
  ultimately show ?thesis using filling by (simp add: skip_verdict_def)
next
  case (present p m i s)
  obtain pos cu where i: "wt_installed t n = Some (m, pos)" "wt_cursors t m = Some cu" "moved_past cu p pos"
    using present(3) by (rule current_past [OF inv])
  let ?u = "set_slot m i free_slot (t\<lparr>wt_index := (wt_index t)((n, p) := None)\<rparr>)"
  have "settled ?u n"
    by (rule settled_gone [where p = p and m = m and c = cu and pos = pos]) (use present i in \<open>simp_all add: current_pass_def\<close>)
  moreover have "state_of t n p = Some kPresent" using present by (simp add: state_of_def)
  ultimately show ?thesis using present by (simp add: skip_verdict_def)
next
  case (pending p)
  obtain m pos where i: "wt_installed t n = Some (m, pos)" using pending(5) by auto
  then obtain names where "map_of (wt_lists t) m = Some names" using installed_iff [OF inv] by blast
  then obtain cu where cu: "wt_cursors t m = Some cu" by (rule cursor_of_list [OF inv])
  let ?u = "t\<lparr>wt_pending_skips := insert (p, n) (wt_pending_skips t)\<rparr>"
  have "settled ?u n"
    by (rule settled_gone [where p = p and m = m and c = cu and pos = pos])
       (use pending i cu in \<open>simp_all add: current_pass_def\<close>)
  moreover have "state_of t n p = None" using pending by (simp add: state_of_def)
  ultimately show ?thesis using pending by (simp add: skip_verdict_def)
qed

lemma lease_then:
  assumes inv: "wt_inv t" and l: "lease n t = (Inr (m, i), u)"
  shows "\<exists>e. lease n u = (Inl e, u)"
    and "\<exists>p v. current_pass t = Some p \<and> release n u = (Inr (m, i), v) \<and> slot_at v m i = Inr free_slot
       \<and> (\<forall>m' i'. (m', i') \<noteq> (m, i) \<longrightarrow> slot_at v m' i' = slot_at t m' i')
       \<and> state_of v n p = None"
  using inv
proof (atomize (full), cases rule: lease_cases [where n = n])
  case (fails e)
  then show "(\<exists>e. lease n u = (Inl e, u)) \<and>
    (\<exists>p v. current_pass t = Some p \<and> release n u = (Inr (m, i), v) \<and> slot_at v m i = Inr free_slot
       \<and> (\<forall>m' i'. (m', i') \<noteq> (m, i) \<longrightarrow> slot_at v m' i' = slot_at t m' i') \<and> state_of v n p = None)"
    using l by simp
next
  case (ok p m' i' s)
  then have mi: "m' = m" "i' = i" and u: "u = set_slot m i (s\<lparr>slot_state := kLeased\<rparr>) t" using l by auto
  have s: "slot_at t m i = Inr s" using ok mi by simp
  have su: "slot_at u m'' i'' = (if m'' = m \<and> i'' = i then Inr (s\<lparr>slot_state := kLeased\<rparr>) else slot_at t m'' i'')" for m'' i''
    unfolding u by (rule slot_at_set_slot [OF s])
  have cu: "current_pass u = Some p" "wt_index u = wt_index t" "wt_installed u = wt_installed t"
    using ok(1) by (simp_all add: u current_pass_def)
  obtain pos where "wt_installed t n = Some (m, pos)" using indexD(2) [OF inv ok(2)] mi by blast
  then have "check_lease n u = Inl transition_error"
    using cu ok(2) mi su [of m i] by (simp add: check_lease_def require_current_pass_def require_installed_def)
  then have "lease n u = (Inl transition_error, u)" by (simp add: lease_def)
  moreover let ?u = "u\<lparr>wt_index := (wt_index u)((n, p) := None)\<rparr>"
  have "release n u = (Inr (m, i), set_slot m i free_slot ?u)"
    using cu ok(2) mi su [of m i] by (simp add: release_def resident_lease_def)
  moreover have "slot_at ?u m i = Inr (s\<lparr>slot_state := kLeased\<rparr>)" using su by simp
  note sv = slot_at_set_slot [OF this, of free_slot]
  moreover have "state_of (set_slot m i free_slot ?u) n p = None" by (simp add: state_of_def)
  moreover have "slot_at (set_slot m i free_slot ?u) m'' i'' = slot_at t m'' i''" if "(m'', i'') \<noteq> (m, i)" for m'' i''
    using that sv [of m'' i''] su [of m'' i''] by auto
  ultimately show "(\<exists>e. lease n u = (Inl e, u)) \<and>
    (\<exists>p v. current_pass t = Some p \<and> release n u = (Inr (m, i), v) \<and> slot_at v m i = Inr free_slot
       \<and> (\<forall>m' i'. (m', i') \<noteq> (m, i) \<longrightarrow> slot_at v m' i' = slot_at t m' i') \<and> state_of v n p = None)"
    using ok(1) by (auto simp: sv)
qed

text \<open>Marking slots pending touches those slots only.\<close>

lemma mark_pending_slots:
  assumes "\<forall>(n, m, i) \<in> set xs. \<exists>s. slot_at t m i = Inr s"
  shows "slot_at (mark_pending p xs t) m i =
    (if (m, i) \<in> snd ` set xs then map_sum id (\<lambda>s. s\<lparr>slot_state := kPendingRelease\<rparr>) (slot_at t m i) else slot_at t m i)"
  using assms
proof (induction xs arbitrary: t)
  case (Cons x xs)
  obtain n' m' i' where x: "x = (n', m', i')" by (metis prod.exhaust)
  let ?u = "t\<lparr>wt_index := (wt_index t)((n', p) := None)\<rparr>"
  obtain s where s: "slot_at t m' i' = Inr s" using Cons.prems x by auto
  then have su: "slot_at ?u m' i' = Inr s" by simp
  let ?v = "set_slot m' i' (s\<lparr>slot_state := kPendingRelease\<rparr>) ?u"
  note sv = slot_at_set_slot [OF su, of "s\<lparr>slot_state := kPendingRelease\<rparr>"]
  have "\<forall>(n, m, i) \<in> set xs. \<exists>s. slot_at ?v m i = Inr s"
    using Cons.prems by (auto simp: sv)
  then have IH: "slot_at (mark_pending p xs ?v) m i =
    (if (m, i) \<in> snd ` set xs then map_sum id (\<lambda>s. s\<lparr>slot_state := kPendingRelease\<rparr>) (slot_at ?v m i) else slot_at ?v m i)"
    by (rule Cons.IH)
  have "mark_pending p (x # xs) t = mark_pending p xs ?v" using x s by (simp add: Let_def)
  then show ?case using IH sv [of m i] s x by auto
qed simp

lemma collect_needs_pass:
  assumes "collect_leases t seen ns = Inr refs" and "ns \<noteq> []"
  shows "\<exists>p. current_pass t = Some p"
  using assms by (cases ns) (auto simp: resident_lease_def split: if_splits option.splits sum.splits prod.splits)

lemma mark_pending_index:
  "wt_index (mark_pending p xs t) k = (if snd k = p \<and> fst k \<in> fst ` set xs then None else wt_index t k)"
proof (induction p xs t rule: mark_pending.induct)
  case (2 p n m i xs t)
  let ?t = "t\<lparr>wt_index := (wt_index t)((n, p) := None)\<rparr>"
  show ?case using 2 [OF refl] by (cases k) (auto simp: Let_def split: sum.splits)
qed simp

lemma set_slot_rest: "(set_slot m i s t)\<lparr>wt_slots := [], wt_index := Map.empty\<rparr> = t\<lparr>wt_slots := [], wt_index := Map.empty\<rparr>"
  by (simp add: set_slot_def split: option.split)

lemma mark_pending_rest: "(mark_pending p xs t)\<lparr>wt_slots := [], wt_index := Map.empty\<rparr> = t\<lparr>wt_slots := [], wt_index := Map.empty\<rparr>"
proof (induction p xs t rule: mark_pending.induct)
  case (2 p n m i xs t)
  show ?case using 2 [OF refl] by (simp add: Let_def set_slot_rest split: sum.splits)
qed simp

lemma leased_slots:
  assumes "state_of t n p = Some st"
  obtains m i s where "wt_index t (n, p) = Some (m, i)" "slot_at t m i = Inr s" "slot_state s = st"
  using assms by (auto simp: state_of_def split: option.splits sum.splits)

lemma collect_leases_iff:
  assumes inv: "wt_inv t" and p: "current_pass t = Some p"
  shows "collect_leases t seen ns = Inr refs \<longleftrightarrow> distinct ns \<and> set ns \<inter> set seen = {}
    \<and> (\<forall>n \<in> set ns. state_of t n p = Some kLeased) \<and> map (\<lambda>n. wt_index t (n, p)) ns = map Some refs"
proof (induction ns arbitrary: seen refs)
  case (Cons n ns)
  let ?msg = "''Cannot asynchronously release missing weight-buffer lease''"
  have one: "resident_lease ?msg t n = Inr (r, q) \<longleftrightarrow> q = p \<and> state_of t n p = Some kLeased \<and> wt_index t (n, p) = Some r" for r q
    using p by (cases r) (auto simp: resident_lease_def state_of_def split: option.splits sum.splits if_splits)
  show ?case
  proof (cases "\<exists>r q. resident_lease ?msg t n = Inr (r, q)")
    case True
    then obtain r where r: "resident_lease ?msg t n = Inr (r, p)" "state_of t n p = Some kLeased" "wt_index t (n, p) = Some r"
      using one by auto
    have "collect_leases t seen (n # ns) = Inr refs \<longleftrightarrow>
        n \<notin> set seen \<and> (\<exists>refs'. collect_leases t (n # seen) ns = Inr refs' \<and> refs = r # refs')"
      using r(1) by (auto split: sum.splits)
    then show ?thesis unfolding Cons.IH using r(2,3) by (cases refs) auto
  next
    case False
    then have "collect_leases t seen (n # ns) \<noteq> Inr refs" by (auto split: sum.splits)
    moreover have "state_of t n p \<noteq> Some kLeased"
    proof
      assume leased: "state_of t n p = Some kLeased"
      then obtain m i where "wt_index t (n, p) = Some (m, i)" by (rule leased_slots)
      then show False using False leased one [of "(m, i)" p] by blast
    qed
    ultimately show ?thesis by simp
  qed
qed auto

lemma release_async_ok:
  assumes inv: "wt_inv t" and p: "current_pass t = Some p"
    and ok: "distinct ns" "\<forall>n \<in> set ns. state_of t n p = Some kLeased"
  obtains refs where "map (\<lambda>n. wt_index t (n, p)) ns = map Some refs"
    and "release_async ns t = (Inr refs, mark_pending p (zip ns refs) t)"
    and "\<And>m i. slot_at (mark_pending p (zip ns refs) t) m i =
      (if (m, i) \<in> set refs then map_sum id (\<lambda>s. s\<lparr>slot_state := kPendingRelease\<rparr>) (slot_at t m i) else slot_at t m i)"
    and "\<And>k. wt_index (mark_pending p (zip ns refs) t) k = (if snd k = p \<and> fst k \<in> set ns then None else wt_index t k)"
proof -
  have "\<forall>n \<in> set ns. \<exists>r. wt_index t (n, p) = Some r" using ok(2) leased_slots by metis
  then have refs: "map (\<lambda>n. wt_index t (n, p)) ns = map Some (map (\<lambda>n. the (wt_index t (n, p))) ns)" by auto
  let ?refs = "map (\<lambda>n. the (wt_index t (n, p))) ns"
  have c: "collect_leases t [] ns = Inr ?refs" unfolding collect_leases_iff [OF inv p] using ok refs by simp
  have "\<forall>(n, m, i) \<in> set (zip ns ?refs). \<exists>s. slot_at t m i = Inr s"
  proof -
    have "\<exists>s. slot_at t m i = Inr s" if z: "(n, m, i) \<in> set (zip ns ?refs)" for n m i
    proof -
      have "n \<in> set ns" "(m, i) = the (wt_index t (n, p))" using z by (auto simp: in_set_zip)
      then show ?thesis using ok(2) leased_slots [of t n p kLeased] by (metis option.sel prod.inject)
    qed
    then show ?thesis by blast
  qed
  note slots = mark_pending_slots [OF this]
  have zip: "snd ` set (zip ns ?refs) = set ?refs" "fst ` set (zip ns ?refs) = set ns"
    by (metis length_map list.set_map map_snd_zip, metis length_map list.set_map map_fst_zip)
  show thesis
  proof (rule that [OF refs])
    show "release_async ns t = (Inr ?refs, mark_pending p (zip ns ?refs) t)" using c p by (simp add: release_async_def)
  qed (simp_all only: slots mark_pending_index zip)
qed

lemma release_async_refused:
  assumes inv: "wt_inv t"
    and no: "\<not> (distinct ns \<and> (\<forall>n \<in> set ns. \<exists>p. current_pass t = Some p \<and> state_of t n p = Some kLeased))"
  shows "\<exists>e. release_async ns t = (Inl e, t)"
proof (cases "collect_leases t [] ns")
  case (Inr refs)
  have "ns \<noteq> []" using no by auto
  then obtain p where p: "current_pass t = Some p" using collect_needs_pass [OF Inr] by blast
  then show ?thesis using Inr no unfolding collect_leases_iff [OF inv p] by auto
qed (simp add: release_async_def)

section \<open>Draining a cancelled pass\<close>

fun run_ok :: "wt_call list \<Rightarrow> WeightSlotTable \<Rightarrow> WeightSlotTable option" where
  "run_ok [] t = Some t"
| "run_ok (op # ops) t = (case wt_exec op t of (None, t') \<Rightarrow> run_ok ops t' | (Some _, _) \<Rightarrow> None)"

text \<open>The calls that the producer and the copy threads make on their own.\<close>

fun drain_call :: "wt_call \<Rightarrow> bool" where
  "drain_call (Retire_skip m n) \<longleftrightarrow> True"
| "drain_call (Landed m i) \<longleftrightarrow> True"
| "drain_call (Reclaim m i) \<longleftrightarrow> True"
| "drain_call _ \<longleftrightarrow> False"

lemma drain_call_passes: "drain_call op \<Longrightarrow> wt_open_passes (snd (wt_exec op t)) = wt_open_passes t"
  by (cases op) (auto simp: outcome_def retire_skip_def landed_def reclaim_def advance_def Let_def
      split: sum.splits option.splits if_splits)

lemma drain_run_passes: "list_all drain_call ops \<Longrightarrow> run_ok ops t = Some u \<Longrightarrow> wt_open_passes u = wt_open_passes t"
proof (induction ops arbitrary: t)
  case (Cons op ops)
  then obtain t' where "wt_exec op t = (None, t')" "run_ok ops t' = Some u"
    by (auto split: prod.splits option.splits simp del: wt_exec.simps)
  then show ?case using Cons drain_call_passes [of op t] by (simp del: wt_exec.simps)
qed simp

lemma drain_callable: "drain_call op \<Longrightarrow> callable op"
  by (cases op) simp_all

definition unpassed :: "WeightSlotTable \<Rightarrow> int \<Rightarrow> string set" where
  "unpassed t p = {n. wt_installed t n \<noteq> None \<and> \<not> past t n p}"

definition owned :: "WeightSlotTable \<Rightarrow> int \<Rightarrow> SlotRef set" where
  "owned t p = {(m, i). \<exists>s. slot_at t m i = Inr s \<and> slot_name s \<noteq> [] \<and> slot_pass s = p}"

definition draining :: "WeightSlotTable \<Rightarrow> int \<Rightarrow> bool" where
  "draining t p \<longleftrightarrow>
     (\<forall>n \<in> unpassed t p. (p, n) \<in> wt_pending_skips t)
     \<and> (\<forall>m i s. slot_at t m i = Inr s \<longrightarrow> slot_name s \<noteq> [] \<longrightarrow> slot_pass s = p \<longrightarrow>
          slot_state s = kPendingRelease \<or> slot_state s = kFilling \<and> release_on_landing s)"

lemma unpassed_finite: "wt_inv t \<Longrightarrow> finite (unpassed t p)"
  unfolding unpassed_def by (rule finite_subset [OF _ installed_finite]) auto

lemma owned_finite: "finite (owned t p)"
proof (rule finite_subset)
  show "owned t p \<subseteq> (\<Union>(m, ss) \<in> set (wt_slots t). {m} \<times> {0 ..< int (length ss)})"
  proof
    fix x assume "x \<in> owned t p"
    then obtain m i s ss where "x = (m, i)" "map_of (wt_slots t) m = Some ss" "0 \<le> i" "i < int (length ss)"
      by (auto simp: owned_def slot_at_iff)
    then show "x \<in> (\<Union>(m, ss) \<in> set (wt_slots t). {m} \<times> {0 ..< int (length ss)})"
      using map_of_SomeD by fastforce
  qed
qed auto

lemma cancelled_draining:
  assumes inv: "wt_inv t" and "p \<in> set (wt_open_passes t)"
    and nl: "\<forall>m i s. slot_at t m i = Inr s \<longrightarrow> slot_pass s = p \<longrightarrow> slot_state s \<noteq> kLeased"
  shows "draining (cancelled p t) p"
  unfolding draining_def
proof (intro conjI allI impI)
  have "same_schedule t (cancelled p t)" by (simp add: same_schedule_def cancelled_def)
  note pa = same_schedule_past [OF this]
  show "\<forall>n \<in> unpassed (cancelled p t) p. (p, n) \<in> wt_pending_skips (cancelled p t)"
    by (auto simp: unpassed_def pa) (auto simp: cancelled_def)
  fix m i s' assume a: "slot_at (cancelled p t) m i = Inr s'" "slot_name s' \<noteq> []" "slot_pass s' = p"
  then obtain s where s: "slot_at t m i = Inr s" "s' = cancel_slot p s"
    by (cases "slot_at t m i") (auto simp: cancelled_slot_at)
  show "slot_state s' = kPendingRelease \<or> slot_state s' = kFilling \<and> release_on_landing s'"
    using a(2,3) s(2) nl s(1) slot_at_ok [OF inv s(1)]
    by (cases "slot_state s") (auto simp: cancel_slot_def slot_ok_def split: if_splits)
qed

text \<open>A producer that has not finished the oldest pass stands in it.\<close>

lemma unfinished_at_cursor:
  assumes inv: "wt_inv t" and cp: "current_pass t = Some p" and nf: "producer_finished t p \<noteq> Inr True"
  obtains m names c n where "at_cursor t m names c n" "cursor_pass c = p"
proof -
  from nf obtain m names where l: "(m, names) \<in> set (wt_lists t)" "names \<noteq> []" "cursor_pass (the (wt_cursors t m)) \<le> p"
    unfolding producer_finished_iff [OF inv] by fastforce
  have mo: "map_of (wt_lists t) m = Some names" by (rule listed_cursor [OF inv l(1)])
  with wt_invD(3) [OF inv] l(2) obtain c where c: "wt_cursors t m = Some c" "cursor_position c < length names"
    "cursor_pass c \<in> insert (wt_next_pass t) (set (wt_open_passes t))"
    unfolding wt_cursors_ok_def by blast
  obtain ps where ps: "wt_open_passes t = p # ps" using cp by (auto simp: current_pass_def split: list.splits)
  have op: "wt_open_passes t = [wt_next_pass t - int (length (wt_open_passes t)) .. wt_next_pass t - 1]"
    using wt_invD(2) [OF inv] by (simp add: wt_passes_def)
  have ge: "p \<le> q" if "q \<in> set (wt_open_passes t)" for q
  proof -
    have "sorted (wt_open_passes t)" by (subst op) simp
    then show ?thesis using that ps by auto
  qed
  have "p \<in> set [wt_next_pass t - int (length (wt_open_passes t)) .. wt_next_pass t - 1]"
    using op ps by (metis list.set_intros(1))
  then have "p < wt_next_pass t" by auto
  then have "cursor_pass c = p" using c(1,3) l(3) ge by fastforce
  moreover have "at_cursor t m names c (names ! cursor_position c)"
    using mo c ps calculation by (simp add: at_cursor_def)
  ultimately show thesis using that by blast
qed

lemma drain_producer:
  assumes inv: "wt_inv t" and cp: "current_pass t = Some p" and d: "draining t p"
    and at: "at_cursor t m names c n" "cursor_pass c = p"
  shows "retire_skip m n t = (Inr (), retired m n names c t)"
    and "current_pass (retired m n names c t) = Some p" and "draining (retired m n names c t) p"
    and "unpassed (retired m n names c t) p = unpassed t p - {n}" and "n \<in> unpassed t p"
    and "owned (retired m n names c t) p = owned t p"
proof -
  let ?t = "retired m n names c t"
  have mv: "cursor_moved t m names c ?t" by (simp add: cursor_moved_def retired_def)
  have sl: "slot_at ?t = slot_at t" by (simp add: retired_def slot_at_def type_slots_def fun_eq_iff)
  have "wt_installed t n \<noteq> None" using at_cursor_installed [OF inv at(1)] by simp
  then show n: "n \<in> unpassed t p" using at_cursor_name(2) [OF inv at(1)] at(2) by (simp add: unpassed_def)
  then have pe: "(p, n) \<in> wt_pending_skips t" using d by (simp add: draining_def)
  show "retire_skip m n t = (Inr (), ?t)"
    using inv
  proof (cases rule: retire_cases [where m = m and n = n])
    case (fails e)
    have "next_production t m = Inr \<lparr>prod_kind = kSkip, prod_pass = p, prod_position = cursor_position c, prod_name = n\<rparr>"
      using at pe by (auto simp: next_production_def at_cursor_def cursor_at_def is_open_def Let_def)
    moreover have "advance m x = (Inr (), y) \<Longrightarrow> advance m x \<noteq> (Inl e, z)" for x y z by simp
    ultimately show ?thesis
      using fails at advance_bump [of _ m c names] by (simp add: retire_skip_def at_cursor_def Let_def)
  next
    case (retires names' c')
    then show ?thesis using at by (simp add: at_cursor_def)
  qed
  show "current_pass ?t = Some p" using cp by (simp add: retired_def current_pass_def)
  show up: "unpassed ?t p = unpassed t p - {n}"
  proof (rule set_eqI)
    fix k
    have "wt_installed ?t = wt_installed t" by (simp add: retired_def)
    then show "k \<in> unpassed ?t p \<longleftrightarrow> k \<in> unpassed t p - {n}"
      using past_moved [OF inv at(1) mv, of k p] at(2) by (auto simp: unpassed_def)
  qed
  show "draining ?t p"
    using d unfolding draining_def up sl using at(2) by (auto simp: retired_def)
  show "owned ?t p = owned t p" by (simp add: owned_def sl)
qed

lemma drain_slot:
  assumes inv: "wt_inv t" and cp: "current_pass t = Some p" and d: "draining t p"
    and s: "slot_at t m i = Inr s" "slot_name s \<noteq> []" "slot_pass s = p"
  obtains op where "drain_call op" "fst (wt_exec op t) = None" "current_pass (snd (wt_exec op t)) = Some p"
    "draining (snd (wt_exec op t)) p" "unpassed (snd (wt_exec op t)) p = unpassed t p"
    "owned (snd (wt_exec op t)) p = owned t p - {(m, i)}"
proof -
  have free: "draining u p \<and> unpassed u p = unpassed t p \<and> owned u p = owned t p - {(m, i)}"
    if sch: "same_schedule t u" and pe: "wt_pending_skips u = wt_pending_skips t"
      and sl: "\<And>m' i'. slot_at u m' i' = (if m' = m \<and> i' = i then Inr free_slot else slot_at t m' i')" for u
  proof -
    have "unpassed u p = unpassed t p"
      using sch same_schedule_past [OF sch] by (simp add: unpassed_def same_schedule_def)
    moreover from this have "draining u p"
      using d pe by (auto simp: draining_def sl)
    moreover have "owned u p = owned t p - {(m, i)}" by (auto simp: owned_def sl split: if_splits)
    ultimately show ?thesis by blast
  qed
  from d s have "slot_state s = kPendingRelease \<or> slot_state s = kFilling \<and> release_on_landing s"
    by (simp add: draining_def)
  then show thesis
  proof
    assume st: "slot_state s = kPendingRelease"
    let ?u = "set_slot m i free_slot t"
    have e: "wt_exec (Reclaim m i) t = (None, ?u)" using s st by (simp add: outcome_def reclaim_def)
    have "draining ?u p \<and> unpassed ?u p = unpassed t p \<and> owned ?u p = owned t p - {(m, i)}"
      by (rule free) (simp_all add: same_schedule_def slot_at_set_slot [OF s(1)])
    moreover have "current_pass ?u = Some p" using cp by (simp add: current_pass_def)
    ultimately show thesis using that [of "Reclaim m i"] by (simp add: e del: wt_exec.simps)
  next
    assume st: "slot_state s = kFilling \<and> release_on_landing s"
    define c where "c = (counts_of t (slot_pass s) m)\<lparr>copied := copied (counts_of t (slot_pass s) m) + 1\<rparr>"
    let ?v = "(set_counts (slot_pass s) m (c\<lparr>released_on_landing := released_on_landing c + 1\<rparr>) t)
        \<lparr>wt_index := (wt_index t)((slot_name s, slot_pass s) := None)\<rparr>"
    let ?u = "set_slot m i free_slot ?v"
    have sv: "slot_at ?v m i = Inr s" using s(1) by simp
    have e: "wt_exec (Landed m i) t = (None, ?u)"
      using s st by (simp add: outcome_def landed_def Let_def c_def)
    have "draining ?u p \<and> unpassed ?u p = unpassed t p \<and> owned ?u p = owned t p - {(m, i)}"
    proof (rule free)
      show "slot_at ?u m' i' = (if m' = m \<and> i' = i then Inr free_slot else slot_at t m' i')" for m' i'
        using slot_at_set_slot [OF sv, of free_slot m' i'] by simp
    qed (simp_all add: same_schedule_def)
    moreover have "current_pass ?u = Some p" using cp by (simp add: current_pass_def)
    ultimately show thesis using that [of "Landed m i"] by (simp add: e del: wt_exec.simps)
  qed
qed

lemma drain_runs:
  assumes "wt_inv t" and "current_pass t = Some p" and "draining t p"
  shows "\<exists>ops u. list_all drain_call ops \<and> run_ok ops t = Some u \<and> closable u p \<and> wt_inv u"
  using assms
proof (induction "card (unpassed t p) + card (owned t p)" arbitrary: t rule: less_induct)
  case less
  note inv = less.prems(1)
  show ?case
  proof (cases "closable t p")
    case True
    then show ?thesis using inv by (intro exI [of _ "[]"] exI [of _ t]) simp
  next
    case False
    have "\<exists>op. drain_call op \<and> fst (wt_exec op t) = None \<and> current_pass (snd (wt_exec op t)) = Some p
        \<and> draining (snd (wt_exec op t)) p
        \<and> card (unpassed (snd (wt_exec op t)) p) + card (owned (snd (wt_exec op t)) p) < card (unpassed t p) + card (owned t p)"
    proof (cases "producer_finished t p = Inr True")
      case nf: False
      obtain m names c n where at: "at_cursor t m names c n" "cursor_pass c = p"
        using unfinished_at_cursor [OF inv less.prems(2) nf] by metis
      note r = drain_producer [OF less.prems at]
      have "card (unpassed t p - {n}) < card (unpassed t p)"
        using r(5) by (rule card_Diff1_less [OF unpassed_finite [OF inv]])
      then show ?thesis using r by (intro exI [of _ "Retire_skip m n"]) (simp add: outcome_def)
    next
      case True
      with False less.prems(2) obtain m i s where s: "slot_at t m i = Inr s" "slot_name s \<noteq> []" "slot_pass s = p"
        by (auto simp: closable_def)
      have mem: "(m, i) \<in> owned t p" using s by (simp add: owned_def)
      then have lt: "card (owned t p - {(m, i)}) < card (owned t p)"
        by (rule card_Diff1_less [OF owned_finite])
      from less.prems s show ?thesis by (rule drain_slot) (use lt in auto)
    qed
    then obtain op where op: "drain_call op" "fst (wt_exec op t) = None" "current_pass (snd (wt_exec op t)) = Some p"
      "draining (snd (wt_exec op t)) p"
      "card (unpassed (snd (wt_exec op t)) p) + card (owned (snd (wt_exec op t)) p) < card (unpassed t p) + card (owned t p)"
      by blast
    let ?u = "snd (wt_exec op t)"
    have iu: "wt_inv ?u" by (rule wt_exec_inv [OF inv drain_callable [OF op(1)]])
    obtain ops u where u: "list_all drain_call ops" "run_ok ops ?u = Some u" "closable u p" "wt_inv u"
      using less.hyps [OF op(5) iu op(3,4)] by blast
    then show ?thesis using op(1,2)
      by (intro exI [of _ "op # ops"] exI [of _ u]) (auto split: prod.split option.split)
  qed
qed

end
