(* ===== verification/Weight_Properties.thy ===== *)
theory Weight_Properties
  imports Weight_Drain
begin

text \<open>
  The properties of the GPU weight slot table (\<open>GPU_Weight_Buffer/weight_slot_table.h\<close>).
\<close>

text \<open>
  C6. In every table that calls can produce, at most two passes are open; the index holds a key
  exactly for the named slots that are filling, present or leased, and the entry leads to that
  very slot; and a named slot belongs to an open pass. So two live copies of one module of one
  pass cannot exist.
\<close>

theorem weight_index_exact:
  assumes "wt_reach t"
  shows "length (wt_open_passes t) \<le> kMaxOpenPasses
    \<and> (\<forall>n p m i. wt_index t (n, p) = Some (m, i) \<longleftrightarrow>
         (\<exists>s. slot_at t m i = Inr s \<and> slot_name s = n \<and> slot_pass s = p \<and> n \<noteq> []
              \<and> slot_state s \<in> {kFilling, kPresent, kLeased}))
    \<and> (\<forall>m i s. slot_at t m i = Inr s \<longrightarrow> slot_name s \<noteq> [] \<longrightarrow> slot_pass s \<in> set (wt_open_passes t))"
proof -
  note inv = wt_reach_inv [OF assms]
  have "slot_pass s \<in> set (wt_open_passes t)" if "slot_at t m i = Inr s" "slot_name s \<noteq> []" for m i s
    using slot_at_ok [OF inv that(1)] that(2) by (simp add: slot_ok_def)
  moreover have "length (wt_open_passes t) \<le> kMaxOpenPasses" using wt_invD(2) [OF inv] by (simp add: wt_passes_def)
  ultimately show ?thesis using index_exact [OF inv] by blast
qed

theorem weight_index_exact_witness:
  "wt_reach (run_calls demo_calls) \<and> (\<exists>s. slot_at (run_calls demo_calls) ''e'' 0 = Inr s \<and> slot_name s = ''a''
     \<and> slot_pass s = 1 \<and> slot_state s \<in> {kFilling, kPresent, kLeased})"
proof -
  have "wt_index (run_calls demo_calls) (''a'', 1) = Some (''e'', 0)" by (simp add: demo_table demo_state_def)
  then show ?thesis using weight_index_exact [OF demo_reach] demo_reach by blast
qed

text \<open>
  C21. When the producer reads a copy at its cursor and reserves a slot, claiming that slot
  succeeds: neither the duplicate-key nor the slot-state check of \<open>claim\<close> can fire. Exactly the
  claimed module of that pass becomes filling and no other module changes state.
\<close>

theorem claim_places_module:
  assumes "wt_reach t" and "next_production t m = Inr pr" and "prod_kind pr = kCopy"
    and "reserve m t = (Some i, u)"
  shows "state_of t (prod_name pr) (prod_pass pr) = None
    \<and> (\<exists>v. claim m i (prod_name pr) u = (Inr kCopy, v)
         \<and> (\<forall>n p. state_of v n p =
              (if (n, p) = (prod_name pr, prod_pass pr) then Some kFilling else state_of t n p)))"
proof -
  note inv = wt_reach_inv [OF assms(1)]
  obtain names c where c: "at_cursor t m names c (prod_name pr)" "prod_pass pr = cursor_pass c"
    "at_cursor u m names c (prod_name pr)" "wt_inv u"
    "slot_at u m i = Inr (free_slot\<lparr>slot_state := kFilling\<rparr>)"
    "claim m i (prod_name pr) u = (Inr kCopy, claimed m i (prod_name pr) names c (free_slot\<lparr>slot_state := kFilling\<rparr>) u)"
    using claim_reserved [OF inv assms(2-4)] by metis
  have "state_of t (prod_name pr) (prod_pass pr) = None"
    using at_cursor_name(3) [OF inv c(1)] c(2) by (simp add: state_of_def)
  then show ?thesis
    using c claimed_state_of [OF c(4,3,5)] reserved_state_of [OF inv assms(4)] by simp
qed

theorem claim_places_module_witness:
  "\<exists>v. claim ''e'' 0 ''a'' (snd (reserve ''e'' (run_calls demo_opened))) = (Inr kCopy, v)
     \<and> state_of v ''a'' 1 = Some kFilling"
proof -
  let ?pr = "\<lparr>prod_kind = kCopy, prod_pass = 1, prod_position = 0, prod_name = ''a''\<rparr>"
  have "next_production (run_calls demo_opened) ''e'' = Inr ?pr"
    by (simp add: demo_opened_table demo_state_def next_production_def cursor_at_def is_open_def)
  moreover have "reserve ''e'' (run_calls demo_opened) = (Some 0, snd (reserve ''e'' (run_calls demo_opened)))"
    by (simp add: demo_opened_table demo_state_def reserve_def type_slots_def)
  ultimately show ?thesis
    using claim_places_module [OF demo_opened_reach, of "''e''" ?pr 0] by fastforce
qed

text \<open>
  C22. A call that throws leaves the table as it was: every method of the table validates
  before it changes anything, or cannot fail afterwards. The one exception is \<open>reset_type\<close> with
  a negative count, which leaves an empty list of slots for a type that had none.
\<close>

theorem failed_call_keeps_table:
  assumes "wt_reach t" and "fst (wt_exec op t) = Some e"
  shows "snd (wt_exec op t) =
    (case op of
       Reset_type m count \<Rightarrow>
         if wt_open_passes t = [] \<and> type_slots t m = None then t\<lparr>wt_slots := assoc_put m [] (wt_slots t)\<rparr> else t
     | _ \<Rightarrow> t)"
  by (fold after_failure_def) (rule failing_keeps [OF wt_reach_inv [OF assms(1)] assms(2)])

theorem failed_call_keeps_table_witness:
  "fst (wt_exec (Lease ''b'') (run_calls demo_calls)) = Some transition_error
     \<and> snd (wt_exec (Lease ''b'') (run_calls demo_calls)) = run_calls demo_calls"
proof -
  have "fst (wt_exec (Lease ''b'') (run_calls demo_calls)) = Some transition_error"
    by (simp add: demo_table demo_state_def outcome_def lease_def check_lease_def require_current_pass_def
        current_pass_def require_installed_def produced_def cursor_at_def moved_past_def)
  then show ?thesis using failed_call_keeps_table [OF demo_reach, of "Lease ''b''"] by simp
qed

text \<open>
  C23. \<open>skip\<close> throws exactly when the read-only \<open>check_skip\<close> throws, and with the same error.
  Otherwise the outcome is determined by the state of the module in the current pass: a filling
  copy is released on landing, a present one is freed, a module not yet produced stays
  pending; and afterwards the module can neither be leased nor skipped again in that pass.
\<close>

theorem skip_follows_check:
  assumes "wt_reach t"
  shows "(\<forall>e. check_skip n t = Inl e \<longrightarrow> skip n t = (Inl e, t))
    \<and> (check_skip n t = Inr () \<longrightarrow>
        (\<exists>p u. current_pass t = Some p
           \<and> skip n t = (Inr (case state_of t n p of None \<Rightarrow> kPending
                              | Some st \<Rightarrow> if st = kFilling then kReleaseOnLanding else kFreedPresent), u)
           \<and> check_lease n u \<in> {Inl skipped_error, Inl consumed_error} \<and> (\<exists>e. check_skip n u = Inl e)))"
  using skip_ok [OF wt_reach_inv [OF assms], of n]
  by (auto simp: settled_def skip_verdict_def skip_def)

theorem skip_follows_check_witness:
  "check_skip ''a'' (run_calls demo_calls) = Inr ()
     \<and> (\<exists>u. skip ''a'' (run_calls demo_calls) = (Inr kFreedPresent, u) \<and> (\<exists>e. check_skip ''a'' u = Inl e))"
proof -
  have c: "check_skip ''a'' (run_calls demo_calls) = Inr ()"
    by (simp add: demo_table demo_state_def check_skip_def require_current_pass_def current_pass_def
        require_installed_def slot_at_def type_slots_def)
  have s: "state_of (run_calls demo_calls) ''a'' 1 = Some kPresent" "current_pass (run_calls demo_calls) = Some 1"
    by (simp_all add: demo_table demo_state_def state_of_def slot_at_def type_slots_def current_pass_def)
  from skip_follows_check [OF demo_reach, of "''a''"] c s show ?thesis by auto
qed

lemma end_pass_result:
  assumes "end_pass p t = (Inr r, u)" and "p \<noteq> 0"
  shows "by_type r m = Some c \<Longrightarrow> c = no_counts \<or> (\<exists>by. wt_pass_counts t p = Some by \<and> by m = Some c)"
  using assms by (auto simp: end_pass_def Let_def split: if_splits sum.splits option.splits)

lemma passed_le: "passed c names p \<le> length names"
  by (simp add: passed_def)

text \<open>
  C24. Among the passes a client may name, \<open>end_pass\<close> succeeds exactly for the oldest open pass
  once its producers have finished and no slot holds a module of it; the separate check for
  pending skips never decides. A successful call closes that pass only.
\<close>

theorem end_pass_exact:
  assumes "wt_reach t" and "p \<noteq> 0"
  shows "(current_pass t = Some p \<and> producer_finished t p = Inr True
            \<and> (\<forall>m i s. slot_at t m i = Inr s \<longrightarrow> slot_name s \<noteq> [] \<longrightarrow> slot_pass s \<noteq> p)
          \<longrightarrow> (\<exists>r u. end_pass p t = (Inr r, u) \<and> wt_open_passes t = p # wt_open_passes u
                    \<and> wt_slots u = wt_slots t \<and> wt_index u = wt_index t))
    \<and> ((\<exists>r u. end_pass p t = (Inr r, u)) \<longrightarrow>
          current_pass t = Some p \<and> producer_finished t p = Inr True
            \<and> (\<forall>m i s. slot_at t m i = Inr s \<longrightarrow> slot_name s \<noteq> [] \<longrightarrow> slot_pass s \<noteq> p))"
proof -
  note inv = wt_reach_inv [OF assms(1)]
  have "\<exists>r u. end_pass p t = (Inr r, u) \<and> wt_open_passes t = p # wt_open_passes u
                    \<and> wt_slots u = wt_slots t \<and> wt_index u = wt_index t" if "closable t p"
  proof -
    have "wt_open_passes t = p # tl (wt_open_passes t)"
      using that by (auto simp: closable_def current_pass_def split: list.splits)
    then show ?thesis using end_pass_cases(1) [OF inv assms(2) that] by auto
  qed
  moreover have "closable t p" if "end_pass p t = (Inr r, u)" for r u
    using end_pass_cases(2) [OF inv assms(2)] that by (cases "closable t p") auto
  ultimately show ?thesis unfolding closable_def by blast
qed

text \<open>
  The summary of a closed pass is consistent: for every type, the modules copied and the
  modules skipped together never exceed the modules installed for it, and no more copies
  were released on landing than landed.
\<close>

lemma end_pass_summary_bounded:
  assumes "wt_reach t" and "p \<noteq> 0" and "end_pass p t = (Inr r, u)"
    and "map_of (wt_lists t) m = Some names" and "by_type r m = Some c"
  shows "copied c + skipped c \<le> length names \<and> released_on_landing c \<le> copied c"
proof (cases "c = no_counts")
  case True
  then show ?thesis by (simp add: no_counts_def)
next
  case False
  note inv = wt_reach_inv [OF assms(1)]
  have c: "counts_of t p m = c" using end_pass_result [OF assms(3,2,5)] False by (auto simp: counts_of_def)
  from assms(4) wt_invD(3) [OF inv] obtain cu where cu: "wt_cursors t m = Some cu" unfolding wt_cursors_ok_def by blast
  have L: "copied c + skipped c + filling t m p \<le> passed cu names p" "released_on_landing c \<le> copied c"
    using wt_invD(7) [OF inv] assms(4) cu c unfolding wt_ledger_def by blast+
  then show ?thesis using passed_le [of cu names p] by simp
qed

section \<open>The small table cancelled and drained\<close>

definition demo_cancelled :: "wt_call list" where
  "demo_cancelled = demo_opened @ [Cancel_pass 1]"

definition demo_drained :: "wt_call list" where
  "demo_drained = demo_cancelled @ [Retire_skip ''e'' ''a'', Retire_skip ''e'' ''b'']"

lemma demo_cancel:
  "cancel_pass 1 (demo_state [free_slot, free_slot] Map.empty [1] 2 0 Map.empty)
     = (Inr \<lparr>freed_present = 0, release_on_landing_count = 0, pending_count = 2\<rparr>,
        (demo_state [free_slot, free_slot] Map.empty [1] 2 0 Map.empty)
          \<lparr>wt_pending_skips := {(1, ''b''), (1, ''a'')}\<rparr>)"
proof -
  have h: "held_slots (demo_state [free_slot, free_slot] Map.empty [1] 2 0 Map.empty) = []"
    by (simp add: held_none demo_state_def)
  show ?thesis
    unfolding cancel_pass_def Let_def h
    by (simp add: demo_state_def require_open_def is_open_def produced_def cursor_at_def moved_past_def)
qed

lemma demo_retire_a:
  "snd (wt_exec (Retire_skip ''e'' ''a'') ((demo_state [free_slot, free_slot] Map.empty [1] 2 0 Map.empty)
          \<lparr>wt_pending_skips := {(1, ''b''), (1, ''a'')}\<rparr>))
     = (demo_state [free_slot, free_slot] Map.empty [1] 2 1
          [1 \<mapsto> [''e'' \<mapsto> \<lparr>copied = 0, skipped = 1, released_on_landing = 0\<rparr>]])
          \<lparr>wt_pending_skips := {(1, ''b'')}\<rparr>"
  by (simp add: demo_state_def outcome_def retire_skip_def next_production_def cursor_at_def is_open_def
      counts_of_def set_counts_def no_counts_def advance_def Let_def) auto

lemma demo_retire_b:
  "snd (wt_exec (Retire_skip ''e'' ''b'') ((demo_state [free_slot, free_slot] Map.empty [1] 2 1
          [1 \<mapsto> [''e'' \<mapsto> \<lparr>copied = 0, skipped = 1, released_on_landing = 0\<rparr>]])
          \<lparr>wt_pending_skips := {(1, ''b'')}\<rparr>))
     = (demo_state [free_slot, free_slot] Map.empty [1] 2 0
          [1 \<mapsto> [''e'' \<mapsto> \<lparr>copied = 0, skipped = 2, released_on_landing = 0\<rparr>]])
          \<lparr>wt_cursors := [''e'' \<mapsto> \<lparr>cursor_pass = 2, cursor_position = 0\<rparr>]\<rparr>"
  by (simp add: demo_state_def outcome_def retire_skip_def next_production_def cursor_at_def is_open_def
      counts_of_def set_counts_def no_counts_def advance_def Let_def numeral_2_eq_2)

lemma demo_cancelled_table:
  "run_calls demo_cancelled = (demo_state [free_slot, free_slot] Map.empty [1] 2 0 Map.empty)
          \<lparr>wt_pending_skips := {(1, ''b''), (1, ''a'')}\<rparr>"
proof -
  have "run_calls demo_cancelled = snd (wt_exec (Cancel_pass 1) (run_calls demo_opened))"
    by (simp only: demo_cancelled_def run_calls_def fold_append o_apply fold_simps)
  then show ?thesis by (simp add: demo_opened_table demo_cancel outcome_def)
qed

lemma demo_drained_table:
  "run_calls demo_drained = (demo_state [free_slot, free_slot] Map.empty [1] 2 0
          [1 \<mapsto> [''e'' \<mapsto> \<lparr>copied = 0, skipped = 2, released_on_landing = 0\<rparr>]])
          \<lparr>wt_cursors := [''e'' \<mapsto> \<lparr>cursor_pass = 2, cursor_position = 0\<rparr>]\<rparr>"
proof -
  have "run_calls demo_drained =
      snd (wt_exec (Retire_skip ''e'' ''b'') (snd (wt_exec (Retire_skip ''e'' ''a'') (run_calls demo_cancelled))))"
    by (simp only: demo_drained_def run_calls_def fold_append o_apply fold_simps)
  then show ?thesis by (simp only: demo_cancelled_table demo_retire_a demo_retire_b)
qed

lemma demo_drained_reach: "wt_reach (run_calls demo_drained)"
  by (rule run_calls_reach) (simp add: demo_drained_def demo_cancelled_def demo_opened_def valid_tasks_def)

lemma demo_drained_end:
  "end_pass 1 (run_calls demo_drained) =
     (Inr \<lparr>summary_pass = 1, by_type = [''e'' \<mapsto> \<lparr>copied = 0, skipped = 2, released_on_landing = 0\<rparr>], carried = 0\<rparr>,
      (run_calls demo_drained)\<lparr>wt_open_passes := [], wt_pass_counts := Map.empty\<rparr>)"
proof -
  have h: "held_slots (run_calls demo_drained) = []" by (simp add: held_none demo_drained_table demo_state_def)
  have f: "producer_finished (run_calls demo_drained) 1 = Inr True"
    by (simp add: demo_drained_table demo_state_def producer_finished_def cursor_at_def)
  have c: "current_pass (run_calls demo_drained) = Some 1" "pending_skip_count (run_calls demo_drained) 1 = 0"
    by (simp_all add: demo_drained_table demo_state_def current_pass_def pending_skip_count_def)
  show ?thesis
    unfolding end_pass_def h f c by (simp add: Let_def demo_drained_table demo_state_def) auto
qed

theorem end_pass_exact_witness:
  "\<exists>r u. end_pass 1 (run_calls demo_drained) = (Inr r, u) \<and> wt_open_passes (run_calls demo_drained) = 1 # wt_open_passes u"
proof -
  let ?t = "run_calls demo_drained"
  have f: "producer_finished ?t 1 = Inr True" "current_pass ?t = Some 1"
    by (simp_all add: demo_drained_table demo_state_def producer_finished_def cursor_at_def current_pass_def)
  have "\<forall>m i s. slot_at ?t m i = Inr s \<longrightarrow> slot_name s \<noteq> [] \<longrightarrow> slot_pass s \<noteq> 1"
    by (auto simp: demo_drained_table demo_state_def slot_at_iff less_Suc_eq nth_Cons' split: if_splits)
  then show ?thesis using end_pass_exact [OF demo_drained_reach, of 1] f by auto
qed

text \<open>
  C13. A successful \<open>cancel_pass\<close> stops the pass: in the table it leaves no slot holds a named
  module of the pass that is present or leased, every copy of it still under way is marked for
  release on landing, and no producer that asks for its next module is told to copy one of the
  pass.
\<close>

theorem cancel_pass_stops_copies:
  assumes "wt_reach t" and "p \<noteq> 0" and "cancel_pass p t = (Inr r, u)"
  shows "(\<forall>m i s. slot_at u m i = Inr s \<longrightarrow> slot_name s \<noteq> [] \<longrightarrow> slot_pass s = p \<longrightarrow>
            slot_state s = kPendingRelease \<or> slot_state s = kFilling \<and> release_on_landing s)
    \<and> (\<forall>m pr. next_production u m = Inr pr \<longrightarrow> prod_pass pr = p \<longrightarrow> prod_kind pr \<noteq> kCopy)"
proof -
  note inv = wt_reach_inv [OF assms(1)]
  have u: "u = cancelled p t" and op: "p \<in> set (wt_open_passes t)"
    and nl: "\<forall>m i s. slot_at t m i = Inr s \<longrightarrow> slot_pass s = p \<longrightarrow> slot_state s \<noteq> kLeased"
    using inv assms(2) by (atomize (full), cases rule: cancel_pass_cases) (use assms(3) in auto)
  have iu: "wt_inv u" unfolding u by (rule cancelled_inv [OF inv op])
  have d: "draining u p" unfolding u by (rule cancelled_draining [OF inv op nl])
  have "prod_kind pr \<noteq> kCopy" if n: "next_production u m = Inr pr" "prod_pass pr = p" for m pr
  proof
    assume k: "prod_kind pr = kCopy"
    obtain names c where c: "at_cursor u m names c (prod_name pr)" "cursor_pass c = p"
      "(p, prod_name pr) \<notin> wt_pending_skips u"
      using next_production_at_cursor [OF iu n(1)] k n(2) by (metis WeightProduction.distinct(11) insertCI)
    have "prod_name pr \<in> unpassed u p"
      using at_cursor_name(2) [OF iu c(1)] at_cursor_installed [OF iu c(1)] c(2) by (simp add: unpassed_def)
    then show False using d c(3) by (simp add: draining_def)
  qed
  then show ?thesis using d by (simp add: draining_def)
qed

theorem cancel_pass_stops_copies_witness:
  "\<exists>u. snd (cancel_pass 1 (run_calls demo_opened)) = u \<and> fst (cancel_pass 1 (run_calls demo_opened)) \<noteq> Inl transition_error
     \<and> (\<forall>pr. next_production u ''e'' = Inr pr \<longrightarrow> prod_pass pr = 1 \<longrightarrow> prod_kind pr \<noteq> kCopy)"
  using cancel_pass_stops_copies [OF demo_opened_reach _ demo_cancel [folded demo_opened_table]]
  by (simp add: demo_opened_table demo_cancel)

text \<open>
  C14. A cancelled pass drains: when the oldest pass has been cancelled, the calls that the
  producer and the copy threads make anyway, retiring skips, landing copies and reclaiming
  pending releases, are enough to close it. There is a sequence of such calls and of no
  others, each of which succeeds, after which \<open>end_pass\<close> closes the pass. No abort, lease,
  release or new installation is needed.
\<close>

theorem cancelled_pass_can_end:
  assumes "wt_reach t" and "current_pass t = Some p" and "p \<noteq> 0" and "cancel_pass p t = (Inr r, u)"
  shows "\<exists>ops v s w. list_all drain_call ops \<and> run_ok ops u = Some v \<and> end_pass p v = (Inr s, w)
    \<and> wt_open_passes w = tl (wt_open_passes u)"
proof -
  note inv = wt_reach_inv [OF assms(1)]
  have u: "u = cancelled p t" and op: "p \<in> set (wt_open_passes t)"
    and nl: "\<forall>m i s. slot_at t m i = Inr s \<longrightarrow> slot_pass s = p \<longrightarrow> slot_state s \<noteq> kLeased"
    using inv assms(3) by (atomize (full), cases rule: cancel_pass_cases) (use assms(4) in auto)
  have iu: "wt_inv u" unfolding u by (rule cancelled_inv [OF inv op])
  have d: "draining u p" unfolding u by (rule cancelled_draining [OF inv op nl])
  have "current_pass u = Some p" using assms(2) by (simp add: u cancelled_def current_pass_def)
  then obtain ops v where "list_all drain_call ops" "run_ok ops u = Some v" "closable v p" "wt_inv v"
    using drain_runs [OF iu _ d] by blast
  moreover from this obtain s where "end_pass p v =
      (Inr s, v\<lparr>wt_open_passes := tl (wt_open_passes v), wt_pass_counts := (wt_pass_counts v)(p := None)\<rparr>)"
    using end_pass_cases(1) [of v p] assms(3) by blast
  ultimately show ?thesis using drain_run_passes [of ops u v] by (intro exI) auto
qed

theorem cancelled_pass_can_end_witness:
  "\<exists>ops v s w. run_ok ops (run_calls demo_cancelled) = Some v \<and> end_pass 1 v = (Inr s, w)"
proof -
  have "current_pass (run_calls demo_opened) = Some 1"
    by (simp add: demo_opened_table demo_state_def current_pass_def)
  from cancelled_pass_can_end [OF demo_opened_reach this _ demo_cancel [folded demo_opened_table]]
  show ?thesis by (auto simp: demo_cancelled_table demo_opened_table)
qed

text \<open>
  C25. The producer is never stuck behind an unfinished pass: while the oldest open pass is not
  finished, some type has a module of that pass at its cursor that is to be copied or skipped.
\<close>

theorem producer_never_stuck:
  assumes "wt_reach t" and "current_pass t = Some p" and "producer_finished t p \<noteq> Inr True"
  shows "\<exists>m pr. next_production t m = Inr pr \<and> prod_pass pr = p \<and> prod_kind pr \<in> {kCopy, kSkip}"
proof -
  note inv = wt_reach_inv [OF assms(1)]
  obtain m names c n where at: "at_cursor t m names c n" "cursor_pass c = p"
    using unfinished_at_cursor [OF inv assms(2,3)] by metis
  then have "\<exists>pr. next_production t m = Inr pr \<and> prod_pass pr = p \<and> prod_kind pr \<in> {kCopy, kSkip}"
    by (auto simp: next_production_def at_cursor_def cursor_at_def is_open_def Let_def)
  then show ?thesis by blast
qed

theorem producer_never_stuck_witness:
  "\<exists>m pr. next_production (run_calls demo_opened) m = Inr pr \<and> prod_pass pr = 1 \<and> prod_kind pr \<in> {kCopy, kSkip}"
proof -
  have "current_pass (run_calls demo_opened) = Some 1" "producer_finished (run_calls demo_opened) 1 \<noteq> Inr True"
    by (simp_all add: demo_opened_table demo_state_def current_pass_def producer_finished_def cursor_at_def)
  then show ?thesis using producer_never_stuck [OF demo_opened_reach] by blast
qed

text \<open>
  A lease is exclusive and releasing it undoes it: after a successful lease a second lease of
  the module fails; the release returns the same slot, which is then free, the module is gone
  from the pass, and no other slot has changed.
\<close>

lemma lease_release_roundtrip:
  assumes "wt_reach t" and "lease n t = (Inr (m, i), u)"
  shows "(\<exists>e. lease n u = (Inl e, u))
    \<and> (\<exists>p v. current_pass t = Some p \<and> release n u = (Inr (m, i), v) \<and> slot_at v m i = Inr free_slot
         \<and> state_of v n p = None
         \<and> (\<forall>m' i'. (m', i') \<noteq> (m, i) \<longrightarrow> slot_at v m' i' = slot_at t m' i'))"
  using lease_then [OF wt_reach_inv [OF assms(1)] assms(2)] by blast

lemma demo_lease:
  "lease ''a'' (run_calls demo_calls) = (Inr (''e'', 0), snd (lease ''a'' (run_calls demo_calls)))"
  by (simp add: demo_table demo_state_def lease_def check_lease_def require_current_pass_def
        current_pass_def require_installed_def slot_at_def type_slots_def)

text \<open>
  C26. \<open>release_async\<close> is all or nothing, and exact. It succeeds if and only if the modules are
  distinct and all leased in the current pass. It then returns the slot of every module in
  order, these slots wait for their release and keep everything else, the modules are gone
  from the index of the pass, and nothing else in the table has changed. Otherwise it
  throws and changes nothing.
\<close>

theorem release_async_exact:
  assumes "wt_reach t"
  shows "if distinct ns \<and> (\<forall>n \<in> set ns. \<exists>p. current_pass t = Some p \<and> state_of t n p = Some kLeased)
    then \<exists>refs u. release_async ns t = (Inr refs, u)
      \<and> (\<forall>p. current_pass t = Some p \<longrightarrow> map (\<lambda>n. wt_index t (n, p)) ns = map Some refs)
      \<and> (\<forall>m i. slot_at u m i = (if (m, i) \<in> set refs
            then map_sum id (\<lambda>s. s\<lparr>slot_state := kPendingRelease\<rparr>) (slot_at t m i) else slot_at t m i))
      \<and> (\<forall>n p. wt_index u (n, p) = (if current_pass t = Some p \<and> n \<in> set ns then None else wt_index t (n, p)))
      \<and> u\<lparr>wt_slots := [], wt_index := Map.empty\<rparr> = t\<lparr>wt_slots := [], wt_index := Map.empty\<rparr>
    else \<exists>e. release_async ns t = (Inl e, t)"
proof (cases "distinct ns \<and> (\<forall>n \<in> set ns. \<exists>p. current_pass t = Some p \<and> state_of t n p = Some kLeased)")
  case True
  show ?thesis
  proof (cases "current_pass t")
    case None
    then have "ns = []" using True by (cases ns) auto
    then show ?thesis using None by (simp add: release_async_def)
  next
    case (Some p)
    have "distinct ns" "\<forall>n \<in> set ns. state_of t n p = Some kLeased" using True Some by auto
    from release_async_ok [OF wt_reach_inv [OF assms] Some this] obtain refs where
      "map (\<lambda>n. wt_index t (n, p)) ns = map Some refs" "release_async ns t = (Inr refs, mark_pending p (zip ns refs) t)"
      and u: "\<And>m i. slot_at (mark_pending p (zip ns refs) t) m i = (if (m, i) \<in> set refs
          then map_sum id (\<lambda>s. s\<lparr>slot_state := kPendingRelease\<rparr>) (slot_at t m i) else slot_at t m i)"
        "\<And>k. wt_index (mark_pending p (zip ns refs) t) k = (if snd k = p \<and> fst k \<in> set ns then None else wt_index t k)"
      by blast
    then show ?thesis unfolding if_P [OF True] using Some
      by (intro exI [of _ refs] exI [of _ "mark_pending p (zip ns refs) t"]) (auto simp: mark_pending_rest)
  qed
next
  case False
  then show ?thesis using release_async_refused [OF wt_reach_inv [OF assms] False] by (simp only: if_False)
qed

lemma demo_leased_reach: "wt_reach (snd (wt_exec (Lease ''a'') (run_calls demo_calls)))"
  using demo_reach by (rule wt_reach.call) simp

theorem release_async_exact_witness:
  "(\<exists>u. release_async [''a''] (snd (wt_exec (Lease ''a'') (run_calls demo_calls))) = (Inr [(''e'', 0)], u)
      \<and> state_at u ''e'' 0 = Inr kPendingRelease \<and> wt_index u (''a'', 1) = None)
   \<and> (\<exists>e. release_async [''a'', ''a''] (snd (wt_exec (Lease ''a'') (run_calls demo_calls)))
        = (Inl e, snd (wt_exec (Lease ''a'') (run_calls demo_calls))))"
proof -
  let ?t = "snd (wt_exec (Lease ''a'') (run_calls demo_calls))"
  have t: "current_pass ?t = Some 1" "wt_index ?t (''a'', 1) = Some (''e'', 0)"
    "state_of ?t ''a'' 1 = Some kLeased" "\<exists>s. slot_at ?t ''e'' 0 = Inr s"
    by (simp_all add: outcome_def demo_table demo_state_def lease_def check_lease_def require_current_pass_def
        current_pass_def require_installed_def slot_at_def type_slots_def set_slot_def state_of_def)
  then show ?thesis
    using release_async_exact [OF demo_leased_reach, of "[''a'']"] release_async_exact [OF demo_leased_reach, of "[''a'', ''a'']"]
    by (auto simp: state_at_def simp del: wt_exec.simps)
qed

text \<open>
  \<open>install\<close> accepts a module whose name is the empty string, which the other methods take
  for a slot without a module: its copy is claimed, but its landing is refused and the module
  can never be leased.
\<close>

lemma empty_name_installed:
  "fst (install [(''e'', [''''])] empty_table) = Inr ()
   \<and> (let t = snd (claim ''e'' 0 '''' (snd (reserve ''e'' (snd (begin_pass
                (snd (install [(''e'', [''''])] (snd (reset_type ''e'' 1 empty_table)))))))))
      in wt_index t ('''', 1) = Some (''e'', 0) \<and> fst (landed ''e'' 0 t) = Inl transition_error
         \<and> check_lease '''' t = Inr kWait)"
proof -
  define u where "u = empty_table\<lparr>wt_slots := [(''e'', [free_slot])]\<rparr>"
  have r: "snd (reset_type ''e'' 1 empty_table) = u"
    by (simp add: reset_type_def require_no_open_pass_def type_slots_def empty_table_def u_def)
  have h: "held_slots u = []" by (simp add: held_none u_def)
  define v where "v = snd (begin_pass (snd (install [(''e'', [''''])] u)))"
  have v: "v = u\<lparr>wt_installed := ['''' \<mapsto> (''e'', 0)], wt_lists := [(''e'', [''''])],
      wt_cursors := [''e'' \<mapsto> start_cursor], wt_open_passes := [1], wt_next_pass := 2\<rparr>"
    using h by (simp add: v_def install_def begin_pass_def require_no_open_pass_def require_schedule_aligned_def
        u_def empty_table_def kMaxOpenPasses_def) (simp add: fun_eq_iff)
  define w where "w = snd (claim ''e'' 0 '''' (snd (reserve ''e'' v)))"
  have w: "w = v\<lparr>wt_slots := [(''e'', [free_slot\<lparr>slot_state := kFilling, slot_pass := 1\<rparr>])],
      wt_index := [('''', 1) \<mapsto> (''e'', 0)], wt_cursors := [''e'' \<mapsto> \<lparr>cursor_pass = 2, cursor_position = 0\<rparr>]\<rparr>"
    by (simp add: w_def v u_def empty_table_def reserve_def claim_def next_production_def cursor_at_def is_open_def
        slot_at_def type_slots_def set_slot_def advance_def start_cursor_def free_slot_def Let_def)
  have "fst (install [(''e'', [''''])] empty_table) = Inr ()"
    by (simp add: install_def require_schedule_aligned_def require_no_open_pass_def empty_table_def held_slots_def)
  moreover have "wt_index w ('''', 1) = Some (''e'', 0)" by (simp add: w)
  moreover have "fst (landed ''e'' 0 w) = Inl transition_error"
    by (simp add: w landed_def slot_at_def type_slots_def)
  moreover have "check_lease '''' w = Inr kWait"
    by (simp add: w v u_def empty_table_def check_lease_def require_current_pass_def current_pass_def
        require_installed_def slot_at_def type_slots_def free_slot_def)
  ultimately show ?thesis unfolding r v_def [symmetric] w_def [symmetric] Let_def by blast
qed

end
