(* ===== verification/Prefix_Hash.thy ===== *)
theory Prefix_Hash
  imports Probe_Table
begin

text \<open>
  Hashing and configuration of the prefix cache
  (\<open>core/KV_Storage/host_prefix_cache_coordinator.cpp\<close>, the anonymous namespace,
  \<open>BuildPrefixHashChain\<close> and the constructor of \<open>HostPrefixCacheCoordinator\<close>). A digest is the
  list of its four 64-bit lanes; token ids are integers; sizes and counters are naturals with
  the wrap-around of their 32-bit type written out.
\<close>

unbundle bit_operations_syntax

section \<open>Digests\<close>

type_synonym PrefixDigest = "64 word list"

definition zero_digest :: PrefixDigest where
  "zero_digest = [0, 0, 0, 0]"

definition SplitMix64 :: "64 word \<Rightarrow> 64 word" where
  "SplitMix64 value =
     (let v0 = value + 0x9e3779b97f4a7c15;
          v1 = (v0 XOR drop_bit 30 v0) * 0xbf58476d1ce4e5b9;
          v2 = (v1 XOR drop_bit 27 v1) * 0x94d049bb133111eb
      in v2 XOR drop_bit 31 v2)"

definition NextPowerOfTwo :: "nat \<Rightarrow> nat" where
  "NextPowerOfTwo value =
     (if value \<le> 1 then 1
      else
        let v = value - 1;
            v1 = v OR drop_bit 1 v;
            v2 = v1 OR drop_bit 2 v1;
            v4 = v2 OR drop_bit 4 v2;
            v8 = v4 OR drop_bit 8 v4;
            v16 = v8 OR drop_bit 16 v8
        in u32 (v16 + 1))"

definition DigestHash :: "PrefixDigest \<Rightarrow> 64 word" where
  "DigestHash digest =
     SplitMix64 (fold (\<lambda>lane value. value XOR SplitMix64 (digest ! lane + of_nat lane))
                   [0..<length digest] 0x9e3779b97f4a7c15)"

definition PageRefHash :: "nat \<Rightarrow> nat \<Rightarrow> 64 word" where
  "PageRefHash gid page = SplitMix64 (push_bit 32 (of_nat gid) OR of_nat page)"

text \<open>One token of a block: it is mixed into a lane, and the lane into the next one.\<close>

fun absorb_tokens :: "nat \<Rightarrow> int list \<Rightarrow> 64 word list \<Rightarrow> 64 word list" where
  "absorb_tokens idx [] state = state"
| "absorb_tokens idx (t # ts) state =
     (let token = word_of_int t :: 64 word;
          lane = idx mod length state;
          mixed = SplitMix64 (state ! lane XOR token XOR push_bit 32 (of_nat idx));
          state1 = state[lane := mixed];
          succ = (lane + 1) mod length state
      in absorb_tokens (idx + 1) ts (state1[succ := state1 ! succ XOR mixed]))"

definition HashPrefixBlock :: "PrefixDigest \<Rightarrow> PrefixDigest \<Rightarrow> int list \<Rightarrow> nat \<Rightarrow> PrefixDigest" where
  "HashPrefixBlock namespace parent tokens token_count =
     (let seed = [0x243f6a8885a308d3, 0x13198a2e03707344, 0xa4093822299f31d0, 0x082efa98ec4e6c89];
          start = map (\<lambda>lane. seed ! lane XOR SplitMix64 (namespace ! lane)
                               XOR SplitMix64 (parent ! lane + of_nat lane)) [0..<4];
          absorbed = absorb_tokens 0 (take token_count tokens) start
      in map (\<lambda>lane. SplitMix64 (absorbed ! lane XOR of_nat token_count XOR of_nat lane)) [0..<4])"

text \<open>
  The loop of \<open>BuildPrefixHashChain\<close> runs once per full block: \<open>start\<close> advances by
  \<open>block_tokens\<close> until it reaches \<open>full_tokens\<close>, a multiple of it below \<open>2 ^ 32\<close>.
\<close>

fun chain_blocks ::
  "PrefixDigest \<Rightarrow> PrefixDigest \<Rightarrow> int list \<Rightarrow> nat \<Rightarrow> nat \<Rightarrow> nat \<Rightarrow> (nat \<times> PrefixDigest) list" where
  "chain_blocks namespace parent tokens block start 0 = []"
| "chain_blocks namespace parent tokens block start (Suc n) =
     (let digest = HashPrefixBlock namespace parent (drop start tokens) block
      in (start + block, digest) # chain_blocks namespace digest tokens block (start + block) n)"

definition BuildPrefixHashChain ::
  "PrefixDigest \<Rightarrow> int list \<Rightarrow> nat \<Rightarrow> (nat \<times> PrefixDigest) list result" where
  "BuildPrefixHashChain namespace tokens block =
     (if block = 0 then Inl (Invalid_argument ''block_tokens must be > 0'')
      else
        let size = u32 (length tokens);
            full_tokens = size - size mod block
        in Inr (chain_blocks namespace zero_digest tokens block 0 (full_tokens div block)))"

section \<open>Groups\<close>

datatype HostKVGroupSemantic = kFullKV | kMlaCompressedKV | kSwaKV | kCompressedRatioKV

record HostKVGroupSpec =
  spec_group :: nat
  spec_semantic :: HostKVGroupSemantic
  required_for_reuse :: bool
  raw_page_tokens :: nat
  compression_ratio :: nat

type_synonym GroupCommitPages = "nat \<times> nat list"

record GroupPageRequirement =
  requirement_group :: nat
  min_pages :: nat

definition Gcd :: "nat \<Rightarrow> nat \<Rightarrow> nat" where
  "Gcd lhs rhs = gcd lhs rhs"

text \<open>
  \<open>std::lcm\<close> of two 32-bit values divides one by the gcd and multiplies at 32 bits, so that it
  is the least common multiple modulo \<open>2 ^ 32\<close>.
\<close>

definition Lcm :: "nat \<Rightarrow> nat \<Rightarrow> nat" where
  "Lcm lhs rhs = (if lhs = 0 \<or> rhs = 0 then 0 else u32 (lhs div gcd lhs rhs * rhs))"

definition NormalizePageRequirements :: "GroupPageRequirement list \<Rightarrow> (nat \<times> nat) list" where
  "NormalizePageRequirements requirements =
     fold (\<lambda>r result.
             if min_pages r = 0 then result
             else ordered_put (requirement_group r)
                    (u32 ((case map_of result (requirement_group r) of None \<Rightarrow> 0 | Some n \<Rightarrow> n) + min_pages r))
                    result)
       requirements []"

definition ValidateGroupSpec :: "HostKVGroupSpec \<Rightarrow> unit result" where
  "ValidateGroupSpec spec =
     (if raw_page_tokens spec = 0
      then Inl (Invalid_argument ''HostKVGroupSpec.raw_page_tokens must be > 0'')
      else if compression_ratio spec = 0
      then Inl (Invalid_argument ''HostKVGroupSpec.compression_ratio must be > 0'')
      else Inr ())"

definition ComputeHashBlockTokens :: "HostKVGroupSpec list \<Rightarrow> nat" where
  "ComputeHashBlockTokens specs =
     fold (\<lambda>spec result.
             if \<not> required_for_reuse spec then result
             else if result = 0 then raw_page_tokens spec else Gcd result (raw_page_tokens spec))
       specs 0"

definition ComputeCommitBoundaryTokens :: "HostKVGroupSpec list \<Rightarrow> nat" where
  "ComputeCommitBoundaryTokens specs =
     (case fold (\<lambda>spec (has_required, result).
                   if \<not> required_for_reuse spec then (has_required, result)
                   else (True, Lcm result (raw_page_tokens spec)))
             specs (False, 1) of
        (has_required, result) \<Rightarrow> if has_required then result else 0)"

section \<open>Configuration\<close>

record HostPrefixCacheConfig =
  shm_name :: string
  cfg_group_specs :: "HostKVGroupSpec list"
  cfg_hash_block_tokens :: nat
  cfg_max_nodes :: nat
  cfg_max_group_entries :: nat
  cfg_max_page_handles :: nat

fun validate_specs :: "HostKVGroupSpec list \<Rightarrow> bool \<Rightarrow> bool result" where
  "validate_specs [] has_required = Inr has_required"
| "validate_specs (spec # specs) has_required =
     (case ValidateGroupSpec spec of
        Inl e \<Rightarrow> Inl e
      | Inr _ \<Rightarrow> validate_specs specs (has_required \<or> required_for_reuse spec))"

text \<open>The constructor: the hash block and the commit boundary, or the exception it throws.\<close>

definition HostPrefixCacheCoordinator :: "HostPrefixCacheConfig \<Rightarrow> (nat \<times> nat) result" where
  "HostPrefixCacheCoordinator config =
     (if shm_name config = [] then Inl (Invalid_argument ''HostPrefixCacheConfig.shm_name is empty'')
      else if cfg_group_specs config = []
      then Inl (Invalid_argument ''HostPrefixCacheConfig.group_specs is empty'')
      else if cfg_max_nodes config = 0 \<or> cfg_max_group_entries config = 0 \<or> cfg_max_page_handles config = 0
      then Inl (Invalid_argument ''HostPrefixCacheConfig capacities must be positive'')
      else
        (case validate_specs (cfg_group_specs config) False of
           Inl e \<Rightarrow> Inl e
         | Inr has_required \<Rightarrow>
             if \<not> has_required
             then Inl (Invalid_argument ''HostPrefixCacheConfig needs at least one required group'')
             else
               let block = (if cfg_hash_block_tokens config = 0
                            then ComputeHashBlockTokens (cfg_group_specs config)
                            else cfg_hash_block_tokens config);
                   boundary = ComputeCommitBoundaryTokens (cfg_group_specs config)
               in if block = 0 \<or> boundary = 0
                  then Inl (Invalid_argument ''HostPrefixCacheConfig computed zero token boundary'')
                  else Inr (block, boundary)))"

definition MaxNodeIndexSlots :: "nat \<Rightarrow> nat" where
  "MaxNodeIndexSlots max_nodes = (if max_nodes = 0 then 1 else NextPowerOfTwo (u32 (max_nodes * 2)))"

definition MaxPageRefSlots :: "nat \<Rightarrow> nat" where
  "MaxPageRefSlots max_page_handles =
     (if max_page_handles = 0 then 1 else NextPowerOfTwo (u32 (max_page_handles * 2)))"

end
