(* ===== verification/Prefix_Cache.thy ===== *)
theory Prefix_Cache
  imports Prefix_Hash
begin

text \<open>
  The prefix cache of the host KV pages, \<open>HostPrefixCacheCoordinator::SharedState\<close> of
  \<open>core/KV_Storage/host_prefix_cache_coordinator.cpp\<close>: a table of prefix nodes, a hash index
  from digests to nodes, a hash table of page reference counts, and two arenas, one of group
  entries and one of page handles, that the nodes point into. One record holds the shared region
  and the attachments of the process that owns the coordinator object.

  Every method runs its shared part under one process-shared mutex, so each is one transition
  of the record; \<open>ReleaseAttachment\<close>, \<open>BeginAttachmentLoad\<close> and \<open>EndAttachmentLoad\<close> first take the
  lock of the process for the attachment map. An array is read without a bounds check, as in the
  code. \<open>std::unordered_map\<close> and \<open>std::map\<close> are association lists; the second is kept ordered.
\<close>

section \<open>Data\<close>

datatype EntryState = kEmpty | kResident | kTombstone

record SharedPrefixNode =
  node_state :: EntryState
  node_namespace :: PrefixDigest
  node_digest :: PrefixDigest
  node_start :: nat
  node_end :: nat
  first_group_entry :: nat
  group_entry_count :: nat
  last_access_epoch :: nat

record SharedNodeIndexSlot =
  islot_state :: EntryState
  islot_node :: nat
  islot_digest :: PrefixDigest

record SharedGroupEntry =
  entry_state :: EntryState
  entry_group :: nat
  entry_start :: nat
  entry_end :: nat
  first_page_handle :: nat
  page_handle_count :: nat
  active_ref_count :: nat
  pending_load_count :: nat

record SharedPageRefSlot =
  pslot_state :: EntryState
  pslot_group :: nat
  pslot_page :: nat
  pslot_refs :: nat

record LocalAttachment =
  att_nodes :: "nat list"
  att_loads :: nat
  att_release :: bool

definition empty_node :: SharedPrefixNode where
  "empty_node = \<lparr>node_state = kEmpty, node_namespace = zero_digest, node_digest = zero_digest,
     node_start = 0, node_end = 0, first_group_entry = 0, group_entry_count = 0, last_access_epoch = 0\<rparr>"

definition empty_islot :: SharedNodeIndexSlot where
  "empty_islot = \<lparr>islot_state = kEmpty, islot_node = 0, islot_digest = zero_digest\<rparr>"

definition ResetGroupEntry :: SharedGroupEntry where
  "ResetGroupEntry = \<lparr>entry_state = kEmpty, entry_group = 0, entry_start = 0, entry_end = 0,
     first_page_handle = 0, page_handle_count = 0, active_ref_count = 0, pending_load_count = 0\<rparr>"

definition empty_pslot :: SharedPageRefSlot where
  "empty_pslot = \<lparr>pslot_state = kEmpty, pslot_group = 0, pslot_page = 0, pslot_refs = 0\<rparr>"

record prefix_cache =
  magic :: nat
  abi_version :: nat
  pc_specs :: "HostKVGroupSpec list"
  hash_block_tokens :: nat
  commit_boundary_tokens :: nat
  max_nodes :: nat
  max_group_entries :: nat
  max_page_handles :: nat
  pc_nodes :: "SharedPrefixNode list"
  node_index_slots :: "SharedNodeIndexSlot list"
  page_ref_slots :: "SharedPageRefSlot list"
  group_entries :: "SharedGroupEntry list"
  page_handles :: "nat list"
  next_group_entry :: nat
  next_page_handle :: nat
  global_epoch :: nat
  lookup_hits :: nat
  lookup_misses :: nat
  evicted_total :: nat
  protected_total :: nat
  local_attachments :: "(nat \<times> LocalAttachment) list"
  next_local_attachment :: nat

record PrefixEvictionResult =
  evicted_nodes :: nat
  protected_nodes :: nat
  freed_group_entries :: nat
  freed_page_handles :: nat
  evicted_group_pages :: "GroupCommitPages list"

definition no_eviction :: PrefixEvictionResult where
  "no_eviction = \<lparr>evicted_nodes = 0, protected_nodes = 0, freed_group_entries = 0,
     freed_page_handles = 0, evicted_group_pages = []\<rparr>"

record GroupMaterializationSpan =
  span_group :: nat
  span_end :: nat
  span_pages :: "nat list"

record PrefixLookupResult =
  attachment_handle :: nat
  common_cached_tokens :: nat
  materialization_spans :: "GroupMaterializationSpan list"
  miss_reason_mask :: nat

definition no_lookup :: PrefixLookupResult where
  "no_lookup = \<lparr>attachment_handle = 0, common_cached_tokens = 0, materialization_spans = [],
     miss_reason_mask = 0\<rparr>"

record PrefixCommitResult =
  committed_tokens :: nat
  inserted_nodes :: nat
  existing_nodes :: nat
  active_attachment_handle :: nat
  inserted_group_pages :: "GroupCommitPages list"

definition no_commit :: PrefixCommitResult where
  "no_commit = \<lparr>committed_tokens = 0, inserted_nodes = 0, existing_nodes = 0,
     active_attachment_handle = 0, inserted_group_pages = []\<rparr>"

record HostPrefixCacheStats =
  stat_resident_nodes :: nat
  stat_active_attachments :: nat
  stat_pending_load_entries :: nat
  stat_pending_load_refs :: nat
  stat_used_group_entries :: nat
  stat_used_page_handles :: nat
  stat_lookup_hits :: nat
  stat_lookup_misses :: nat
  stat_evicted_nodes :: nat
  stat_protected_skips :: nat

definition kPrefixCacheMagic :: nat where
  "kPrefixCacheMagic = 0x484f535450434348"

definition kPrefixCacheAbiVersion :: nat where
  "kPrefixCacheAbiVersion = 4"

definition kNodeIndexRebuildMinTombstones :: nat where
  "kNodeIndexRebuildMinTombstones = 1024"

definition kPageRefRebuildMinTombstones :: nat where
  "kPageRefRebuildMinTombstones = 1024"

definition kArenaCompactMinDeadGroupEntries :: nat where
  "kArenaCompactMinDeadGroupEntries = 1024"

definition kArenaCompactMinDeadPageHandles :: nat where
  "kArenaCompactMinDeadPageHandles = 4096"

section \<open>Construction and validation\<close>

definition ConstructPrefixCache :: "HostPrefixCacheConfig \<Rightarrow> nat \<Rightarrow> nat \<Rightarrow> prefix_cache" where
  "ConstructPrefixCache config block boundary =
     \<lparr>magic = kPrefixCacheMagic, abi_version = kPrefixCacheAbiVersion,
      pc_specs = cfg_group_specs config, hash_block_tokens = block, commit_boundary_tokens = boundary,
      max_nodes = cfg_max_nodes config, max_group_entries = cfg_max_group_entries config,
      max_page_handles = cfg_max_page_handles config,
      pc_nodes = replicate (cfg_max_nodes config) empty_node,
      node_index_slots = replicate (MaxNodeIndexSlots (cfg_max_nodes config)) empty_islot,
      page_ref_slots = replicate (MaxPageRefSlots (cfg_max_page_handles config)) empty_pslot,
      group_entries = replicate (cfg_max_group_entries config) ResetGroupEntry,
      page_handles = replicate (cfg_max_page_handles config) 0,
      next_group_entry = 0, next_page_handle = 0, global_epoch = 0, lookup_hits = 0,
      lookup_misses = 0, evicted_total = 0, protected_total = 0,
      local_attachments = [], next_local_attachment = 1\<rparr>"

text \<open>
  A worker that attaches compares the header of the region with its own configuration; the slot
  counts of the header are those of the arrays the creator laid out.
\<close>

definition ValidateSharedState ::
  "HostPrefixCacheConfig \<Rightarrow> nat \<Rightarrow> nat \<Rightarrow> prefix_cache \<Rightarrow> unit result" where
  "ValidateSharedState config block boundary s =
     (if magic s \<noteq> kPrefixCacheMagic
      then Inl (Runtime_error ''Host prefix cache shared memory magic mismatch'')
      else if abi_version s \<noteq> kPrefixCacheAbiVersion
      then Inl (Runtime_error ''Host prefix cache ABI version mismatch'')
      else if u32 (length (pc_specs s)) \<noteq> length (cfg_group_specs config)
      then Inl (Runtime_error ''Host prefix cache group count mismatch'')
      else if hash_block_tokens s \<noteq> block \<or> commit_boundary_tokens s \<noteq> boundary
              \<or> max_nodes s \<noteq> cfg_max_nodes config
              \<or> length (node_index_slots s) \<noteq> MaxNodeIndexSlots (cfg_max_nodes config)
              \<or> length (page_ref_slots s) \<noteq> MaxPageRefSlots (cfg_max_page_handles config)
              \<or> max_group_entries s \<noteq> cfg_max_group_entries config
              \<or> max_page_handles s \<noteq> cfg_max_page_handles config
      then Inl (Runtime_error ''Host prefix cache config mismatch'')
      else if list_ex (\<lambda>i. pc_specs s ! i \<noteq> cfg_group_specs config ! i) [0..<length (cfg_group_specs config)]
      then Inl (Runtime_error ''Host prefix cache group spec mismatch'')
      else Inr ())"

section \<open>Reading a node\<close>

definition is_resident :: "SharedPrefixNode \<Rightarrow> bool" where
  "is_resident node \<longleftrightarrow> node_state node = kResident"

text \<open>The arena indices of the group entries of a node, and of the pages of an entry.\<close>

definition entry_slots :: "SharedPrefixNode \<Rightarrow> nat list" where
  "entry_slots node = map (\<lambda>offset. u32 (first_group_entry node + offset)) [0..<group_entry_count node]"

definition node_entries :: "prefix_cache \<Rightarrow> SharedPrefixNode \<Rightarrow> SharedGroupEntry list" where
  "node_entries s node = map ((!) (group_entries s)) (entry_slots node)"

definition resident_entries :: "prefix_cache \<Rightarrow> SharedPrefixNode \<Rightarrow> SharedGroupEntry list" where
  "resident_entries s node = filter (\<lambda>e. entry_state e = kResident) (node_entries s node)"

definition handle_pages :: "prefix_cache \<Rightarrow> SharedGroupEntry \<Rightarrow> nat list" where
  "handle_pages s e = map (\<lambda>i. page_handles s ! u32 (first_page_handle e + i)) [0..<page_handle_count e]"

section \<open>The node index\<close>

fun find_index_loop ::
  "SharedNodeIndexSlot list \<Rightarrow> nat \<Rightarrow> PrefixDigest \<Rightarrow> nat \<Rightarrow> nat \<Rightarrow> nat \<Rightarrow> nat option" where
  "find_index_loop tab msk digest start probe 0 = None"
| "find_index_loop tab msk digest start probe (Suc n) =
     (let i = u32 (start + probe) AND msk in
      if islot_state (tab ! i) = kEmpty then None
      else if islot_state (tab ! i) = kResident \<and> islot_digest (tab ! i) = digest then Some i
      else find_index_loop tab msk digest start (probe + 1) n)"

definition FindNodeIndexSlotLocked :: "prefix_cache \<Rightarrow> PrefixDigest \<Rightarrow> nat option" where
  "FindNodeIndexSlotLocked s digest =
     (let slot_count = MaxNodeIndexSlots (max_nodes s);
          msk = u32_sub slot_count 1
      in find_index_loop (node_index_slots s) msk digest (unat (DigestHash digest) AND msk) 0 slot_count)"

text \<open>The probe of an insertion: the slot to write and whether the key is new.\<close>

fun claim_index_loop ::
  "SharedNodeIndexSlot list \<Rightarrow> nat \<Rightarrow> PrefixDigest \<Rightarrow> nat \<Rightarrow> nat option \<Rightarrow> nat \<Rightarrow> nat \<Rightarrow> (nat \<times> bool) option" where
  "claim_index_loop tab msk digest start first_tombstone probe 0 =
     map_option (\<lambda>j. (j, True)) first_tombstone"
| "claim_index_loop tab msk digest start first_tombstone probe (Suc n) =
     (let i = u32 (start + probe) AND msk in
      if islot_state (tab ! i) = kResident
      then (if islot_digest (tab ! i) = digest then Some (i, False)
            else claim_index_loop tab msk digest start first_tombstone (probe + 1) n)
      else if islot_state (tab ! i) = kTombstone
      then claim_index_loop tab msk digest start
             (if first_tombstone = None then Some i else first_tombstone) (probe + 1) n
      else Some (case first_tombstone of None \<Rightarrow> i | Some j \<Rightarrow> j, True))"

definition InsertNodeIndexLocked :: "PrefixDigest \<Rightarrow> nat \<Rightarrow> prefix_cache \<Rightarrow> unit result \<times> prefix_cache" where
  "InsertNodeIndexLocked digest node_index s =
     (let slot_count = MaxNodeIndexSlots (max_nodes s);
          msk = u32_sub slot_count 1
      in case claim_index_loop (node_index_slots s) msk digest (unat (DigestHash digest) AND msk) None 0 slot_count of
           None \<Rightarrow> (Inl (Runtime_error ''Host prefix cache node index table is full''), s)
         | Some (i, is_new) \<Rightarrow>
             (Inr (),
              s\<lparr>node_index_slots := (node_index_slots s)
                  [i := if is_new then \<lparr>islot_state = kResident, islot_node = node_index, islot_digest = digest\<rparr>
                        else (node_index_slots s ! i)\<lparr>islot_node := node_index\<rparr>]\<rparr>))"

definition RemoveNodeIndexLocked :: "PrefixDigest \<Rightarrow> prefix_cache \<Rightarrow> prefix_cache" where
  "RemoveNodeIndexLocked digest s =
     (case FindNodeIndexSlotLocked s digest of
        None \<Rightarrow> s
      | Some i \<Rightarrow> s\<lparr>node_index_slots := (node_index_slots s)
                      [i := \<lparr>islot_state = kTombstone, islot_node = 0, islot_digest = zero_digest\<rparr>]\<rparr>)"

definition RebuildNodeIndexLocked :: "prefix_cache \<Rightarrow> unit result \<times> prefix_cache" where
  "RebuildNodeIndexLocked s =
     fold_do (\<lambda>n _ s. if is_resident (pc_nodes s ! n)
                      then InsertNodeIndexLocked (node_digest (pc_nodes s ! n)) n s
                      else (Inr (), s))
       [0..<max_nodes s] ()
       (s\<lparr>node_index_slots := replicate (MaxNodeIndexSlots (max_nodes s)) empty_islot\<rparr>)"

definition CountNodeIndexTombstonesLocked :: "prefix_cache \<Rightarrow> nat" where
  "CountNodeIndexTombstonesLocked s =
     length (filter (\<lambda>slot. islot_state slot = kTombstone) (node_index_slots s))"

definition RebuildNodeIndexIfNeededLocked :: "prefix_cache \<Rightarrow> unit result \<times> prefix_cache" where
  "RebuildNodeIndexIfNeededLocked s =
     (if max kNodeIndexRebuildMinTombstones (MaxNodeIndexSlots (max_nodes s) div 4)
         \<le> CountNodeIndexTombstonesLocked s
      then RebuildNodeIndexLocked s else (Inr (), s))"

definition FindNodeLocked :: "prefix_cache \<Rightarrow> PrefixDigest \<Rightarrow> nat option" where
  "FindNodeLocked s digest =
     (case FindNodeIndexSlotLocked s digest of
        None \<Rightarrow> None
      | Some i \<Rightarrow>
          let n = islot_node (node_index_slots s ! i) in
          if max_nodes s \<le> n then None
          else if \<not> is_resident (pc_nodes s ! n) \<or> node_digest (pc_nodes s ! n) \<noteq> digest then None
          else Some n)"

section \<open>Page references\<close>

fun find_ref_loop ::
  "SharedPageRefSlot list \<Rightarrow> nat \<Rightarrow> nat \<Rightarrow> nat \<Rightarrow> nat \<Rightarrow> nat \<Rightarrow> nat \<Rightarrow> nat option" where
  "find_ref_loop tab msk gid page start probe 0 = None"
| "find_ref_loop tab msk gid page start probe (Suc n) =
     (let i = u32 (start + probe) AND msk in
      if pslot_state (tab ! i) = kEmpty then None
      else if pslot_state (tab ! i) = kResident \<and> pslot_group (tab ! i) = gid \<and> pslot_page (tab ! i) = page
      then Some i
      else find_ref_loop tab msk gid page start (probe + 1) n)"

definition FindPageRefSlotLocked :: "prefix_cache \<Rightarrow> nat \<Rightarrow> nat \<Rightarrow> nat option" where
  "FindPageRefSlotLocked s gid page =
     (let slot_count = MaxPageRefSlots (max_page_handles s);
          msk = u32_sub slot_count 1
      in find_ref_loop (page_ref_slots s) msk gid page (unat (PageRefHash gid page) AND msk) 0 slot_count)"

fun claim_ref_loop ::
  "SharedPageRefSlot list \<Rightarrow> nat \<Rightarrow> nat \<Rightarrow> nat \<Rightarrow> nat \<Rightarrow> nat option \<Rightarrow> nat \<Rightarrow> nat \<Rightarrow> (nat \<times> bool) option" where
  "claim_ref_loop tab msk gid page start first_tombstone probe 0 =
     map_option (\<lambda>j. (j, True)) first_tombstone"
| "claim_ref_loop tab msk gid page start first_tombstone probe (Suc n) =
     (let i = u32 (start + probe) AND msk in
      if pslot_state (tab ! i) = kResident
      then (if pslot_group (tab ! i) = gid \<and> pslot_page (tab ! i) = page then Some (i, False)
            else claim_ref_loop tab msk gid page start first_tombstone (probe + 1) n)
      else if pslot_state (tab ! i) = kTombstone
      then claim_ref_loop tab msk gid page start
             (if first_tombstone = None then Some i else first_tombstone) (probe + 1) n
      else Some (case first_tombstone of None \<Rightarrow> i | Some j \<Rightarrow> j, True))"

text \<open>The index of the slot the code returns a reference to.\<close>

definition InsertOrGetPageRefSlotLocked :: "nat \<Rightarrow> nat \<Rightarrow> prefix_cache \<Rightarrow> nat result \<times> prefix_cache" where
  "InsertOrGetPageRefSlotLocked gid page s =
     (let slot_count = MaxPageRefSlots (max_page_handles s);
          msk = u32_sub slot_count 1
      in case claim_ref_loop (page_ref_slots s) msk gid page (unat (PageRefHash gid page) AND msk) None 0 slot_count of
           None \<Rightarrow> (Inl (Runtime_error ''Host prefix cache page ref table is full''), s)
         | Some (i, is_new) \<Rightarrow>
             (Inr i,
              if is_new
              then s\<lparr>page_ref_slots := (page_ref_slots s)
                       [i := \<lparr>pslot_state = kResident, pslot_group = gid, pslot_page = page, pslot_refs = 0\<rparr>]\<rparr>
              else s))"

definition IncrementPageRefLocked :: "nat \<Rightarrow> nat \<Rightarrow> prefix_cache \<Rightarrow> unit result \<times> prefix_cache" where
  "IncrementPageRefLocked gid page s =
     and_then (InsertOrGetPageRefSlotLocked gid page s) (\<lambda>i s.
       let slot = page_ref_slots s ! i in
       if pslot_refs slot = 2 ^ 32 - 1
       then (Inl (Runtime_error ''Host prefix cache page ref count overflow''), s)
       else (Inr (), s\<lparr>page_ref_slots := (page_ref_slots s)[i := slot\<lparr>pslot_refs := pslot_refs slot + 1\<rparr>]\<rparr>))"

definition DecrementPageRefLocked :: "nat \<Rightarrow> nat \<Rightarrow> prefix_cache \<Rightarrow> bool result \<times> prefix_cache" where
  "DecrementPageRefLocked gid page s =
     (case FindPageRefSlotLocked s gid page of
        None \<Rightarrow> (Inl (Runtime_error ''Host prefix cache page ref is missing''), s)
      | Some i \<Rightarrow>
          let slot = page_ref_slots s ! i in
          if pslot_refs slot = 0 then (Inl (Runtime_error ''Host prefix cache page ref underflow''), s)
          else if pslot_refs slot - 1 \<noteq> 0
          then (Inr False, s\<lparr>page_ref_slots := (page_ref_slots s)[i := slot\<lparr>pslot_refs := pslot_refs slot - 1\<rparr>]\<rparr>)
          else (Inr True,
                s\<lparr>page_ref_slots := (page_ref_slots s)
                    [i := \<lparr>pslot_state = kTombstone, pslot_group = 0, pslot_page = 0, pslot_refs = 0\<rparr>]\<rparr>))"

definition RebuildPageRefIndexLocked :: "prefix_cache \<Rightarrow> unit result \<times> prefix_cache" where
  "RebuildPageRefIndexLocked s =
     (let refs = filter (\<lambda>slot. pslot_state slot = kResident) (page_ref_slots s) in
      fold_do (\<lambda>ref _ s.
                 and_then (InsertOrGetPageRefSlotLocked (pslot_group ref) (pslot_page ref) s) (\<lambda>i s.
                   (Inr (), s\<lparr>page_ref_slots := (page_ref_slots s)
                              [i := (page_ref_slots s ! i)\<lparr>pslot_refs := pslot_refs ref\<rparr>]\<rparr>)))
        refs () (s\<lparr>page_ref_slots := replicate (MaxPageRefSlots (max_page_handles s)) empty_pslot\<rparr>))"

definition CountPageRefTombstonesLocked :: "prefix_cache \<Rightarrow> nat" where
  "CountPageRefTombstonesLocked s =
     length (filter (\<lambda>slot. pslot_state slot = kTombstone) (page_ref_slots s))"

definition RebuildPageRefIndexIfNeededLocked :: "prefix_cache \<Rightarrow> unit result \<times> prefix_cache" where
  "RebuildPageRefIndexIfNeededLocked s =
     (if max kPageRefRebuildMinTombstones (MaxPageRefSlots (max_page_handles s) div 4)
         \<le> CountPageRefTombstonesLocked s
      then RebuildPageRefIndexLocked s else (Inr (), s))"

section \<open>Arenas\<close>

text \<open>Group entries and page handles of the resident nodes.\<close>

definition ResidentArenaUsageLocked :: "prefix_cache \<Rightarrow> nat \<times> nat" where
  "ResidentArenaUsageLocked s =
     fold (\<lambda>node (entries, handles).
             if is_resident node
             then (u32 (entries + group_entry_count node),
                   fold (\<lambda>e h. u32 (h + page_handle_count e)) (resident_entries s node) handles)
             else (entries, handles))
       (pc_nodes s) (0, 0)"

definition TailArenaCapacityEnoughLocked :: "prefix_cache \<Rightarrow> nat \<Rightarrow> nat \<Rightarrow> bool" where
  "TailArenaCapacityEnoughLocked s min_entries min_handles \<longleftrightarrow>
     min_entries \<le> u32_sub (max_group_entries s) (next_group_entry s)
     \<and> min_handles \<le> u32_sub (max_page_handles s) (next_page_handle s)"

definition CompactedArenaCapacityEnoughLocked :: "prefix_cache \<Rightarrow> nat \<Rightarrow> nat \<Rightarrow> bool" where
  "CompactedArenaCapacityEnoughLocked s min_entries min_handles \<longleftrightarrow>
     (case ResidentArenaUsageLocked s of (entries, handles) \<Rightarrow>
        min_entries \<le> u32_sub (max_group_entries s) entries
        \<and> min_handles \<le> u32_sub (max_page_handles s) handles)"

text \<open>A group entry with its pages copied out, and a node with its entries.\<close>

type_synonym GroupEntrySnapshot = "SharedGroupEntry \<times> nat list"

type_synonym NodeSnapshot = "nat \<times> SharedPrefixNode \<times> GroupEntrySnapshot list"

definition node_snapshot :: "prefix_cache \<Rightarrow> nat \<Rightarrow> NodeSnapshot" where
  "node_snapshot s n =
     (let node = pc_nodes s ! n
      in (n, node, map (\<lambda>e. (e, handle_pages s e)) (resident_entries s node)))"

text \<open>Writing one entry, and one node, at the two arena tails.\<close>

fun write_snapshot_groups :: "GroupEntrySnapshot list \<Rightarrow> prefix_cache \<Rightarrow> prefix_cache" where
  "write_snapshot_groups [] s = s"
| "write_snapshot_groups ((e, pages) # gs) s =
     write_snapshot_groups gs
       (s\<lparr>group_entries := (group_entries s)
            [next_group_entry s := ResetGroupEntry
               \<lparr>entry_state := kResident, entry_group := entry_group e, entry_start := entry_start e,
                entry_end := entry_end e, first_page_handle := next_page_handle s,
                page_handle_count := u32 (length pages), active_ref_count := active_ref_count e,
                pending_load_count := pending_load_count e\<rparr>],
          next_group_entry := u32 (next_group_entry s + 1),
          page_handles := fold (\<lambda>(i, page) hs. hs[u32 (next_page_handle s + i) := page])
                            (enumerate 0 pages) (page_handles s),
          next_page_handle := u32 (next_page_handle s + length pages)\<rparr>)"

fun write_snapshots :: "NodeSnapshot list \<Rightarrow> prefix_cache \<Rightarrow> prefix_cache" where
  "write_snapshots [] s = s"
| "write_snapshots ((n, node, groups) # ss) s =
     write_snapshots ss
       (write_snapshot_groups groups
          (s\<lparr>pc_nodes := (pc_nodes s)
               [n := (pc_nodes s ! n)
                  \<lparr>node_state := kResident, node_namespace := node_namespace node,
                   node_digest := node_digest node, node_start := node_start node,
                   node_end := node_end node, first_group_entry := next_group_entry s,
                   group_entry_count := u32 (length groups),
                   last_access_epoch := last_access_epoch node\<rparr>]\<rparr>))"

definition CompactArenasLocked :: "prefix_cache \<Rightarrow> unit result \<times> prefix_cache" where
  "CompactArenasLocked s =
     (let snapshots = map (node_snapshot s) (filter (\<lambda>n. is_resident (pc_nodes s ! n)) [0..<max_nodes s])
      in RebuildNodeIndexLocked
           (write_snapshots snapshots
              (s\<lparr>group_entries := replicate (max_group_entries s) ResetGroupEntry,
                 page_handles := replicate (max_page_handles s) 0,
                 next_group_entry := 0, next_page_handle := 0\<rparr>)))"

definition CompactArenasForCapacityLocked :: "nat \<Rightarrow> nat \<Rightarrow> prefix_cache \<Rightarrow> unit result \<times> prefix_cache" where
  "CompactArenasForCapacityLocked min_entries min_handles s =
     (if TailArenaCapacityEnoughLocked s min_entries min_handles then (Inr (), s)
      else if CompactedArenaCapacityEnoughLocked s min_entries min_handles then CompactArenasLocked s
      else (Inr (), s))"

definition CompactArenasAfterEvictionIfUsefulLocked ::
  "nat \<Rightarrow> nat \<Rightarrow> prefix_cache \<Rightarrow> unit result \<times> prefix_cache" where
  "CompactArenasAfterEvictionIfUsefulLocked min_entries min_handles s =
     (if \<not> TailArenaCapacityEnoughLocked s min_entries min_handles
         \<and> CompactedArenaCapacityEnoughLocked s min_entries min_handles
      then CompactArenasLocked s
      else
        (case ResidentArenaUsageLocked s of (entries, handles) \<Rightarrow>
           let dead_entries = (if entries \<le> next_group_entry s then next_group_entry s - entries else 0);
               dead_handles = (if handles \<le> next_page_handle s then next_page_handle s - handles else 0)
           in if max kArenaCompactMinDeadGroupEntries (max_group_entries s div 4) \<le> dead_entries
                 \<or> max kArenaCompactMinDeadPageHandles (max_page_handles s div 4) \<le> dead_handles
              then CompactArenasLocked s
              else and_then (RebuildNodeIndexIfNeededLocked s) (\<lambda>_. RebuildPageRefIndexIfNeededLocked)))"

section \<open>Nodes\<close>

definition is_free_node :: "SharedPrefixNode \<Rightarrow> bool" where
  "is_free_node node \<longleftrightarrow> node_state node = kEmpty \<or> node_state node = kTombstone"

fun first_free_node :: "nat \<Rightarrow> SharedPrefixNode list \<Rightarrow> nat option" where
  "first_free_node i [] = None"
| "first_free_node i (node # ns) = (if is_free_node node then Some i else first_free_node (Suc i) ns)"

definition AllocateNodeLocked :: "prefix_cache \<Rightarrow> nat result \<times> prefix_cache" where
  "AllocateNodeLocked s =
     (case first_free_node 0 (pc_nodes s) of
        None \<Rightarrow> (Inl (Runtime_error ''Host prefix cache node table is full''), s)
      | Some n \<Rightarrow> (Inr n, s\<lparr>pc_nodes := (pc_nodes s)[n := empty_node]\<rparr>))"

definition CountFreeNodeSlotsLocked :: "prefix_cache \<Rightarrow> nat" where
  "CountFreeNodeSlotsLocked s = length (filter is_free_node (pc_nodes s))"

definition NodeHasRequiredGroupsLocked :: "prefix_cache \<Rightarrow> SharedPrefixNode \<Rightarrow> bool" where
  "NodeHasRequiredGroupsLocked s node \<longleftrightarrow>
     list_all (\<lambda>spec. \<not> required_for_reuse spec
         \<or> list_ex (\<lambda>e. entry_state e = kResident \<and> entry_group e = spec_group spec
                        \<and> entry_start e \<le> node_start node \<and> node_end node \<le> entry_end e)
             (node_entries s node)) (pc_specs s)"

definition NodeIsProtectedLocked :: "prefix_cache \<Rightarrow> SharedPrefixNode \<Rightarrow> bool" where
  "NodeIsProtectedLocked s node \<longleftrightarrow>
     list_ex (\<lambda>e. active_ref_count e \<noteq> 0 \<or> pending_load_count e \<noteq> 0) (resident_entries s node)"

text \<open>The spans of one entry are merged into the span of its group, in an ordered map.\<close>

definition add_span ::
  "prefix_cache \<Rightarrow> SharedGroupEntry \<Rightarrow> (nat \<times> GroupMaterializationSpan) list
     \<Rightarrow> (nat \<times> GroupMaterializationSpan) list" where
  "add_span s e spans =
     (let old = (case map_of spans (entry_group e) of
                   None \<Rightarrow> \<lparr>span_group = 0, span_end = 0, span_pages = []\<rparr> | Some x \<Rightarrow> x)
      in ordered_put (entry_group e)
           \<lparr>span_group = entry_group e, span_end = max (span_end old) (entry_end e),
            span_pages = span_pages old @ handle_pages s e\<rparr> spans)"

fun gather_spans ::
  "prefix_cache \<Rightarrow> nat list \<Rightarrow> (nat \<times> GroupMaterializationSpan) list
     \<Rightarrow> (nat \<times> GroupMaterializationSpan) list result" where
  "gather_spans s [] spans = Inr spans"
| "gather_spans s (n # ns) spans =
     (if max_nodes s \<le> n then Inl (Out_of_range ''prefix cache node index out of range'')
      else if \<not> is_resident (pc_nodes s ! n)
      then Inl (Runtime_error ''prefix cache materialization refers to non-resident node'')
      else gather_spans s ns (fold (add_span s) (resident_entries s (pc_nodes s ! n)) spans))"

text \<open>The spans in the order of the group specs, then those of groups without a spec.\<close>

fun order_spans ::
  "HostKVGroupSpec list \<Rightarrow> (nat \<times> GroupMaterializationSpan) list \<Rightarrow> GroupMaterializationSpan list" where
  "order_spans [] spans = map snd spans"
| "order_spans (spec # specs) spans =
     (case map_of spans (spec_group spec) of
        None \<Rightarrow> order_spans specs spans
      | Some span \<Rightarrow> span # order_spans specs (filter (\<lambda>(g, _). g \<noteq> spec_group spec) spans))"

definition BuildMaterializationSpansLocked ::
  "prefix_cache \<Rightarrow> nat list \<Rightarrow> GroupMaterializationSpan list result" where
  "BuildMaterializationSpansLocked s node_indices =
     (case gather_spans s node_indices [] of
        Inl e \<Rightarrow> Inl e
      | Inr spans \<Rightarrow> Inr (order_spans (pc_specs s) spans))"

end
