(* ===== verification/Prefix_Methods.thy ===== *)
theory Prefix_Methods
  imports Prefix_Cache
begin

text \<open>
  The public methods of the prefix cache: attachments and their loads, the eviction methods, the
  statistics, lookups and commits, one definition per method of
  \<open>HostPrefixCacheCoordinator::SharedState\<close> and one per loop that has a name of its own here.
\<close>

section \<open>Attachments\<close>

definition IncrementActiveRefsLocked :: "nat list \<Rightarrow> prefix_cache \<Rightarrow> unit result \<times> prefix_cache" where
  "IncrementActiveRefsLocked node_indices s =
     fold_do (\<lambda>n _ s.
        if \<not> is_resident (pc_nodes s ! n)
        then (Inl (Runtime_error ''host prefix cache attachment refers to non-resident node''), s)
        else (Inr (), s\<lparr>group_entries :=
                fold (\<lambda>i es. es[i := (es ! i)\<lparr>active_ref_count := u32 (active_ref_count (es ! i) + 1)\<rparr>])
                  (entry_slots (pc_nodes s ! n)) (group_entries s)\<rparr>))
       node_indices () s"

definition DecrementActiveRefsLocked :: "nat list \<Rightarrow> prefix_cache \<Rightarrow> unit result \<times> prefix_cache" where
  "DecrementActiveRefsLocked node_indices s =
     fold_do (\<lambda>n _ s.
        if \<not> is_resident (pc_nodes s ! n) then (Inr (), s)
        else fold_do (\<lambda>i _ s.
               let e = group_entries s ! i in
               if active_ref_count e = 0
               then (Inl (Runtime_error ''host prefix cache active attachment ref underflow''), s)
               else (Inr (), s\<lparr>group_entries := (group_entries s)
                       [i := e\<lparr>active_ref_count := active_ref_count e - 1\<rparr>]\<rparr>))
             (entry_slots (pc_nodes s ! n)) () s)
       node_indices () s"

text \<open>\<open>up\<close> is the sign of \<open>delta\<close>.\<close>

definition UpdateLoadRefsLocked :: "nat list \<Rightarrow> bool \<Rightarrow> prefix_cache \<Rightarrow> unit result \<times> prefix_cache" where
  "UpdateLoadRefsLocked node_indices up s =
     fold_do (\<lambda>n _ s.
        if \<not> is_resident (pc_nodes s ! n)
        then (Inl (Runtime_error ''host prefix cache attachment refers to non-resident node''), s)
        else fold_do (\<lambda>i _ s.
               let e = group_entries s ! i in
               if up
               then (Inr (), s\<lparr>group_entries := (group_entries s)
                       [i := e\<lparr>pending_load_count := u32 (pending_load_count e + 1)\<rparr>]\<rparr>)
               else if pending_load_count e = 0
               then (Inl (Runtime_error ''host prefix cache pending load ref underflow''), s)
               else (Inr (), s\<lparr>group_entries := (group_entries s)
                       [i := e\<lparr>pending_load_count := pending_load_count e - 1\<rparr>]\<rparr>))
             (entry_slots (pc_nodes s ! n)) () s)
       node_indices () s"

text \<open>Stamping the nodes of an attachment with its epoch, with the checks of the loop.\<close>

definition touch_nodes :: "nat \<Rightarrow> nat list \<Rightarrow> prefix_cache \<Rightarrow> unit result \<times> prefix_cache" where
  "touch_nodes epoch node_indices s =
     fold_do (\<lambda>n _ s.
        if max_nodes s \<le> n then (Inl (Out_of_range ''prefix cache node index out of range''), s)
        else if \<not> is_resident (pc_nodes s ! n)
        then (Inl (Runtime_error ''prefix cache attach refers to non-resident node''), s)
        else (Inr (), s\<lparr>pc_nodes := (pc_nodes s)[n := (pc_nodes s ! n)\<lparr>last_access_epoch := epoch\<rparr>]\<rparr>))
       node_indices () s"

definition AttachNodesLocked :: "nat list \<Rightarrow> prefix_cache \<Rightarrow> nat result \<times> prefix_cache" where
  "AttachNodesLocked node_indices s =
     (if node_indices = []
      then (Inl (Invalid_argument ''prefix cache attach needs at least one node''), s)
      else
        let epoch = u64 (global_epoch s + 1) in
        and_then (touch_nodes epoch node_indices (s\<lparr>global_epoch := epoch\<rparr>)) (\<lambda>_ s.
        and_then (IncrementActiveRefsLocked node_indices s) (\<lambda>_ s.
          let handle = next_local_attachment s;
              attachment = \<lparr>att_nodes = node_indices, att_loads = 0, att_release = False\<rparr>
          in (Inr handle,
              s\<lparr>next_local_attachment := u64 (handle + 1),
                local_attachments := (if map_of (local_attachments s) handle = None
                                      then (handle, attachment) # local_attachments s
                                      else local_attachments s)\<rparr>))))"

definition erase_attachment :: "nat \<Rightarrow> (nat \<times> LocalAttachment) list \<Rightarrow> (nat \<times> LocalAttachment) list" where
  "erase_attachment handle = filter (\<lambda>(h, _). h \<noteq> handle)"

text \<open>
  \<open>ReleaseAttachment\<close> erases the attachment under the process-local mutex and drops the references
  of its nodes afterwards under the shared one. The two sections are one step here: no other
  call of the model runs between them.
\<close>

definition ReleaseAttachment :: "nat \<Rightarrow> prefix_cache \<Rightarrow> unit result \<times> prefix_cache" where
  "ReleaseAttachment handle s =
     (if handle = 0 then (Inr (), s)
      else case map_of (local_attachments s) handle of
        None \<Rightarrow> (Inl (Out_of_range ''unknown host prefix cache attachment handle''), s)
      | Some a \<Rightarrow>
          if att_release a
          then (Inl (Runtime_error ''host prefix cache attachment release was already requested''), s)
          else if att_loads a \<noteq> 0
          then (Inr (), s\<lparr>local_attachments := assoc_put handle (a\<lparr>att_release := True\<rparr>) (local_attachments s)\<rparr>)
          else DecrementActiveRefsLocked (att_nodes a)
                 (s\<lparr>local_attachments := erase_attachment handle (local_attachments s)\<rparr>))"

definition BeginAttachmentLoad :: "nat \<Rightarrow> prefix_cache \<Rightarrow> unit result \<times> prefix_cache" where
  "BeginAttachmentLoad handle s =
     (if handle = 0
      then (Inl (Invalid_argument ''host prefix cache load attachment handle must be non-zero''), s)
      else case map_of (local_attachments s) handle of
        None \<Rightarrow> (Inl (Out_of_range ''unknown host prefix cache attachment handle''), s)
      | Some a \<Rightarrow>
          if att_release a
          then (Inl (Runtime_error ''cannot begin load for a released host prefix cache attachment''), s)
          else
            (case UpdateLoadRefsLocked (att_nodes a) True
                    (s\<lparr>local_attachments := assoc_put handle (a\<lparr>att_loads := u32 (att_loads a + 1)\<rparr>)
                                              (local_attachments s)\<rparr>) of
               (Inr x, s1) \<Rightarrow> (Inr x, s1)
             | (Inl e, s1) \<Rightarrow>
                 (Inl e,
                  case map_of (local_attachments s1) handle of
                    None \<Rightarrow> s1
                  | Some b \<Rightarrow>
                      if att_loads b = 0 then s1
                      else s1\<lparr>local_attachments := assoc_put handle (b\<lparr>att_loads := att_loads b - 1\<rparr>)
                                                   (local_attachments s1)\<rparr>)))"

definition EndAttachmentLoad :: "nat \<Rightarrow> prefix_cache \<Rightarrow> unit result \<times> prefix_cache" where
  "EndAttachmentLoad handle s =
     (if handle = 0
      then (Inl (Invalid_argument ''host prefix cache load attachment handle must be non-zero''), s)
      else case map_of (local_attachments s) handle of
        None \<Rightarrow> (Inl (Out_of_range ''unknown host prefix cache attachment handle''), s)
      | Some a \<Rightarrow>
          if att_loads a = 0
          then (Inl (Runtime_error ''host prefix cache attachment pending load underflow''), s)
          else
            let b = a\<lparr>att_loads := att_loads a - 1\<rparr>;
                finalize = att_release b \<and> att_loads b = 0;
                s1 = s\<lparr>local_attachments := (if finalize then erase_attachment handle (local_attachments s)
                                             else assoc_put handle b (local_attachments s))\<rparr>
            in and_then (UpdateLoadRefsLocked (att_nodes a) False s1) (\<lambda>_ s2.
                 if finalize then DecrementActiveRefsLocked (att_nodes a) s2 else (Inr (), s2)))"

section \<open>Eviction\<close>

fun push_page :: "nat \<Rightarrow> nat \<Rightarrow> GroupCommitPages list \<Rightarrow> GroupCommitPages list" where
  "push_page gid page [] = [(gid, [page])]"
| "push_page gid page ((g, pages) # gs) =
     (if g = gid then (g, pages @ [page]) # gs else (g, pages) # push_page gid page gs)"

definition AppendEvictedPagesLocked ::
  "SharedPrefixNode \<Rightarrow> PrefixEvictionResult \<Rightarrow> prefix_cache \<Rightarrow> PrefixEvictionResult result \<times> prefix_cache" where
  "AppendEvictedPagesLocked node r s =
     fold_do (\<lambda>e r s.
        fold_do (\<lambda>page r s.
            and_then (DecrementPageRefLocked (entry_group e) page s) (\<lambda>last s.
              (Inr (if last
                    then r\<lparr>evicted_group_pages := push_page (entry_group e) page (evicted_group_pages r)\<rparr>
                    else r), s)))
          (handle_pages s e) r s)
       (resident_entries s node) r s"

definition EvictNodeLocked ::
  "nat \<Rightarrow> PrefixEvictionResult \<Rightarrow> prefix_cache \<Rightarrow> PrefixEvictionResult result \<times> prefix_cache" where
  "EvictNodeLocked n r s =
     (let node = pc_nodes s ! n in
      and_then (AppendEvictedPagesLocked node r s) (\<lambda>r s.
        let s1 = RemoveNodeIndexLocked (node_digest node) s in
        (Inr (r\<lparr>freed_group_entries := u32 (freed_group_entries r + group_entry_count node),
                freed_page_handles := fold (\<lambda>e h. u32 (h + page_handle_count e)) (resident_entries s1 node)
                                        (freed_page_handles r),
                evicted_nodes := u32 (evicted_nodes r + 1)\<rparr>),
         s1\<lparr>pc_nodes := (pc_nodes s1)[n := empty_node\<lparr>node_state := kTombstone\<rparr>]\<rparr>)))"

text \<open>
  The scan of the three eviction methods: \<open>wanted\<close> is the namespace filter of \<open>ClearNamespace\<close>,
  \<open>stop\<close> the test after each eviction, and a \<open>max_scan\<close> of 0 means no limit.
\<close>

fun evict_loop ::
  "(SharedPrefixNode \<Rightarrow> bool) \<Rightarrow> (PrefixEvictionResult \<Rightarrow> prefix_cache \<Rightarrow> bool) \<Rightarrow> nat
     \<Rightarrow> nat list \<Rightarrow> nat \<Rightarrow> PrefixEvictionResult \<Rightarrow> prefix_cache \<Rightarrow> PrefixEvictionResult result \<times> prefix_cache" where
  "evict_loop wanted stop max_scan [] scanned r s = (Inr r, s)"
| "evict_loop wanted stop max_scan (n # ns) scanned r s =
     (if max_scan \<noteq> 0 \<and> max_scan \<le> scanned then (Inr r, s)
      else if \<not> is_resident (pc_nodes s ! n) then evict_loop wanted stop max_scan ns (scanned + 1) r s
      else if \<not> wanted (pc_nodes s ! n) then evict_loop wanted stop max_scan ns (scanned + 1) r s
      else if NodeIsProtectedLocked s (pc_nodes s ! n)
      then evict_loop wanted stop max_scan ns (scanned + 1)
             (r\<lparr>protected_nodes := u32 (protected_nodes r + 1)\<rparr>) s
      else case EvictNodeLocked n r s of
             (Inl e, s1) \<Rightarrow> (Inl e, s1)
           | (Inr r1, s1) \<Rightarrow>
               if stop r1 s1 then (Inr r1, s1)
               else evict_loop wanted stop max_scan ns (scanned + 1) r1 s1)"

text \<open>
  The resident nodes, least recently used first. \<open>std::sort\<close> leaves the order of nodes with the
  same epoch open; here it is the order of their indices.
\<close>

definition eviction_candidates :: "prefix_cache \<Rightarrow> nat list" where
  "eviction_candidates s =
     sort_key (\<lambda>n. last_access_epoch (pc_nodes s ! n))
       (filter (\<lambda>n. is_resident (pc_nodes s ! n)) [0..<max_nodes s])"

definition finish_eviction ::
  "nat \<Rightarrow> nat \<Rightarrow> PrefixEvictionResult \<Rightarrow> prefix_cache \<Rightarrow> PrefixEvictionResult result \<times> prefix_cache" where
  "finish_eviction min_entries min_handles r s =
     and_then (if evicted_nodes r \<noteq> 0 then CompactArenasAfterEvictionIfUsefulLocked min_entries min_handles s
               else (Inr (), s)) (\<lambda>_ s.
       (Inr r, s\<lparr>evicted_total := u64 (evicted_total s + evicted_nodes r),
                 protected_total := u64 (protected_total s + protected_nodes r)\<rparr>))"

definition EvictUntilFree ::
  "nat \<Rightarrow> nat \<Rightarrow> nat \<Rightarrow> nat \<Rightarrow> prefix_cache \<Rightarrow> PrefixEvictionResult result \<times> prefix_cache" where
  "EvictUntilFree min_nodes min_entries min_handles max_scan s =
     (let enough = (\<lambda>s. min_nodes \<le> CountFreeNodeSlotsLocked s
                         \<and> TailArenaCapacityEnoughLocked s min_entries min_handles);
          after_compact = (\<lambda>s. min_nodes \<le> CountFreeNodeSlotsLocked s
                                \<and> CompactedArenaCapacityEnoughLocked s min_entries min_handles)
      in if enough s then (Inr no_eviction, s)
         else and_then (CompactArenasForCapacityLocked min_entries min_handles s) (\<lambda>_ s.
           if enough s then (Inr no_eviction, s)
           else and_then (evict_loop (\<lambda>_. True) (\<lambda>_ s. enough s \<or> after_compact s) max_scan
                            (eviction_candidates s) 0 no_eviction s)
                  (finish_eviction min_entries min_handles)))"

definition HasEnoughReleasablePages :: "PrefixEvictionResult \<Rightarrow> (nat \<times> nat) list \<Rightarrow> bool" where
  "HasEnoughReleasablePages r requirements \<longleftrightarrow>
     requirements = [] \<or>
     (let released = fold (\<lambda>(g, pages) acc.
                             ordered_put g (u32 ((case map_of acc g of None \<Rightarrow> 0 | Some n \<Rightarrow> n) + length pages)) acc)
                       (evicted_group_pages r) []
      in list_all (\<lambda>(g, n). n \<le> (case map_of released g of None \<Rightarrow> 0 | Some k \<Rightarrow> k)) requirements)"

definition EvictUntilReleasablePages ::
  "GroupPageRequirement list \<Rightarrow> nat \<Rightarrow> prefix_cache \<Rightarrow> PrefixEvictionResult result \<times> prefix_cache" where
  "EvictUntilReleasablePages requirements max_scan s =
     (let required = NormalizePageRequirements requirements in
      if required = [] then (Inr no_eviction, s)
      else and_then (evict_loop (\<lambda>_. True) (\<lambda>r _. HasEnoughReleasablePages r required) max_scan
                       (eviction_candidates s) 0 no_eviction s)
             (finish_eviction 0 0))"

definition ClearUnprotected :: "prefix_cache \<Rightarrow> PrefixEvictionResult result \<times> prefix_cache" where
  "ClearUnprotected s =
     and_then (evict_loop (\<lambda>_. True) (\<lambda>_ _. False) 0 [0..<max_nodes s] 0 no_eviction s) (finish_eviction 0 0)"

definition ClearNamespace :: "PrefixDigest \<Rightarrow> prefix_cache \<Rightarrow> PrefixEvictionResult result \<times> prefix_cache" where
  "ClearNamespace namespace s =
     and_then (evict_loop (\<lambda>node. node_namespace node = namespace) (\<lambda>_ _. False) 0 [0..<max_nodes s] 0 no_eviction s)
       (finish_eviction 0 0)"

definition group_pages_of :: "prefix_cache \<Rightarrow> nat \<Rightarrow> SharedPrefixNode \<Rightarrow> nat list" where
  "group_pages_of s gid node =
     concat (map (handle_pages s) (filter (\<lambda>e. entry_group e = gid) (resident_entries s node)))"

definition CountReleasablePages :: "prefix_cache \<Rightarrow> nat \<Rightarrow> nat" where
  "CountReleasablePages s gid =
     (let residents = filter is_resident (pc_nodes s);
          unprotected = remdups (concat (map (group_pages_of s gid)
                          (filter (\<lambda>node. \<not> NodeIsProtectedLocked s node) residents)));
          protected = concat (map (group_pages_of s gid) (filter (NodeIsProtectedLocked s) residents))
      in length (filter (\<lambda>page. page \<notin> set protected) unprotected))"

definition GetStats :: "prefix_cache \<Rightarrow> HostPrefixCacheStats" where
  "GetStats s =
     (let live = filter (\<lambda>e. entry_state e = kResident \<and> pending_load_count e \<noteq> 0)
                   (take (next_group_entry s) (group_entries s))
      in \<lparr>stat_resident_nodes = length (filter is_resident (pc_nodes s)),
          stat_active_attachments = u32 (length (local_attachments s)),
          stat_pending_load_entries = length live,
          stat_pending_load_refs = u32 (sum_list (map pending_load_count live)),
          stat_used_group_entries = next_group_entry s, stat_used_page_handles = next_page_handle s,
          stat_lookup_hits = lookup_hits s, stat_lookup_misses = lookup_misses s,
          stat_evicted_nodes = evicted_total s, stat_protected_skips = protected_total s\<rparr>)"

section \<open>Lookup\<close>

fun lookup_loop ::
  "prefix_cache \<Rightarrow> (nat \<times> PrefixDigest) list \<Rightarrow> nat list \<Rightarrow> nat \<Rightarrow> nat list \<times> nat" where
  "lookup_loop s [] hits tokens = (hits, tokens)"
| "lookup_loop s ((raw_end, digest) # chain) hits tokens =
     (if raw_end mod commit_boundary_tokens s \<noteq> 0 then lookup_loop s chain hits tokens
      else case FindNodeLocked s digest of
             None \<Rightarrow> (hits, tokens)
           | Some n \<Rightarrow>
               if \<not> NodeHasRequiredGroupsLocked s (pc_nodes s ! n) then (hits, tokens)
               else lookup_loop s chain (hits @ [n]) (node_end (pc_nodes s ! n)))"

definition LookupAndAttach ::
  "PrefixDigest \<Rightarrow> int list \<Rightarrow> prefix_cache \<Rightarrow> PrefixLookupResult result \<times> prefix_cache" where
  "LookupAndAttach namespace tokens s =
     (case BuildPrefixHashChain namespace tokens (hash_block_tokens s) of
        Inl e \<Rightarrow> (Inl e, s)
      | Inr chain \<Rightarrow>
          (case lookup_loop s chain [] 0 of (hits, cached) \<Rightarrow>
             if hits \<noteq> []
             then and_then (AttachNodesLocked hits s) (\<lambda>handle s.
                    case BuildMaterializationSpansLocked s hits of
                      Inl e \<Rightarrow> (Inl e, s)
                    | Inr spans \<Rightarrow>
                        (Inr \<lparr>attachment_handle = handle, common_cached_tokens = cached,
                              materialization_spans = spans, miss_reason_mask = 0\<rparr>,
                         s\<lparr>lookup_hits := u64 (lookup_hits s + 1)\<rparr>))
             else (Inr (no_lookup\<lparr>miss_reason_mask := 1\<rparr>), s\<lparr>lookup_misses := u64 (lookup_misses s + 1)\<rparr>)))"

definition EstimateLookup ::
  "PrefixDigest \<Rightarrow> int list \<Rightarrow> prefix_cache \<Rightarrow> PrefixLookupResult result" where
  "EstimateLookup namespace tokens s =
     (case BuildPrefixHashChain namespace tokens (hash_block_tokens s) of
        Inl e \<Rightarrow> Inl e
      | Inr chain \<Rightarrow>
          (case lookup_loop s chain [] 0 of (hits, cached) \<Rightarrow>
             if hits \<noteq> []
             then (case BuildMaterializationSpansLocked s hits of
                     Inl e \<Rightarrow> Inl e
                   | Inr spans \<Rightarrow>
                       Inr \<lparr>attachment_handle = 0, common_cached_tokens = cached,
                            materialization_spans = spans, miss_reason_mask = 0\<rparr>)
             else Inr (no_lookup\<lparr>miss_reason_mask := 1\<rparr>)))"

section \<open>Commit\<close>

text \<open>The pages given for a group; of several lists for one group the last one counts.\<close>

definition pages_by_group :: "GroupCommitPages list \<Rightarrow> nat \<Rightarrow> nat list option" where
  "pages_by_group group_pages = map_of (rev group_pages)"

fun check_required_pages :: "(nat \<Rightarrow> nat list option) \<Rightarrow> nat \<Rightarrow> HostKVGroupSpec list \<Rightarrow> unit result" where
  "check_required_pages pages tokens [] = Inr ()"
| "check_required_pages pages tokens (spec # specs) =
     (if \<not> required_for_reuse spec then check_required_pages pages tokens specs
      else case pages (spec_group spec) of
             None \<Rightarrow> Inl (Invalid_argument ''missing pages for required group'')
           | Some ps \<Rightarrow>
               if length ps < tokens div raw_page_tokens spec
               then Inl (Invalid_argument ''insufficient pages for required group'')
               else check_required_pages pages tokens specs)"

definition first_page :: "HostKVGroupSpec \<Rightarrow> nat \<Rightarrow> nat" where
  "first_page spec start = start div raw_page_tokens spec"

definition pages_needed :: "HostKVGroupSpec \<Rightarrow> nat \<Rightarrow> nat \<Rightarrow> nat" where
  "pages_needed spec start raw_end = (raw_end - start) div raw_page_tokens spec"

definition group_aligned :: "HostKVGroupSpec \<Rightarrow> nat \<Rightarrow> nat \<Rightarrow> bool" where
  "group_aligned spec start raw_end \<longleftrightarrow>
     start mod raw_page_tokens spec = 0 \<and> raw_end mod raw_page_tokens spec = 0"

definition group_covered :: "HostKVGroupSpec \<Rightarrow> nat \<Rightarrow> nat \<Rightarrow> nat list \<Rightarrow> bool" where
  "group_covered spec start raw_end ps \<longleftrightarrow>
     u32 (first_page spec start + pages_needed spec start raw_end) \<le> length ps"

definition group_slice :: "HostKVGroupSpec \<Rightarrow> nat \<Rightarrow> nat \<Rightarrow> nat list \<Rightarrow> nat list" where
  "group_slice spec start raw_end ps =
     map (\<lambda>i. ps ! (first_page spec start + i)) [0..<pages_needed spec start raw_end]"

text \<open>A group takes part in a node when its pages are known, aligned and long enough.\<close>

definition group_pages_for ::
  "(nat \<Rightarrow> nat list option) \<Rightarrow> nat \<Rightarrow> nat \<Rightarrow> HostKVGroupSpec \<Rightarrow> nat list option" where
  "group_pages_for pages start raw_end spec =
     (case pages (spec_group spec) of
        None \<Rightarrow> None
      | Some ps \<Rightarrow>
          if group_aligned spec start raw_end \<and> group_covered spec start raw_end ps
          then Some (group_slice spec start raw_end ps) else None)"

text \<open>
  The first pass over the chain: how many nodes, group entries and page handles the commit
  needs, and the pages it will insert per group.
\<close>

record commit_plan =
  plan_start :: nat
  new_nodes_needed :: nat
  group_entries_needed :: nat
  page_handles_needed :: nat
  inserted_pages :: "GroupCommitPages list"

definition plan_group ::
  "(nat \<Rightarrow> nat list option) \<Rightarrow> nat \<Rightarrow> HostKVGroupSpec \<Rightarrow> commit_plan \<Rightarrow> commit_plan" where
  "plan_group pages raw_end spec plan =
     (case group_pages_for pages (plan_start plan) raw_end spec of
        None \<Rightarrow> plan
      | Some ps \<Rightarrow>
          plan\<lparr>group_entries_needed := u32 (group_entries_needed plan + 1),
               page_handles_needed := u32 (page_handles_needed plan + length ps),
               inserted_pages :=
                 ordered_put (spec_group spec)
                   ((case map_of (inserted_pages plan) (spec_group spec) of None \<Rightarrow> [] | Some old \<Rightarrow> old) @ ps)
                   (inserted_pages plan)\<rparr>)"

definition plan_block ::
  "prefix_cache \<Rightarrow> (nat \<Rightarrow> nat list option) \<Rightarrow> nat \<Rightarrow> nat \<times> PrefixDigest \<Rightarrow> commit_plan \<Rightarrow> commit_plan" where
  "plan_block s pages tokens x plan =
     (case x of (raw_end, digest) \<Rightarrow>
        if tokens < raw_end \<or> raw_end mod commit_boundary_tokens s \<noteq> 0 then plan
        else if FindNodeLocked s digest \<noteq> None then plan\<lparr>plan_start := raw_end\<rparr>
        else (fold (plan_group pages raw_end) (pc_specs s)
                (plan\<lparr>new_nodes_needed := u32 (new_nodes_needed plan + 1)\<rparr>))\<lparr>plan_start := raw_end\<rparr>)"

definition plan_commit ::
  "prefix_cache \<Rightarrow> (nat \<Rightarrow> nat list option) \<Rightarrow> nat \<Rightarrow> (nat \<times> PrefixDigest) list \<Rightarrow> commit_plan" where
  "plan_commit s pages tokens chain =
     fold (plan_block s pages tokens) chain
       \<lparr>plan_start = 0, new_nodes_needed = 0, group_entries_needed = 0, page_handles_needed = 0,
        inserted_pages = []\<rparr>"

text \<open>The second pass: the group entries and page handles of one node, with the checks of the code.\<close>

fun count_groups ::
  "(nat \<Rightarrow> nat list option) \<Rightarrow> nat \<Rightarrow> nat \<Rightarrow> HostKVGroupSpec list \<Rightarrow> nat \<Rightarrow> nat \<Rightarrow> (nat \<times> nat) result" where
  "count_groups pages start raw_end [] entries handles = Inr (entries, handles)"
| "count_groups pages start raw_end (spec # specs) entries handles =
     (case pages (spec_group spec) of
        None \<Rightarrow> count_groups pages start raw_end specs entries handles
      | Some ps \<Rightarrow>
          if \<not> group_aligned spec start raw_end
          then (if required_for_reuse spec
                then Inl (Runtime_error ''required group is not aligned to raw page tokens'')
                else count_groups pages start raw_end specs entries handles)
          else if \<not> group_covered spec start raw_end ps
          then (if required_for_reuse spec
                then Inl (Runtime_error ''required group page list became too short'')
                else count_groups pages start raw_end specs entries handles)
          else count_groups pages start raw_end specs (u32 (entries + 1))
                 (u32 (handles + pages_needed spec start raw_end)))"

definition write_group ::
  "(nat \<Rightarrow> nat list option) \<Rightarrow> nat \<Rightarrow> nat \<Rightarrow> HostKVGroupSpec \<Rightarrow> nat \<times> nat \<Rightarrow> prefix_cache
     \<Rightarrow> (nat \<times> nat) result \<times> prefix_cache" where
  "write_group pages start raw_end spec acc s =
     (case acc of (next_entry, next_handle) \<Rightarrow>
        (case group_pages_for pages start raw_end spec of
           None \<Rightarrow> (Inr acc, s)
         | Some ps \<Rightarrow>
             and_then
               (fold_do (\<lambda>page h s.
                    and_then (IncrementPageRefLocked (spec_group spec) page
                                (s\<lparr>page_handles := (page_handles s)[h := page]\<rparr>))
                      (\<lambda>_ s. (Inr (u32 (h + 1)), s)))
                  ps next_handle
                  (s\<lparr>group_entries := (group_entries s)
                       [next_entry := ResetGroupEntry
                          \<lparr>entry_state := kResident, entry_group := spec_group spec, entry_start := start,
                           entry_end := raw_end, first_page_handle := next_handle,
                           page_handle_count := pages_needed spec start raw_end\<rparr>]\<rparr>))
               (\<lambda>h s. (Inr (u32 (next_entry + 1), h), s))))"

text \<open>Inserting the node of one block, with its entries, its pages and its key in the index.\<close>

definition insert_node ::
  "PrefixDigest \<Rightarrow> (nat \<Rightarrow> nat list option) \<Rightarrow> nat \<Rightarrow> nat \<Rightarrow> PrefixDigest \<Rightarrow> prefix_cache
     \<Rightarrow> nat result \<times> prefix_cache" where
  "insert_node namespace pages start raw_end digest s =
     (case count_groups pages start raw_end (pc_specs s) 0 0 of
        Inl e \<Rightarrow> (Inl e, s)
      | Inr (entry_count, handle_count) \<Rightarrow>
          let first_entry = next_group_entry s;
              first_handle = next_page_handle s
          in if max_group_entries s < u32 (first_entry + entry_count)
             then (Inl (Runtime_error ''Host prefix cache group entry table is full''), s)
             else if max_page_handles s < u32 (first_handle + handle_count)
             then (Inl (Runtime_error ''Host prefix cache page handle arena is full''), s)
             else
               and_then (fold_do (write_group pages start raw_end) (pc_specs s) (first_entry, first_handle) s)
                 (\<lambda>(next_entry, next_handle) s.
               and_then (AllocateNodeLocked s) (\<lambda>n s.
                 let epoch = u64 (global_epoch s + 1);
                     s1 = s\<lparr>pc_nodes := (pc_nodes s)
                              [n := \<lparr>node_state = kResident, node_namespace = namespace, node_digest = digest,
                                     node_start = start, node_end = raw_end, first_group_entry = first_entry,
                                     group_entry_count = entry_count, last_access_epoch = epoch\<rparr>],
                            global_epoch := epoch, next_group_entry := next_entry,
                            next_page_handle := next_handle\<rparr>
                 in and_then (InsertNodeIndexLocked digest n s1) (\<lambda>_ s. (Inr n, s)))))"

record commit_progress =
  prog_start :: nat
  prog_existing :: nat
  prog_inserted :: "nat list"

definition commit_block ::
  "PrefixDigest \<Rightarrow> (nat \<Rightarrow> nat list option) \<Rightarrow> nat \<Rightarrow> nat \<times> PrefixDigest \<Rightarrow> commit_progress \<Rightarrow> prefix_cache
     \<Rightarrow> commit_progress result \<times> prefix_cache" where
  "commit_block namespace pages tokens x p s =
     (case x of (raw_end, digest) \<Rightarrow>
        if tokens < raw_end \<or> raw_end mod commit_boundary_tokens s \<noteq> 0 then (Inr p, s)
        else if FindNodeLocked s digest \<noteq> None
        then (Inr (p\<lparr>prog_existing := u32 (prog_existing p + 1), prog_start := raw_end\<rparr>), s)
        else and_then (insert_node namespace pages (prog_start p) raw_end digest s) (\<lambda>n s.
               (Inr (p\<lparr>prog_inserted := prog_inserted p @ [n], prog_start := raw_end\<rparr>), s)))"

definition CommitPrefixPages ::
  "PrefixDigest \<Rightarrow> int list \<Rightarrow> nat \<Rightarrow> GroupCommitPages list \<Rightarrow> bool \<Rightarrow> prefix_cache
     \<Rightarrow> PrefixCommitResult result \<times> prefix_cache" where
  "CommitPrefixPages namespace token_ids commit_tokens group_pages protect_active s =
     (let limit = min commit_tokens (u32 (length token_ids));
          tokens = limit - limit mod commit_boundary_tokens s
      in if tokens = 0 then (Inr no_commit, s)
         else
           let pages = pages_by_group group_pages in
           (case check_required_pages pages tokens (pc_specs s) of
              Inl e \<Rightarrow> (Inl e, s)
            | Inr _ \<Rightarrow>
                (case BuildPrefixHashChain namespace token_ids (hash_block_tokens s) of
                   Inl e \<Rightarrow> (Inl e, s)
                 | Inr chain \<Rightarrow>
                     let plan = plan_commit s pages tokens chain in
                     if CountFreeNodeSlotsLocked s < new_nodes_needed plan
                     then (Inl (Runtime_error ''Host prefix cache node table is full''), s)
                     else
                       and_then (CompactArenasForCapacityLocked (group_entries_needed plan)
                                   (page_handles_needed plan) s) (\<lambda>_ s.
                         if max_group_entries s < u32 (next_group_entry s + group_entries_needed plan)
                         then (Inl (Runtime_error ''Host prefix cache group entry table is full''), s)
                         else if max_page_handles s < u32 (next_page_handle s + page_handles_needed plan)
                         then (Inl (Runtime_error ''Host prefix cache page handle arena is full''), s)
                         else
                           and_then (fold_do (commit_block namespace pages tokens) chain
                                       \<lparr>prog_start = 0, prog_existing = 0, prog_inserted = []\<rparr> s) (\<lambda>p s.
                             let r = \<lparr>committed_tokens = tokens, inserted_nodes = u32 (length (prog_inserted p)),
                                      existing_nodes = prog_existing p, active_attachment_handle = 0,
                                      inserted_group_pages = inserted_pages plan\<rparr>
                             in if protect_active \<and> prog_inserted p \<noteq> []
                                then and_then (AttachNodesLocked (prog_inserted p) s) (\<lambda>handle s.
                                       (Inr (r\<lparr>active_attachment_handle := handle\<rparr>), s))
                                else (Inr r, s))))))"

end
