(* ===== verification/Probe_Map.thy ===== *)
theory Probe_Map
  imports Probe_Table
begin

text \<open>
  An open-addressing table whose slots carry a value beside their key, seen as a map. The
  operations of the table are updates of that map.
\<close>

fun table_map :: "('a \<Rightarrow> 'k slot_kind) \<Rightarrow> ('a \<Rightarrow> 'v) \<Rightarrow> 'a list \<Rightarrow> 'k \<Rightarrow> 'v option" where
  "table_map cls val [] k = None"
| "table_map cls val (x # xs) k = (if cls x = Held k then Some (val x) else table_map cls val xs k)"

lemma table_map_None: "table_map cls val t k = None \<longleftrightarrow> (\<forall>i < length t. cls (t ! i) \<noteq> Held k)"
  by (induction t) (auto simp: All_less_Suc2)

lemma table_map_SomeD: "table_map cls val t k = Some v \<Longrightarrow> \<exists>i < length t. cls (t ! i) = Held k \<and> val (t ! i) = v"
  by (induction t) (auto simp: Ex_less_Suc2 split: if_splits)

lemma table_map_vacant: "\<forall>x \<in> set t. cls x = Vacant \<Longrightarrow> table_map cls val t = Map.empty"
  by (auto simp: fun_eq_iff table_map_None)

locale open_map = open_table cls seq
  for cls :: "'a \<Rightarrow> 'k slot_kind" and seq :: "nat \<Rightarrow> 'k \<Rightarrow> nat list" +
  fixes val :: "'a \<Rightarrow> 'v"
begin

lemma map_iff:
  assumes "probe_inv cls seq t"
  shows "table_map cls val t k = Some v \<longleftrightarrow> (\<exists>i < length t. cls (t ! i) = Held k \<and> val (t ! i) = v)"
proof
  assume "\<exists>i < length t. cls (t ! i) = Held k \<and> val (t ! i) = v"
  then obtain i where i: "i < length t" "cls (t ! i) = Held k" "val (t ! i) = v" by blast
  then have "table_map cls val t k \<noteq> None" by (auto simp: table_map_None)
  then obtain w where w: "table_map cls val t k = Some w" by blast
  from table_map_SomeD [OF w] obtain j where j: "j < length t" "cls (t ! j) = Held k" "val (t ! j) = w" by blast
  have "j = i" using probe_inv_unique [OF assms i(1,2) j(1,2)] .
  then show "table_map cls val t k = Some v" using w i j by simp
qed (rule table_map_SomeD)

lemma find_map:
  assumes "probe_inv cls seq t"
  shows "probe_find cls t k (seq (length t) k) = None \<longleftrightarrow> table_map cls val t k = None"
  by (simp add: find_None_iff [OF assms] table_map_None)

lemma find_SomeD:
  assumes "probe_inv cls seq t" and "probe_find cls t k (seq (length t) k) = Some i"
  shows "i < length t" and "cls (t ! i) = Held k" and "table_map cls val t k = Some (val (t ! i))"
  using assms find_iff [OF assms(1)] map_iff [OF assms(1)] by auto

lemma update_map:
  assumes inv: "probe_inv cls seq t" and inv': "probe_inv cls seq (t[i := x])"
    and i: "i < length t" and x: "cls x = Held k" and old: "\<And>k'. cls (t ! i) = Held k' \<Longrightarrow> k' = k"
    and new: "\<And>j. j < length t \<Longrightarrow> cls (t ! j) = Held k \<Longrightarrow> j = i"
  shows "table_map cls val (t[i := x]) = (table_map cls val t)(k \<mapsto> val x)"
proof
  fix k'
  show "table_map cls val (t[i := x]) k' = ((table_map cls val t)(k \<mapsto> val x)) k'"
  proof (cases "k' = k")
    case True
    then have "table_map cls val (t[i := x]) k' = Some (val x)"
      unfolding map_iff [OF inv'] using i x by auto
    then show ?thesis using True by simp
  next
    case False
    have "cls (t[i := x] ! j) = Held k' \<longleftrightarrow> cls (t ! j) = Held k'" if "j < length t" for j
      using False x old i by (cases "j = i") auto
    moreover have "cls (t ! j) = Held k' \<Longrightarrow> j \<noteq> i" for j using old False by auto
    ultimately have "table_map cls val (t[i := x]) k' = Some v \<longleftrightarrow> table_map cls val t k' = Some v" for v
      unfolding map_iff [OF inv] map_iff [OF inv'] by (metis length_list_update nth_list_update_neq)
    then have "table_map cls val (t[i := x]) k' = table_map cls val t k'"
      by (metis not_Some_eq)
    then show ?thesis using False by simp
  qed
qed

lemma claim_known:
  assumes "probe_inv cls seq t" and "probe_claim cls t k None (seq (length t) k) = Some (i, False)"
  shows "i < length t" and "cls (t ! i) = Held k" and "table_map cls val t k = Some (val (t ! i))"
  using assms claim_old_iff [OF assms(1)] map_iff [OF assms(1)] by auto

lemma claim_fresh:
  assumes "probe_inv cls seq t" and "probe_claim cls t k None (seq (length t) k) = Some (i, True)"
  shows "i < length t" and "table_map cls val t k = None"
  using claim_newD [OF assms] by (simp_all add: table_map_None)

lemma store_new_map:
  assumes inv: "probe_inv cls seq t" and c: "probe_claim cls t k None (seq (length t) k) = Some (i, True)"
    and x: "cls x = Held k"
  shows "probe_inv cls seq (t[i := x])" and "table_map cls val (t[i := x]) = (table_map cls val t)(k \<mapsto> val x)"
proof -
  note n = claim_newD [OF inv c]
  show inv': "probe_inv cls seq (t[i := x])" by (rule inv_store_new [OF inv c x])
  show "table_map cls val (t[i := x]) = (table_map cls val t)(k \<mapsto> val x)"
    by (rule update_map [OF inv inv' n(1) x]) (use n(2,3) in auto)
qed

lemma store_same_map:
  assumes inv: "probe_inv cls seq t" and i: "i < length t" "cls (t ! i) = Held k" and x: "cls x = Held k"
  shows "probe_inv cls seq (t[i := x])" and "table_map cls val (t[i := x]) = (table_map cls val t)(k \<mapsto> val x)"
proof -
  show inv': "probe_inv cls seq (t[i := x])" by (rule inv_store_same [OF inv i(1)]) (simp add: i x)
  show "table_map cls val (t[i := x]) = (table_map cls val t)(k \<mapsto> val x)"
  proof (rule update_map [OF inv inv' i(1) x])
    show "j = i" if "j < length t" "cls (t ! j) = Held k" for j using probe_inv_unique [OF inv i that] .
  qed (simp add: i)
qed

lemma bury_map:
  assumes inv: "probe_inv cls seq t" and i: "i < length t" "cls (t ! i) = Held k" and x: "cls x = Grave"
  shows "probe_inv cls seq (t[i := x])" and "table_map cls val (t[i := x]) = (table_map cls val t)(k := None)"
proof -
  show inv': "probe_inv cls seq (t[i := x])" by (rule inv_bury [OF inv i(1) _ x]) (simp add: i)
  show "table_map cls val (t[i := x]) = (table_map cls val t)(k := None)"
  proof
    fix k'
    have other: "cls (t[i := x] ! j) = Held k' \<longleftrightarrow> j \<noteq> i \<and> cls (t ! j) = Held k'" if "j < length t" for j
      using x i by (cases "j = i") auto
    show "table_map cls val (t[i := x]) k' = ((table_map cls val t)(k := None)) k'"
    proof (cases "k' = k")
      case True
      have "cls (t[i := x] ! j) \<noteq> Held k'" if "j < length t" for j
        using other [OF that] True probe_inv_unique [OF inv i that] by blast
      then have "table_map cls val (t[i := x]) k' = None" by (simp add: table_map_None)
      then show ?thesis using True by simp
    next
      case False
      have "cls (t ! j) = Held k' \<Longrightarrow> j \<noteq> i" for j using i(2) False by auto
      then have "table_map cls val (t[i := x]) k' = Some v \<longleftrightarrow> table_map cls val t k' = Some v" for v
        unfolding map_iff [OF inv] map_iff [OF inv'] using other by (metis length_list_update nth_list_update_neq)
      then have "table_map cls val (t[i := x]) k' = table_map cls val t k'" by (metis not_Some_eq)
      then show ?thesis using False by simp
    qed
  qed
qed

lemma dom_finite: "finite (dom (table_map cls val t))"
proof (rule finite_subset)
  show "dom (table_map cls val t) \<subseteq> (\<lambda>i. THE k. cls (t ! i) = Held k) ` {..<length t}"
  proof
    fix k assume "k \<in> dom (table_map cls val t)"
    then obtain i where "i < length t" "cls (t ! i) = Held k" by (auto dest: table_map_SomeD)
    then show "k \<in> (\<lambda>i. THE k. cls (t ! i) = Held k) ` {..<length t}" by (auto intro!: image_eqI [of _ _ i])
  qed
qed simp

text \<open>A table with fewer keys than slots has room for one more.\<close>

lemma claim_room:
  assumes inv: "probe_inv cls seq t" and room: "card (dom (table_map cls val t)) < length t"
  shows "probe_claim cls t k None (seq (length t) k) \<noteq> None"
proof
  assume "probe_claim cls t k None (seq (length t) k) = None"
  then have held: "\<forall>i < length t. \<exists>k'. cls (t ! i) = Held k' \<and> k' \<noteq> k" by (simp add: claim_full_iff [OF inv])
  define key where "key i = (THE k'. cls (t ! i) = Held k')" for i
  have key: "cls (t ! i) = Held (key i)" if "i < length t" for i
    using held that by (auto simp: key_def)
  have "inj_on key {..<length t}"
    using key probe_inv_unique [OF inv] by (intro inj_onI) (metis lessThan_iff)
  then have "card (key ` {..<length t}) = length t" by (simp add: card_image)
  moreover have "key ` {..<length t} \<subseteq> dom (table_map cls val t)"
  proof clarify
    fix i assume "i < length t"
    then have "table_map cls val t (key i) \<noteq> None" using key by (auto simp: table_map_None)
    then show "\<exists>y. table_map cls val t (key i) = Some y" by blast
  qed
  ultimately show False using card_mono [OF dom_finite, of "key ` {..<length t}" t] room by simp
qed

end

end
