(* ===== verification/Prefix_Tables.thy ===== *)
theory Prefix_Tables
  imports Prefix_Methods Probe_Map
begin

text \<open>
  The two hash tables of the prefix cache, the node index and the page reference table, as
  instances of the open-addressing tables: their sizes are powers of two, their masked probe
  loops visit every slot once, and their methods update the maps they stand for.
\<close>

unbundle bit_operations_syntax

section \<open>Powers of two\<close>

text \<open>
  Or-ing a number with itself shifted by as many places as are known to be set below its top bit
  doubles that run.
\<close>

definition run_from :: "nat \<Rightarrow> nat \<Rightarrow> nat \<Rightarrow> bool" where
  "run_from x b n \<longleftrightarrow> (\<forall>i. b < i \<longrightarrow> \<not> bit x i) \<and> (\<forall>i. i \<le> b \<longrightarrow> b < i + n \<longrightarrow> bit x i)"

lemma run_from_double:
  assumes "run_from x b n" and "0 < n"
  shows "run_from (x OR drop_bit n x) b (n + n)"
  unfolding run_from_def
proof (intro conjI allI impI)
  fix i assume "b < i"
  then show "\<not> bit (x OR drop_bit n x) i" using assms by (simp add: run_from_def bit_or_iff bit_drop_bit_eq)
next
  fix i assume i: "i \<le> b" "b < i + (n + n)"
  show "bit (x OR drop_bit n x) i"
  proof (cases "b < i + n")
    case True
    then show ?thesis using assms i by (simp add: run_from_def bit_or_iff)
  next
    case False
    then have "bit x (n + i)" using assms i by (simp add: run_from_def add.commute)
    then show ?thesis by (simp add: bit_or_iff bit_drop_bit_eq)
  qed
qed

lemma top_bit:
  assumes "0 < (x :: nat)"
  obtains b where "run_from x b 1" and "2 ^ b \<le> x" and "x < 2 ^ Suc b"
proof -
  obtain b where b: "2 ^ b \<le> x" "x < 2 ^ Suc b"
    using assms ex_power_ivl1 [of 2 x] by auto
  have "\<not> bit x i" if "b < i" for i
  proof -
    have "(2 :: nat) ^ Suc b \<le> 2 ^ i" using that by (intro power_increasing) auto
    then have "x < 2 ^ i" using b(2) by simp
    then show ?thesis by (simp add: bit_iff_odd)
  qed
  moreover have "bit x b"
  proof -
    have "x div 2 ^ b = 1" using b by (intro div_nat_eqI) simp_all
    then show ?thesis by (simp add: bit_iff_odd)
  qed
  ultimately have "run_from x b 1"
    unfolding run_from_def by (metis Suc_eq_plus1 less_Suc_eq_le order_antisym)
  then show thesis using b by (rule that)
qed

lemma run_from_full:
  assumes "run_from x b n" and "b < n"
  shows "x = 2 ^ Suc b - 1"
proof -
  have "x = mask (Suc b)"
  proof (rule bit_eqI)
    fix i
    show "bit x i \<longleftrightarrow> bit (mask (Suc b) :: nat) i"
      using assms by (cases "b < i") (auto simp: run_from_def bit_mask_iff)
  qed
  then show ?thesis by (simp add: mask_eq_exp_minus_1)
qed

lemma smear:
  assumes "run_from v b 1" and "b < 32"
  shows "(let v1 = v OR drop_bit 1 v; v2 = v1 OR drop_bit 2 v1; v4 = v2 OR drop_bit 4 v2;
              v8 = v4 OR drop_bit 8 v4; v16 = v8 OR drop_bit 16 v8 in v16) = 2 ^ Suc b - 1"
proof -
  have 1: "run_from (v OR drop_bit 1 v) b 2" using run_from_double [OF assms(1)] by (simp add: numeral_2_eq_2)
  let ?v1 = "v OR drop_bit 1 v"
  have 2: "run_from (?v1 OR drop_bit 2 ?v1) b 4" using run_from_double [OF 1] by simp
  let ?v2 = "?v1 OR drop_bit 2 ?v1"
  have 4: "run_from (?v2 OR drop_bit 4 ?v2) b 8" using run_from_double [OF 2] by simp
  let ?v4 = "?v2 OR drop_bit 4 ?v2"
  have 8: "run_from (?v4 OR drop_bit 8 ?v4) b 16" using run_from_double [OF 4] by simp
  let ?v8 = "?v4 OR drop_bit 8 ?v4"
  have "run_from (?v8 OR drop_bit 16 ?v8) b 32" using run_from_double [OF 8] by simp
  from run_from_full [OF this assms(2)] show ?thesis by (simp only: Let_def)
qed

lemma NextPowerOfTwo_eq:
  assumes "1 < v" and "v \<le> 2 ^ 31"
  obtains b where "b < 31" and "2 ^ b < v" and "v \<le> 2 ^ Suc b" and "NextPowerOfTwo v = 2 ^ Suc b"
proof -
  obtain b where b: "run_from (v - 1) b 1" "2 ^ b \<le> v - 1" "v - 1 < 2 ^ Suc b"
    using top_bit [of "v - 1"] assms(1) by auto
  have "(2 :: nat) ^ b < 2 ^ 31" using b(2) assms by simp
  then have "b < 31" by (rule power_less_imp_less_exp [rotated]) simp
  moreover have "u32 (2 ^ Suc b - 1 + 1) = 2 ^ Suc b"
  proof -
    have "(2 :: nat) ^ Suc b \<le> 2 ^ 31" using calculation by (intro power_increasing) auto
    then have "(2 :: nat) ^ Suc b < 2 ^ 32" by (rule le_less_trans) simp
    moreover have "(2 :: nat) ^ Suc b - 1 + 1 = 2 ^ Suc b" by simp
    ultimately show ?thesis by (simp only: u32_id)
  qed
  moreover have "NextPowerOfTwo v = u32 (2 ^ Suc b - 1 + 1)"
    using smear [OF b(1)] calculation(1) assms(1) by (simp add: NextPowerOfTwo_def Let_def)
  ultimately show thesis using that [of b] b assms(1) by simp
qed

text \<open>The size of a probe table: a power of two with room for twice the capacity.\<close>

definition table_size :: "nat \<Rightarrow> nat \<Rightarrow> bool" where
  "table_size k n \<longleftrightarrow> k \<le> 31 \<and> n = 2 ^ k"

lemma NextPowerOfTwo_table:
  assumes "0 < c" and "c \<le> 2 ^ 30"
  shows "\<exists>k. table_size k (NextPowerOfTwo (u32 (c * 2))) \<and> 2 * c \<le> 2 ^ k"
proof -
  have c: "u32 (c * 2) = c * 2" using assms by (simp add: u32_def)
  have "1 < c * 2" "c * 2 \<le> 2 ^ 31" using assms by simp_all
  then obtain b where "b < 31" "2 ^ b < c * 2" "c * 2 \<le> 2 ^ Suc b" "NextPowerOfTwo (c * 2) = 2 ^ Suc b"
    by (rule NextPowerOfTwo_eq)
  then show ?thesis unfolding c table_size_def by (intro exI [of _ "Suc b"]) simp
qed

lemma mask_mod:
  assumes "table_size k n"
  shows "x AND u32_sub n 1 = x mod n" and "0 < n" and "n < 2 ^ 32"
proof -
  have n: "n = 2 ^ k" "k \<le> 31" using assms by (simp_all add: table_size_def)
  have le: "(2 :: nat) ^ k \<le> 2 ^ 31" using n(2) by (intro power_increasing) auto
  then show "n < 2 ^ 32" unfolding n(1) by (rule le_less_trans) simp
  then have "u32_sub n 1 = mask k" using u32_sub_le [of 1 n] n(1) by (simp add: mask_eq_exp_minus_1)
  then show "x AND u32_sub n 1 = x mod n"
    using n(1) by (simp only: take_bit_eq_mask [symmetric] take_bit_eq_mod)
  show "0 < n" using n(1) by simp
qed

lemma probe_slot:
  assumes "table_size k n" and "start < n" and "p \<le> n"
  shows "u32 (start + p) AND u32_sub n 1 = (start + p) mod n"
proof -
  have n: "n = 2 ^ k" "k \<le> 31" using assms(1) by (simp_all add: table_size_def)
  have "(2 :: nat) ^ k \<le> 2 ^ 31" using n(2) by (intro power_increasing) auto
  then have "start + p < 2 ^ 31 + 2 ^ 31" using n(1) assms(2,3) by (simp add: add_less_le_mono)
  then have "u32 (start + p) = start + p" by (simp add: u32_def)
  then show ?thesis using mask_mod(1) [OF assms(1)] by simp
qed

section \<open>The tables as maps\<close>

definition node_cls :: "SharedNodeIndexSlot \<Rightarrow> PrefixDigest slot_kind" where
  "node_cls slot = (case islot_state slot of kEmpty \<Rightarrow> Vacant | kTombstone \<Rightarrow> Grave | kResident \<Rightarrow> Held (islot_digest slot))"

definition ref_cls :: "SharedPageRefSlot \<Rightarrow> (nat \<times> nat) slot_kind" where
  "ref_cls slot = (case pslot_state slot of kEmpty \<Rightarrow> Vacant | kTombstone \<Rightarrow> Grave
                   | kResident \<Rightarrow> Held (pslot_group slot, pslot_page slot))"

definition node_order :: "nat \<Rightarrow> PrefixDigest \<Rightarrow> nat list" where
  "node_order n digest = probe_order (unat (DigestHash digest) mod n) n"

definition ref_order :: "nat \<Rightarrow> nat \<times> nat \<Rightarrow> nat list" where
  "ref_order n key = probe_order (unat (PageRefHash (fst key) (snd key)) mod n) n"

interpretation node_tab: open_map node_cls node_order islot_node
  by unfold_locales (simp_all add: node_order_def)

interpretation ref_tab: open_map ref_cls ref_order pslot_refs
  by unfold_locales (simp_all add: ref_order_def)

abbreviation index_map :: "prefix_cache \<Rightarrow> PrefixDigest \<Rightarrow> nat option" where
  "index_map s \<equiv> table_map node_cls islot_node (node_index_slots s)"

abbreviation ref_map :: "prefix_cache \<Rightarrow> nat \<times> nat \<Rightarrow> nat option" where
  "ref_map s \<equiv> table_map ref_cls pslot_refs (page_ref_slots s)"

text \<open>Capacities the tables can be laid out for.\<close>

definition size_ok :: "prefix_cache \<Rightarrow> bool" where
  "size_ok s \<longleftrightarrow> 0 < max_nodes s \<and> max_nodes s \<le> 2 ^ 30 \<and> 0 < max_page_handles s \<and> max_page_handles s \<le> 2 ^ 30
     \<and> max_group_entries s \<le> 2 ^ 31"

definition index_wf :: "prefix_cache \<Rightarrow> bool" where
  "index_wf s \<longleftrightarrow> length (node_index_slots s) = MaxNodeIndexSlots (max_nodes s)
     \<and> probe_inv node_cls node_order (node_index_slots s)"

definition refs_wf :: "prefix_cache \<Rightarrow> bool" where
  "refs_wf s \<longleftrightarrow> length (page_ref_slots s) = MaxPageRefSlots (max_page_handles s)
     \<and> probe_inv ref_cls ref_order (page_ref_slots s)"

lemma index_size:
  assumes "size_ok s"
  obtains k where "table_size k (MaxNodeIndexSlots (max_nodes s))" "2 * max_nodes s \<le> MaxNodeIndexSlots (max_nodes s)"
  using assms NextPowerOfTwo_table [of "max_nodes s"]
  by (auto simp: size_ok_def MaxNodeIndexSlots_def table_size_def)

lemma refs_size:
  assumes "size_ok s"
  obtains k where "table_size k (MaxPageRefSlots (max_page_handles s))"
    "2 * max_page_handles s \<le> MaxPageRefSlots (max_page_handles s)"
  using assms NextPowerOfTwo_table [of "max_page_handles s"]
  by (auto simp: size_ok_def MaxPageRefSlots_def table_size_def)

lemma probe_range: "p + n = m \<Longrightarrow> map (\<lambda>j. (h + j) mod m) [p..<m] = map (\<lambda>j. (h + j) mod m) [p..<p + n]"
  by simp

lemma find_index_probe:
  assumes "table_size k m" and "start < m" and "p + n = m"
  shows "find_index_loop tab (u32_sub m 1) d start p n =
           probe_find node_cls tab d (map (\<lambda>j. (start + j) mod m) [p..<m])"
  using assms(3)
proof (induction n arbitrary: p)
  case (Suc n)
  have "[p..<m] = p # [Suc p..<m]" using Suc.prems by (simp add: upt_conv_Cons)
  moreover have "u32 (start + p) AND u32_sub m 1 = (start + p) mod m"
    by (rule probe_slot [OF assms(1,2)]) (use Suc.prems in simp)
  ultimately show ?case using Suc.IH [of "Suc p"] Suc.prems
    by (simp add: node_cls_def Let_def split: EntryState.split)
qed simp

lemma claim_index_probe:
  assumes "table_size k m" and "start < m" and "p + n = m"
  shows "claim_index_loop tab (u32_sub m 1) d start g p n =
           probe_claim node_cls tab d g (map (\<lambda>j. (start + j) mod m) [p..<m])"
  using assms(3)
proof (induction n arbitrary: p g)
  case (Suc n)
  have "[p..<m] = p # [Suc p..<m]" using Suc.prems by (simp add: upt_conv_Cons)
  moreover have "u32 (start + p) AND u32_sub m 1 = (start + p) mod m"
    by (rule probe_slot [OF assms(1,2)]) (use Suc.prems in simp)
  ultimately show ?case using Suc.IH [of "Suc p"] Suc.prems
    by (cases g) (simp_all add: node_cls_def Let_def split: EntryState.split)
qed simp

lemma find_ref_probe:
  assumes "table_size k m" and "start < m" and "p + n = m"
  shows "find_ref_loop tab (u32_sub m 1) g pg start p n =
           probe_find ref_cls tab (g, pg) (map (\<lambda>j. (start + j) mod m) [p..<m])"
  using assms(3)
proof (induction n arbitrary: p)
  case (Suc n)
  have "[p..<m] = p # [Suc p..<m]" using Suc.prems by (simp add: upt_conv_Cons)
  moreover have "u32 (start + p) AND u32_sub m 1 = (start + p) mod m"
    by (rule probe_slot [OF assms(1,2)]) (use Suc.prems in simp)
  ultimately show ?case using Suc.IH [of "Suc p"] Suc.prems
    by (simp add: ref_cls_def Let_def split: EntryState.split)
qed simp

lemma claim_ref_probe:
  assumes "table_size k m" and "start < m" and "p + n = m"
  shows "claim_ref_loop tab (u32_sub m 1) g pg start t p n =
           probe_claim ref_cls tab (g, pg) t (map (\<lambda>j. (start + j) mod m) [p..<m])"
  using assms(3)
proof (induction n arbitrary: p t)
  case (Suc n)
  have "[p..<m] = p # [Suc p..<m]" using Suc.prems by (simp add: upt_conv_Cons)
  moreover have "u32 (start + p) AND u32_sub m 1 = (start + p) mod m"
    by (rule probe_slot [OF assms(1,2)]) (use Suc.prems in simp)
  ultimately show ?case using Suc.IH [of "Suc p"] Suc.prems
    by (cases t) (simp_all add: ref_cls_def Let_def split: EntryState.split)
qed simp

lemma FindNodeIndexSlot_probe:
  assumes "size_ok s" and "index_wf s"
  shows "FindNodeIndexSlotLocked s d =
    probe_find node_cls (node_index_slots s) d (node_order (length (node_index_slots s)) d)"
proof -
  obtain k where k: "table_size k (MaxNodeIndexSlots (max_nodes s))" using index_size [OF assms(1)] by metis
  have len: "length (node_index_slots s) = MaxNodeIndexSlots (max_nodes s)" using assms(2) by (simp add: index_wf_def)
  show ?thesis
    unfolding FindNodeIndexSlotLocked_def Let_def len mask_mod(1) [OF k]
    by (subst find_index_probe [OF k]) (use mask_mod(2) [OF k] in \<open>simp_all add: node_order_def probe_order_def\<close>)
qed

lemma InsertNodeIndex_probe:
  assumes "size_ok s" and "index_wf s"
  shows "InsertNodeIndexLocked d n s =
    (case probe_claim node_cls (node_index_slots s) d None (node_order (length (node_index_slots s)) d) of
       None \<Rightarrow> (Inl (Runtime_error ''Host prefix cache node index table is full''), s)
     | Some (i, is_new) \<Rightarrow>
         (Inr (), s\<lparr>node_index_slots := (node_index_slots s)
            [i := if is_new then \<lparr>islot_state = kResident, islot_node = n, islot_digest = d\<rparr>
                  else (node_index_slots s ! i)\<lparr>islot_node := n\<rparr>]\<rparr>))"
proof -
  obtain k where k: "table_size k (MaxNodeIndexSlots (max_nodes s))" using index_size [OF assms(1)] by metis
  have len: "length (node_index_slots s) = MaxNodeIndexSlots (max_nodes s)" using assms(2) by (simp add: index_wf_def)
  show ?thesis
    unfolding InsertNodeIndexLocked_def Let_def len mask_mod(1) [OF k]
    by (subst claim_index_probe [OF k]) (use mask_mod(2) [OF k] in \<open>simp_all add: node_order_def probe_order_def\<close>)
qed

lemma FindPageRefSlot_probe:
  assumes "size_ok s" and "refs_wf s"
  shows "FindPageRefSlotLocked s g p =
    probe_find ref_cls (page_ref_slots s) (g, p) (ref_order (length (page_ref_slots s)) (g, p))"
proof -
  obtain k where k: "table_size k (MaxPageRefSlots (max_page_handles s))" using refs_size [OF assms(1)] by metis
  have len: "length (page_ref_slots s) = MaxPageRefSlots (max_page_handles s)" using assms(2) by (simp add: refs_wf_def)
  show ?thesis
    unfolding FindPageRefSlotLocked_def Let_def len mask_mod(1) [OF k]
    by (subst find_ref_probe [OF k]) (use mask_mod(2) [OF k] in \<open>simp_all add: ref_order_def probe_order_def\<close>)
qed

lemma InsertOrGetPageRefSlot_probe:
  assumes "size_ok s" and "refs_wf s"
  shows "InsertOrGetPageRefSlotLocked g p s =
    (case probe_claim ref_cls (page_ref_slots s) (g, p) None (ref_order (length (page_ref_slots s)) (g, p)) of
       None \<Rightarrow> (Inl (Runtime_error ''Host prefix cache page ref table is full''), s)
     | Some (i, is_new) \<Rightarrow>
         (Inr i, if is_new then s\<lparr>page_ref_slots := (page_ref_slots s)
            [i := \<lparr>pslot_state = kResident, pslot_group = g, pslot_page = p, pslot_refs = 0\<rparr>]\<rparr> else s))"
proof -
  obtain k where k: "table_size k (MaxPageRefSlots (max_page_handles s))" using refs_size [OF assms(1)] by metis
  have len: "length (page_ref_slots s) = MaxPageRefSlots (max_page_handles s)" using assms(2) by (simp add: refs_wf_def)
  show ?thesis
    unfolding InsertOrGetPageRefSlotLocked_def Let_def len mask_mod(1) [OF k]
    by (subst claim_ref_probe [OF k]) (use mask_mod(2) [OF k] in \<open>simp_all add: ref_order_def probe_order_def\<close>)
qed

section \<open>The methods as map updates\<close>

lemma index_wf_cong: "node_index_slots s' = node_index_slots s \<Longrightarrow> max_nodes s' = max_nodes s \<Longrightarrow> index_wf s' = index_wf s"
  by (simp add: index_wf_def)

lemma refs_wf_cong:
  "page_ref_slots s' = page_ref_slots s \<Longrightarrow> max_page_handles s' = max_page_handles s \<Longrightarrow> refs_wf s' = refs_wf s"
  by (simp add: refs_wf_def)

lemma ref_cls_refs [simp]: "ref_cls (x\<lparr>pslot_refs := c\<rparr>) = ref_cls x"
  by (simp add: ref_cls_def split: EntryState.split)

lemma FindNodeIndexSlot_map:
  assumes "size_ok s" and "index_wf s"
  shows "FindNodeIndexSlotLocked s d = None \<longleftrightarrow> index_map s d = None"
    and "FindNodeIndexSlotLocked s d = Some i \<Longrightarrow> i < length (node_index_slots s)
       \<and> node_cls (node_index_slots s ! i) = Held d \<and> index_map s d = Some (islot_node (node_index_slots s ! i))"
proof -
  have inv: "probe_inv node_cls node_order (node_index_slots s)" using assms(2) by (simp add: index_wf_def)
  show "FindNodeIndexSlotLocked s d = None \<longleftrightarrow> index_map s d = None"
    unfolding FindNodeIndexSlot_probe [OF assms] by (rule node_tab.find_map [OF inv])
  show "FindNodeIndexSlotLocked s d = Some i \<Longrightarrow> i < length (node_index_slots s)
       \<and> node_cls (node_index_slots s ! i) = Held d \<and> index_map s d = Some (islot_node (node_index_slots s ! i))"
    unfolding FindNodeIndexSlot_probe [OF assms] using node_tab.find_SomeD [OF inv] by blast
qed

lemma FindNode_map:
  assumes "size_ok s" and "index_wf s"
  shows "FindNodeLocked s d =
    (case index_map s d of None \<Rightarrow> None
     | Some n \<Rightarrow> if max_nodes s \<le> n \<or> \<not> is_resident (pc_nodes s ! n) \<or> node_digest (pc_nodes s ! n) \<noteq> d
                then None else Some n)"
proof (cases "FindNodeIndexSlotLocked s d")
  case None
  then show ?thesis using FindNodeIndexSlot_map(1) [OF assms, of d] by (simp add: FindNodeLocked_def)
next
  case (Some i)
  then show ?thesis using FindNodeIndexSlot_map(2) [OF assms Some] by (simp add: FindNodeLocked_def Let_def)
qed

lemma InsertNodeIndex_map:
  assumes "size_ok s" and wf: "index_wf s" and room: "card (dom (index_map s)) < length (node_index_slots s)"
  obtains slots where "InsertNodeIndexLocked d n s = (Inr (), s\<lparr>node_index_slots := slots\<rparr>)"
    and "index_wf (s\<lparr>node_index_slots := slots\<rparr>)"
    and "table_map node_cls islot_node slots = (index_map s)(d \<mapsto> n)"
proof -
  let ?t = "node_index_slots s"
  have inv: "probe_inv node_cls node_order ?t" and len: "length ?t = MaxNodeIndexSlots (max_nodes s)"
    using wf by (simp_all add: index_wf_def)
  obtain i b where c: "probe_claim node_cls ?t d None (node_order (length ?t) d) = Some (i, b)"
    using node_tab.claim_room [OF inv room, of d] by auto
  define x where "x = (if b then \<lparr>islot_state = kResident, islot_node = n, islot_digest = d\<rparr>
                       else (?t ! i)\<lparr>islot_node := n\<rparr>)"
  have "probe_inv node_cls node_order (?t[i := x]) \<and> table_map node_cls islot_node (?t[i := x]) = (index_map s)(d \<mapsto> islot_node x)
     \<and> islot_node x = n"
  proof (cases b)
    case True
    have "node_cls x = Held d" using True by (simp add: x_def node_cls_def)
    then show ?thesis using node_tab.store_new_map [OF inv, of d i x] c True by (simp add: x_def)
  next
    case False
    note o = node_tab.claim_known [OF inv, of d i]
    have "node_cls x = Held d" using False o c by (simp add: x_def node_cls_def split: EntryState.splits)
    then show ?thesis using node_tab.store_same_map [OF inv, of i d x] o c False by (simp add: x_def)
  qed
  moreover have "InsertNodeIndexLocked d n s = (Inr (), s\<lparr>node_index_slots := ?t[i := x]\<rparr>)"
    by (simp add: InsertNodeIndex_probe [OF assms(1) wf] c x_def)
  ultimately show ?thesis using that [of "?t[i := x]"] len by (simp add: index_wf_def)
qed

lemma RemoveNodeIndex_map:
  assumes "size_ok s" and wf: "index_wf s"
  obtains slots where "RemoveNodeIndexLocked d s = s\<lparr>node_index_slots := slots\<rparr>"
    and "index_wf (s\<lparr>node_index_slots := slots\<rparr>)"
    and "table_map node_cls islot_node slots = (index_map s)(d := None)"
proof (cases "FindNodeIndexSlotLocked s d")
  case None
  then have "index_map s d = None" using FindNodeIndexSlot_map(1) [OF assms] by simp
  then have "(index_map s)(d := None) = index_map s" by auto
  then show ?thesis using that [of "node_index_slots s"] None wf by (simp add: RemoveNodeIndexLocked_def)
next
  case (Some i)
  define x where "x = \<lparr>islot_state = kTombstone, islot_node = 0, islot_digest = zero_digest\<rparr>"
  have i: "i < length (node_index_slots s)" "node_cls (node_index_slots s ! i) = Held d"
    using FindNodeIndexSlot_map(2) [OF assms Some] by simp_all
  have inv: "probe_inv node_cls node_order (node_index_slots s)" using wf by (simp add: index_wf_def)
  have "node_cls x = Grave" by (simp add: x_def node_cls_def)
  note b = node_tab.bury_map [OF inv i this]
  show ?thesis
    by (rule that [of "(node_index_slots s)[i := x]"])
      (use Some b wf in \<open>simp_all add: RemoveNodeIndexLocked_def x_def index_wf_def\<close>)
qed

lemma FindPageRefSlot_map:
  assumes "size_ok s" and "refs_wf s"
  shows "FindPageRefSlotLocked s g p = None \<longleftrightarrow> ref_map s (g, p) = None"
    and "FindPageRefSlotLocked s g p = Some i \<Longrightarrow> i < length (page_ref_slots s)
       \<and> ref_cls (page_ref_slots s ! i) = Held (g, p) \<and> ref_map s (g, p) = Some (pslot_refs (page_ref_slots s ! i))"
proof -
  have inv: "probe_inv ref_cls ref_order (page_ref_slots s)" using assms(2) by (simp add: refs_wf_def)
  show "FindPageRefSlotLocked s g p = None \<longleftrightarrow> ref_map s (g, p) = None"
    unfolding FindPageRefSlot_probe [OF assms] by (rule ref_tab.find_map [OF inv])
  show "FindPageRefSlotLocked s g p = Some i \<Longrightarrow> i < length (page_ref_slots s)
       \<and> ref_cls (page_ref_slots s ! i) = Held (g, p) \<and> ref_map s (g, p) = Some (pslot_refs (page_ref_slots s ! i))"
    unfolding FindPageRefSlot_probe [OF assms] using ref_tab.find_SomeD [OF inv] by blast
qed

text \<open>Claiming a slot and then writing its count, the common part of two methods.\<close>

lemma InsertOrGetPageRefSlot_map:
  assumes "size_ok s" and wf: "refs_wf s" and room: "card (dom (ref_map s)) < length (page_ref_slots s)"
  obtains slots i where "InsertOrGetPageRefSlotLocked g p s = (Inr i, s\<lparr>page_ref_slots := slots\<rparr>)"
    and "refs_wf (s\<lparr>page_ref_slots := slots\<rparr>)" and "i < length slots"
    and "pslot_refs (slots ! i) = (case ref_map s (g, p) of None \<Rightarrow> 0 | Some c \<Rightarrow> c)"
    and "\<And>c. refs_wf (s\<lparr>page_ref_slots := slots[i := (slots ! i)\<lparr>pslot_refs := c\<rparr>]\<rparr>)"
    and "\<And>c. table_map ref_cls pslot_refs (slots[i := (slots ! i)\<lparr>pslot_refs := c\<rparr>]) = (ref_map s)((g, p) \<mapsto> c)"
proof -
  let ?t = "page_ref_slots s"
  have inv: "probe_inv ref_cls ref_order ?t" and len: "length ?t = MaxPageRefSlots (max_page_handles s)"
    using wf by (simp_all add: refs_wf_def)
  obtain i b where c: "probe_claim ref_cls ?t (g, p) None (ref_order (length ?t) (g, p)) = Some (i, b)"
    using ref_tab.claim_room [OF inv room, of "(g, p)"] by auto
  define x where "x = (if b then \<lparr>pslot_state = kResident, pslot_group = g, pslot_page = p, pslot_refs = 0\<rparr> else ?t ! i)"
  have i: "i < length ?t" using ref_tab.claim_known(1) [OF inv, of "(g, p)" i] ref_tab.claim_fresh(1) [OF inv, of "(g, p)" i] c
    by (cases b) simp_all
  have x: "ref_cls x = Held (g, p)" using ref_tab.claim_known(2) [OF inv, of "(g, p)" i] c
    by (cases b) (simp_all add: x_def ref_cls_def)
  have "probe_inv ref_cls ref_order (?t[i := x]) \<and> table_map ref_cls pslot_refs (?t[i := x]) = (ref_map s)((g, p) \<mapsto> pslot_refs x)
     \<and> pslot_refs x = (case ref_map s (g, p) of None \<Rightarrow> 0 | Some c \<Rightarrow> c)"
  proof (cases b)
    case True
    then show ?thesis using ref_tab.store_new_map [OF inv _ x, of i] ref_tab.claim_fresh(2) [OF inv, of "(g, p)" i] c
      by (simp add: x_def)
  next
    case False
    then show ?thesis using ref_tab.store_same_map [OF inv i _ x] ref_tab.claim_known(2,3) [OF inv, of "(g, p)" i] c
      by (simp add: x_def)
  qed
  then have inv': "probe_inv ref_cls ref_order (?t[i := x])"
    and m: "table_map ref_cls pslot_refs (?t[i := x]) = (ref_map s)((g, p) \<mapsto> pslot_refs x)"
    and r: "pslot_refs x = (case ref_map s (g, p) of None \<Rightarrow> 0 | Some c \<Rightarrow> c)" by simp_all
  have y: "ref_cls (x\<lparr>pslot_refs := c\<rparr>) = Held (g, p)" for c using x by simp
  have "probe_inv ref_cls ref_order (?t[i := x, i := x\<lparr>pslot_refs := c\<rparr>])"
    "table_map ref_cls pslot_refs (?t[i := x, i := x\<lparr>pslot_refs := c\<rparr>]) = (ref_map s)((g, p) \<mapsto> c)" for c
    using ref_tab.store_same_map [OF inv' _ _ y, of i c] i x m by simp_all
  moreover have "?t[i := x] ! i = x" using i by simp
  moreover have "InsertOrGetPageRefSlotLocked g p s = (Inr i, s\<lparr>page_ref_slots := ?t[i := x]\<rparr>)"
    by (cases b) (simp_all add: InsertOrGetPageRefSlot_probe [OF assms(1) wf] c x_def)
  ultimately show ?thesis using that [of i "?t[i := x]"] inv' r i len by (simp add: refs_wf_def)
qed

lemma IncrementPageRef_map:
  assumes "size_ok s" and "refs_wf s" and "card (dom (ref_map s)) < length (page_ref_slots s)"
    and "\<And>c. ref_map s (g, p) = Some c \<Longrightarrow> c < 2 ^ 32 - 1"
  obtains slots where "IncrementPageRefLocked g p s = (Inr (), s\<lparr>page_ref_slots := slots\<rparr>)"
    and "refs_wf (s\<lparr>page_ref_slots := slots\<rparr>)"
    and "table_map ref_cls pslot_refs slots
           = (ref_map s)((g, p) \<mapsto> Suc (case ref_map s (g, p) of None \<Rightarrow> 0 | Some c \<Rightarrow> c))"
proof -
  obtain slots i where *: "InsertOrGetPageRefSlotLocked g p s = (Inr i, s\<lparr>page_ref_slots := slots\<rparr>)"
    "pslot_refs (slots ! i) = (case ref_map s (g, p) of None \<Rightarrow> 0 | Some c \<Rightarrow> c)"
    "\<And>c. refs_wf (s\<lparr>page_ref_slots := slots[i := (slots ! i)\<lparr>pslot_refs := c\<rparr>]\<rparr>)"
    "\<And>c. table_map ref_cls pslot_refs (slots[i := (slots ! i)\<lparr>pslot_refs := c\<rparr>]) = (ref_map s)((g, p) \<mapsto> c)"
    using InsertOrGetPageRefSlot_map [OF assms(1-3)] by metis
  let ?c = "case ref_map s (g, p) of None \<Rightarrow> 0 | Some c \<Rightarrow> c"
  have "?c \<noteq> 2 ^ 32 - 1" using assms(4) by (auto split: option.split)
  then show ?thesis
    using that [of "slots[i := (slots ! i)\<lparr>pslot_refs := Suc ?c\<rparr>]"] *(3,4) [of "Suc ?c"]
    by (simp add: IncrementPageRefLocked_def *(1) Let_def *(2) del: fun_upd_apply)
qed

lemma DecrementPageRef_map:
  assumes "size_ok s" and wf: "refs_wf s" and c: "ref_map s (g, p) = Some (Suc c)"
  obtains slots where "DecrementPageRefLocked g p s = (Inr (c = 0), s\<lparr>page_ref_slots := slots\<rparr>)"
    and "refs_wf (s\<lparr>page_ref_slots := slots\<rparr>)"
    and "table_map ref_cls pslot_refs slots = (ref_map s)((g, p) := if c = 0 then None else Some c)"
proof -
  obtain i where f: "FindPageRefSlotLocked s g p = Some i" using FindPageRefSlot_map(1) [OF assms(1,2)] c by force
  let ?t = "page_ref_slots s"
  have i: "i < length ?t" "ref_cls (?t ! i) = Held (g, p)" "pslot_refs (?t ! i) = Suc c"
    using FindPageRefSlot_map(2) [OF assms(1,2) f] c by simp_all
  have inv: "probe_inv ref_cls ref_order ?t" using wf by (simp add: refs_wf_def)
  define x where "x = (if c = 0 then \<lparr>pslot_state = kTombstone, pslot_group = 0, pslot_page = 0, pslot_refs = 0\<rparr>
                       else (?t ! i)\<lparr>pslot_refs := c\<rparr>)"
  have cls: "ref_cls x = (if c = 0 then Grave else Held (g, p))" using i(2)
    by (cases "c = 0") (simp_all add: x_def, simp add: ref_cls_def)
  have "probe_inv ref_cls ref_order (?t[i := x])
     \<and> table_map ref_cls pslot_refs (?t[i := x]) = (ref_map s)((g, p) := if c = 0 then None else Some c)"
  proof (cases "c = 0")
    case True
    then show ?thesis using ref_tab.bury_map [OF inv i(1,2), of x] cls by simp
  next
    case False
    moreover have "pslot_refs x = c" using False by (simp add: x_def)
    ultimately show ?thesis using ref_tab.store_same_map [OF inv i(1,2), of x] cls by simp
  qed
  then show ?thesis
    using that [of "?t[i := x]"] wf by (auto simp: DecrementPageRefLocked_def f Let_def i(3) x_def refs_wf_def)
qed

section \<open>Rebuilding the tables\<close>

lemma card_dom_update: "finite (dom m) \<Longrightarrow> card (dom (m(k \<mapsto> v))) \<le> Suc (card (dom m))"
  by (simp add: card_insert_if)

lemma size_ok_slots [simp]:
  "size_ok (s\<lparr>node_index_slots := t\<rparr>) = size_ok s" "size_ok (s\<lparr>page_ref_slots := u\<rparr>) = size_ok s"
  by (simp_all add: size_ok_def)

definition add_node :: "SharedPrefixNode list \<Rightarrow> nat \<Rightarrow> (PrefixDigest \<Rightarrow> nat option) \<Rightarrow> PrefixDigest \<Rightarrow> nat option" where
  "add_node nodes n m = (if is_resident (nodes ! n) then m(node_digest (nodes ! n) \<mapsto> n) else m)"

lemma insert_nodes_map:
  assumes "size_ok s" and "index_wf s" and "card (dom (index_map s)) + length ns \<le> length (node_index_slots s)"
  shows "\<exists>slots. fold_do (\<lambda>n _ s. if is_resident (pc_nodes s ! n)
                      then InsertNodeIndexLocked (node_digest (pc_nodes s ! n)) n s
                      else (Inr (), s)) ns () s = (Inr (), s\<lparr>node_index_slots := slots\<rparr>)
     \<and> index_wf (s\<lparr>node_index_slots := slots\<rparr>)
     \<and> table_map node_cls islot_node slots =
         fold (add_node (pc_nodes s)) ns (index_map s)"
  using assms
proof (induction ns arbitrary: s)
  case Nil
  then show ?case by (auto intro: exI [of _ "node_index_slots s"])
next
  case (Cons n ns)
  show ?case
  proof (cases "is_resident (pc_nodes s ! n)")
    case False
    then show ?thesis using Cons.IH [of s] Cons.prems by (simp add: add_node_def)
  next
    case True
    let ?d = "node_digest (pc_nodes s ! n)"
    have room: "card (dom (index_map s)) < length (node_index_slots s)" using Cons.prems(3) by simp
    obtain slots where i: "InsertNodeIndexLocked ?d n s = (Inr (), s\<lparr>node_index_slots := slots\<rparr>)"
      and wf: "index_wf (s\<lparr>node_index_slots := slots\<rparr>)" and m: "table_map node_cls islot_node slots = (index_map s)(?d \<mapsto> n)"
      using InsertNodeIndex_map [OF Cons.prems(1,2) room] by metis
    have len: "length slots = length (node_index_slots s)" using wf Cons.prems(2) by (simp add: index_wf_def)
    have "card (dom (table_map node_cls islot_node slots)) \<le> Suc (card (dom (index_map s)))"
      unfolding m by (rule card_dom_update [OF node_tab.dom_finite])
    then have "card (dom (table_map node_cls islot_node slots)) + length ns \<le> length slots" using Cons.prems(3) len by simp
    then show ?thesis using Cons.IH [of "s\<lparr>node_index_slots := slots\<rparr>"] Cons.prems(1) wf True i m
      by (simp add: add_node_def [of _ n] del: fun_upd_apply)
  qed
qed

lemma fold_index:
  assumes "\<And>m n. \<lbrakk>m \<in> set ns; n \<in> set ns; R m; R n; dig m = dig n\<rbrakk> \<Longrightarrow> m = n" and "distinct ns"
  shows "fold (\<lambda>n m. if R n then m(dig n \<mapsto> n) else m) ns m0 d = Some k \<longleftrightarrow>
           (k \<in> set ns \<and> R k \<and> dig k = d) \<or> (m0 d = Some k \<and> (\<forall>n \<in> set ns. R n \<longrightarrow> dig n \<noteq> d))"
  using assms
proof (induction ns arbitrary: m0)
  case (Cons x ns)
  have IH: "fold (\<lambda>n m. if R n then m(dig n \<mapsto> n) else m) ns m1 d = Some k \<longleftrightarrow>
      (k \<in> set ns \<and> R k \<and> dig k = d) \<or> (m1 d = Some k \<and> (\<forall>n \<in> set ns. R n \<longrightarrow> dig n \<noteq> d))" for m1
    by (rule Cons.IH) (use Cons.prems in auto)
  have x: "x = n" if "n \<in> set ns" "R n" "R x" "dig n = dig x" for n using Cons.prems(1) [of x n] that by auto
  show ?case using x Cons.prems(2) by (auto simp: IH)
qed simp

lemma RebuildNodeIndex_map:
  assumes "size_ok s" and inj: "\<And>m n. \<lbrakk>m < max_nodes s; n < max_nodes s; is_resident (pc_nodes s ! m); is_resident (pc_nodes s ! n);
      node_digest (pc_nodes s ! m) = node_digest (pc_nodes s ! n)\<rbrakk> \<Longrightarrow> m = n"
  obtains slots where "RebuildNodeIndexLocked s = (Inr (), s\<lparr>node_index_slots := slots\<rparr>)"
    and "index_wf (s\<lparr>node_index_slots := slots\<rparr>)"
    and "\<And>d n. table_map node_cls islot_node slots d = Some n \<longleftrightarrow>
           n < max_nodes s \<and> is_resident (pc_nodes s ! n) \<and> node_digest (pc_nodes s ! n) = d"
proof -
  let ?t = "replicate (MaxNodeIndexSlots (max_nodes s)) empty_islot" and ?ns = "[0..<max_nodes s]"
  have vac: "\<forall>x \<in> set ?t. node_cls x = Vacant" by (auto simp: node_cls_def empty_islot_def)
  have wf: "index_wf (s\<lparr>node_index_slots := ?t\<rparr>)"
    using vac by (simp add: index_wf_def probe_inv_vacant)
  have e: "table_map node_cls islot_node ?t = Map.empty" by (rule table_map_vacant [OF vac])
  have "max_nodes s \<le> MaxNodeIndexSlots (max_nodes s)" using index_size [OF assms(1)] by (metis add_leD1 mult_2)
  then obtain slots where "RebuildNodeIndexLocked s = (Inr (), s\<lparr>node_index_slots := slots\<rparr>)"
    "index_wf (s\<lparr>node_index_slots := slots\<rparr>)"
    "table_map node_cls islot_node slots =
       fold (add_node (pc_nodes s)) ?ns Map.empty"
    using insert_nodes_map [of "s\<lparr>node_index_slots := ?t\<rparr>" ?ns] assms(1) wf e
    by (auto simp: RebuildNodeIndexLocked_def)
  then show ?thesis
    using that [of slots] fold_index [of ?ns "\<lambda>n. is_resident (pc_nodes s ! n)" "\<lambda>n. node_digest (pc_nodes s ! n)" Map.empty] inj
    by (simp add: add_node_def [abs_def])
qed

lemma insert_refs_map:
  assumes "size_ok s" and "refs_wf s" and "card (dom (ref_map s)) + length refs \<le> length (page_ref_slots s)"
  shows "\<exists>slots. fold_do (\<lambda>ref _ s.
                 and_then (InsertOrGetPageRefSlotLocked (pslot_group ref) (pslot_page ref) s) (\<lambda>i s.
                   (Inr (), s\<lparr>page_ref_slots := (page_ref_slots s)
                              [i := (page_ref_slots s ! i)\<lparr>pslot_refs := pslot_refs ref\<rparr>]\<rparr>))) refs () s
          = (Inr (), s\<lparr>page_ref_slots := slots\<rparr>)
     \<and> refs_wf (s\<lparr>page_ref_slots := slots\<rparr>)
     \<and> table_map ref_cls pslot_refs slots =
         fold (\<lambda>ref m. m((pslot_group ref, pslot_page ref) \<mapsto> pslot_refs ref)) refs (ref_map s)"
  using assms
proof (induction refs arbitrary: s)
  case Nil
  then show ?case by (auto intro: exI [of _ "page_ref_slots s"])
next
  case (Cons ref refs)
  let ?k = "(pslot_group ref, pslot_page ref)"
  have room: "card (dom (ref_map s)) < length (page_ref_slots s)" using Cons.prems(3) by simp
  obtain slots i where *: "InsertOrGetPageRefSlotLocked (pslot_group ref) (pslot_page ref) s = (Inr i, s\<lparr>page_ref_slots := slots\<rparr>)"
    "\<And>c. refs_wf (s\<lparr>page_ref_slots := slots[i := (slots ! i)\<lparr>pslot_refs := c\<rparr>]\<rparr>)"
    "\<And>c. table_map ref_cls pslot_refs (slots[i := (slots ! i)\<lparr>pslot_refs := c\<rparr>]) = (ref_map s)(?k \<mapsto> c)"
    using InsertOrGetPageRefSlot_map [OF Cons.prems(1,2) room] by metis
  define t where "t = slots[i := (slots ! i)\<lparr>pslot_refs := pslot_refs ref\<rparr>]"
  have wf: "refs_wf (s\<lparr>page_ref_slots := t\<rparr>)" and m: "table_map ref_cls pslot_refs t = (ref_map s)(?k \<mapsto> pslot_refs ref)"
    using *(2,3) by (simp_all add: t_def)
  have len: "length t = length (page_ref_slots s)" using wf Cons.prems(2) by (simp add: refs_wf_def)
  have "card (dom (table_map ref_cls pslot_refs t)) \<le> Suc (card (dom (ref_map s)))"
    unfolding m by (rule card_dom_update [OF ref_tab.dom_finite])
  then have "card (dom (table_map ref_cls pslot_refs t)) + length refs \<le> length t" using Cons.prems(3) len by simp
  then show ?case using Cons.IH [of "s\<lparr>page_ref_slots := t\<rparr>"] Cons.prems(1) wf *(1) m
    by (simp add: t_def [symmetric] del: fun_upd_apply dom_fun_upd)
qed

lemma fold_refs:
  assumes "\<And>i j k. \<lbrakk>i < length t; j < length t; ref_cls (t ! i) = Held k; ref_cls (t ! j) = Held k\<rbrakk> \<Longrightarrow> i = j"
  shows "fold (\<lambda>ref m. m((pslot_group ref, pslot_page ref) \<mapsto> pslot_refs ref))
           (filter (\<lambda>slot. pslot_state slot = kResident) t) m0 = m0 ++ table_map ref_cls pslot_refs t"
  using assms
proof (induction t arbitrary: m0)
  case (Cons x t)
  have IH: "fold (\<lambda>ref m. m((pslot_group ref, pslot_page ref) \<mapsto> pslot_refs ref))
           (filter (\<lambda>slot. pslot_state slot = kResident) t) m1 = m1 ++ table_map ref_cls pslot_refs t" for m1
  proof (rule Cons.IH)
    show "i = j" if "i < length t" "j < length t" "ref_cls (t ! i) = Held k" "ref_cls (t ! j) = Held k" for i j k
      using Cons.prems [of "Suc i" "Suc j" k] that by simp
  qed
  show ?case
  proof (cases "pslot_state x = kResident")
    case True
    let ?k = "(pslot_group x, pslot_page x)"
    have x: "ref_cls x = Held ?k" using True by (simp add: ref_cls_def)
    have "table_map ref_cls pslot_refs t ?k = None"
      unfolding table_map_None using Cons.prems [of 0 "Suc _" ?k] x by fastforce
    then have "m0(?k \<mapsto> pslot_refs x) ++ table_map ref_cls pslot_refs t = m0 ++ table_map ref_cls pslot_refs (x # t)"
      using x by (auto simp: fun_eq_iff map_add_def split: option.split)
    then show ?thesis using True IH by (simp del: fun_upd_apply table_map.simps)
  next
    case False
    then have "ref_cls x \<noteq> Held k" for k by (simp add: ref_cls_def split: EntryState.split)
    then have "table_map ref_cls pslot_refs (x # t) = table_map ref_cls pslot_refs t" by (simp add: fun_eq_iff)
    then show ?thesis using False IH by (simp del: fun_upd_apply table_map.simps)
  qed
qed (simp add: fun_eq_iff map_add_def)

lemma RebuildPageRefIndex_map:
  assumes "size_ok s" and "refs_wf s"
  obtains slots where "RebuildPageRefIndexLocked s = (Inr (), s\<lparr>page_ref_slots := slots\<rparr>)"
    and "refs_wf (s\<lparr>page_ref_slots := slots\<rparr>)" and "table_map ref_cls pslot_refs slots = ref_map s"
proof -
  let ?t = "replicate (MaxPageRefSlots (max_page_handles s)) empty_pslot"
    and ?refs = "filter (\<lambda>slot. pslot_state slot = kResident) (page_ref_slots s)"
  have vac: "\<forall>x \<in> set ?t. ref_cls x = Vacant" by (auto simp: ref_cls_def empty_pslot_def)
  have wf: "refs_wf (s\<lparr>page_ref_slots := ?t\<rparr>)" using vac by (simp add: refs_wf_def probe_inv_vacant)
  have e: "table_map ref_cls pslot_refs ?t = Map.empty" by (rule table_map_vacant [OF vac])
  have inv: "probe_inv ref_cls ref_order (page_ref_slots s)" and len: "length (page_ref_slots s) = MaxPageRefSlots (max_page_handles s)"
    using assms(2) by (simp_all add: refs_wf_def)
  have "length ?refs \<le> MaxPageRefSlots (max_page_handles s)" using length_filter_le len by metis
  then obtain slots where r: "RebuildPageRefIndexLocked s = (Inr (), s\<lparr>page_ref_slots := slots\<rparr>)"
    "refs_wf (s\<lparr>page_ref_slots := slots\<rparr>)"
    "table_map ref_cls pslot_refs slots =
       fold (\<lambda>ref m. m((pslot_group ref, pslot_page ref) \<mapsto> pslot_refs ref)) ?refs Map.empty"
    using insert_refs_map [of "s\<lparr>page_ref_slots := ?t\<rparr>" ?refs] assms(1) wf e
    by (auto simp: RebuildPageRefIndexLocked_def Let_def)
  have "fold (\<lambda>ref m. m((pslot_group ref, pslot_page ref) \<mapsto> pslot_refs ref)) ?refs Map.empty
          = Map.empty ++ ref_map s"
  proof (rule fold_refs)
    show "i = j" if "i < length (page_ref_slots s)" "j < length (page_ref_slots s)"
      "ref_cls (page_ref_slots s ! i) = Held k" "ref_cls (page_ref_slots s ! j) = Held k" for i j k
      using probe_inv_unique [OF inv that(2,4) that(1,3)] .
  qed
  then show ?thesis using that [OF r(1,2)] r(3) by simp
qed

end
