(* ===== verification/Prefix_Content.thy ===== *)
theory Prefix_Content
  imports Prefix_Tables "HOL-Library.Multiset"
begin

text \<open>
  What the prefix cache holds, apart from where its arenas keep it: for every resident node its
  key, its range, its epoch and its groups with their pages and counters. The arena invariant
  makes the methods updates of that content.
\<close>

section \<open>Content\<close>

record group_info =
  gi_group :: nat
  gi_start :: nat
  gi_end :: nat
  gi_pages :: "nat list"
  gi_active :: nat
  gi_pending :: nat

record node_info =
  ni_namespace :: PrefixDigest
  ni_digest :: PrefixDigest
  ni_start :: nat
  ni_end :: nat
  ni_epoch :: nat
  ni_groups :: "group_info list"

definition entry_info :: "prefix_cache \<Rightarrow> SharedGroupEntry \<Rightarrow> group_info" where
  "entry_info s e = \<lparr>gi_group = entry_group e, gi_start = entry_start e, gi_end = entry_end e,
     gi_pages = handle_pages s e, gi_active = active_ref_count e, gi_pending = pending_load_count e\<rparr>"

definition describe :: "prefix_cache \<Rightarrow> SharedPrefixNode \<Rightarrow> node_info" where
  "describe s node = \<lparr>ni_namespace = node_namespace node, ni_digest = node_digest node,
     ni_start = node_start node, ni_end = node_end node, ni_epoch = last_access_epoch node,
     ni_groups = map (entry_info s) (node_entries s node)\<rparr>"

definition content :: "prefix_cache \<Rightarrow> nat \<Rightarrow> node_info option" where
  "content s n = (if n < max_nodes s \<and> is_resident (pc_nodes s ! n) then Some (describe s (pc_nodes s ! n)) else None)"

section \<open>Totals over the content\<close>

text \<open>A quantity of the resident nodes, summed: a number or a multiset.\<close>

definition tally :: "nat \<Rightarrow> (node_info \<Rightarrow> 'm) \<Rightarrow> (nat \<Rightarrow> node_info option) \<Rightarrow> 'm::comm_monoid_add" where
  "tally N f a = (\<Sum>n<N. case a n of None \<Rightarrow> 0 | Some i \<Rightarrow> f i)"

definition page_keys :: "node_info \<Rightarrow> (nat \<times> nat) list" where
  "page_keys i = concat (map (\<lambda>g. map (Pair (gi_group g)) (gi_pages g)) (ni_groups i))"

definition held_pages :: "prefix_cache \<Rightarrow> (nat \<times> nat) multiset" where
  "held_pages s = tally (max_nodes s) (\<lambda>i. mset (page_keys i)) (content s)"

definition held_entries :: "prefix_cache \<Rightarrow> nat" where
  "held_entries s = tally (max_nodes s) (\<lambda>i. length (ni_groups i)) (content s)"

lemma tally_cong: "(\<And>n. n < N \<Longrightarrow> map_option f (a n) = map_option g (b n)) \<Longrightarrow> tally N f a = tally N g b"
  unfolding tally_def
proof (rule sum.cong [OF refl])
  fix n assume "\<And>n. n < N \<Longrightarrow> map_option f (a n) = map_option g (b n)" and "n \<in> {..<N}"
  then have "map_option f (a n) = map_option g (b n)" by simp
  then show "(case a n of None \<Rightarrow> 0 | Some i \<Rightarrow> f i) = (case b n of None \<Rightarrow> 0 | Some i \<Rightarrow> g i)"
    by (cases "a n"; cases "b n") simp_all
qed

lemma tally_split:
  assumes "n < N"
  shows "tally N f a = (case a n of None \<Rightarrow> 0 | Some i \<Rightarrow> f i) + tally N f (a(n := None))"
proof -
  have "tally N f a = (case a n of None \<Rightarrow> 0 | Some i \<Rightarrow> f i) + (\<Sum>m \<in> {..<N} - {n}. case a m of None \<Rightarrow> 0 | Some i \<Rightarrow> f i)"
    unfolding tally_def by (rule sum.remove) (use assms in auto)
  moreover have "tally N f (a(n := None)) = 0 + (\<Sum>m \<in> {..<N} - {n}. case (a(n := None)) m of None \<Rightarrow> 0 | Some i \<Rightarrow> f i)"
    unfolding tally_def by (subst sum.remove [of _ n]) (use assms in auto)
  ultimately show ?thesis by simp
qed

lemma tally_drop: "n < N \<Longrightarrow> a n = Some i \<Longrightarrow> tally N f a = f i + tally N f (a(n := None))"
  using tally_split [of n N f a] by simp

lemma tally_add: "n < N \<Longrightarrow> a n = None \<Longrightarrow> tally N f (a(n \<mapsto> i)) = f i + tally N f a"
  using tally_split [of n N f "a(n \<mapsto> i)"] by (simp add: fun_upd_idem)

lemma tally_empty [simp]: "tally N f Map.empty = 0"
  by (simp add: tally_def)

lemma size_tally: "size (tally N (f :: node_info \<Rightarrow> 'k multiset) a) = tally N (\<lambda>i. size (f i)) a"
proof -
  have "size (\<Sum>n<N. case a n of None \<Rightarrow> {#} | Some i \<Rightarrow> f i) = (\<Sum>n<N. case a n of None \<Rightarrow> 0 | Some i \<Rightarrow> size (f i))"
    by (induction N) (auto split: option.split)
  then show ?thesis by (simp add: tally_def)
qed

section \<open>The arenas\<close>

definition entry_ok :: "prefix_cache \<Rightarrow> SharedGroupEntry \<Rightarrow> bool" where
  "entry_ok s e \<longleftrightarrow> entry_state e = kResident \<and> first_page_handle e + page_handle_count e \<le> next_page_handle s"

definition slot_range :: "SharedPrefixNode \<Rightarrow> nat set" where
  "slot_range node = {first_group_entry node..<first_group_entry node + group_entry_count node}"

definition node_ok :: "prefix_cache \<Rightarrow> SharedPrefixNode \<Rightarrow> bool" where
  "node_ok s node \<longleftrightarrow> first_group_entry node + group_entry_count node \<le> next_group_entry s
     \<and> (\<forall>i \<in> slot_range node. entry_ok s (group_entries s ! i))"

definition arena_ok :: "prefix_cache \<Rightarrow> bool" where
  "arena_ok s \<longleftrightarrow> size_ok s \<and> length (pc_nodes s) = max_nodes s
     \<and> length (group_entries s) = max_group_entries s \<and> length (page_handles s) = max_page_handles s
     \<and> next_group_entry s \<le> max_group_entries s \<and> next_page_handle s \<le> max_page_handles s
     \<and> (\<forall>n < max_nodes s. is_resident (pc_nodes s ! n) \<longrightarrow> node_ok s (pc_nodes s ! n))
     \<and> (\<forall>m < max_nodes s. \<forall>n < max_nodes s. m \<noteq> n \<longrightarrow> is_resident (pc_nodes s ! m) \<longrightarrow> is_resident (pc_nodes s ! n)
          \<longrightarrow> slot_range (pc_nodes s ! m) \<inter> slot_range (pc_nodes s ! n) = {})
     \<and> held_entries s \<le> next_group_entry s \<and> size (held_pages s) \<le> next_page_handle s"

lemma arena_sizes:
  assumes "arena_ok s"
  shows "next_group_entry s \<le> 2 ^ 31" and "next_page_handle s \<le> 2 ^ 30" and "size_ok s"
    and "length (pc_nodes s) = max_nodes s" and "length (group_entries s) = max_group_entries s"
    and "length (page_handles s) = max_page_handles s" and "next_group_entry s \<le> max_group_entries s"
    and "next_page_handle s \<le> max_page_handles s"
  using assms by (auto simp: arena_ok_def size_ok_def)

lemma content_Some: "content s n = Some i \<longleftrightarrow> n < max_nodes s \<and> is_resident (pc_nodes s ! n) \<and> i = describe s (pc_nodes s ! n)"
  by (auto simp: content_def)

lemma content_None: "content s n = None \<longleftrightarrow> max_nodes s \<le> n \<or> \<not> is_resident (pc_nodes s ! n)"
  by (auto simp: content_def)

lemma arena_node:
  assumes "arena_ok s" and "content s n = Some i"
  shows "n < max_nodes s" and "is_resident (pc_nodes s ! n)" and "node_ok s (pc_nodes s ! n)"
    and "i = describe s (pc_nodes s ! n)"
  using assms by (auto simp: arena_ok_def content_Some)

lemma map_u32_range: "a + k \<le> 2 ^ 32 \<Longrightarrow> map (\<lambda>i. u32 (a + i)) [0..<k] = [a..<a + k]"
  by (auto simp: list_eq_iff_nth_eq u32_def)

lemma entry_slots_range:
  assumes "arena_ok s" and "node_ok s node"
  shows "entry_slots node = [first_group_entry node..<first_group_entry node + group_entry_count node]"
    and "set (entry_slots node) = slot_range node" and "distinct (entry_slots node)"
proof -
  have "first_group_entry node + group_entry_count node \<le> 2 ^ 32"
    using assms arena_sizes(1) [OF assms(1)] by (simp add: node_ok_def)
  then show e: "entry_slots node = [first_group_entry node..<first_group_entry node + group_entry_count node]"
    unfolding entry_slots_def by (rule map_u32_range)
  show "set (entry_slots node) = slot_range node" "distinct (entry_slots node)" by (auto simp: e slot_range_def)
qed

lemma node_entries_range:
  assumes "arena_ok s" and "node_ok s node"
  shows "node_entries s node = take (group_entry_count node) (drop (first_group_entry node) (group_entries s))"
    and "\<And>e. e \<in> set (node_entries s node) \<Longrightarrow> entry_ok s e"
    and "resident_entries s node = node_entries s node"
    and "length (node_entries s node) = group_entry_count node"
proof -
  note r = entry_slots_range [OF assms]
  have len: "first_group_entry node + group_entry_count node \<le> length (group_entries s)"
    using assms arena_sizes [OF assms(1)] by (simp add: node_ok_def)
  show "node_entries s node = take (group_entry_count node) (drop (first_group_entry node) (group_entries s))"
    unfolding node_entries_def r(1) using len by (auto simp: list_eq_iff_nth_eq)
  show ok: "\<And>e. e \<in> set (node_entries s node) \<Longrightarrow> entry_ok s e"
    using assms(2) r(2) by (auto simp: node_entries_def node_ok_def)
  then show "resident_entries s node = node_entries s node"
    by (auto simp: resident_entries_def entry_ok_def filter_id_conv)
  show "length (node_entries s node) = group_entry_count node" by (simp add: node_entries_def entry_slots_def)
qed

lemma handle_pages_range:
  assumes "arena_ok s" and "entry_ok s e"
  shows "handle_pages s e = take (page_handle_count e) (drop (first_page_handle e) (page_handles s))"
    and "length (handle_pages s e) = page_handle_count e"
proof -
  have le: "first_page_handle e + page_handle_count e \<le> 2 ^ 32" "first_page_handle e + page_handle_count e \<le> length (page_handles s)"
    using assms arena_sizes [OF assms(1)] by (auto simp: entry_ok_def)
  have "handle_pages s e = map ((!) (page_handles s)) (map (\<lambda>i. u32 (first_page_handle e + i)) [0..<page_handle_count e])"
    by (simp add: handle_pages_def)
  then show "handle_pages s e = take (page_handle_count e) (drop (first_page_handle e) (page_handles s))"
    unfolding map_u32_range [OF le(1)] using le(2) by (auto simp: list_eq_iff_nth_eq)
  show "length (handle_pages s e) = page_handle_count e" by (simp add: handle_pages_def)
qed

lemma describe_cong:
  assumes "group_entries s' = group_entries s" and "page_handles s' = page_handles s"
  shows "describe s' = describe s" and "entry_info s' = entry_info s" and "node_entries s' = node_entries s"
    and "handle_pages s' = handle_pages s"
  using assms by (auto simp: fun_eq_iff describe_def entry_info_def node_entries_def handle_pages_def)

lemma content_cong:
  assumes "group_entries s' = group_entries s" and "page_handles s' = page_handles s"
    and "pc_nodes s' = pc_nodes s" and "max_nodes s' = max_nodes s"
  shows "content s' = content s" and "held_pages s' = held_pages s" and "held_entries s' = held_entries s"
proof -
  show c: "content s' = content s" using assms describe_cong [OF assms(1,2)] by (simp add: fun_eq_iff content_def)
  show "held_pages s' = held_pages s" "held_entries s' = held_entries s"
    by (simp_all add: held_pages_def held_entries_def c assms(4))
qed

section \<open>Changes that leave the arenas alone\<close>

lemma arena_cong:
  assumes "group_entries s' = group_entries s" and "page_handles s' = page_handles s"
    and "pc_nodes s' = pc_nodes s" and "max_nodes s' = max_nodes s"
    and "max_group_entries s' = max_group_entries s" and "max_page_handles s' = max_page_handles s"
    and "next_group_entry s' = next_group_entry s" and "next_page_handle s' = next_page_handle s"
  shows "arena_ok s' = arena_ok s"
  unfolding arena_ok_def content_cong(2,3) [OF assms(1-4)] by (simp add: assms size_ok_def node_ok_def entry_ok_def)

lemma store_frame [simp]:
  "content (s\<lparr>node_index_slots := t\<rparr>) = content s" "arena_ok (s\<lparr>node_index_slots := t\<rparr>) = arena_ok s"
  "content (s\<lparr>page_ref_slots := u\<rparr>) = content s" "arena_ok (s\<lparr>page_ref_slots := u\<rparr>) = arena_ok s"
  "content (s\<lparr>global_epoch := n\<rparr>) = content s" "arena_ok (s\<lparr>global_epoch := n\<rparr>) = arena_ok s"
  "content (s\<lparr>lookup_hits := n\<rparr>) = content s" "arena_ok (s\<lparr>lookup_hits := n\<rparr>) = arena_ok s"
  "content (s\<lparr>lookup_misses := n\<rparr>) = content s" "arena_ok (s\<lparr>lookup_misses := n\<rparr>) = arena_ok s"
  "content (s\<lparr>evicted_total := n\<rparr>) = content s" "arena_ok (s\<lparr>evicted_total := n\<rparr>) = arena_ok s"
  "content (s\<lparr>protected_total := n\<rparr>) = content s" "arena_ok (s\<lparr>protected_total := n\<rparr>) = arena_ok s"
  "content (s\<lparr>local_attachments := atts\<rparr>) = content s" "arena_ok (s\<lparr>local_attachments := atts\<rparr>) = arena_ok s"
  "content (s\<lparr>next_local_attachment := n\<rparr>) = content s" "arena_ok (s\<lparr>next_local_attachment := n\<rparr>) = arena_ok s"
  by (rule content_cong(1) arena_cong; simp)+

section \<open>Changes of one node\<close>

definition on_slots :: "(SharedGroupEntry \<Rightarrow> SharedGroupEntry) \<Rightarrow> nat list \<Rightarrow> SharedGroupEntry list \<Rightarrow> SharedGroupEntry list" where
  "on_slots f slots es = fold (\<lambda>i es. es[i := f (es ! i)]) slots es"

lemma length_on_slots [simp]: "length (on_slots f slots es) = length es"
  by (induction slots arbitrary: es) (simp_all add: on_slots_def)

lemma nth_on_slots:
  "distinct slots \<Longrightarrow> i < length es \<Longrightarrow> on_slots f slots es ! i = (if i \<in> set slots then f (es ! i) else es ! i)"
proof (induction slots arbitrary: es)
  case (Cons j slots)
  then show ?case using Cons.IH [of "es[j := f (es ! j)]"] by (cases "i = j") (auto simp: on_slots_def)
qed (simp add: on_slots_def)

text \<open>What a change of counters keeps of an entry.\<close>

definition keeps_range :: "(SharedGroupEntry \<Rightarrow> SharedGroupEntry) \<Rightarrow> bool" where
  "keeps_range f \<longleftrightarrow> (\<forall>e. entry_state (f e) = entry_state e \<and> first_page_handle (f e) = first_page_handle e
     \<and> page_handle_count (f e) = page_handle_count e \<and> entry_group (f e) = entry_group e)"

lemma held_same:
  assumes "max_nodes s' = max_nodes s"
    and "\<And>n. n < max_nodes s \<Longrightarrow> map_option page_keys (content s' n) = map_option page_keys (content s n)"
    and "\<And>n. n < max_nodes s \<Longrightarrow> map_option (length \<circ> ni_groups) (content s' n) = map_option (length \<circ> ni_groups) (content s n)"
  shows "held_pages s' = held_pages s" and "held_entries s' = held_entries s"
proof -
  have "map_option (\<lambda>i. mset (page_keys i)) (content s' n) = map_option (\<lambda>i. mset (page_keys i)) (content s n)" if "n < max_nodes s" for n
    using assms(2) [OF that] by (cases "content s' n"; cases "content s n") simp_all
  then show "held_pages s' = held_pages s" unfolding held_pages_def assms(1) by (rule tally_cong)
  have "map_option (\<lambda>i. length (ni_groups i)) (content s' n) = map_option (\<lambda>i. length (ni_groups i)) (content s n)" if "n < max_nodes s" for n
    using assms(3) [OF that] by (simp add: comp_def)
  then show "held_entries s' = held_entries s" unfolding held_entries_def assms(1) by (rule tally_cong)
qed

lemma change_entries:
  assumes ok: "arena_ok s" and n: "content s n = Some i" and f: "keeps_range f"
    and g: "\<And>e. entry_info s (f e) = g (entry_info s e)"
    and s': "s' = s\<lparr>group_entries := on_slots f (entry_slots (pc_nodes s ! n)) (group_entries s)\<rparr>"
  shows "arena_ok s'" and "content s' = (content s)(n \<mapsto> i\<lparr>ni_groups := map g (ni_groups i)\<rparr>)"
proof -
  note node = arena_node [OF ok n]
  note slots = entry_slots_range [OF ok node(3)]
  let ?es = "group_entries s'"
  have other: "?es ! j = group_entries s ! j" if "j \<notin> slot_range (pc_nodes s ! n)" "j < length (group_entries s)" for j
    using nth_on_slots [OF slots(3) that(2)] that(1) slots(2) by (simp add: s')
  have own: "?es ! j = f (group_entries s ! j)" if "j \<in> slot_range (pc_nodes s ! n)" "j < length (group_entries s)" for j
    using nth_on_slots [OF slots(3) that(2)] that(1) slots(2) by (simp add: s')
  have len: "j < length (group_entries s)" if "m < max_nodes s" "is_resident (pc_nodes s ! m)" "j \<in> slot_range (pc_nodes s ! m)" for m j
  proof -
    have "node_ok s (pc_nodes s ! m)" using ok that by (simp add: arena_ok_def)
    then show ?thesis using that(3) arena_sizes [OF ok] by (auto simp: node_ok_def slot_range_def)
  qed
  have info: "entry_info s' = entry_info s" by (simp add: fun_eq_iff entry_info_def handle_pages_def s')
  have oks: "entry_ok s' (?es ! j)" if "entry_ok s (group_entries s ! j)" "j < length (group_entries s)" for j
    using that own other f by (cases "j \<in> slot_range (pc_nodes s ! n)") (simp_all add: entry_ok_def keeps_range_def s')
  have nodes: "node_ok s' (pc_nodes s ! m)" if "m < max_nodes s" "is_resident (pc_nodes s ! m)" for m
    using ok that len [OF that] oks by (auto simp: arena_ok_def node_ok_def s')
  have ents: "node_entries s' (pc_nodes s ! m) =
      map (if m = n then f else id) (node_entries s (pc_nodes s ! m))" if m: "m < max_nodes s" "is_resident (pc_nodes s ! m)" for m
  proof -
    have mok: "node_ok s (pc_nodes s ! m)" using ok m by (simp add: arena_ok_def)
    have disj: "m \<noteq> n \<Longrightarrow> slot_range (pc_nodes s ! m) \<inter> slot_range (pc_nodes s ! n) = {}"
      using ok m node(1,2) by (simp add: arena_ok_def)
    have "?es ! j = (if m = n then f else id) (group_entries s ! j)" if "j \<in> slot_range (pc_nodes s ! m)" for j
      using own other len [OF m that] that disj by auto
    then show ?thesis using entry_slots_range(2) [OF ok mok] by (simp add: node_entries_def)
  qed
  have c: "content s' m = ((content s)(n \<mapsto> i\<lparr>ni_groups := map g (ni_groups i)\<rparr>)) m" for m
    using node ents [of m] info g by (auto simp: content_def describe_def s')
  then show cont: "content s' = (content s)(n \<mapsto> i\<lparr>ni_groups := map g (ni_groups i)\<rparr>)" by (rule ext)
  have keys: "page_keys (i\<lparr>ni_groups := map g (ni_groups i)\<rparr>) = page_keys i"
  proof -
    have "gi_group (entry_info s (f e)) = gi_group (entry_info s e)" "gi_pages (entry_info s (f e)) = gi_pages (entry_info s e)" for e
      using f by (simp_all add: entry_info_def handle_pages_def keeps_range_def)
    then have "gi_group (g x) = gi_group x \<and> gi_pages (g x) = gi_pages x" if "x \<in> set (ni_groups i)" for x
      using that node(4) by (auto simp: describe_def g)
    then show ?thesis unfolding page_keys_def by (auto intro!: arg_cong [where f = concat])
  qed
  have max: "max_nodes s' = max_nodes s" by (simp add: s')
  have held: "held_pages s' = held_pages s" "held_entries s' = held_entries s"
    using held_same [OF max] n keys by (simp_all add: cont)
  show "arena_ok s'"
    using ok nodes held unfolding arena_ok_def by (simp add: s' size_ok_def)
qed

lemma touch_node:
  assumes ok: "arena_ok s" and n: "content s n = Some i"
    and s': "s' = s\<lparr>pc_nodes := (pc_nodes s)[n := (pc_nodes s ! n)\<lparr>last_access_epoch := e\<rparr>]\<rparr>"
  shows "arena_ok s'" and "content s' = (content s)(n \<mapsto> i\<lparr>ni_epoch := e\<rparr>)"
proof -
  note node = arena_node [OF ok n]
  have len: "length (pc_nodes s) = max_nodes s" using arena_sizes(4) [OF ok] .
  have flds: "max_nodes s' = max_nodes s" "group_entries s' = group_entries s" "page_handles s' = page_handles s"
    "next_group_entry s' = next_group_entry s" "next_page_handle s' = next_page_handle s" "length (pc_nodes s') = max_nodes s"
    "max_group_entries s' = max_group_entries s" "max_page_handles s' = max_page_handles s"
    using len by (simp_all add: s')
  have desc: "describe s' x = describe s x" for x by (rule fun_cong [OF describe_cong(1)]) (simp_all add: s')
  have ents: "node_entries s (x\<lparr>last_access_epoch := e\<rparr>) = node_entries s x" for x
    by (simp add: node_entries_def entry_slots_def)
  have nth: "pc_nodes s' ! m = (if m = n then (pc_nodes s ! n)\<lparr>last_access_epoch := e\<rparr> else pc_nodes s ! m)" for m
    using node(1) len by (simp add: s')
  have res: "is_resident (pc_nodes s' ! m) = is_resident (pc_nodes s ! m)" "slot_range (pc_nodes s' ! m) = slot_range (pc_nodes s ! m)"
    "node_ok s' (pc_nodes s' ! m) = node_ok s (pc_nodes s ! m)" for m
    by (simp_all add: nth is_resident_def slot_range_def node_ok_def entry_ok_def flds)
  show cont: "content s' = (content s)(n \<mapsto> i\<lparr>ni_epoch := e\<rparr>)"
  proof
    fix m
    have "describe s ((pc_nodes s ! n)\<lparr>last_access_epoch := e\<rparr>) = i\<lparr>ni_epoch := e\<rparr>"
      using node(4) by (simp add: describe_def ents)
    then show "content s' m = ((content s)(n \<mapsto> i\<lparr>ni_epoch := e\<rparr>)) m"
      using node res(1) by (simp add: content_def desc nth is_resident_def flds)
  qed
  have held: "held_pages s' = held_pages s" "held_entries s' = held_entries s"
    using held_same [OF flds(1)] n by (simp_all add: cont page_keys_def)
  show "arena_ok s'" using ok held res unfolding arena_ok_def by (simp add: flds size_ok_def)
qed

lemma drop_node:
  assumes ok: "arena_ok s" and n: "content s n = Some i" and x: "\<not> is_resident x"
    and s': "s' = s\<lparr>pc_nodes := (pc_nodes s)[n := x]\<rparr>"
  shows "arena_ok s'" and "content s' = (content s)(n := None)"
    and "held_pages s = mset (page_keys i) + held_pages s'"
proof -
  note node = arena_node [OF ok n]
  have len: "length (pc_nodes s) = max_nodes s" using arena_sizes(4) [OF ok] .
  have flds: "max_nodes s' = max_nodes s" "group_entries s' = group_entries s" "page_handles s' = page_handles s"
    "next_group_entry s' = next_group_entry s" "next_page_handle s' = next_page_handle s" "length (pc_nodes s') = max_nodes s"
    "max_group_entries s' = max_group_entries s" "max_page_handles s' = max_page_handles s"
    using len by (simp_all add: s')
  have desc: "describe s' x = describe s x" for x by (rule fun_cong [OF describe_cong(1)]) (simp_all add: s')
  have nth: "pc_nodes s' ! m = (if m = n then x else pc_nodes s ! m)" for m using node(1) len by (simp add: s')
  note max = flds(1)
  show cont: "content s' = (content s)(n := None)" using x by (auto simp: fun_eq_iff content_def max nth desc)
  show held: "held_pages s = mset (page_keys i) + held_pages s'"
    unfolding held_pages_def max cont by (rule tally_drop) (use node(1) n in simp_all)
  have "held_entries s = length (ni_groups i) + held_entries s'"
    unfolding held_entries_def max cont by (rule tally_drop) (use node(1) n in simp_all)
  moreover have "node_ok s' y = node_ok s y" for y by (simp add: flds node_ok_def entry_ok_def)
  ultimately show "arena_ok s'" using ok held x unfolding arena_ok_def by (simp add: nth flds size_ok_def)
qed

end
