(* ===== verification/Prefix_Invariant.thy ===== *)
theory Prefix_Invariant
  imports Prefix_Content
begin

text \<open>
  The invariant of the prefix cache: the arenas are well formed, the node index names exactly the
  resident nodes, the page reference table counts exactly the pages their groups hold, the
  counters of the groups are those of the attachments, and every node has its required groups.
\<close>

section \<open>The page reference table\<close>

definition refs_count :: "prefix_cache \<Rightarrow> (nat \<times> nat) multiset \<Rightarrow> bool" where
  "refs_count s M \<longleftrightarrow> refs_wf s \<and> (\<forall>k. ref_map s k = (if count M k = 0 then None else Some (count M k)))"

lemma refs_countD:
  assumes "refs_count s M"
  shows "refs_wf s" and "ref_map s k = (if count M k = 0 then None else Some (count M k))"
  using assms unfolding refs_count_def by blast+

lemma refs_dom:
  assumes "refs_count s M"
  shows "card (dom (ref_map s)) \<le> size M"
proof -
  have "dom (ref_map s) = set_mset M" using refs_countD(2) [OF assms] by (auto simp: dom_def count_eq_zero_iff)
  moreover have "card (set_mset M) \<le> size M" by (induction M) (auto simp: card_insert_if)
  ultimately show ?thesis by simp
qed

lemma refs_room:
  assumes "refs_count s M" and "size_ok s" and "size M < max_page_handles s"
  shows "card (dom (ref_map s)) < length (page_ref_slots s)"
proof -
  have len: "length (page_ref_slots s) = MaxPageRefSlots (max_page_handles s)"
    using refs_countD(1) [OF assms(1)] by (simp add: refs_wf_def)
  have "2 * max_page_handles s \<le> length (page_ref_slots s)"
    unfolding len by (rule refs_size [OF assms(2)])
  then have "max_page_handles s < length (page_ref_slots s)" using assms(2) by (simp add: size_ok_def)
  then show ?thesis using refs_dom [OF assms(1)] assms(3) by simp
qed

lemma IncrementPageRef_count:
  assumes r: "refs_count s M" and "size_ok s" and "size M < max_page_handles s"
  obtains slots where "IncrementPageRefLocked g p s = (Inr (), s\<lparr>page_ref_slots := slots\<rparr>)"
    and "refs_count (s\<lparr>page_ref_slots := slots\<rparr>) (add_mset (g, p) M)"
proof -
  have wf: "refs_wf s" and m: "\<And>k. ref_map s k = (if count M k = 0 then None else Some (count M k))"
    using refs_countD [OF r] by blast+
  have "count M (g, p) < 2 ^ 32 - 1" using count_le_size [of M "(g, p)"] assms(2,3) by (simp add: size_ok_def)
  then obtain slots where *: "IncrementPageRefLocked g p s = (Inr (), s\<lparr>page_ref_slots := slots\<rparr>)"
    "refs_wf (s\<lparr>page_ref_slots := slots\<rparr>)"
    "table_map ref_cls pslot_refs slots = (ref_map s)((g, p) \<mapsto> Suc (case ref_map s (g, p) of None \<Rightarrow> 0 | Some c \<Rightarrow> c))"
    using IncrementPageRef_map [OF assms(2) wf refs_room [OF assms], of g p] m by (metis option.inject option.distinct(1))
  have "table_map ref_cls pslot_refs slots k = (if count (add_mset (g, p) M) k = 0 then None else Some (count (add_mset (g, p) M) k))" for k
    by (cases "k = (g, p)") (simp_all add: *(3) m count_eq_zero_iff split: option.split)
  then show ?thesis using that [OF *(1)] *(2) by (simp add: refs_count_def)
qed

lemma DecrementPageRef_count:
  assumes r: "refs_count s (add_mset (g, p) M)" and "size_ok s"
  obtains slots where "DecrementPageRefLocked g p s = (Inr ((g, p) \<notin># M), s\<lparr>page_ref_slots := slots\<rparr>)"
    and "refs_count (s\<lparr>page_ref_slots := slots\<rparr>) M"
proof -
  have wf: "refs_wf s" and m: "\<And>k. ref_map s k = (if count (add_mset (g, p) M) k = 0 then None else Some (count (add_mset (g, p) M) k))"
    using refs_countD [OF r] by blast+
  have "ref_map s (g, p) = Some (Suc (count M (g, p)))" using m by simp
  then obtain slots where *: "DecrementPageRefLocked g p s = (Inr (count M (g, p) = 0), s\<lparr>page_ref_slots := slots\<rparr>)"
    "refs_wf (s\<lparr>page_ref_slots := slots\<rparr>)"
    "table_map ref_cls pslot_refs slots = (ref_map s)((g, p) := if count M (g, p) = 0 then None else Some (count M (g, p)))"
    using DecrementPageRef_map [OF assms(2) wf] by metis
  have "table_map ref_cls pslot_refs slots k = (if count M k = 0 then None else Some (count M k))" for k
    by (cases "k = (g, p)") (simp_all add: *(3) m count_eq_zero_iff split: option.split)
  then show ?thesis using that [of slots] *(1,2) by (simp add: refs_count_def count_eq_zero_iff)
qed

section \<open>The invariant\<close>

definition index_exact :: "prefix_cache \<Rightarrow> bool" where
  "index_exact s \<longleftrightarrow> index_wf s \<and> (\<forall>d n. index_map s d = Some n \<longleftrightarrow> (\<exists>i. content s n = Some i \<and> ni_digest i = d))"

text \<open>How often the attachments hold a node, and how many loads they have on it.\<close>

definition holds :: "(nat \<times> LocalAttachment) list \<Rightarrow> nat \<Rightarrow> nat" where
  "holds atts n = (\<Sum>(h, a) \<leftarrow> atts. count_list (att_nodes a) n)"

definition loads :: "(nat \<times> LocalAttachment) list \<Rightarrow> nat \<Rightarrow> nat" where
  "loads atts n = (\<Sum>(h, a) \<leftarrow> atts. att_loads a * count_list (att_nodes a) n)"

definition attach_ok :: "(nat \<Rightarrow> node_info option) \<Rightarrow> (nat \<times> LocalAttachment) list \<Rightarrow> nat \<Rightarrow> bool" where
  "attach_ok c atts next_handle \<longleftrightarrow>
     (\<forall>n i. c n = Some i \<longrightarrow> (\<forall>g \<in> set (ni_groups i). gi_active g = holds atts n \<and> gi_pending g = loads atts n))
     \<and> (\<forall>(h, a) \<in> set atts. att_nodes a \<noteq> [] \<and> set (att_nodes a) \<subseteq> dom c \<and> 0 < h \<and> h < next_handle
          \<and> (att_release a \<longrightarrow> 0 < att_loads a))
     \<and> distinct (map fst atts) \<and> 0 < next_handle"

definition config_ok :: "prefix_cache \<Rightarrow> bool" where
  "config_ok s \<longleftrightarrow> (\<exists>spec \<in> set (pc_specs s). required_for_reuse spec)
     \<and> (\<forall>spec \<in> set (pc_specs s). 0 < raw_page_tokens spec \<and> (required_for_reuse spec \<longrightarrow> raw_page_tokens spec dvd commit_boundary_tokens s))
     \<and> length (pc_specs s) < 2 ^ 31
     \<and> 0 < hash_block_tokens s \<and> 0 < commit_boundary_tokens s"

definition complete_info :: "HostKVGroupSpec list \<Rightarrow> node_info \<Rightarrow> bool" where
  "complete_info specs i \<longleftrightarrow> (\<forall>spec \<in> set specs. required_for_reuse spec \<longrightarrow>
     (\<exists>g \<in> set (ni_groups i). gi_group g = spec_group spec \<and> gi_start g \<le> ni_start i \<and> ni_end i \<le> gi_end g))"

definition pc_inv :: "prefix_cache \<Rightarrow> bool" where
  "pc_inv s \<longleftrightarrow> arena_ok s \<and> index_exact s \<and> refs_count s (held_pages s)
     \<and> attach_ok (content s) (local_attachments s) (next_local_attachment s)
     \<and> config_ok s \<and> (\<forall>n i. content s n = Some i \<longrightarrow> complete_info (pc_specs s) i)"

lemma pc_invD:
  assumes "pc_inv s"
  shows "arena_ok s" and "index_exact s" and "refs_count s (held_pages s)"
    and "attach_ok (content s) (local_attachments s) (next_local_attachment s)" and "config_ok s"
    and "content s n = Some i \<Longrightarrow> complete_info (pc_specs s) i" and "size_ok s" and "index_wf s"
  using assms by (auto simp: pc_inv_def index_exact_def arena_ok_def)

lemma index_frame:
  assumes "node_index_slots s' = node_index_slots s" and "max_nodes s' = max_nodes s"
    and "\<And>n. map_option ni_digest (content s' n) = map_option ni_digest (content s n)"
  shows "index_exact s' = index_exact s"
proof -
  have "(\<exists>i. content s' n = Some i \<and> ni_digest i = d) \<longleftrightarrow> (\<exists>i. content s n = Some i \<and> ni_digest i = d)" for n d
    using assms(3) [of n] by (cases "content s' n"; cases "content s n") auto
  then show ?thesis by (simp add: index_exact_def index_wf_def assms(1,2))
qed

lemma refs_frame:
  "page_ref_slots s' = page_ref_slots s \<Longrightarrow> max_page_handles s' = max_page_handles s \<Longrightarrow> refs_count s' M = refs_count s M"
  by (simp add: refs_count_def refs_wf_def)

lemma FindNode_content:
  assumes "size_ok s" and "index_exact s"
  shows "FindNodeLocked s d = Some n \<longleftrightarrow> (\<exists>i. content s n = Some i \<and> ni_digest i = d)"
proof -
  have wf: "index_wf s" using assms(2) by (simp add: index_exact_def)
  have m: "index_map s d = Some n \<longleftrightarrow> (\<exists>i. content s n = Some i \<and> ni_digest i = d)" for n
    using assms(2) by (simp add: index_exact_def)
  have "FindNodeLocked s d = index_map s d"
  proof (cases "index_map s d")
    case (Some k)
    then have "k < max_nodes s" "is_resident (pc_nodes s ! k)" "node_digest (pc_nodes s ! k) = d"
      using m [of k] by (auto simp: content_Some describe_def)
    then show ?thesis using Some FindNode_map [OF assms(1) wf] by simp
  qed (use FindNode_map [OF assms(1) wf] in simp)
  then show ?thesis using m by simp
qed

lemma digest_unique:
  assumes "index_exact s" and "content s m = Some i" and "content s n = Some j" and "ni_digest i = ni_digest j"
  shows "m = n"
proof -
  have "index_map s (ni_digest i) = Some m" "index_map s (ni_digest i) = Some n"
    using assms by (auto simp: index_exact_def)
  then show ?thesis by simp
qed

lemma complete_groups:
  assumes "config_ok s" and "complete_info (pc_specs s) i"
  shows "ni_groups i \<noteq> []"
  using assms by (auto simp: config_ok_def complete_info_def)

text \<open>A node is protected exactly when an attachment of the process holds it.\<close>

lemma protected_iff:
  assumes inv: "pc_inv s" and n: "content s n = Some i"
  shows "NodeIsProtectedLocked s (pc_nodes s ! n) \<longleftrightarrow> holds (local_attachments s) n \<noteq> 0"
proof -
  note ok = pc_invD(1) [OF inv] and node = arena_node [OF pc_invD(1) [OF inv] n]
  have "NodeIsProtectedLocked s (pc_nodes s ! n) \<longleftrightarrow> (\<exists>g \<in> set (ni_groups i). gi_active g \<noteq> 0 \<or> gi_pending g \<noteq> 0)"
    unfolding NodeIsProtectedLocked_def node_entries_range(3) [OF ok node(3)]
    by (auto simp: node(4) describe_def entry_info_def list_ex_iff)
  moreover have "\<forall>g \<in> set (ni_groups i). gi_active g = holds (local_attachments s) n \<and> gi_pending g = loads (local_attachments s) n"
    using pc_invD(4) [OF inv] n by (simp add: attach_ok_def)
  moreover have "ni_groups i \<noteq> []" using complete_groups pc_invD(5,6) [OF inv] n by blast
  moreover have "loads atts n = 0" if "holds atts n = 0" for atts
    using that by (induction atts) (auto simp: holds_def loads_def)
  ultimately show ?thesis by (metis (no_types, lifting) last_in_set)
qed

end
