(* ===== verification/Prefix_Attach.thy ===== *)
theory Prefix_Attach
  imports Prefix_Invariant
begin

text \<open>
  The loops over the nodes of an attachment as updates of the content, and the attachment
  methods: they keep the invariant and never throw in a state that has it, apart from the
  exceptions about their arguments.
\<close>

section \<open>Loops over the entries of the nodes\<close>

lemma fold_do_slots:
  assumes "distinct slots" and "\<And>i. i \<in> set slots \<Longrightarrow> \<not> bad (group_entries s ! i)"
  shows "fold_do (\<lambda>i _ s. let e = group_entries s ! i in
             if bad e then (Inl x, s) else (Inr (), s\<lparr>group_entries := (group_entries s)[i := f e]\<rparr>)) slots () s
         = (Inr (), s\<lparr>group_entries := on_slots f slots (group_entries s)\<rparr>)"
  using assms
proof (induction slots arbitrary: s)
  case (Cons j slots)
  let ?s = "s\<lparr>group_entries := (group_entries s)[j := f (group_entries s ! j)]\<rparr>"
  have "\<not> bad (group_entries ?s ! i)" if "i \<in> set slots" for i
    using Cons.prems that by (cases "i = j") auto
  then show ?case using Cons.IH [of ?s] Cons.prems by (simp add: Let_def on_slots_def)
qed (simp add: on_slots_def)

text \<open>One node after the other: \<open>step\<close> is what the body does to the content of its node.\<close>

lemma each_node:
  assumes body: "\<And>n i s. \<lbrakk>arena_ok s; content s n = Some i; P i\<rbrakk> \<Longrightarrow>
       \<exists>es. body n () s = (Inr (), s\<lparr>group_entries := es\<rparr>) \<and> arena_ok (s\<lparr>group_entries := es\<rparr>)
          \<and> content (s\<lparr>group_entries := es\<rparr>) = (content s)(n \<mapsto> step i)"
    and "arena_ok s" and "set ns \<subseteq> dom (content s)"
    and "\<And>n i k. \<lbrakk>content s n = Some i; k < count_list ns n\<rbrakk> \<Longrightarrow> P ((step ^^ k) i)"
  shows "\<exists>es. fold_do body ns () s = (Inr (), s\<lparr>group_entries := es\<rparr>) \<and> arena_ok (s\<lparr>group_entries := es\<rparr>)
     \<and> content (s\<lparr>group_entries := es\<rparr>) = (\<lambda>n. map_option (step ^^ count_list ns n) (content s n))"
  using assms(2-)
proof (induction ns arbitrary: s)
  case Nil
  then show ?case by (intro exI [of _ "group_entries s"]) (simp add: option.map_ident)
next
  case (Cons m ns)
  obtain i where i: "content s m = Some i" using Cons.prems(2) by auto
  have "P i" using Cons.prems(3) [OF i, of 0] by simp
  then obtain es where es: "body m () s = (Inr (), s\<lparr>group_entries := es\<rparr>)" "arena_ok (s\<lparr>group_entries := es\<rparr>)"
    "content (s\<lparr>group_entries := es\<rparr>) = (content s)(m \<mapsto> step i)" using body [OF Cons.prems(1) i] by blast
  let ?s = "s\<lparr>group_entries := es\<rparr>"
  have P: "P ((step ^^ k) j)" if "content ?s n = Some j" "k < count_list ns n" for n j k
  proof (cases "n = m")
    case True
    then have "j = step i" using that(1) es(3) by simp
    then show ?thesis using Cons.prems(3) [OF i, of "Suc k"] that(2) True by (simp add: funpow_swap1)
  qed (use Cons.prems(3) [of n j k] that es(3) in simp)
  have "set ns \<subseteq> dom (content ?s)" using Cons.prems(2) es(3) by auto
  then obtain es' where es': "fold_do body ns () ?s = (Inr (), ?s\<lparr>group_entries := es'\<rparr>)" "arena_ok (?s\<lparr>group_entries := es'\<rparr>)"
    "content (?s\<lparr>group_entries := es'\<rparr>) = (\<lambda>n. map_option (step ^^ count_list ns n) (content ?s n))"
    using Cons.IH [OF es(2)] P by blast
  have "content (s\<lparr>group_entries := es'\<rparr>) = (\<lambda>n. map_option (step ^^ count_list (m # ns) n) (content s n))"
  proof
    fix n
    have "content (s\<lparr>group_entries := es'\<rparr>) n = map_option (step ^^ count_list ns n) (content ?s n)"
      using es'(3) by simp
    then show "content (s\<lparr>group_entries := es'\<rparr>) n = map_option (step ^^ count_list (m # ns) n) (content s n)"
      using i es(3) by (cases "n = m") (simp_all add: funpow_swap1)
  qed
  then show ?case using es(1) es'(1,2) by auto
qed

definition shift_active :: "(nat \<Rightarrow> nat) \<Rightarrow> node_info \<Rightarrow> node_info" where
  "shift_active f i = i\<lparr>ni_groups := map (\<lambda>g. g\<lparr>gi_active := f (gi_active g)\<rparr>) (ni_groups i)\<rparr>"

definition shift_pending :: "(nat \<Rightarrow> nat) \<Rightarrow> node_info \<Rightarrow> node_info" where
  "shift_pending f i = i\<lparr>ni_groups := map (\<lambda>g. g\<lparr>gi_pending := f (gi_pending g)\<rparr>) (ni_groups i)\<rparr>"

lemma shift_active_funpow: "(shift_active f ^^ k) i = shift_active (f ^^ k) i"
proof (induction k)
  case 0
  show ?case by (simp add: shift_active_def)
next
  case (Suc k)
  then show ?case by (simp add: shift_active_def comp_def)
qed

lemma shift_pending_funpow: "(shift_pending f ^^ k) i = shift_pending (f ^^ k) i"
proof (induction k)
  case 0
  show ?case by (simp add: shift_pending_def)
next
  case (Suc k)
  then show ?case by (simp add: shift_pending_def comp_def)
qed

lemma u32_succ_funpow: "k = 0 \<or> n + k < 2 ^ 32 \<Longrightarrow> ((\<lambda>n. u32 (n + 1)) ^^ k) n = n + k"
  by (induction k) (auto simp: u32_def)

lemma pred_funpow: "((\<lambda>n. n - 1) ^^ k) (n :: nat) = n - k"
  by (induction k) simp_all

lemma shift_active_cong: "(\<And>g. g \<in> set (ni_groups i) \<Longrightarrow> f (gi_active g) = h (gi_active g)) \<Longrightarrow> shift_active f i = shift_active h i"
  by (simp add: shift_active_def)

lemma shift_pending_cong: "(\<And>g. g \<in> set (ni_groups i) \<Longrightarrow> f (gi_pending g) = h (gi_pending g)) \<Longrightarrow> shift_pending f i = shift_pending h i"
  by (simp add: shift_pending_def)

lemma shift_active_down: "shift_active (\<lambda>a. a - 1) ^^ k = shift_active (\<lambda>a. a - k)"
  by (rule ext, unfold shift_active_funpow, rule shift_active_cong, rule pred_funpow)

lemma shift_pending_down: "shift_pending (\<lambda>a. a - 1) ^^ k = shift_pending (\<lambda>a. a - k)"
  by (rule ext, unfold shift_pending_funpow, rule shift_pending_cong, rule pred_funpow)

lemma step_active:
  assumes "arena_ok s" and "content s n = Some i"
  shows "arena_ok (s\<lparr>group_entries := on_slots (\<lambda>e. e\<lparr>active_ref_count := f (active_ref_count e)\<rparr>) (entry_slots (pc_nodes s ! n)) (group_entries s)\<rparr>)"
    and "content (s\<lparr>group_entries := on_slots (\<lambda>e. e\<lparr>active_ref_count := f (active_ref_count e)\<rparr>) (entry_slots (pc_nodes s ! n)) (group_entries s)\<rparr>)
           = (content s)(n \<mapsto> shift_active f i)"
  unfolding shift_active_def
  by (rule change_entries [OF assms, where f = "\<lambda>e. e\<lparr>active_ref_count := f (active_ref_count e)\<rparr>"
        and g = "\<lambda>g. g\<lparr>gi_active := f (gi_active g)\<rparr>"];
      simp add: keeps_range_def entry_info_def handle_pages_def)+

lemma step_pending:
  assumes "arena_ok s" and "content s n = Some i"
  shows "arena_ok (s\<lparr>group_entries := on_slots (\<lambda>e. e\<lparr>pending_load_count := f (pending_load_count e)\<rparr>) (entry_slots (pc_nodes s ! n)) (group_entries s)\<rparr>)"
    and "content (s\<lparr>group_entries := on_slots (\<lambda>e. e\<lparr>pending_load_count := f (pending_load_count e)\<rparr>) (entry_slots (pc_nodes s ! n)) (group_entries s)\<rparr>)
           = (content s)(n \<mapsto> shift_pending f i)"
  unfolding shift_pending_def
  by (rule change_entries [OF assms, where f = "\<lambda>e. e\<lparr>pending_load_count := f (pending_load_count e)\<rparr>"
        and g = "\<lambda>g. g\<lparr>gi_pending := f (gi_pending g)\<rparr>"];
      simp add: keeps_range_def entry_info_def handle_pages_def)+

lemma slot_groups:
  assumes "arena_ok s" and "content s n = Some i" and "j \<in> set (entry_slots (pc_nodes s ! n))"
  shows "entry_info s (group_entries s ! j) \<in> set (ni_groups i)"
  using arena_node(4) [OF assms(1,2)] assms(3) by (auto simp: describe_def node_entries_def)

section \<open>The loops as updates of the content\<close>

lemma IncrementActiveRefs_content:
  assumes ok: "arena_ok s" and ns: "set ns \<subseteq> dom (content s)"
    and fits: "\<And>n i g. \<lbrakk>n \<in> set ns; content s n = Some i; g \<in> set (ni_groups i)\<rbrakk> \<Longrightarrow> gi_active g + count_list ns n < 2 ^ 32"
  obtains es where "IncrementActiveRefsLocked ns s = (Inr (), s\<lparr>group_entries := es\<rparr>)" and "arena_ok (s\<lparr>group_entries := es\<rparr>)"
    and "content (s\<lparr>group_entries := es\<rparr>) = (\<lambda>n. map_option (shift_active (\<lambda>a. a + count_list ns n)) (content s n))"
proof -
  have "\<exists>es. IncrementActiveRefsLocked ns s = (Inr (), s\<lparr>group_entries := es\<rparr>) \<and> arena_ok (s\<lparr>group_entries := es\<rparr>)
     \<and> content (s\<lparr>group_entries := es\<rparr>) = (\<lambda>n. map_option (shift_active (\<lambda>a. u32 (a + 1)) ^^ count_list ns n) (content s n))"
    unfolding IncrementActiveRefsLocked_def
  proof (rule each_node [OF _ ok ns, where P = "\<lambda>_. True"])
    fix n i s assume "arena_ok s" "content s n = Some i"
    note s = step_active [OF this, of "\<lambda>a. u32 (a + 1)"] and r = arena_node(2) [OF this]
    show "\<exists>es. (if \<not> is_resident (pc_nodes s ! n)
        then (Inl (Runtime_error ''host prefix cache attachment refers to non-resident node''), s)
        else (Inr (), s\<lparr>group_entries := fold (\<lambda>i es. es[i := (es ! i)\<lparr>active_ref_count := u32 (active_ref_count (es ! i) + 1)\<rparr>])
                  (entry_slots (pc_nodes s ! n)) (group_entries s)\<rparr>)) = (Inr (), s\<lparr>group_entries := es\<rparr>)
      \<and> arena_ok (s\<lparr>group_entries := es\<rparr>) \<and> content (s\<lparr>group_entries := es\<rparr>) = (content s)(n \<mapsto> shift_active (\<lambda>a. u32 (a + 1)) i)"
      by (intro exI conjI; (rule s)?) (use r in \<open>simp add: on_slots_def\<close>)
  qed simp
  then obtain es where es: "IncrementActiveRefsLocked ns s = (Inr (), s\<lparr>group_entries := es\<rparr>)" "arena_ok (s\<lparr>group_entries := es\<rparr>)"
    "content (s\<lparr>group_entries := es\<rparr>) = (\<lambda>n. map_option (shift_active (\<lambda>a. u32 (a + 1)) ^^ count_list ns n) (content s n))" by blast
  have "map_option (shift_active (\<lambda>a. u32 (a + 1)) ^^ count_list ns n) (content s n)
      = map_option (shift_active (\<lambda>a. a + count_list ns n)) (content s n)" for n
  proof (cases "content s n")
    case (Some i)
    have "((\<lambda>a. u32 (a + 1)) ^^ count_list ns n) (gi_active g) = gi_active g + count_list ns n" if "g \<in> set (ni_groups i)" for g
      by (rule u32_succ_funpow) (use fits [OF _ Some that] in \<open>simp add: count_list_0_iff; blast\<close>)
    then show ?thesis unfolding Some option.map shift_active_funpow by (intro arg_cong [where f = Some] shift_active_cong)
  qed simp
  then show ?thesis using that [OF es(1,2)] es(3) by simp
qed

lemma DecrementActiveRefs_content:
  assumes ok: "arena_ok s" and ns: "set ns \<subseteq> dom (content s)"
    and fits: "\<And>n i g. \<lbrakk>content s n = Some i; g \<in> set (ni_groups i)\<rbrakk> \<Longrightarrow> count_list ns n \<le> gi_active g"
  obtains es where "DecrementActiveRefsLocked ns s = (Inr (), s\<lparr>group_entries := es\<rparr>)" and "arena_ok (s\<lparr>group_entries := es\<rparr>)"
    and "content (s\<lparr>group_entries := es\<rparr>) = (\<lambda>n. map_option (shift_active (\<lambda>a. a - count_list ns n)) (content s n))"
proof -
  let ?f = "\<lambda>e. e\<lparr>active_ref_count := active_ref_count e - 1\<rparr>"
  have "\<exists>es. DecrementActiveRefsLocked ns s = (Inr (), s\<lparr>group_entries := es\<rparr>) \<and> arena_ok (s\<lparr>group_entries := es\<rparr>)
     \<and> content (s\<lparr>group_entries := es\<rparr>) = (\<lambda>n. map_option (shift_active (\<lambda>a. a - 1) ^^ count_list ns n) (content s n))"
    unfolding DecrementActiveRefsLocked_def
  proof (rule each_node [OF _ ok ns, where P = "\<lambda>i. \<forall>g \<in> set (ni_groups i). gi_active g \<noteq> 0"])
    fix n i s assume a: "arena_ok s" "content s n = Some i" and P: "\<forall>g \<in> set (ni_groups i). gi_active g \<noteq> 0"
    note s = step_active [OF a, of "\<lambda>a. a - 1"] and node = arena_node [OF a]
    have nz: "active_ref_count (group_entries s ! j) \<noteq> 0" if "j \<in> set (entry_slots (pc_nodes s ! n))" for j
      using slot_groups [OF a that] P by (auto simp: entry_info_def)
    note fd = fold_do_slots [where bad = "\<lambda>e. active_ref_count e = 0" and f = ?f and s = s,
        OF entry_slots_range(3) [OF a(1) node(3)] nz]
    show "\<exists>es. (if \<not> is_resident (pc_nodes s ! n) then (Inr (), s)
        else fold_do (\<lambda>i _ s. let e = group_entries s ! i in
               if active_ref_count e = 0
               then (Inl (Runtime_error ''host prefix cache active attachment ref underflow''), s)
               else (Inr (), s\<lparr>group_entries := (group_entries s)[i := e\<lparr>active_ref_count := active_ref_count e - 1\<rparr>]\<rparr>))
             (entry_slots (pc_nodes s ! n)) () s) = (Inr (), s\<lparr>group_entries := es\<rparr>)
      \<and> arena_ok (s\<lparr>group_entries := es\<rparr>) \<and> content (s\<lparr>group_entries := es\<rparr>) = (content s)(n \<mapsto> shift_active (\<lambda>a. a - 1) i)"
      by (intro exI conjI; (rule s)?) (use node(2) fd in simp)
  next
    fix n i k assume "content s n = Some i" "k < count_list ns n"
    then show "\<forall>g \<in> set (ni_groups ((shift_active (\<lambda>a. a - 1) ^^ k) i)). gi_active g \<noteq> 0"
      using fits by (fastforce simp: shift_active_funpow pred_funpow [simplified]  shift_active_def)
  qed
  then show ?thesis unfolding shift_active_down using that by blast
qed

lemma LoadRefs_up_content:
  assumes ok: "arena_ok s" and ns: "set ns \<subseteq> dom (content s)"
    and fits: "\<And>n i g. \<lbrakk>n \<in> set ns; content s n = Some i; g \<in> set (ni_groups i)\<rbrakk> \<Longrightarrow> gi_pending g + count_list ns n < 2 ^ 32"
  obtains es where "UpdateLoadRefsLocked ns True s = (Inr (), s\<lparr>group_entries := es\<rparr>)" and "arena_ok (s\<lparr>group_entries := es\<rparr>)"
    and "content (s\<lparr>group_entries := es\<rparr>) = (\<lambda>n. map_option (shift_pending (\<lambda>a. a + count_list ns n)) (content s n))"
proof -
  let ?f = "\<lambda>e. e\<lparr>pending_load_count := u32 (pending_load_count e + 1)\<rparr>"
  have "\<exists>es. UpdateLoadRefsLocked ns True s = (Inr (), s\<lparr>group_entries := es\<rparr>) \<and> arena_ok (s\<lparr>group_entries := es\<rparr>)
     \<and> content (s\<lparr>group_entries := es\<rparr>) = (\<lambda>n. map_option (shift_pending (\<lambda>a. u32 (a + 1)) ^^ count_list ns n) (content s n))"
    unfolding UpdateLoadRefsLocked_def if_True
  proof (rule each_node [OF _ ok ns, where P = "\<lambda>_. True"])
    fix n i s assume a: "arena_ok s" "content s n = Some i"
    note s = step_pending [OF a, of "\<lambda>a. u32 (a + 1)"] and node = arena_node [OF a]
    note fd = fold_do_slots [where bad = "\<lambda>_. False" and f = ?f and s = s, OF entry_slots_range(3) [OF a(1) node(3)]]
    show "\<exists>es. (if \<not> is_resident (pc_nodes s ! n)
        then (Inl (Runtime_error ''host prefix cache attachment refers to non-resident node''), s)
        else fold_do (\<lambda>i _ s. let e = group_entries s ! i in
               (Inr (), s\<lparr>group_entries := (group_entries s)[i := e\<lparr>pending_load_count := u32 (pending_load_count e + 1)\<rparr>]\<rparr>))
             (entry_slots (pc_nodes s ! n)) () s) = (Inr (), s\<lparr>group_entries := es\<rparr>)
      \<and> arena_ok (s\<lparr>group_entries := es\<rparr>) \<and> content (s\<lparr>group_entries := es\<rparr>) = (content s)(n \<mapsto> shift_pending (\<lambda>a. u32 (a + 1)) i)"
      by (intro exI conjI; (rule s)?) (use node(2) fd in simp)
  qed simp
  then obtain es where es: "UpdateLoadRefsLocked ns True s = (Inr (), s\<lparr>group_entries := es\<rparr>)" "arena_ok (s\<lparr>group_entries := es\<rparr>)"
    "content (s\<lparr>group_entries := es\<rparr>) = (\<lambda>n. map_option (shift_pending (\<lambda>a. u32 (a + 1)) ^^ count_list ns n) (content s n))" by blast
  have "map_option (shift_pending (\<lambda>a. u32 (a + 1)) ^^ count_list ns n) (content s n)
      = map_option (shift_pending (\<lambda>a. a + count_list ns n)) (content s n)" for n
  proof (cases "content s n")
    case (Some i)
    have "((\<lambda>a. u32 (a + 1)) ^^ count_list ns n) (gi_pending g) = gi_pending g + count_list ns n" if "g \<in> set (ni_groups i)" for g
      by (rule u32_succ_funpow) (use fits [OF _ Some that] in \<open>simp add: count_list_0_iff; blast\<close>)
    then show ?thesis unfolding Some option.map shift_pending_funpow by (intro arg_cong [where f = Some] shift_pending_cong)
  qed simp
  then show ?thesis using that [OF es(1,2)] es(3) by simp
qed

lemma LoadRefs_down_content:
  assumes ok: "arena_ok s" and ns: "set ns \<subseteq> dom (content s)"
    and fits: "\<And>n i g. \<lbrakk>content s n = Some i; g \<in> set (ni_groups i)\<rbrakk> \<Longrightarrow> count_list ns n \<le> gi_pending g"
  obtains es where "UpdateLoadRefsLocked ns False s = (Inr (), s\<lparr>group_entries := es\<rparr>)" and "arena_ok (s\<lparr>group_entries := es\<rparr>)"
    and "content (s\<lparr>group_entries := es\<rparr>) = (\<lambda>n. map_option (shift_pending (\<lambda>a. a - count_list ns n)) (content s n))"
proof -
  let ?f = "\<lambda>e. e\<lparr>pending_load_count := pending_load_count e - 1\<rparr>"
  have "\<exists>es. UpdateLoadRefsLocked ns False s = (Inr (), s\<lparr>group_entries := es\<rparr>) \<and> arena_ok (s\<lparr>group_entries := es\<rparr>)
     \<and> content (s\<lparr>group_entries := es\<rparr>) = (\<lambda>n. map_option (shift_pending (\<lambda>a. a - 1) ^^ count_list ns n) (content s n))"
    unfolding UpdateLoadRefsLocked_def if_False
  proof (rule each_node [OF _ ok ns, where P = "\<lambda>i. \<forall>g \<in> set (ni_groups i). gi_pending g \<noteq> 0"])
    fix n i s assume a: "arena_ok s" "content s n = Some i" and P: "\<forall>g \<in> set (ni_groups i). gi_pending g \<noteq> 0"
    note s = step_pending [OF a, of "\<lambda>a. a - 1"] and node = arena_node [OF a]
    have nz: "pending_load_count (group_entries s ! j) \<noteq> 0" if "j \<in> set (entry_slots (pc_nodes s ! n))" for j
      using slot_groups [OF a that] P by (auto simp: entry_info_def)
    note fd = fold_do_slots [where bad = "\<lambda>e. pending_load_count e = 0" and f = ?f and s = s,
        OF entry_slots_range(3) [OF a(1) node(3)] nz]
    show "\<exists>es. (if \<not> is_resident (pc_nodes s ! n)
        then (Inl (Runtime_error ''host prefix cache attachment refers to non-resident node''), s)
        else fold_do (\<lambda>i _ s. let e = group_entries s ! i in
               if pending_load_count e = 0
               then (Inl (Runtime_error ''host prefix cache pending load ref underflow''), s)
               else (Inr (), s\<lparr>group_entries := (group_entries s)[i := e\<lparr>pending_load_count := pending_load_count e - 1\<rparr>]\<rparr>))
             (entry_slots (pc_nodes s ! n)) () s) = (Inr (), s\<lparr>group_entries := es\<rparr>)
      \<and> arena_ok (s\<lparr>group_entries := es\<rparr>) \<and> content (s\<lparr>group_entries := es\<rparr>) = (content s)(n \<mapsto> shift_pending (\<lambda>a. a - 1) i)"
      by (intro exI conjI; (rule s)?) (use node(2) fd in simp)
  next
    fix n i k assume "content s n = Some i" "k < count_list ns n"
    then show "\<forall>g \<in> set (ni_groups ((shift_pending (\<lambda>a. a - 1) ^^ k) i)). gi_pending g \<noteq> 0"
      using fits by (fastforce simp: shift_pending_funpow pred_funpow [simplified] shift_pending_def)
  qed
  then show ?thesis unfolding shift_pending_down using that by blast
qed

lemma touch_nodes_content:
  assumes "arena_ok s" and "set ns \<subseteq> dom (content s)"
  shows "\<exists>nodes. touch_nodes e ns s = (Inr (), s\<lparr>pc_nodes := nodes\<rparr>) \<and> arena_ok (s\<lparr>pc_nodes := nodes\<rparr>)
    \<and> content (s\<lparr>pc_nodes := nodes\<rparr>) = (\<lambda>n. map_option (\<lambda>i. if n \<in> set ns then i\<lparr>ni_epoch := e\<rparr> else i) (content s n))"
  using assms
proof (induction ns arbitrary: s)
  case Nil
  then show ?case by (intro exI [of _ "pc_nodes s"]) (simp add: touch_nodes_def option.map_ident)
next
  case (Cons m ns)
  obtain i where i: "content s m = Some i" using Cons.prems(2) by auto
  note node = arena_node [OF Cons.prems(1) i]
  define s1 where "s1 = s\<lparr>pc_nodes := (pc_nodes s)[m := (pc_nodes s ! m)\<lparr>last_access_epoch := e\<rparr>]\<rparr>"
  note s1 = touch_node [OF Cons.prems(1) i s1_def]
  have "set ns \<subseteq> dom (content s1)" using Cons.prems(2) by (auto simp: s1(2))
  then obtain nodes where n: "touch_nodes e ns s1 = (Inr (), s1\<lparr>pc_nodes := nodes\<rparr>)" "arena_ok (s1\<lparr>pc_nodes := nodes\<rparr>)"
    "content (s1\<lparr>pc_nodes := nodes\<rparr>) = (\<lambda>n. map_option (\<lambda>i. if n \<in> set ns then i\<lparr>ni_epoch := e\<rparr> else i) (content s1 n))"
    using Cons.IH [OF s1(1)] by blast
  have eq: "s1\<lparr>pc_nodes := nodes\<rparr> = s\<lparr>pc_nodes := nodes\<rparr>" by (simp add: s1_def)
  have "touch_nodes e (m # ns) s = touch_nodes e ns s1"
    using node by (simp add: touch_nodes_def s1_def)
  moreover have "content (s\<lparr>pc_nodes := nodes\<rparr>) n = map_option (\<lambda>i. if n \<in> set (m # ns) then i\<lparr>ni_epoch := e\<rparr> else i) (content s n)" for n
    using n(3) i by (cases "n = m") (simp_all add: eq s1(2))
  ultimately show ?case using n(1,2) by (auto simp: eq fun_eq_iff)
qed

section \<open>Changes that keep the shape of the nodes\<close>

definition shape :: "node_info \<Rightarrow> PrefixDigest \<times> PrefixDigest \<times> nat \<times> nat \<times> (nat \<times> nat \<times> nat \<times> nat list) list" where
  "shape i = (ni_namespace i, ni_digest i, ni_start i, ni_end i,
     map (\<lambda>g. (gi_group g, gi_start g, gi_end g, gi_pages g)) (ni_groups i))"

lemma shape_shift [simp]:
  "shape (shift_active f i) = shape i" "shape (shift_pending f i) = shape i" "shape (i\<lparr>ni_epoch := e\<rparr>) = shape i"
  by (simp_all add: shape_def shift_active_def shift_pending_def comp_def)

lemma shape_keys: "page_keys i = concat (map (\<lambda>(g, _, _, ps). map (Pair g) ps) (snd (snd (snd (snd (shape i))))))"
  by (simp add: page_keys_def shape_def comp_def)

lemma shape_complete:
  "complete_info specs i \<longleftrightarrow> (\<forall>spec \<in> set specs. required_for_reuse spec \<longrightarrow>
     (\<exists>(g, a, b, ps) \<in> set (snd (snd (snd (snd (shape i))))). g = spec_group spec \<and> a \<le> fst (snd (snd (shape i)))
        \<and> fst (snd (snd (snd (shape i)))) \<le> b))"
  by (simp add: complete_info_def shape_def)

lemma shape_same:
  assumes "shape i = shape j"
  shows "page_keys i = page_keys j" and "complete_info specs i = complete_info specs j" and "ni_digest i = ni_digest j"
    and "length (ni_groups i) = length (ni_groups j)"
proof -
  show "page_keys i = page_keys j" unfolding shape_keys assms ..
  show "complete_info specs i = complete_info specs j" unfolding shape_complete assms ..
  show "ni_digest i = ni_digest j" using assms by (simp add: shape_def)
  show "length (ni_groups i) = length (ni_groups j)" using assms by (auto simp: shape_def dest: map_eq_imp_length_eq)
qed

lemma map_option_same:
  assumes "map_option f x = map_option f y" and "\<And>i j. f i = f j \<Longrightarrow> g i = g j"
  shows "map_option g x = map_option g y"
proof (cases x)
  case None
  then show ?thesis using assms(1) by (cases y) simp_all
next
  case (Some i)
  then obtain j where j: "y = Some j" "f i = f j" using assms(1) by (cases y) simp_all
  show ?thesis using assms(2) [OF j(2)] Some j(1) by simp
qed

lemma inv_same_shape:
  assumes inv: "pc_inv s" and ok: "arena_ok s'" and shape: "\<And>n. map_option shape (content s' n) = map_option shape (content s n)"
    and same: "max_nodes s' = max_nodes s" "max_page_handles s' = max_page_handles s" "node_index_slots s' = node_index_slots s"
      "page_ref_slots s' = page_ref_slots s" "pc_specs s' = pc_specs s" "hash_block_tokens s' = hash_block_tokens s"
      "commit_boundary_tokens s' = commit_boundary_tokens s"
    and att: "attach_ok (content s') (local_attachments s') (next_local_attachment s')"
  shows "pc_inv s'"
proof -
  have "map_option ni_digest (content s' n) = map_option ni_digest (content s n)" for n
    by (rule map_option_same [OF shape]) (rule shape_same(3))
  then have idx: "index_exact s'" using index_frame [OF same(3,1)] pc_invD(2) [OF inv] by simp
  have keys: "map_option page_keys (content s' n) = map_option page_keys (content s n)" for n
    by (rule map_option_same [OF shape]) (rule shape_same(1))
  have len: "map_option (length \<circ> ni_groups) (content s' n) = map_option (length \<circ> ni_groups) (content s n)" for n
    by (rule map_option_same [OF shape], unfold comp_apply, rule shape_same(4))
  have "held_pages s' = held_pages s" using held_same(1) [OF same(1) keys len] .
  then have refs: "refs_count s' (held_pages s')" using refs_frame [OF same(4,2)] pc_invD(3) [OF inv] by simp
  have cfg: "config_ok s'" using pc_invD(5) [OF inv] by (simp add: config_ok_def same)
  have "complete_info (pc_specs s') i" if c: "content s' n = Some i" for n i
  proof -
    obtain j where j: "content s n = Some j" "shape j = shape i" using shape [of n] c by (cases "content s n") auto
    then show ?thesis using pc_invD(6) [OF inv j(1)] shape_same(2) [OF j(2)] same(5) by simp
  qed
  then show ?thesis using ok idx refs cfg att by (simp add: pc_inv_def)
qed

section \<open>The attachment map\<close>

lemma att_split:
  assumes "map_of atts h = Some a" and "distinct (map fst atts)"
  obtains xs ys where "atts = xs @ (h, a) # ys" and "erase_attachment h atts = xs @ ys"
    and "\<And>b. assoc_put h b atts = xs @ (h, b) # ys"
proof -
  obtain xs ys where s: "atts = xs @ (h, a) # ys" using map_of_SomeD [OF assms(1)] split_list by metis
  have h: "h \<notin> fst ` set xs" "h \<notin> fst ` set ys" using assms(2) by (auto simp: s)
  have e: "erase_attachment h zs = zs" if "h \<notin> fst ` set zs" for zs
    using that by (force simp: erase_attachment_def filter_id_conv)
  have "erase_attachment h atts = xs @ ys" using e h by (simp add: s erase_attachment_def)
  moreover have "assoc_put h b (xs @ (h, a) # ys) = xs @ (h, b) # ys" for b
    using h(1) by (induction xs) auto
  ultimately show ?thesis using that s by simp
qed

lemma holds_simps [simp]:
  "holds [] n = 0" "holds ((h, a) # atts) n = count_list (att_nodes a) n + holds atts n"
  "holds (xs @ ys) n = holds xs n + holds ys n"
  by (simp_all add: holds_def)

lemma loads_simps [simp]:
  "loads [] n = 0" "loads ((h, a) # atts) n = att_loads a * count_list (att_nodes a) n + loads atts n"
  "loads (xs @ ys) n = loads xs n + loads ys n"
  by (simp_all add: loads_def)

lemma attach_okD:
  assumes "attach_ok c atts k"
  shows "c n = Some i \<Longrightarrow> g \<in> set (ni_groups i) \<Longrightarrow> gi_active g = holds atts n"
    and "c n = Some i \<Longrightarrow> g \<in> set (ni_groups i) \<Longrightarrow> gi_pending g = loads atts n"
    and "map_of atts h = Some a \<Longrightarrow> set (att_nodes a) \<subseteq> dom c" and "map_of atts h = Some a \<Longrightarrow> 0 < h \<and> h < k"
    and "map_of atts h = Some a \<Longrightarrow> att_nodes a \<noteq> []"
    and "map_of atts h = Some a \<Longrightarrow> att_release a \<Longrightarrow> 0 < att_loads a"
    and "distinct (map fst atts)" and "0 < k"
  using assms by (auto simp: attach_ok_def dest!: map_of_SomeD)

text \<open>The counters of every group moved together with the attachments.\<close>

lemma attach_ok_shift:
  assumes ok: "attach_ok c atts k"
    and c': "\<And>n. c' n = map_option (F n) (c n)"
    and F: "\<And>n i g. \<lbrakk>c n = Some i; g \<in> set (ni_groups (F n i))\<rbrakk> \<Longrightarrow> gi_active g = holds atts' n \<and> gi_pending g = loads atts' n"
    and keys: "distinct (map fst atts')" "k \<le> k'"
    and new: "\<And>h a. (h, a) \<in> set atts' \<Longrightarrow> (h, a) \<in> set atts \<or>
        att_nodes a \<noteq> [] \<and> set (att_nodes a) \<subseteq> dom c \<and> 0 < h \<and> h < k' \<and> (att_release a \<longrightarrow> 0 < att_loads a)"
  shows "attach_ok c' atts' k'"
proof -
  have dom: "dom c' = dom c" by (auto simp: dom_def c')
  have "att_nodes a \<noteq> [] \<and> set (att_nodes a) \<subseteq> dom c' \<and> 0 < h \<and> h < k' \<and> (att_release a \<longrightarrow> 0 < att_loads a)" if "(h, a) \<in> set atts'" for h a
    using new [OF that] ok keys(2) unfolding dom by (auto simp: attach_ok_def)
  moreover have "gi_active g = holds atts' n \<and> gi_pending g = loads atts' n" if "c' n = Some i" "g \<in> set (ni_groups i)" for n i g
    using that c' [of n] F [of n] by auto
  moreover have "0 < k'" using ok keys(2) by (simp add: attach_ok_def)
  ultimately show ?thesis using keys(1) by (auto simp: attach_ok_def)
qed

section \<open>The attachment methods\<close>

text \<open>
  Room for one more call: no counter of the attached nodes, and no handle, is at the end of its
  width.
\<close>

definition attach_room :: "nat list \<Rightarrow> prefix_cache \<Rightarrow> bool" where
  "attach_room ns s \<longleftrightarrow> (\<forall>n \<in> set ns. holds (local_attachments s) n + count_list ns n < 2 ^ 32)
     \<and> next_local_attachment s < 2 ^ 64 - 1"

definition load_room :: "nat \<Rightarrow> prefix_cache \<Rightarrow> bool" where
  "load_room h s \<longleftrightarrow> (\<forall>a. map_of (local_attachments s) h = Some a \<longrightarrow>
     (\<forall>n \<in> set (att_nodes a). loads (local_attachments s) n + count_list (att_nodes a) n < 2 ^ 32))"

lemma shift_pending_id [simp]: "shift_pending (\<lambda>k. k) = (\<lambda>i. i)"
  by (simp add: shift_pending_def fun_eq_iff)

lemma shift_groups:
  "g \<in> set (ni_groups (shift_active f i)) \<longleftrightarrow> (\<exists>x \<in> set (ni_groups i). g = x\<lparr>gi_active := f (gi_active x)\<rparr>)"
  "g \<in> set (ni_groups (shift_pending f i)) \<longleftrightarrow> (\<exists>x \<in> set (ni_groups i). g = x\<lparr>gi_pending := f (gi_pending x)\<rparr>)"
  by (auto simp: shift_active_def shift_pending_def)

text \<open>What attaching does to the content, and the state it leaves.\<close>

definition attached :: "nat list \<Rightarrow> nat \<Rightarrow> nat \<Rightarrow> node_info \<Rightarrow> node_info" where
  "attached ns e n i = shift_active (\<lambda>a. a + count_list ns n) (if n \<in> set ns then i\<lparr>ni_epoch := e\<rparr> else i)"

lemma shape_attached [simp]: "shape (attached ns e n i) = shape i"
  by (simp add: attached_def)

lemma attached_groups:
  assumes "g \<in> set (ni_groups (attached ns e n i))"
  obtains x where "x \<in> set (ni_groups i)" and "gi_active g = gi_active x + count_list ns n" and "gi_pending g = gi_pending x"
  using assms by (auto simp: attached_def shift_groups split: if_splits)

definition attach_state :: "nat list \<Rightarrow> SharedPrefixNode list \<Rightarrow> SharedGroupEntry list \<Rightarrow> prefix_cache \<Rightarrow> prefix_cache" where
  "attach_state ns nodes es s =
     s\<lparr>pc_nodes := nodes, group_entries := es, global_epoch := u64 (global_epoch s + 1),
       local_attachments := (next_local_attachment s, \<lparr>att_nodes = ns, att_loads = 0, att_release = False\<rparr>) # local_attachments s,
       next_local_attachment := next_local_attachment s + 1\<rparr>"

lemma AttachNodes_ok:
  assumes inv: "pc_inv s" and ns: "ns \<noteq> []" "set ns \<subseteq> dom (content s)" and room: "attach_room ns s"
  obtains nodes es where "AttachNodesLocked ns s = (Inr (next_local_attachment s), attach_state ns nodes es s)"
    and "pc_inv (attach_state ns nodes es s)"
    and "content (attach_state ns nodes es s) = (\<lambda>n. map_option (attached ns (u64 (global_epoch s + 1)) n) (content s n))"
proof -
  note ok = pc_invD(1) [OF inv] and att = pc_invD(4) [OF inv]
  let ?e = "u64 (global_epoch s + 1)" and ?h = "next_local_attachment s"
  let ?a = "\<lparr>att_nodes = ns, att_loads = 0, att_release = False\<rparr>"
  have "arena_ok (s\<lparr>global_epoch := ?e\<rparr>)" "set ns \<subseteq> dom (content (s\<lparr>global_epoch := ?e\<rparr>))" using ok ns(2) by simp_all
  from touch_nodes_content [OF this, of ?e] obtain nodes where t:
    "touch_nodes ?e ns (s\<lparr>global_epoch := ?e\<rparr>) = (Inr (), s\<lparr>global_epoch := ?e, pc_nodes := nodes\<rparr>)"
    "arena_ok (s\<lparr>global_epoch := ?e, pc_nodes := nodes\<rparr>)"
    "content (s\<lparr>global_epoch := ?e, pc_nodes := nodes\<rparr>)
       = (\<lambda>n. map_option (\<lambda>i. if n \<in> set ns then i\<lparr>ni_epoch := ?e\<rparr> else i) (content s n))" by auto
  let ?s1 = "s\<lparr>global_epoch := ?e, pc_nodes := nodes\<rparr>"
  have dom: "set ns \<subseteq> dom (content ?s1)" using ns(2) unfolding t(3) by auto
  have fits: "gi_active g + count_list ns n < 2 ^ 32"
    if n: "n \<in> set ns" and i: "content ?s1 n = Some i" and g: "g \<in> set (ni_groups i)" for n i g
  proof -
    obtain j where j: "content s n = Some j" "ni_groups i = ni_groups j"
      using i unfolding t(3) by (auto split: if_splits)
    have "gi_active g = holds (local_attachments s) n" using attach_okD(1) [OF att j(1)] g j(2) by simp
    then show ?thesis using room n by (simp add: attach_room_def)
  qed
  obtain es where es: "IncrementActiveRefsLocked ns ?s1 = (Inr (), ?s1\<lparr>group_entries := es\<rparr>)" "arena_ok (?s1\<lparr>group_entries := es\<rparr>)"
    "content (?s1\<lparr>group_entries := es\<rparr>) = (\<lambda>n. map_option (shift_active (\<lambda>a. a + count_list ns n)) (content ?s1 n))"
    by (rule IncrementActiveRefs_content [OF t(2) dom]) (erule (2) fits, blast)
  let ?s = "attach_state ns nodes es s"
  have fresh: "map_of (local_attachments s) ?h = None"
    using attach_okD(4) [OF att, of ?h] by (cases "map_of (local_attachments s) ?h") auto
  have run: "AttachNodesLocked ns s = (Inr ?h, ?s)"
    using ns(1) t(1) es(1) fresh room by (simp add: AttachNodesLocked_def Let_def attach_state_def attach_room_def u64_def)
  have c: "content ?s = (\<lambda>n. map_option (attached ns ?e n) (content s n))"
  proof -
    have "content ?s = content (?s1\<lparr>group_entries := es\<rparr>)" by (rule content_cong(1)) (simp_all add: attach_state_def)
    then show ?thesis unfolding es(3) t(3) by (simp only: option.map_comp attached_def [abs_def] comp_def)
  qed
  have "pc_inv ?s"
  proof (rule inv_same_shape [OF inv])
    have "arena_ok ?s = arena_ok (?s1\<lparr>group_entries := es\<rparr>)" by (rule arena_cong) (simp_all add: attach_state_def)
    then show "arena_ok ?s" using es(2) by simp
    show "map_option shape (content ?s n) = map_option shape (content s n)" for n
      by (simp add: c option.map_comp comp_def)
    show "attach_ok (content ?s) (local_attachments ?s) (next_local_attachment ?s)"
    proof (rule attach_ok_shift [OF att])
      show "content ?s n = map_option (attached ns ?e n) (content s n)" for n by (simp add: c)
      show "gi_active g = holds (local_attachments ?s) n \<and> gi_pending g = loads (local_attachments ?s) n"
        if n: "content s n = Some i" and g: "g \<in> set (ni_groups (attached ns ?e n i))" for n i g
      proof -
        obtain x where "x \<in> set (ni_groups i)" "gi_active g = gi_active x + count_list ns n" "gi_pending g = gi_pending x"
          using attached_groups [OF g] .
        then show ?thesis using attach_okD(1,2) [OF att n] by (simp add: attach_state_def)
      qed
      show "distinct (map fst (local_attachments ?s))"
        using attach_okD(7) [OF att] fresh by (simp add: attach_state_def map_of_eq_None_iff)
      show "(h, a) \<in> set (local_attachments s) \<or>
        att_nodes a \<noteq> [] \<and> set (att_nodes a) \<subseteq> dom (content s) \<and> 0 < h \<and> h < next_local_attachment ?s \<and> (att_release a \<longrightarrow> 0 < att_loads a)"
        if "(h, a) \<in> set (local_attachments ?s)" for h a
        using that ns attach_okD(8) [OF att] by (auto simp: attach_state_def)
    qed (simp add: attach_state_def)
  qed (simp_all add: attach_state_def)
  then show ?thesis using that run c by blast
qed

lemma holds_member:
  assumes "map_of atts h = Some a"
  shows "count_list (att_nodes a) n \<le> holds atts n" and "att_loads a * count_list (att_nodes a) n \<le> loads atts n"
proof -
  obtain xs ys where "atts = xs @ (h, a) # ys" using map_of_SomeD [OF assms] split_list by metis
  then show "count_list (att_nodes a) n \<le> holds atts n" "att_loads a * count_list (att_nodes a) n \<le> loads atts n" by simp_all
qed

text \<open>Giving up an attachment without loads, the last step of a release and of a deferred one.\<close>

lemma drop_attachment:
  assumes inv: "pc_inv s" and a: "map_of (local_attachments s) h = Some a" and l: "att_loads a = 0"
  obtains es where
    "DecrementActiveRefsLocked (att_nodes a) (s\<lparr>local_attachments := erase_attachment h (local_attachments s)\<rparr>)
       = (Inr (), s\<lparr>local_attachments := erase_attachment h (local_attachments s), group_entries := es\<rparr>)"
    and "pc_inv (s\<lparr>local_attachments := erase_attachment h (local_attachments s), group_entries := es\<rparr>)"
    and "content (s\<lparr>local_attachments := erase_attachment h (local_attachments s), group_entries := es\<rparr>)
           = (\<lambda>n. map_option (shift_active (\<lambda>k. k - count_list (att_nodes a) n)) (content s n))"
proof -
  note ok = pc_invD(1) [OF inv] and att = pc_invD(4) [OF inv]
  let ?atts = "local_attachments s" and ?s1 = "s\<lparr>local_attachments := erase_attachment h (local_attachments s)\<rparr>"
  have "arena_ok ?s1" "set (att_nodes a) \<subseteq> dom (content ?s1)" using ok attach_okD(3) [OF att a] by simp_all
  moreover have "count_list (att_nodes a) n \<le> gi_active g" if "content ?s1 n = Some i" "g \<in> set (ni_groups i)" for n i g
    using attach_okD(1) [OF att, of n i g] that holds_member(1) [OF a] by simp
  ultimately obtain es where es: "DecrementActiveRefsLocked (att_nodes a) ?s1 = (Inr (), ?s1\<lparr>group_entries := es\<rparr>)"
    "arena_ok (?s1\<lparr>group_entries := es\<rparr>)"
    "content (?s1\<lparr>group_entries := es\<rparr>) = (\<lambda>n. map_option (shift_active (\<lambda>k. k - count_list (att_nodes a) n)) (content ?s1 n))"
    by (rule DecrementActiveRefs_content) blast
  let ?s = "?s1\<lparr>group_entries := es\<rparr>"
  have c: "content ?s = (\<lambda>n. map_option (shift_active (\<lambda>k. k - count_list (att_nodes a) n)) (content s n))" using es(3) by simp
  obtain xs ys where split: "?atts = xs @ (h, a) # ys" "erase_attachment h ?atts = xs @ ys"
    using att_split [OF a attach_okD(7) [OF att]] by blast
  have "pc_inv ?s"
  proof (rule inv_same_shape [OF inv es(2)])
    show "map_option shape (content ?s n) = map_option shape (content s n)" for n
      unfolding c by (simp add: option.map_comp comp_def)
    show "attach_ok (content ?s) (local_attachments ?s) (next_local_attachment ?s)"
    proof (rule attach_ok_shift [OF att])
      show "content ?s n = map_option (shift_active (\<lambda>k. k - count_list (att_nodes a) n)) (content s n)" for n unfolding c ..
      show "gi_active g = holds (local_attachments ?s) n \<and> gi_pending g = loads (local_attachments ?s) n"
        if n: "content s n = Some i" and g: "g \<in> set (ni_groups (shift_active (\<lambda>k. k - count_list (att_nodes a) n) i))" for n i g
      proof -
        obtain x where x: "x \<in> set (ni_groups i)" "g = x\<lparr>gi_active := gi_active x - count_list (att_nodes a) n\<rparr>"
          using g by (auto simp: shift_groups)
        then show ?thesis using attach_okD(1,2) [OF att n x(1)] split l by simp
      qed
      show "distinct (map fst (local_attachments ?s))" using attach_okD(7) [OF att] split by simp
      show "(h', b) \<in> set (local_attachments s) \<or> att_nodes b \<noteq> [] \<and> set (att_nodes b) \<subseteq> dom (content s) \<and> 0 < h'
          \<and> h' < next_local_attachment ?s \<and> (att_release b \<longrightarrow> 0 < att_loads b)" if "(h', b) \<in> set (local_attachments ?s)" for h' b
        using that split by auto
    qed simp
  qed simp_all
  then show ?thesis using that es(1) c by simp
qed

text \<open>A change of an attachment that keeps its nodes, with the pending counters that go with it.\<close>

lemma change_attachment:
  assumes inv: "pc_inv s" and a: "map_of (local_attachments s) h = Some a" and b: "att_nodes b = att_nodes a"
    and rel: "att_release b \<longrightarrow> 0 < att_loads b"
    and ok: "arena_ok s'" and c: "content s' = (\<lambda>n. map_option (shift_pending (f n)) (content s n))"
    and f: "\<And>n. f n (loads (local_attachments s) n) + att_loads a * count_list (att_nodes a) n
              = loads (local_attachments s) n + att_loads b * count_list (att_nodes a) n"
    and s': "s' = s\<lparr>local_attachments := assoc_put h b (local_attachments s), group_entries := es\<rparr>"
  shows "pc_inv s'"
proof -
  note att = pc_invD(4) [OF inv]
  obtain xs ys where split: "local_attachments s = xs @ (h, a) # ys" "assoc_put h b (local_attachments s) = xs @ (h, b) # ys"
    using att_split [OF a attach_okD(7) [OF att]] by blast
  show ?thesis
  proof (rule inv_same_shape [OF inv ok])
    show "map_option shape (content s' n) = map_option shape (content s n)" for n
      unfolding c by (simp add: option.map_comp comp_def)
    show "attach_ok (content s') (local_attachments s') (next_local_attachment s')"
    proof (rule attach_ok_shift [OF att])
      show "content s' n = map_option (shift_pending (f n)) (content s n)" for n unfolding c ..
      show "gi_active g = holds (local_attachments s') n \<and> gi_pending g = loads (local_attachments s') n"
        if n: "content s n = Some i" and g: "g \<in> set (ni_groups (shift_pending (f n) i))" for n i g
      proof -
        obtain x where x: "x \<in> set (ni_groups i)" "g = x\<lparr>gi_pending := f n (gi_pending x)\<rparr>"
          using g by (auto simp: shift_groups)
        then show ?thesis using attach_okD(1,2) [OF att n x(1)] split f [of n] b by (simp add: s')
      qed
      show "distinct (map fst (local_attachments s'))" using attach_okD(7) [OF att] split by (simp add: s')
      show "(h', b') \<in> set (local_attachments s) \<or> att_nodes b' \<noteq> [] \<and> set (att_nodes b') \<subseteq> dom (content s) \<and> 0 < h'
          \<and> h' < next_local_attachment s' \<and> (att_release b' \<longrightarrow> 0 < att_loads b')" if "(h', b') \<in> set (local_attachments s')" for h' b'
        using that split attach_okD(3,4,5) [OF att a] b rel by (auto simp: s')
    qed (simp add: s')
  qed (simp_all add: s')
qed

theorem ReleaseAttachment_inv:
  assumes inv: "pc_inv s"
  shows "pc_inv (snd (ReleaseAttachment h s))"
proof (cases "h = 0 \<or> map_of (local_attachments s) h = None")
  case True
  then show ?thesis using inv by (auto simp: ReleaseAttachment_def split: option.split)
next
  case False
  then obtain a where a: "map_of (local_attachments s) h = Some a" "h \<noteq> 0" by auto
  have "pc_inv (s\<lparr>local_attachments := assoc_put h (a\<lparr>att_release := True\<rparr>) (local_attachments s)\<rparr>)" if l: "att_loads a \<noteq> 0"
    by (rule change_attachment [OF inv a(1), where f = "\<lambda>_ k. k" and es = "group_entries s" and b = "a\<lparr>att_release := True\<rparr>"])
      (use l pc_invD(1) [OF inv] in \<open>simp_all add: option.map_ident\<close>)
  moreover have "pc_inv (snd (DecrementActiveRefsLocked (att_nodes a) (s\<lparr>local_attachments := erase_attachment h (local_attachments s)\<rparr>)))"
    if "att_loads a = 0" by (rule drop_attachment [OF inv a(1) that]) simp
  ultimately show ?thesis using a inv by (simp add: ReleaseAttachment_def)
qed

lemma begin_load:
  assumes inv: "pc_inv s" and room: "load_room h s" and a: "map_of (local_attachments s) h = Some a" "\<not> att_release a"
  obtains es where "BeginAttachmentLoad h s = (Inr (), s\<lparr>local_attachments :=
        assoc_put h (a\<lparr>att_loads := att_loads a + 1\<rparr>) (local_attachments s), group_entries := es\<rparr>)"
    and "pc_inv (s\<lparr>local_attachments := assoc_put h (a\<lparr>att_loads := att_loads a + 1\<rparr>) (local_attachments s), group_entries := es\<rparr>)"
proof -
  note ok = pc_invD(1) [OF inv] and att = pc_invD(4) [OF inv]
  have h: "h \<noteq> 0" using attach_okD(4) [OF att a(1)] by simp
  obtain n where n: "n \<in> set (att_nodes a)" using attach_okD(5) [OF att a(1)] by (cases "att_nodes a") auto
  have "0 < count_list (att_nodes a) n" using n by (simp add: count_list_0_iff neq0_conv [symmetric])
  then have "att_loads a + 1 \<le> att_loads a * count_list (att_nodes a) n + count_list (att_nodes a) n" by (cases "count_list (att_nodes a) n") auto
  also have "\<dots> \<le> loads (local_attachments s) n + count_list (att_nodes a) n" using holds_member(2) [OF a(1)] by simp
  also have "\<dots> < 2 ^ 32" using room a(1) n by (simp add: load_room_def)
  finally have w: "u32 (att_loads a + 1) = att_loads a + 1" by (simp add: u32_def)
  let ?b = "a\<lparr>att_loads := att_loads a + 1\<rparr>"
  let ?s1 = "s\<lparr>local_attachments := assoc_put h ?b (local_attachments s)\<rparr>"
  have fits: "gi_pending g + count_list (att_nodes a) n < 2 ^ 32"
    if "n \<in> set (att_nodes a)" "content ?s1 n = Some i" "g \<in> set (ni_groups i)" for n i g
    using attach_okD(2) [OF att, of n i g] that room a(1) by (simp add: load_room_def)
  have "arena_ok ?s1" "set (att_nodes a) \<subseteq> dom (content ?s1)" using ok attach_okD(3) [OF att a(1)] by simp_all
  then obtain es where es: "UpdateLoadRefsLocked (att_nodes a) True ?s1 = (Inr (), ?s1\<lparr>group_entries := es\<rparr>)" "arena_ok (?s1\<lparr>group_entries := es\<rparr>)"
    "content (?s1\<lparr>group_entries := es\<rparr>) = (\<lambda>n. map_option (shift_pending (\<lambda>k. k + count_list (att_nodes a) n)) (content ?s1 n))"
    by (rule LoadRefs_up_content) (erule (2) fits, blast)
  have "pc_inv (?s1\<lparr>group_entries := es\<rparr>)"
  proof (rule change_attachment [OF inv a(1), where b = ?b])
    show "content (?s1\<lparr>group_entries := es\<rparr>) = (\<lambda>n. map_option (shift_pending (\<lambda>k. k + count_list (att_nodes a) n)) (content s n))"
      using es(3) by simp
  qed (use es(2) in simp_all)
  then show ?thesis using that [of es] a h es(1) w by (simp add: BeginAttachmentLoad_def)
qed

theorem BeginAttachmentLoad_inv:
  assumes inv: "pc_inv s" and room: "load_room h s"
  shows "pc_inv (snd (BeginAttachmentLoad h s))"
proof (cases "\<exists>a. map_of (local_attachments s) h = Some a \<and> \<not> att_release a")
  case True
  then obtain a where "map_of (local_attachments s) h = Some a" "\<not> att_release a" by blast
  from begin_load [OF inv room this] show ?thesis by (metis snd_conv)
next
  case False
  then have "snd (BeginAttachmentLoad h s) = s" by (auto simp: BeginAttachmentLoad_def split: option.split)
  then show ?thesis using inv by simp
qed

lemma end_load:
  assumes inv: "pc_inv s" and a: "map_of (local_attachments s) h = Some a" and l: "att_loads a \<noteq> 0"
  obtains es where "UpdateLoadRefsLocked (att_nodes a) False (s\<lparr>local_attachments := atts\<rparr>)
      = (Inr (), s\<lparr>local_attachments := atts, group_entries := es\<rparr>)"
    and "\<And>b. \<lbrakk>att_nodes b = att_nodes a; att_loads b = att_loads a - 1; att_release b \<longrightarrow> 0 < att_loads b\<rbrakk>
          \<Longrightarrow> pc_inv (s\<lparr>local_attachments := assoc_put h b (local_attachments s), group_entries := es\<rparr>)"
    and "content (s\<lparr>group_entries := es\<rparr>) = (\<lambda>n. map_option (shift_pending (\<lambda>k. k - count_list (att_nodes a) n)) (content s n))"
proof -
  note ok = pc_invD(1) [OF inv] and att = pc_invD(4) [OF inv]
  have le: "count_list (att_nodes a) n \<le> loads (local_attachments s) n" for n
    using holds_member(2) [OF a, of n] l by (cases "att_loads a") auto
  have "count_list (att_nodes a) n \<le> gi_pending g" if "content (s\<lparr>local_attachments := atts\<rparr>) n = Some i" "g \<in> set (ni_groups i)" for n i g
    using attach_okD(2) [OF att, of n i g] that le by simp
  moreover have "arena_ok (s\<lparr>local_attachments := atts\<rparr>)" "set (att_nodes a) \<subseteq> dom (content (s\<lparr>local_attachments := atts\<rparr>))"
    using ok attach_okD(3) [OF att a] by simp_all
  ultimately obtain es where es:
    "UpdateLoadRefsLocked (att_nodes a) False (s\<lparr>local_attachments := atts\<rparr>) = (Inr (), s\<lparr>local_attachments := atts, group_entries := es\<rparr>)"
    "arena_ok (s\<lparr>local_attachments := atts, group_entries := es\<rparr>)"
    "content (s\<lparr>local_attachments := atts, group_entries := es\<rparr>)
       = (\<lambda>n. map_option (shift_pending (\<lambda>k. k - count_list (att_nodes a) n)) (content (s\<lparr>local_attachments := atts\<rparr>) n))"
    using LoadRefs_down_content [of "s\<lparr>local_attachments := atts\<rparr>" "att_nodes a"] by blast
  have ok': "arena_ok (s\<lparr>local_attachments := xs, group_entries := es\<rparr>)" for xs
    using es(2) arena_cong [of "s\<lparr>local_attachments := xs, group_entries := es\<rparr>" "s\<lparr>local_attachments := atts, group_entries := es\<rparr>"] by simp
  have c: "content (s\<lparr>local_attachments := xs, group_entries := es\<rparr>)
      = (\<lambda>n. map_option (shift_pending (\<lambda>k. k - count_list (att_nodes a) n)) (content s n))" for xs
    using es(3) content_cong(1) [of "s\<lparr>local_attachments := xs, group_entries := es\<rparr>" "s\<lparr>local_attachments := atts, group_entries := es\<rparr>"] by simp
  have sum: "loads (local_attachments s) n - count_list (att_nodes a) n + att_loads a * count_list (att_nodes a) n
      = loads (local_attachments s) n + (att_loads a - 1) * count_list (att_nodes a) n" for n
    using le [of n] l by (cases "att_loads a") simp_all
  have c0: "content (s\<lparr>group_entries := es\<rparr>) = (\<lambda>n. map_option (shift_pending (\<lambda>k. k - count_list (att_nodes a) n)) (content s n))"
    using c [of "local_attachments s"] by simp
  show ?thesis
  proof (rule that [OF es(1) _ c0])
    show "pc_inv (s\<lparr>local_attachments := assoc_put h b (local_attachments s), group_entries := es\<rparr>)"
      if "att_nodes b = att_nodes a" "att_loads b = att_loads a - 1" "att_release b \<longrightarrow> 0 < att_loads b" for b
      by (rule change_attachment [OF inv a that(1) _ ok' c]) (use that sum in simp_all)
  qed
qed

lemma finish_load:
  assumes inv: "pc_inv s" and a: "map_of (local_attachments s) h = Some a" "att_loads a \<noteq> 0"
  obtains es where "EndAttachmentLoad h s = (Inr (), s\<lparr>local_attachments := (if att_release a \<and> att_loads a = 1
        then erase_attachment h (local_attachments s)
        else assoc_put h (a\<lparr>att_loads := att_loads a - 1\<rparr>) (local_attachments s)), group_entries := es\<rparr>)"
    and "pc_inv (s\<lparr>local_attachments := (if att_release a \<and> att_loads a = 1
        then erase_attachment h (local_attachments s)
        else assoc_put h (a\<lparr>att_loads := att_loads a - 1\<rparr>) (local_attachments s)), group_entries := es\<rparr>)"
proof (cases "att_release a \<and> att_loads a = 1")
  case False
  let ?b = "a\<lparr>att_loads := att_loads a - 1\<rparr>" and ?atts = "local_attachments s"
  have h: "h \<noteq> 0" using attach_okD(4) [OF pc_invD(4) [OF inv] a(1)] by simp
  obtain es where es: "UpdateLoadRefsLocked (att_nodes a) False (s\<lparr>local_attachments := assoc_put h ?b ?atts\<rparr>)
      = (Inr (), s\<lparr>local_attachments := assoc_put h ?b ?atts, group_entries := es\<rparr>)"
    and inv': "pc_inv (s\<lparr>local_attachments := assoc_put h ?b ?atts, group_entries := es\<rparr>)"
    by (rule end_load [OF inv a, of "assoc_put h ?b ?atts"]) (use a False in auto)
  show ?thesis by (rule that [of es]) (use a h False es inv' in \<open>auto simp: EndAttachmentLoad_def Let_def\<close>)
next
  case True
  have h: "h \<noteq> 0" using attach_okD(4) [OF pc_invD(4) [OF inv] a(1)] by simp
  let ?atts = "local_attachments s" and ?c = "a\<lparr>att_loads := 0, att_release := False\<rparr>"
  obtain es where es: "UpdateLoadRefsLocked (att_nodes a) False (s\<lparr>local_attachments := erase_attachment h ?atts\<rparr>)
      = (Inr (), s\<lparr>local_attachments := erase_attachment h ?atts, group_entries := es\<rparr>)"
    and inv': "pc_inv (s\<lparr>local_attachments := assoc_put h ?c ?atts, group_entries := es\<rparr>)"
    by (rule end_load [OF inv a, of "erase_attachment h ?atts"]) (use True in simp)
  let ?s = "s\<lparr>local_attachments := assoc_put h ?c ?atts, group_entries := es\<rparr>"
  have c: "map_of (local_attachments ?s) h = Some ?c" by (simp add: map_of_assoc_put)
  have er: "erase_attachment h (assoc_put h ?c ?atts) = erase_attachment h ?atts"
    by (rule att_split [OF a(1) attach_okD(7) [OF pc_invD(4) [OF inv]]]) (simp add: erase_attachment_def)
  obtain es' where d: "DecrementActiveRefsLocked (att_nodes ?c) (?s\<lparr>local_attachments := erase_attachment h (local_attachments ?s)\<rparr>)
       = (Inr (), ?s\<lparr>local_attachments := erase_attachment h (local_attachments ?s), group_entries := es'\<rparr>)"
    "pc_inv (?s\<lparr>local_attachments := erase_attachment h (local_attachments ?s), group_entries := es'\<rparr>)"
    by (rule drop_attachment [OF inv' c]) simp_all
  have swap: "s\<lparr>local_attachments := erase_attachment h ?atts, group_entries := es\<rparr>
      = s\<lparr>group_entries := es, local_attachments := erase_attachment h ?atts\<rparr>" by simp
  show ?thesis
    by (rule that [of es']) (use a h True es d in \<open>simp_all add: EndAttachmentLoad_def Let_def er swap\<close>)
qed

theorem EndAttachmentLoad_inv:
  assumes inv: "pc_inv s"
  shows "pc_inv (snd (EndAttachmentLoad h s))"
proof (cases "\<exists>a. map_of (local_attachments s) h = Some a \<and> att_loads a \<noteq> 0")
  case True
  then obtain a where "map_of (local_attachments s) h = Some a" "att_loads a \<noteq> 0" by blast
  from finish_load [OF inv this] show ?thesis by (metis snd_conv)
next
  case False
  then have "snd (EndAttachmentLoad h s) = s" by (auto simp: EndAttachmentLoad_def split: option.split)
  then show ?thesis using inv by simp
qed

end
