(* ===== verification/Prefix_Evict.thy ===== *)
theory Prefix_Evict
  imports Prefix_Attach
begin

text \<open>
  Eviction: removing a node returns exactly the pages that no resident node holds any more, and
  the scans of the eviction methods remove only nodes that no attachment holds.
\<close>

section \<open>Pages set free\<close>

definition freed_keys :: "GroupCommitPages list \<Rightarrow> (nat \<times> nat) multiset" where
  "freed_keys gs = mset (concat (map (\<lambda>(g, ps). map (Pair g) ps) gs))"

lemma freed_keys_push [simp]: "freed_keys (push_page g p gs) = add_mset (g, p) (freed_keys gs)"
  by (induction g p gs rule: push_page.induct) (simp_all add: freed_keys_def)

text \<open>The keys of \<open>ks\<close> that nothing of \<open>M\<close> holds, once each.\<close>

definition let_go :: "(nat \<times> nat) list \<Rightarrow> (nat \<times> nat) multiset \<Rightarrow> (nat \<times> nat) multiset" where
  "let_go ks M = mset_set (set ks - set_mset M)"

lemma let_go_append: "let_go (ks @ ls) M = let_go ks (mset ls + M) + let_go ls M"
proof -
  have "set (ks @ ls) - set_mset M = (set ks - set_mset (mset ls + M)) \<union> (set ls - set_mset M)" by auto
  moreover have "mset_set ((set ks - set_mset (mset ls + M)) \<union> (set ls - set_mset M))
      = mset_set (set ks - set_mset (mset ls + M)) + mset_set (set ls - set_mset M)"
    by (rule mset_set_Union) auto
  ultimately show ?thesis by (simp add: let_go_def)
qed

lemma let_go_Nil [simp]: "let_go [] M = {#}"
  by (simp add: let_go_def)

lemma let_go_Cons: "let_go (k # ks) M = (if k \<in># mset ks + M then {#} else {#k#}) + let_go ks M"
proof -
  have "let_go [k] (mset ks + M) = (if k \<in># mset ks + M then {#} else {#k#})"
    by (auto simp: let_go_def insert_Diff_if)
  then show ?thesis using let_go_append [of "[k]" ks M] by simp
qed

definition page_step :: "nat \<Rightarrow> nat \<Rightarrow> PrefixEvictionResult \<Rightarrow> prefix_cache \<Rightarrow> PrefixEvictionResult result \<times> prefix_cache" where
  "page_step g page r s = and_then (DecrementPageRefLocked g page s) (\<lambda>last s.
     (Inr (if last then r\<lparr>evicted_group_pages := push_page g page (evicted_group_pages r)\<rparr> else r), s))"

lemma release_pages:
  assumes "refs_count s (mset (map (Pair g) ps) + M)" and "size_ok s"
  shows "\<exists>slots gs. fold_do (page_step g) ps r s = (Inr (r\<lparr>evicted_group_pages := gs\<rparr>), s\<lparr>page_ref_slots := slots\<rparr>)
     \<and> refs_count (s\<lparr>page_ref_slots := slots\<rparr>) M
     \<and> freed_keys gs = freed_keys (evicted_group_pages r) + let_go (map (Pair g) ps) M"
  using assms
proof (induction ps arbitrary: r s)
  case Nil
  then show ?case by (intro exI [of _ "page_ref_slots s"] exI [of _ "evicted_group_pages r"]) simp
next
  case (Cons p ps)
  let ?M = "mset (map (Pair g) ps) + M"
  have "refs_count s (add_mset (g, p) ?M)" using Cons.prems(1) by simp
  then obtain slots where d: "DecrementPageRefLocked g p s = (Inr ((g, p) \<notin># ?M), s\<lparr>page_ref_slots := slots\<rparr>)"
    "refs_count (s\<lparr>page_ref_slots := slots\<rparr>) ?M" by (rule DecrementPageRef_count [OF _ Cons.prems(2)])
  let ?r = "if (g, p) \<notin># ?M then r\<lparr>evicted_group_pages := push_page g p (evicted_group_pages r)\<rparr> else r"
  have "size_ok (s\<lparr>page_ref_slots := slots\<rparr>)" using Cons.prems(2) by simp
  from Cons.IH [OF d(2) this, of ?r] obtain slots' gs where
    "fold_do (page_step g) ps ?r (s\<lparr>page_ref_slots := slots\<rparr>) = (Inr (?r\<lparr>evicted_group_pages := gs\<rparr>), s\<lparr>page_ref_slots := slots'\<rparr>)"
    "refs_count (s\<lparr>page_ref_slots := slots'\<rparr>) M"
    "freed_keys gs = freed_keys (evicted_group_pages ?r) + let_go (map (Pair g) ps) M" by auto
  moreover have "page_step g p r s = (Inr ?r, s\<lparr>page_ref_slots := slots\<rparr>)" unfolding page_step_def d(1) and_then_Inr ..
  moreover have "?r\<lparr>evicted_group_pages := gs\<rparr> = r\<lparr>evicted_group_pages := gs\<rparr>" by simp
  moreover have "let_go (map (Pair g) (p # ps)) M = (if (g, p) \<in># ?M then {#} else {#(g, p)#}) + let_go (map (Pair g) ps) M"
    using let_go_Cons [of "(g, p)" "map (Pair g) ps" M] by (simp del: mset_map)
  ultimately show ?case by (intro exI [of _ slots'] exI [of _ gs]) (simp del: mset_map)
qed

definition entry_keys :: "prefix_cache \<Rightarrow> SharedGroupEntry \<Rightarrow> (nat \<times> nat) list" where
  "entry_keys s e = map (Pair (entry_group e)) (handle_pages s e)"

lemma release_entries:
  assumes "refs_count s (mset (concat (map (entry_keys s) es)) + M)" and "size_ok s"
  shows "\<exists>slots gs. fold_do (\<lambda>e r s. fold_do (page_step (entry_group e)) (handle_pages s e) r s) es r s
       = (Inr (r\<lparr>evicted_group_pages := gs\<rparr>), s\<lparr>page_ref_slots := slots\<rparr>)
     \<and> refs_count (s\<lparr>page_ref_slots := slots\<rparr>) M
     \<and> freed_keys gs = freed_keys (evicted_group_pages r) + let_go (concat (map (entry_keys s) es)) M"
  using assms
proof (induction es arbitrary: r s)
  case Nil
  then show ?case by (intro exI [of _ "page_ref_slots s"] exI [of _ "evicted_group_pages r"]) simp
next
  case (Cons e es)
  let ?ks = "concat (map (entry_keys s) es)"
  have "refs_count s (mset (map (Pair (entry_group e)) (handle_pages s e)) + (mset ?ks + M))"
    using Cons.prems(1) by (simp add: entry_keys_def [of s e] add.assoc)
  from release_pages [OF this Cons.prems(2), of r] obtain slots gs where p:
    "fold_do (page_step (entry_group e)) (handle_pages s e) r s = (Inr (r\<lparr>evicted_group_pages := gs\<rparr>), s\<lparr>page_ref_slots := slots\<rparr>)"
    "refs_count (s\<lparr>page_ref_slots := slots\<rparr>) (mset ?ks + M)"
    "freed_keys gs = freed_keys (evicted_group_pages r) + let_go (entry_keys s e) (mset ?ks + M)"
    unfolding entry_keys_def by blast
  let ?s = "s\<lparr>page_ref_slots := slots\<rparr>" and ?r = "r\<lparr>evicted_group_pages := gs\<rparr>"
  have same: "entry_keys ?s = entry_keys s" by (simp add: fun_eq_iff entry_keys_def handle_pages_def)
  have "size_ok ?s" using Cons.prems(2) by simp
  from Cons.IH [of ?s ?r, unfolded same, OF p(2) this] obtain slots' gs' where
    "fold_do (\<lambda>e r s. fold_do (page_step (entry_group e)) (handle_pages s e) r s) es ?r ?s
       = (Inr (r\<lparr>evicted_group_pages := gs'\<rparr>), s\<lparr>page_ref_slots := slots'\<rparr>)"
    "refs_count (s\<lparr>page_ref_slots := slots'\<rparr>) M"
    "freed_keys gs' = freed_keys gs + let_go ?ks M" by auto
  then show ?case using p(1,3)
    by (intro exI [of _ slots'] exI [of _ gs']) (simp add: let_go_append add.assoc)
qed

section \<open>Evicting a node\<close>

text \<open>The states an eviction can lead to: fewer nodes, and none fewer that an attachment holds.\<close>

definition rest :: "prefix_cache \<Rightarrow> prefix_cache" where
  "rest s = s\<lparr>pc_nodes := [], node_index_slots := [], page_ref_slots := []\<rparr>"

definition shrinks :: "prefix_cache \<Rightarrow> prefix_cache \<Rightarrow> bool" where
  "shrinks s s' \<longleftrightarrow> rest s' = rest s
     \<and> (\<forall>m. content s' m \<noteq> None \<longrightarrow> content s' m = content s m \<and> pc_nodes s' ! m = pc_nodes s ! m)
     \<and> (\<forall>m. content s m \<noteq> None \<longrightarrow> content s' m = None \<longrightarrow> holds (local_attachments s) m = 0)"

lemma shrinks_refl [simp]: "shrinks s s"
  by (auto simp: shrinks_def)

lemma shrinks_fields:
  assumes "shrinks s s'"
  shows "local_attachments s' = local_attachments s"
    and "next_local_attachment s' = next_local_attachment s"
    and "max_nodes s' = max_nodes s"
    and "pc_specs s' = pc_specs s"
    and "max_page_handles s' = max_page_handles s"
    and "max_group_entries s' = max_group_entries s"
    and "next_group_entry s' = next_group_entry s"
    and "next_page_handle s' = next_page_handle s"
    and "global_epoch s' = global_epoch s"
    and "hash_block_tokens s' = hash_block_tokens s"
    and "commit_boundary_tokens s' = commit_boundary_tokens s"
    and "group_entries s' = group_entries s"
    and "page_handles s' = page_handles s"
proof -
  have r: "rest s' = rest s" using assms by (simp add: shrinks_def)
  show "local_attachments s' = local_attachments s" using arg_cong [OF r, of local_attachments] by (simp add: rest_def)
  show "next_local_attachment s' = next_local_attachment s" using arg_cong [OF r, of next_local_attachment] by (simp add: rest_def)
  show "max_nodes s' = max_nodes s" using arg_cong [OF r, of max_nodes] by (simp add: rest_def)
  show "pc_specs s' = pc_specs s" using arg_cong [OF r, of pc_specs] by (simp add: rest_def)
  show "max_page_handles s' = max_page_handles s" using arg_cong [OF r, of max_page_handles] by (simp add: rest_def)
  show "max_group_entries s' = max_group_entries s" using arg_cong [OF r, of max_group_entries] by (simp add: rest_def)
  show "next_group_entry s' = next_group_entry s" using arg_cong [OF r, of next_group_entry] by (simp add: rest_def)
  show "next_page_handle s' = next_page_handle s" using arg_cong [OF r, of next_page_handle] by (simp add: rest_def)
  show "global_epoch s' = global_epoch s" using arg_cong [OF r, of global_epoch] by (simp add: rest_def)
  show "hash_block_tokens s' = hash_block_tokens s" using arg_cong [OF r, of hash_block_tokens] by (simp add: rest_def)
  show "commit_boundary_tokens s' = commit_boundary_tokens s" using arg_cong [OF r, of commit_boundary_tokens] by (simp add: rest_def)
  show "group_entries s' = group_entries s" using arg_cong [OF r, of group_entries] by (simp add: rest_def)
  show "page_handles s' = page_handles s" using arg_cong [OF r, of page_handles] by (simp add: rest_def)
qed

lemma shrinks_trans:
  assumes "shrinks s t" and "shrinks t u"
  shows "shrinks s u"
proof -
  have "rest u = rest s" using assms by (simp add: shrinks_def)
  moreover have "content u m = content s m \<and> pc_nodes u ! m = pc_nodes s ! m" if "content u m \<noteq> None" for m
  proof -
    have "content u m = content t m \<and> pc_nodes u ! m = pc_nodes t ! m" using assms(2) that unfolding shrinks_def by blast
    moreover have "content t m = content s m \<and> pc_nodes t ! m = pc_nodes s ! m"
      using assms(1) that calculation unfolding shrinks_def by metis
    ultimately show ?thesis by simp
  qed
  moreover have "holds (local_attachments s) m = 0" if "content s m \<noteq> None" "content u m = None" for m
    using assms that shrinks_fields(1) [OF assms(1)] unfolding shrinks_def by metis
  ultimately show ?thesis unfolding shrinks_def by blast
qed

lemma attach_ok_drop:
  assumes "attach_ok c atts k" and "holds atts n = 0"
  shows "attach_ok (c(n := None)) atts k"
proof -
  have "count_list (att_nodes a) n = 0" if "(h, a) \<in> set atts" for h a
    using assms(2) that by (force simp: holds_def sum_list_eq_0_iff)
  then have "n \<notin> set (att_nodes a)" if "(h, a) \<in> set atts" for h a using that by (simp add: count_list_0_iff)
  then show ?thesis using assms(1) by (fastforce simp: attach_ok_def)
qed

lemma EvictNode_ok:
  assumes inv: "pc_inv s" and n: "content s n = Some i" and free: "holds (local_attachments s) n = 0"
  obtains r' s' where "EvictNodeLocked n r s = (Inr r', s')" and "pc_inv s'" and "shrinks s s'"
    and "content s' = (content s)(n := None)" and "held_pages s = mset (page_keys i) + held_pages s'"
    and "freed_keys (evicted_group_pages r') = freed_keys (evicted_group_pages r) + let_go (page_keys i) (held_pages s')"
    and "evicted_nodes r' = u32 (evicted_nodes r + 1)" and "protected_nodes r' = protected_nodes r"
proof -
  note ok = pc_invD(1) [OF inv] and idx = pc_invD(2) [OF inv] and refs = pc_invD(3) [OF inv] and size = pc_invD(7) [OF inv]
  note node = arena_node [OF ok n]
  let ?node = "pc_nodes s ! n" and ?t = "empty_node\<lparr>node_state := kTombstone\<rparr>"
  have keys: "page_keys i = concat (map (entry_keys s) (resident_entries s ?node))"
    unfolding node_entries_range(3) [OF ok node(3)]
    by (simp add: page_keys_def node(4) describe_def entry_info_def entry_keys_def [abs_def] comp_def)
  define s1 where "s1 = s\<lparr>pc_nodes := (pc_nodes s)[n := ?t]\<rparr>"
  have t: "\<not> is_resident ?t" by (simp add: is_resident_def)
  note d = drop_node [OF ok n t s1_def]
  have "refs_count s (mset (concat (map (entry_keys s) (resident_entries s ?node))) + held_pages s1)"
    using refs d(3) keys by simp
  from release_entries [OF this size, of r] obtain slots gs where e:
    "fold_do (\<lambda>e r s. fold_do (page_step (entry_group e)) (handle_pages s e) r s) (resident_entries s ?node) r s
       = (Inr (r\<lparr>evicted_group_pages := gs\<rparr>), s\<lparr>page_ref_slots := slots\<rparr>)"
    "refs_count (s\<lparr>page_ref_slots := slots\<rparr>) (held_pages s1)"
    "freed_keys gs = freed_keys (evicted_group_pages r) + let_go (page_keys i) (held_pages s1)"
    unfolding keys by blast
  have app: "AppendEvictedPagesLocked ?node r s = (Inr (r\<lparr>evicted_group_pages := gs\<rparr>), s\<lparr>page_ref_slots := slots\<rparr>)"
    using e(1) by (simp add: AppendEvictedPagesLocked_def page_step_def [abs_def])
  have "size_ok (s\<lparr>page_ref_slots := slots\<rparr>)" "index_wf (s\<lparr>page_ref_slots := slots\<rparr>)"
    using size pc_invD(8) [OF inv] by (simp_all add: index_wf_def)
  then obtain index where r: "RemoveNodeIndexLocked (node_digest ?node) (s\<lparr>page_ref_slots := slots\<rparr>)
      = s\<lparr>page_ref_slots := slots, node_index_slots := index\<rparr>"
    "index_wf (s\<lparr>page_ref_slots := slots, node_index_slots := index\<rparr>)"
    "table_map node_cls islot_node index = (index_map s)(node_digest ?node := None)"
    by (rule RemoveNodeIndex_map) simp
  define s' where "s' = s\<lparr>pc_nodes := (pc_nodes s)[n := ?t], node_index_slots := index, page_ref_slots := slots\<rparr>"
  have same: "content s' = content s1" "arena_ok s' = arena_ok s1" "held_pages s' = held_pages s1"
    by (rule content_cong arena_cong; simp add: s'_def s1_def)+
  have c: "content s' = (content s)(n := None)" using d(2) same(1) by simp
  have dig: "node_digest ?node = ni_digest i" by (simp add: node(4) describe_def)
  have "index_exact s'"
  proof -
    have "index_map s' dg = Some m \<longleftrightarrow> (\<exists>j. content s' m = Some j \<and> ni_digest j = dg)" for dg m
    proof -
      have "index_map s dg = Some m \<longleftrightarrow> (\<exists>j. content s m = Some j \<and> ni_digest j = dg)" using idx by (simp add: index_exact_def)
      moreover have "index_map s' = (index_map s)(ni_digest i := None)" using r(3) dig by (simp add: s'_def)
      moreover have "\<not> (content s m = Some j \<and> ni_digest j = ni_digest i)" if "m \<noteq> n" for j
        using digest_unique [OF idx n, of m j] that by auto
      ultimately show ?thesis using n unfolding c by (cases "m = n"; cases "dg = ni_digest i") auto
    qed
    moreover have "index_wf s'" using r(2) by (simp add: s'_def index_wf_def)
    ultimately show ?thesis by (simp add: index_exact_def)
  qed
  moreover have "refs_count s' (held_pages s')" using e(2) same(3) by (simp add: refs_count_def refs_wf_def s'_def)
  moreover have "attach_ok (content s') (local_attachments s') (next_local_attachment s')"
    unfolding c using attach_ok_drop [OF pc_invD(4) [OF inv] free] by (simp add: s'_def)
  moreover have "complete_info (pc_specs s') j" if "content s' m = Some j" for m j
    using that pc_invD(6) [OF inv] unfolding c by (simp add: s'_def split: if_splits)
  moreover have "config_ok s'" using pc_invD(5) [OF inv] by (simp add: config_ok_def s'_def)
  ultimately have inv': "pc_inv s'" using d(1) same(2) by (simp add: pc_inv_def)
  have sh: "shrinks s s'"
    unfolding shrinks_def c using free n by (auto simp: s'_def rest_def)
  obtain h where run: "EvictNodeLocked n r s = (Inr (r\<lparr>evicted_group_pages := gs,
      freed_group_entries := u32 (freed_group_entries r + group_entry_count ?node), freed_page_handles := h,
      evicted_nodes := u32 (evicted_nodes r + 1)\<rparr>), s')"
    by (simp add: EvictNodeLocked_def app Let_def r(1) s'_def)
  show ?thesis
    by (rule that [OF run inv' sh c]) (use d(3) e(3) same(3) in simp_all)
qed

section \<open>The scan\<close>

lemma dom_content_finite [simp]: "finite (dom (content s))"
  by (rule finite_subset [of _ "{..<max_nodes s}"]) (auto simp: content_Some)

lemma shrinks_dom: "shrinks s s' \<Longrightarrow> dom (content s') \<subseteq> dom (content s)"
  unfolding shrinks_def dom_def by auto

text \<open>What a scan over the nodes \<open>ns\<close> has done, from one state and result to another.\<close>

definition evict_run :: "(SharedPrefixNode \<Rightarrow> bool) \<Rightarrow> nat list \<Rightarrow> prefix_cache \<Rightarrow> PrefixEvictionResult
    \<Rightarrow> prefix_cache \<Rightarrow> PrefixEvictionResult \<Rightarrow> bool" where
  "evict_run wanted ns s r s' r' \<longleftrightarrow> pc_inv s' \<and> shrinks s s'
     \<and> (\<forall>m. content s m \<noteq> None \<longrightarrow> content s' m = None \<longrightarrow> m \<in> set ns \<and> wanted (pc_nodes s ! m))
     \<and> held_pages s' \<subseteq># held_pages s
     \<and> freed_keys (evicted_group_pages r') = freed_keys (evicted_group_pages r)
         + mset_set (set_mset (held_pages s) - set_mset (held_pages s'))
     \<and> evicted_nodes r' = evicted_nodes r + card (dom (content s) - dom (content s'))"

lemma evict_run_refl: "pc_inv s \<Longrightarrow> evict_run wanted ns s r s r"
  by (auto simp: evict_run_def)

lemma evict_run_skip:
  assumes "evict_run wanted ns s r1 s' r'" and "evicted_group_pages r1 = evicted_group_pages r" and "evicted_nodes r1 = evicted_nodes r"
  shows "evict_run wanted (n # ns) s r s' r'"
  using assms by (auto simp: evict_run_def)

lemma evict_run_step:
  assumes inv: "pc_inv s" and n: "content s n = Some i" and free: "holds (local_attachments s) n = 0" and w: "wanted (pc_nodes s ! n)"
    and s1: "shrinks s s1" "content s1 = (content s)(n := None)" "held_pages s = mset (page_keys i) + held_pages s1"
      "freed_keys (evicted_group_pages r1) = freed_keys (evicted_group_pages r) + let_go (page_keys i) (held_pages s1)"
      "evicted_nodes r1 = evicted_nodes r + 1"
    and run: "evict_run wanted ns s1 r1 s' r'"
  shows "evict_run wanted (n # ns) s r s' r'"
proof -
  have "shrinks s s'" using shrinks_trans [OF s1(1)] run by (simp add: evict_run_def)
  moreover have "m \<in> set (n # ns) \<and> wanted (pc_nodes s ! m)" if m: "content s m \<noteq> None" "content s' m = None" for m
  proof (cases "m = n")
    case False
    then have "content s1 m \<noteq> None" using m s1(2) by simp
    then have "m \<in> set ns \<and> wanted (pc_nodes s1 ! m)" "pc_nodes s1 ! m = pc_nodes s ! m"
      using run m(2) s1(1) unfolding evict_run_def shrinks_def by blast+
    then show ?thesis by simp
  qed (use w in simp)
  moreover have sub: "held_pages s' \<subseteq># held_pages s1" using run by (simp add: evict_run_def)
  then have "held_pages s' \<subseteq># held_pages s" using s1(3) by (simp add: subset_mset.add_increasing)
  moreover have "freed_keys (evicted_group_pages r') = freed_keys (evicted_group_pages r)
         + mset_set (set_mset (held_pages s) - set_mset (held_pages s'))"
  proof -
    have "set_mset (held_pages s) - set_mset (held_pages s')
        = (set (page_keys i) - set_mset (held_pages s1)) \<union> (set_mset (held_pages s1) - set_mset (held_pages s'))"
      using set_mset_mono [OF sub] s1(3) by auto
    moreover have "mset_set ((set (page_keys i) - set_mset (held_pages s1)) \<union> (set_mset (held_pages s1) - set_mset (held_pages s')))
        = let_go (page_keys i) (held_pages s1) + mset_set (set_mset (held_pages s1) - set_mset (held_pages s'))"
      unfolding let_go_def by (rule mset_set_Union) auto
    ultimately show ?thesis using run s1(4) by (simp add: evict_run_def)
  qed
  moreover have "evicted_nodes r' = evicted_nodes r + card (dom (content s) - dom (content s'))"
  proof -
    have "dom (content s') \<subseteq> dom (content s1)" using shrinks_dom run by (simp add: evict_run_def)
    then have "dom (content s) - dom (content s') = insert n (dom (content s1) - dom (content s'))" "n \<notin> dom (content s1)"
      using n by (auto simp: s1(2) dom_def)
    then have "card (dom (content s) - dom (content s')) = Suc (card (dom (content s1) - dom (content s')))" by simp
    then show ?thesis using run s1(5) by (simp add: evict_run_def)
  qed
  ultimately show ?thesis using run unfolding evict_run_def by blast
qed

lemma evict_loop_ok:
  assumes "pc_inv s" and "set ns \<subseteq> {..<max_nodes s}" and "evicted_nodes r + card (dom (content s)) < 2 ^ 32"
  shows "\<exists>r' s'. evict_loop wanted stop scan ns k r s = (Inr r', s') \<and> evict_run wanted ns s r s' r'
     \<and> (stop r' s' \<or> scan \<noteq> 0 \<or> (\<forall>m \<in> set ns. content s' m \<noteq> None \<longrightarrow>
          holds (local_attachments s) m \<noteq> 0 \<or> \<not> wanted (pc_nodes s ! m)))"
  using assms
proof (induction ns arbitrary: k r s)
  case Nil
  then show ?case using evict_run_refl by auto
next
  case (Cons n ns)
  have n: "n < max_nodes s" and ns: "set ns \<subseteq> {..<max_nodes s}" using Cons.prems(2) by auto
  note inv = Cons.prems(1)
  have skip: ?case if res: "evict_loop wanted stop scan (n # ns) k r s = evict_loop wanted stop scan ns (k + 1) r1 s"
    and r1: "evicted_group_pages r1 = evicted_group_pages r" "evicted_nodes r1 = evicted_nodes r"
    and keep: "content s n \<noteq> None \<Longrightarrow> holds (local_attachments s) n \<noteq> 0 \<or> \<not> wanted (pc_nodes s ! n)" for r1
  proof -
    obtain r' s' where *: "evict_loop wanted stop scan ns (k + 1) r1 s = (Inr r', s')" "evict_run wanted ns s r1 s' r'"
      "stop r' s' \<or> scan \<noteq> 0 \<or> (\<forall>m \<in> set ns. content s' m \<noteq> None \<longrightarrow> holds (local_attachments s) m \<noteq> 0 \<or> \<not> wanted (pc_nodes s ! m))"
      using Cons.IH [OF inv ns, of r1 "k + 1"] Cons.prems(3) r1(2) by auto
    have "content s n \<noteq> None" if "content s' n \<noteq> None" using *(2) that unfolding evict_run_def shrinks_def by metis
    then show ?thesis using *(1,3) evict_run_skip [OF *(2) r1, of n] keep res by auto
  qed
  show ?case
  proof (cases "scan \<noteq> 0 \<and> scan \<le> k")
    case True
    then show ?thesis using evict_run_refl [OF inv] by auto
  next
    case go: False
    show ?thesis
    proof (cases "content s n")
      case None
      then show ?thesis using go n by (intro skip [of r]) (auto simp: content_None)
    next
      case (Some i)
      have res: "is_resident (pc_nodes s ! n)" using Some by (simp add: content_Some)
      note prot = protected_iff [OF inv Some]
      show ?thesis
      proof (cases "wanted (pc_nodes s ! n) \<and> holds (local_attachments s) n = 0")
        case False
        show ?thesis
          by (rule skip [of "if wanted (pc_nodes s ! n) then r\<lparr>protected_nodes := u32 (protected_nodes r + 1)\<rparr> else r"])
            (use False go res prot in auto)
      next
        case True
        obtain r1 s1 where e: "EvictNodeLocked n r s = (Inr r1, s1)" "pc_inv s1" "shrinks s s1"
          "content s1 = (content s)(n := None)" "held_pages s = mset (page_keys i) + held_pages s1"
          "freed_keys (evicted_group_pages r1) = freed_keys (evicted_group_pages r) + let_go (page_keys i) (held_pages s1)"
          "evicted_nodes r1 = u32 (evicted_nodes r + 1)"
          by (rule EvictNode_ok [OF inv Some, of r]) (use True in auto)
        have dom: "dom (content s) = insert n (dom (content s1))" "n \<notin> dom (content s1)" using Some e(4) by auto
        have c1: "evicted_nodes r1 = evicted_nodes r + 1"
          using Cons.prems(3) dom by (simp add: e(7) u32_def)
        note step = evict_run_step [OF inv Some _ _ e(3-6) c1]
        have first: "evict_loop wanted stop scan (n # ns) k r s =
            (if stop r1 s1 then (Inr r1, s1) else evict_loop wanted stop scan ns (k + 1) r1 s1)"
          using go res prot True by (auto simp: e(1))
        show ?thesis
        proof (cases "stop r1 s1")
          case stp: True
          have "evict_run wanted (n # ns) s r s1 r1" using step [OF _ _ evict_run_refl [OF e(2)]] True by simp
          then show ?thesis using first stp by auto
        next
          case False
          have "set ns \<subseteq> {..<max_nodes s1}" using ns shrinks_fields(3) [OF e(3)] by simp
          moreover have "evicted_nodes r1 + card (dom (content s1)) < 2 ^ 32" using Cons.prems(3) dom c1 by simp
          ultimately obtain r' s' where *: "evict_loop wanted stop scan ns (k + 1) r1 s1 = (Inr r', s')" "evict_run wanted ns s1 r1 s' r'"
            "stop r' s' \<or> scan \<noteq> 0 \<or> (\<forall>m \<in> set ns. content s' m \<noteq> None \<longrightarrow>
               holds (local_attachments s1) m \<noteq> 0 \<or> \<not> wanted (pc_nodes s1 ! m))"
            using Cons.IH [OF e(2)] by blast
          have run: "evict_run wanted (n # ns) s r s' r'" using step [OF _ _ *(2)] True by simp
          have left: "content s1 m \<noteq> None" if "content s' m \<noteq> None" for m
            using *(2) that unfolding evict_run_def shrinks_def by metis
          have "holds (local_attachments s) m \<noteq> 0 \<or> \<not> wanted (pc_nodes s ! m)"
            if "\<not> stop r' s'" "scan = 0" "m \<in> set (n # ns)" "content s' m \<noteq> None" for m
          proof -
            have "pc_nodes s1 ! m = pc_nodes s ! m" using e(3) left [OF that(4)] unfolding shrinks_def by blast
            moreover have "m \<noteq> n" using left [OF that(4)] dom(2) by auto
            ultimately show ?thesis using *(3) that shrinks_fields(1) [OF e(3)] by auto
          qed
          then have "stop r' s' \<or> scan \<noteq> 0 \<or> (\<forall>m \<in> set (n # ns). content s' m \<noteq> None \<longrightarrow>
              holds (local_attachments s) m \<noteq> 0 \<or> \<not> wanted (pc_nodes s ! m))" by blast
          moreover have "evict_loop wanted stop scan (n # ns) k r s = (Inr r', s')" unfolding first *(1) using False by simp
          ultimately show ?thesis using run by blast
        qed
      qed
    qed
  qed
qed

end
