(* ===== verification/Prefix_Arena.thy ===== *)
theory Prefix_Arena
  imports Prefix_Content
begin

text \<open>
  Writing a node at the tails of the two arenas: the common step of a commit, which adds a node,
  and of a compaction, which writes every resident node again.
\<close>

section \<open>Writing at the tails of the arenas\<close>

definition overwrite :: "nat \<Rightarrow> 'a list \<Rightarrow> 'a list \<Rightarrow> 'a list" where
  "overwrite a xs ys = take a ys @ xs @ drop (a + length xs) ys"

lemma overwrite_Nil [simp]: "overwrite a [] ys = ys"
  by (simp add: overwrite_def)

lemma length_overwrite [simp]: "a + length xs \<le> length ys \<Longrightarrow> length (overwrite a xs ys) = length ys"
  by (simp add: overwrite_def)

lemma nth_overwrite:
  assumes "a + length xs \<le> length ys"
  shows "overwrite a xs ys ! i = (if i < a then ys ! i else if i < a + length xs then xs ! (i - a) else ys ! i)"
  using assms by (auto simp: overwrite_def nth_append)

lemma overwrite_append:
  assumes "a + length xs + length zs \<le> length ys"
  shows "overwrite a (xs @ zs) ys = overwrite (a + length xs) zs (overwrite a xs ys)"
  using assms by (intro nth_equalityI) (auto simp: nth_overwrite nth_append)

lemma overwrite_snoc:
  assumes "a + length xs < length ys"
  shows "overwrite a (xs @ [x]) ys = (overwrite a xs ys)[a + length xs := x]"
  using assms by (intro nth_equalityI) (auto simp: nth_overwrite nth_append nth_list_update)

lemma overwrite_Cons:
  assumes "a + length (x # xs) \<le> length ys"
  shows "overwrite a (x # xs) ys = overwrite (Suc a) xs (ys[a := x])"
  using overwrite_append [of a "[x]" xs ys] overwrite_snoc [of a "[]" ys x] assms by simp

text \<open>Group entries with their pages, laid out one after the other from a handle on.\<close>

fun placed :: "nat \<Rightarrow> GroupEntrySnapshot list \<Rightarrow> SharedGroupEntry list" where
  "placed h [] = []"
| "placed h ((e, ps) # gs) =
     \<lparr>entry_state = kResident, entry_group = entry_group e, entry_start = entry_start e, entry_end = entry_end e,
      first_page_handle = h, page_handle_count = length ps, active_ref_count = active_ref_count e,
      pending_load_count = pending_load_count e\<rparr> # placed (h + length ps) gs"

abbreviation all_pages :: "GroupEntrySnapshot list \<Rightarrow> nat list" where
  "all_pages gs \<equiv> concat (map snd gs)"

lemma length_placed [simp]: "length (placed h gs) = length gs"
  by (induction h gs rule: placed.induct) simp_all

lemma placed_ok:
  "e \<in> set (placed h gs) \<Longrightarrow> entry_state e = kResident \<and> h \<le> first_page_handle e
     \<and> first_page_handle e + page_handle_count e \<le> h + length (all_pages gs)"
  by (induction h gs rule: placed.induct) auto

definition snapshot_info :: "GroupEntrySnapshot \<Rightarrow> group_info" where
  "snapshot_info x = (case x of (e, ps) \<Rightarrow> \<lparr>gi_group = entry_group e, gi_start = entry_start e, gi_end = entry_end e,
     gi_pages = ps, gi_active = active_ref_count e, gi_pending = pending_load_count e\<rparr>)"

lemma placed_info:
  assumes "drop h hs = all_pages gs @ zs" and "h + length (all_pages gs) < 2 ^ 32" and "page_handles s = hs"
  shows "map (entry_info s) (placed h gs) = map snapshot_info gs"
  using assms
proof (induction h gs rule: placed.induct)
  case (2 h e ps gs)
  have d: "drop (h + length ps) hs = all_pages gs @ zs"
  proof -
    have "drop (h + length ps) hs = drop (length ps) (drop h hs)" by (simp add: add.commute)
    then show ?thesis using 2(2) by simp
  qed
  have "u32 (h + i) = h + i" if "i < length ps" for i using that 2(3) by (simp add: u32_def)
  moreover have "hs ! (h + i) = ps ! i" if "i < length ps" for i
  proof -
    have "h \<le> length hs" using 2(2) that by (cases "h \<le> length hs") auto
    then have "hs ! (h + i) = drop h hs ! i" by simp
    then show ?thesis using 2(2) that by (simp add: nth_append)
  qed
  ultimately have "map (\<lambda>i. hs ! u32 (h + i)) [0..<length ps] = ps" by (intro nth_equalityI) simp_all
  then show ?case using 2(1) [OF d] 2(3,4) by (simp add: entry_info_def handle_pages_def snapshot_info_def)
qed simp

definition tail_info :: "SharedPrefixNode \<Rightarrow> GroupEntrySnapshot list \<Rightarrow> node_info" where
  "tail_info node gs = \<lparr>ni_namespace = node_namespace node, ni_digest = node_digest node, ni_start = node_start node,
     ni_end = node_end node, ni_epoch = last_access_epoch node, ni_groups = map snapshot_info gs\<rparr>"

lemma length_tail_keys: "length (page_keys (tail_info node gs)) = length (all_pages gs)"
  by (induction gs) (auto simp: page_keys_def tail_info_def snapshot_info_def)

lemma append_node:
  assumes ok: "arena_ok u" and n: "n < max_nodes u" "content u n = None"
    and fit: "next_group_entry u + length gs \<le> max_group_entries u" "next_page_handle u + length (all_pages gs) \<le> max_page_handles u"
    and node: "is_resident node" "first_group_entry node = next_group_entry u" "group_entry_count node = length gs"
    and u': "pc_nodes u' = (pc_nodes u)[n := node]"
      "group_entries u' = overwrite (next_group_entry u) (placed (next_page_handle u) gs) (group_entries u)"
      "page_handles u' = overwrite (next_page_handle u) (all_pages gs) (page_handles u)"
      "next_group_entry u' = next_group_entry u + length gs" "next_page_handle u' = next_page_handle u + length (all_pages gs)"
      "max_nodes u' = max_nodes u" "max_group_entries u' = max_group_entries u" "max_page_handles u' = max_page_handles u"
  shows "arena_ok u'" and "content u' = (content u)(n \<mapsto> tail_info node gs)"
proof -
  note sz = arena_sizes [OF ok]
  have es: "group_entries u' ! i = group_entries u ! i" if "i < next_group_entry u" for i
    using that fit(1) sz by (simp add: u'(2) nth_overwrite)
  have hs: "page_handles u' ! i = page_handles u ! i" if "i < next_page_handle u" for i
    using that fit(2) sz by (simp add: u'(3) nth_overwrite)
  have lt: "u32 (a + b) = a + b" if "a + b < c" "c \<le> 2 ^ 31" for a b c :: nat using that by (simp add: u32_def)
  have pages: "handle_pages u' e = handle_pages u e" if "entry_ok u e" for e
    unfolding handle_pages_def
  proof (rule map_cong [OF refl])
    fix i assume "i \<in> set [0..<page_handle_count e]"
    then have "first_page_handle e + i < next_page_handle u" using that by (simp add: entry_ok_def)
    then show "page_handles u' ! u32 (first_page_handle e + i) = page_handles u ! u32 (first_page_handle e + i)"
      using hs lt sz(2) by simp
  qed
  have ents: "node_entries u' x = node_entries u x" if "node_ok u x" for x
    unfolding node_entries_def
  proof (rule map_cong [OF refl])
    fix j assume "j \<in> set (entry_slots x)"
    then have "j < next_group_entry u" using entry_slots_range(2) [OF ok that] that by (auto simp: slot_range_def node_ok_def)
    then show "group_entries u' ! j = group_entries u ! j" by (rule es)
  qed
  have desc: "describe u' x = describe u x" if "node_ok u x" for x
    using ents [OF that] node_entries_range(2) [OF ok that] pages by (simp add: describe_def entry_info_def)
  have node_ok: "node_ok u' x" if "node_ok u x" for x
    using that es by (fastforce simp: node_ok_def entry_ok_def slot_range_def u')
  have old: "node_ok u (pc_nodes u ! m)" if "m < max_nodes u" "is_resident (pc_nodes u ! m)" for m
    using ok that by (simp add: arena_ok_def)
  have nth: "pc_nodes u' ! m = (if m = n then node else pc_nodes u ! m)" for m using n(1) sz(4) by (simp add: u'(1))
  have new_es: "node_entries u' node = placed (next_page_handle u) gs"
  proof -
    have "next_group_entry u + length gs \<le> 2 ^ 32" using fit(1) sz(3) by (simp add: size_ok_def)
    then have "entry_slots node = [next_group_entry u..<next_group_entry u + length gs]"
      unfolding entry_slots_def node by (rule map_u32_range)
    then show ?thesis unfolding node_entries_def u'(2)
      by (intro nth_equalityI) (use fit(1) sz(5) in \<open>simp_all add: nth_overwrite\<close>)
  qed
  have new_desc: "describe u' node = tail_info node gs"
  proof -
    have "drop (next_page_handle u) (page_handles u') = all_pages gs @ drop (next_page_handle u + length (all_pages gs)) (page_handles u)"
      using fit(2) sz(6) by (simp add: u'(3) overwrite_def)
    moreover have "next_page_handle u + length (all_pages gs) < 2 ^ 32" using fit(2) sz(3) by (simp add: size_ok_def)
    ultimately have "map (entry_info u') (placed (next_page_handle u) gs) = map snapshot_info gs"
      by (rule placed_info) simp
    then show ?thesis by (simp add: describe_def new_es tail_info_def)
  qed
  show cont: "content u' = (content u)(n \<mapsto> tail_info node gs)"
    using n(1) node(1) desc old new_desc by (auto simp: fun_eq_iff content_def nth u'(6))
  have he: "held_entries u' = length gs + held_entries u"
    unfolding held_entries_def u'(6) cont by (subst tally_add) (use n in \<open>simp_all add: tail_info_def\<close>)
  have hp: "held_pages u' = mset (page_keys (tail_info node gs)) + held_pages u"
    unfolding held_pages_def u'(6) cont by (rule tally_add) (use n in simp_all)
  have new_ok: "node_ok u' node"
  proof -
    have "entry_ok u' (group_entries u' ! i)" if "i \<in> slot_range node" for i
    proof -
      have "group_entries u' ! i \<in> set (placed (next_page_handle u) gs)"
        using that fit(1) sz(5) by (auto simp: u'(2) nth_overwrite slot_range_def node)
      then show ?thesis using placed_ok by (fastforce simp: entry_ok_def u'(5))
    qed
    then show ?thesis by (simp add: node_ok_def node u'(4))
  qed
  have apart: "slot_range node \<inter> slot_range x = {}" if "node_ok u x" for x
    using that by (auto simp: slot_range_def node_ok_def node)
  have "size (held_pages u') \<le> next_page_handle u'" "held_entries u' \<le> next_group_entry u'"
    using ok hp he u'(4,5) length_tail_keys [of node gs] by (simp_all add: arena_ok_def del: length_concat)
  moreover have "node_ok u' (pc_nodes u' ! m)" if "m < max_nodes u" "is_resident (pc_nodes u' ! m)" for m
    using that new_ok node_ok old by (cases "m = n") (simp_all add: nth)
  moreover have "slot_range (pc_nodes u' ! m) \<inter> slot_range (pc_nodes u' ! k) = {}"
    if "m < max_nodes u" "k < max_nodes u" "m \<noteq> k" "is_resident (pc_nodes u' ! m)" "is_resident (pc_nodes u' ! k)" for m k
  proof -
    consider "m = n" | "k = n" "m \<noteq> n" | "m \<noteq> n" "k \<noteq> n" by blast
    then show ?thesis
    proof cases
      case 1
      then show ?thesis using that apart old [of k] by (simp add: nth)
    next
      case 2
      then show ?thesis using that apart [OF old, of m] by (auto simp: nth)
    next
      case 3
      then show ?thesis using that ok by (simp add: nth arena_ok_def)
    qed
  qed
  ultimately show "arena_ok u'"
    using sz fit unfolding arena_ok_def u'(4-8) by (simp add: size_ok_def u' del: length_concat)
qed

end
