(* ===== verification/Prefix_Compact.thy ===== *)
theory Prefix_Compact
  imports Prefix_Evict Prefix_Arena
begin

text \<open>
  Compaction of the arenas: it moves the resident nodes to the front and changes nothing of what
  the cache holds.
\<close>

section \<open>Writing a snapshot\<close>

lemma write_pages:
  assumes "h + k + length ps \<le> length hs" and "length hs < 2 ^ 32"
  shows "fold (\<lambda>(i, page) hs. hs[u32 (h + i) := page]) (enumerate k ps) hs = overwrite (h + k) ps hs"
  using assms
proof (induction ps arbitrary: k hs)
  case (Cons p ps)
  have "u32 (h + k) = h + k" using Cons.prems by (simp add: u32_def)
  then show ?case using Cons.IH [of "Suc k" "hs[h + k := p]"] Cons.prems overwrite_Cons [of "h + k" p ps hs] by simp
qed simp

lemma write_snapshot_groups_eq:
  assumes "next_group_entry t + length gs \<le> length (group_entries t)" and "length (group_entries t) < 2 ^ 32"
    and "next_page_handle t + length (all_pages gs) \<le> length (page_handles t)" and "length (page_handles t) < 2 ^ 32"
  shows "write_snapshot_groups gs t =
    t\<lparr>group_entries := overwrite (next_group_entry t) (placed (next_page_handle t) gs) (group_entries t),
      next_group_entry := next_group_entry t + length gs,
      page_handles := overwrite (next_page_handle t) (all_pages gs) (page_handles t),
      next_page_handle := next_page_handle t + length (all_pages gs)\<rparr>"
  using assms
proof (induction gs arbitrary: t)
  case (Cons x gs)
  obtain e ps where x: "x = (e, ps)" by force
  let ?a = "next_group_entry t" and ?h = "next_page_handle t"
  let ?e = "\<lparr>entry_state = kResident, entry_group = entry_group e, entry_start = entry_start e, entry_end = entry_end e,
      first_page_handle = ?h, page_handle_count = length ps, active_ref_count = active_ref_count e,
      pending_load_count = pending_load_count e\<rparr>"
  let ?t = "t\<lparr>group_entries := (group_entries t)[?a := ?e], next_group_entry := ?a + 1,
      page_handles := overwrite ?h ps (page_handles t), next_page_handle := ?h + length ps\<rparr>"
  have fit: "?h + length ps + length (all_pages gs) \<le> length (page_handles t)" using Cons.prems(3) by (simp add: x del: length_concat)
  have w: "u32 (length ps) = length ps" "u32 (?h + length ps) = ?h + length ps" "u32 (?a + 1) = ?a + 1"
    using Cons.prems fit by (simp_all add: u32_def)
  have "fold (\<lambda>(i, page) hs. hs[u32 (?h + i) := page]) (enumerate 0 ps) (page_handles t) = overwrite ?h ps (page_handles t)"
    using write_pages [of ?h 0 ps "page_handles t"] fit Cons.prems(4) by simp
  then have step: "write_snapshot_groups (x # gs) t = write_snapshot_groups gs ?t"
    by (simp add: x w [simplified] ResetGroupEntry_def)
  have "write_snapshot_groups gs ?t = ?t\<lparr>group_entries := overwrite (?a + 1) (placed (?h + length ps) gs) ((group_entries t)[?a := ?e]),
      next_group_entry := ?a + 1 + length gs, page_handles := overwrite (?h + length ps) (all_pages gs) (overwrite ?h ps (page_handles t)),
      next_page_handle := ?h + length ps + length (all_pages gs)\<rparr>"
    using Cons.IH [of ?t] Cons.prems fit by (simp del: length_concat)
  moreover have "overwrite ?a (placed ?h (x # gs)) (group_entries t) = overwrite (?a + 1) (placed (?h + length ps) gs) ((group_entries t)[?a := ?e])"
    using overwrite_Cons [of ?a ?e "placed (?h + length ps) gs" "group_entries t"] Cons.prems(1) by (simp add: x)
  moreover have "overwrite ?h (all_pages (x # gs)) (page_handles t)
      = overwrite (?h + length ps) (all_pages gs) (overwrite ?h ps (page_handles t))"
    using overwrite_append [of ?h ps "all_pages gs" "page_handles t"] fit by (simp add: x)
  ultimately show ?case by (simp add: step) (simp add: x add.assoc)
qed simp

text \<open>The nodes still to be written, hidden: what the arenas hold so far.\<close>

definition hide :: "nat list \<Rightarrow> prefix_cache \<Rightarrow> prefix_cache" where
  "hide todo t = t\<lparr>pc_nodes := put_all empty_node todo (pc_nodes t)\<rparr>"

definition snapshot_groups :: "prefix_cache \<Rightarrow> nat \<Rightarrow> GroupEntrySnapshot list" where
  "snapshot_groups s n = map (\<lambda>e. (e, handle_pages s e)) (resident_entries s (pc_nodes s ! n))"

lemma node_snapshot_eq: "node_snapshot s n = (n, pc_nodes s ! n, snapshot_groups s n)"
  by (simp add: node_snapshot_def snapshot_groups_def Let_def)

lemma snapshot_tail:
  assumes "arena_ok s" and "content s n = Some i"
  shows "tail_info (pc_nodes s ! n) (snapshot_groups s n) = i" and "length (snapshot_groups s n) = length (ni_groups i)"
    and "length (all_pages (snapshot_groups s n)) = length (page_keys i)"
proof -
  note node = arena_node [OF assms]
  show t: "tail_info (pc_nodes s ! n) (snapshot_groups s n) = i"
    by (simp add: tail_info_def snapshot_groups_def node(4) describe_def node_entries_range(3) [OF assms(1) node(3)]
        snapshot_info_def entry_info_def)
  then show "length (snapshot_groups s n) = length (ni_groups i)" by (auto simp: tail_info_def)
  show "length (all_pages (snapshot_groups s n)) = length (page_keys i)"
    using length_tail_keys [of "pc_nodes s ! n" "snapshot_groups s n"] t by simp
qed

section \<open>Writing all snapshots\<close>

text \<open>What a compaction leaves alone.\<close>

definition frame :: "prefix_cache \<Rightarrow> prefix_cache" where
  "frame s = s\<lparr>pc_nodes := [], node_index_slots := [], group_entries := [], page_handles := [],
     next_group_entry := 0, next_page_handle := 0\<rparr>"

lemma frame_fields:
  assumes "frame s' = frame s"
  shows "max_nodes s' = max_nodes s" and "max_group_entries s' = max_group_entries s" and "max_page_handles s' = max_page_handles s"
    and "local_attachments s' = local_attachments s" and "next_local_attachment s' = next_local_attachment s"
    and "pc_specs s' = pc_specs s" and "hash_block_tokens s' = hash_block_tokens s"
    and "commit_boundary_tokens s' = commit_boundary_tokens s" and "page_ref_slots s' = page_ref_slots s"
    and "global_epoch s' = global_epoch s"
proof -
  show "max_nodes s' = max_nodes s" using arg_cong [OF assms, of max_nodes] by (simp add: frame_def)
  show "max_group_entries s' = max_group_entries s" using arg_cong [OF assms, of max_group_entries] by (simp add: frame_def)
  show "max_page_handles s' = max_page_handles s" using arg_cong [OF assms, of max_page_handles] by (simp add: frame_def)
  show "local_attachments s' = local_attachments s" using arg_cong [OF assms, of local_attachments] by (simp add: frame_def)
  show "next_local_attachment s' = next_local_attachment s" using arg_cong [OF assms, of next_local_attachment] by (simp add: frame_def)
  show "pc_specs s' = pc_specs s" using arg_cong [OF assms, of pc_specs] by (simp add: frame_def)
  show "hash_block_tokens s' = hash_block_tokens s" using arg_cong [OF assms, of hash_block_tokens] by (simp add: frame_def)
  show "commit_boundary_tokens s' = commit_boundary_tokens s" using arg_cong [OF assms, of commit_boundary_tokens] by (simp add: frame_def)
  show "page_ref_slots s' = page_ref_slots s" using arg_cong [OF assms, of page_ref_slots] by (simp add: frame_def)
  show "global_epoch s' = global_epoch s" using arg_cong [OF assms, of global_epoch] by (simp add: frame_def)
qed

lemma put_all_shift:
  assumes "n \<notin> set ns"
  shows "put_all x ns (xs[n := y]) = (put_all x (n # ns) xs)[n := y]"
proof (rule nth_equalityI)
  fix i assume "i < length (put_all x ns (xs[n := y]))"
  then have "i < length xs" by simp
  then show "put_all x ns (xs[n := y]) ! i = (put_all x (n # ns) xs)[n := y] ! i"
    using assms by (cases "i = n") (simp_all add: nth_put_all)
qed simp

definition groups_of :: "prefix_cache \<Rightarrow> nat \<Rightarrow> nat" where
  "groups_of s n = length (ni_groups (the (content s n)))"

definition pages_of :: "prefix_cache \<Rightarrow> nat \<Rightarrow> nat" where
  "pages_of s n = length (page_keys (the (content s n)))"

lemma write_snapshot_step:
  assumes ok: "arena_ok s" and n: "content s n = Some i" and todo: "n \<notin> set todo"
    and t: "arena_ok (hide (n # todo) t)" "max_nodes t = max_nodes s" "max_group_entries t = max_group_entries s"
      "max_page_handles t = max_page_handles s"
    and fit: "next_group_entry t + groups_of s n \<le> max_group_entries s" "next_page_handle t + pages_of s n \<le> max_page_handles s"
  obtains t1 where "write_snapshots (map (node_snapshot s) (n # todo)) t = write_snapshots (map (node_snapshot s) todo) t1"
    and "arena_ok (hide todo t1)" and "content (hide todo t1) = (content (hide (n # todo) t))(n \<mapsto> i)"
    and "next_group_entry t1 = next_group_entry t + groups_of s n" and "next_page_handle t1 = next_page_handle t + pages_of s n"
    and "frame t1 = frame t"
proof -
  let ?gs = "snapshot_groups s n" and ?u = "hide (n # todo) t"
  define node where "node = (pc_nodes s ! n)\<lparr>node_state := kResident, first_group_entry := next_group_entry t, group_entry_count := length ?gs\<rparr>"
  note tail = snapshot_tail [OF ok n]
  have gs: "length ?gs = groups_of s n" "length (all_pages ?gs) = pages_of s n"
    using tail(2,3) n by (simp_all add: groups_of_def pages_of_def)
  have sz: "length (pc_nodes t) = max_nodes s" "length (group_entries t) = max_group_entries s" "length (page_handles t) = max_page_handles s"
    "max_group_entries s < 2 ^ 32" "max_page_handles s < 2 ^ 32"
    using arena_sizes [OF t(1)] t(2-4) by (simp_all add: hide_def size_ok_def)
  define t1 where "t1 = t\<lparr>pc_nodes := (pc_nodes t)[n := node],
     group_entries := overwrite (next_group_entry t) (placed (next_page_handle t) ?gs) (group_entries t),
     next_group_entry := next_group_entry t + length ?gs,
     page_handles := overwrite (next_page_handle t) (all_pages ?gs) (page_handles t),
     next_page_handle := next_page_handle t + length (all_pages ?gs)\<rparr>"
  have w: "u32 (length ?gs) = length ?gs" using fit(1) gs(1) sz(4) by (simp add: u32_def)
  have full: "(pc_nodes t ! n)\<lparr>node_state := kResident, node_namespace := node_namespace (pc_nodes s ! n),
      node_digest := node_digest (pc_nodes s ! n), node_start := node_start (pc_nodes s ! n), node_end := node_end (pc_nodes s ! n),
      first_group_entry := next_group_entry t, group_entry_count := length ?gs,
      last_access_epoch := last_access_epoch (pc_nodes s ! n)\<rparr> = node"
    by (rule SharedPrefixNode.equality) (simp_all add: node_def)
  have "write_snapshots (map (node_snapshot s) (n # todo)) t =
      write_snapshots (map (node_snapshot s) todo) (write_snapshot_groups ?gs (t\<lparr>pc_nodes := (pc_nodes t)[n := node]\<rparr>))"
    unfolding full [symmetric] by (simp add: node_snapshot_eq w)
  also have "write_snapshot_groups ?gs (t\<lparr>pc_nodes := (pc_nodes t)[n := node]\<rparr>) = t1"
    using write_snapshot_groups_eq [of "t\<lparr>pc_nodes := (pc_nodes t)[n := node]\<rparr>" ?gs] fit gs sz by (simp add: t1_def del: length_concat)
  finally have run: "write_snapshots (map (node_snapshot s) (n # todo)) t = write_snapshots (map (node_snapshot s) todo) t1" .
  have nth: "pc_nodes ?u ! n = empty_node" using arena_node(1) [OF ok n] sz(1) by (simp add: hide_def nth_put_all del: put_all.simps)
  have hid: "content ?u n = None" by (simp add: content_None nth is_resident_def empty_node_def)
  have app: "arena_ok (hide todo t1)" "content (hide todo t1) = (content ?u)(n \<mapsto> tail_info node ?gs)"
    by (rule append_node [OF t(1) _ hid, where gs = ?gs and node = node];
        use fit gs t(2-4) arena_node(1) [OF ok n] put_all_shift [OF todo, of empty_node "pc_nodes t" node]
        in \<open>simp add: hide_def t1_def node_def is_resident_def del: length_concat put_all.simps\<close>)+
  have "tail_info node ?gs = tail_info (pc_nodes s ! n) ?gs" by (simp add: tail_info_def node_def)
  then have "content (hide todo t1) = (content ?u)(n \<mapsto> i)" using app(2) tail(1) by simp
  then show ?thesis using that [OF run app(1)] gs by (simp add: t1_def frame_def del: length_concat)
qed

lemma write_snapshots_ok:
  assumes ok: "arena_ok s" and "distinct todo" and "set todo \<subseteq> dom (content s)"
    and "arena_ok (hide todo t)" and "\<And>m. content (hide todo t) m = (if m \<in> set todo then None else content s m)"
    and "next_group_entry t + sum_list (map (groups_of s) todo) \<le> max_group_entries s"
    and "next_page_handle t + sum_list (map (pages_of s) todo) \<le> max_page_handles s"
    and "max_nodes t = max_nodes s" "max_group_entries t = max_group_entries s" "max_page_handles t = max_page_handles s"
  shows "\<exists>t'. write_snapshots (map (node_snapshot s) todo) t = t' \<and> arena_ok t' \<and> content t' = content s
     \<and> next_group_entry t' = next_group_entry t + sum_list (map (groups_of s) todo)
     \<and> next_page_handle t' = next_page_handle t + sum_list (map (pages_of s) todo) \<and> frame t' = frame t"
  using assms(2-)
proof (induction todo arbitrary: t)
  case Nil
  have "hide [] t = t" by (simp add: hide_def)
  then show ?case using Nil.prems(3,4) by (auto simp: fun_eq_iff)
next
  case (Cons n todo)
  obtain i where i: "content s n = Some i" using Cons.prems(2) by auto
  have fit: "next_group_entry t + groups_of s n \<le> max_group_entries s" "next_page_handle t + pages_of s n \<le> max_page_handles s"
    using Cons.prems(5,6) by simp_all
  obtain t1 where t1: "write_snapshots (map (node_snapshot s) (n # todo)) t = write_snapshots (map (node_snapshot s) todo) t1"
    "arena_ok (hide todo t1)" "content (hide todo t1) = (content (hide (n # todo) t))(n \<mapsto> i)"
    "next_group_entry t1 = next_group_entry t + groups_of s n" "next_page_handle t1 = next_page_handle t + pages_of s n" "frame t1 = frame t"
    by (rule write_snapshot_step [OF ok i _ Cons.prems(3) Cons.prems(7-9) fit]) (use Cons.prems(1) in auto)
  have "content (hide todo t1) m = (if m \<in> set todo then None else content s m)" for m
    using Cons.prems(1) i unfolding t1(3) by (auto simp: Cons.prems(4))
  from Cons.IH [OF _ _ t1(2) this] Cons.prems t1 frame_fields [OF t1(6)] obtain t' where
    "write_snapshots (map (node_snapshot s) todo) t1 = t'" "arena_ok t'" "content t' = content s"
    "next_group_entry t' = next_group_entry t1 + sum_list (map (groups_of s) todo)"
    "next_page_handle t' = next_page_handle t1 + sum_list (map (pages_of s) todo)" "frame t' = frame t1" by auto
  then show ?case using t1 by auto
qed

section \<open>Compaction\<close>

lemma tally_list:
  "tally N f a = sum_list (map (\<lambda>n. f (the (a n))) (filter (\<lambda>n. a n \<noteq> None) [0..<N]))"
  by (induction N) (auto simp: tally_def add.commute)

lemma residents_eq: "filter (\<lambda>n. is_resident (pc_nodes s ! n)) [0..<max_nodes s] = filter (\<lambda>n. content s n \<noteq> None) [0..<max_nodes s]"
  by (rule filter_cong [OF refl]) (simp add: content_def)

lemma groups_total: "sum_list (map (groups_of s) (filter (\<lambda>n. content s n \<noteq> None) [0..<max_nodes s])) = held_entries s"
  unfolding held_entries_def tally_list groups_of_def [abs_def] ..

lemma pages_total: "sum_list (map (pages_of s) (filter (\<lambda>n. content s n \<noteq> None) [0..<max_nodes s])) = size (held_pages s)"
  unfolding held_pages_def size_tally unfolding tally_list pages_of_def [abs_def] by simp

lemma rebuilt_index:
  assumes "arena_ok t" and inj: "\<And>m n i j. \<lbrakk>content t m = Some i; content t n = Some j; ni_digest i = ni_digest j\<rbrakk> \<Longrightarrow> m = n"
  obtains slots where "RebuildNodeIndexLocked t = (Inr (), t\<lparr>node_index_slots := slots\<rparr>)" and "index_exact (t\<lparr>node_index_slots := slots\<rparr>)"
proof -
  have same: "m = n" if "m < max_nodes t" "n < max_nodes t" "is_resident (pc_nodes t ! m)" "is_resident (pc_nodes t ! n)"
    "node_digest (pc_nodes t ! m) = node_digest (pc_nodes t ! n)" for m n
    using inj [of m _ n] that by (auto simp: content_Some describe_def)
  obtain slots where r: "RebuildNodeIndexLocked t = (Inr (), t\<lparr>node_index_slots := slots\<rparr>)" "index_wf (t\<lparr>node_index_slots := slots\<rparr>)"
    "\<And>d n. table_map node_cls islot_node slots d = Some n \<longleftrightarrow>
       n < max_nodes t \<and> is_resident (pc_nodes t ! n) \<and> node_digest (pc_nodes t ! n) = d"
    by (rule RebuildNodeIndex_map [OF arena_sizes(3) [OF assms(1)]]) (erule (4) same, rule that)
  have "index_exact (t\<lparr>node_index_slots := slots\<rparr>)"
    using r(2,3) by (auto simp: index_exact_def content_Some describe_def)
  then show ?thesis using that r(1) by blast
qed

lemma CompactArenas_ok:
  assumes inv: "pc_inv s"
  obtains s' where "CompactArenasLocked s = (Inr (), s')" and "pc_inv s'" and "content s' = content s" and "frame s' = frame s"
    and "next_group_entry s' = held_entries s" and "next_page_handle s' = size (held_pages s)"
proof -
  note ok = pc_invD(1) [OF inv]
  note sz = arena_sizes [OF ok]
  let ?todo = "filter (\<lambda>n. content s n \<noteq> None) [0..<max_nodes s]"
  let ?t = "s\<lparr>group_entries := replicate (max_group_entries s) ResetGroupEntry, page_handles := replicate (max_page_handles s) 0,
     next_group_entry := 0, next_page_handle := 0\<rparr>"
  let ?u = "hide ?todo ?t"
  have none: "\<not> is_resident (pc_nodes ?u ! n)" if "n < max_nodes s" for n
    using that sz(4) by (auto simp: hide_def nth_put_all content_def is_resident_def empty_node_def)
  have cu: "content ?u = Map.empty" using none by (auto simp: fun_eq_iff content_None hide_def)
  have "held_entries ?u = 0" "held_pages ?u = {#}" unfolding held_entries_def held_pages_def cu by simp_all
  moreover have "max_nodes ?u = max_nodes s" by (simp add: hide_def)
  ultimately have u: "arena_ok ?u" using sz none unfolding arena_ok_def by (auto simp: hide_def size_ok_def)
  have uc: "content ?u m = (if m \<in> set ?todo then None else content s m)" for m
    unfolding cu by (cases "content s m") (simp_all add: arena_node(1) [OF ok])
  have "held_entries s \<le> max_group_entries s" "size (held_pages s) \<le> max_page_handles s" using ok by (auto simp: arena_ok_def)
  then obtain t' where t': "write_snapshots (map (node_snapshot s) ?todo) ?t = t'" "arena_ok t'" "content t' = content s"
    "next_group_entry t' = held_entries s" "next_page_handle t' = size (held_pages s)" "frame t' = frame ?t"
    using write_snapshots_ok [OF ok _ _ u uc] unfolding groups_total pages_total by auto
  obtain slots where r: "RebuildNodeIndexLocked t' = (Inr (), t'\<lparr>node_index_slots := slots\<rparr>)" "index_exact (t'\<lparr>node_index_slots := slots\<rparr>)"
    by (rule rebuilt_index [OF t'(2)]) (use t'(3) digest_unique [OF pc_invD(2) [OF inv]] in auto)
  let ?s = "t'\<lparr>node_index_slots := slots\<rparr>"
  have fr: "frame ?s = frame s" using t'(6) by (simp add: frame_def)
  note ff = frame_fields [OF fr]
  have run: "CompactArenasLocked s = (Inr (), ?s)"
    unfolding CompactArenasLocked_def Let_def residents_eq t'(1) r(1) ..
  have "held_pages ?s = held_pages s" unfolding held_pages_def using ff(1) t'(3) by simp
  moreover have "refs_count ?s M = refs_count s M" for M by (rule refs_frame [OF ff(9,3)])
  moreover have "config_ok ?s" using pc_invD(5) [OF inv] ff by (simp add: config_ok_def)
  ultimately have "pc_inv ?s" using inv t'(2,3) r(2) ff unfolding pc_inv_def by simp
  then show ?thesis using that run fr t' by simp
qed

end
