(* ===== verification/Prefix_Clear.thy ===== *)
theory Prefix_Clear
  imports Prefix_Compact
begin

text \<open>
  The eviction methods of the prefix cache: each keeps the invariant and throws nothing, frees
  exactly the pages that lost their last node, and stops when its goal is reached or every node
  left is attached.
\<close>

section \<open>The use of the arenas\<close>

lemma tally_nodes:
  assumes "length (pc_nodes s) = max_nodes s"
  shows "tally (max_nodes s) f (content s) = sum_list (map (\<lambda>node. if is_resident node then f (describe s node) else 0) (pc_nodes s))"
proof -
  have "tally (max_nodes s) f (content s) = (\<Sum>n<length (pc_nodes s). map (\<lambda>node. if is_resident node then f (describe s node) else 0) (pc_nodes s) ! n)"
    unfolding tally_def assms [symmetric] by (rule sum.cong) (auto simp: content_def assms)
  then show ?thesis by (simp add: sum_list_sum_nth lessThan_atLeast0)
qed

lemma fold_u32:
  "h + sum_list (map c xs) < 2 ^ 32 \<Longrightarrow> fold (\<lambda>x h. u32 (h + c x)) xs h = h + sum_list (map c xs)"
  by (induction xs arbitrary: h) (simp_all add: u32_def add.assoc)

lemma node_page_count:
  assumes "arena_ok s" and "node_ok s node"
  shows "sum_list (map page_handle_count (resident_entries s node)) = length (page_keys (describe s node))"
    and "group_entry_count node = length (ni_groups (describe s node))"
proof -
  have "length (page_keys (describe s node)) = sum_list (map (length \<circ> handle_pages s) (node_entries s node))"
    by (simp add: page_keys_def describe_def entry_info_def length_concat comp_def)
  also have "\<dots> = sum_list (map page_handle_count (node_entries s node))"
    using handle_pages_range(2) [OF assms(1) node_entries_range(2) [OF assms]] by (simp cong: map_cong)
  finally show "sum_list (map page_handle_count (resident_entries s node)) = length (page_keys (describe s node))"
    by (simp add: node_entries_range(3) [OF assms])
  show "group_entry_count node = length (ni_groups (describe s node))"
    using node_entries_range(4) [OF assms] by (simp add: describe_def)
qed

lemma usage_loop:
  assumes "arena_ok s" and "\<And>node. node \<in> set nodes \<Longrightarrow> is_resident node \<Longrightarrow> node_ok s node"
    and "a + sum_list (map (\<lambda>node. if is_resident node then length (ni_groups (describe s node)) else 0) nodes) < 2 ^ 32"
    and "b + sum_list (map (\<lambda>node. if is_resident node then length (page_keys (describe s node)) else 0) nodes) < 2 ^ 32"
  shows "fold (\<lambda>node (entries, handles). if is_resident node
             then (u32 (entries + group_entry_count node),
                   fold (\<lambda>e h. u32 (h + page_handle_count e)) (resident_entries s node) handles)
             else (entries, handles)) nodes (a, b)
       = (a + sum_list (map (\<lambda>node. if is_resident node then length (ni_groups (describe s node)) else 0) nodes),
          b + sum_list (map (\<lambda>node. if is_resident node then length (page_keys (describe s node)) else 0) nodes))"
  using assms(2-)
proof (induction nodes arbitrary: a b)
  case (Cons node nodes)
  show ?case
  proof (cases "is_resident node")
    case True
    note c = node_page_count [OF assms(1) Cons.prems(1) [OF _ True]]
    have "u32 (a + group_entry_count node) = a + length (ni_groups (describe s node))"
      using Cons.prems(2) True c by (simp add: u32_def)
    moreover have "fold (\<lambda>e h. u32 (h + page_handle_count e)) (resident_entries s node) b = b + length (page_keys (describe s node))"
      using fold_u32 [of b page_handle_count "resident_entries s node"] Cons.prems(3) True c by simp
    ultimately show ?thesis using True Cons.IH [of "a + length (ni_groups (describe s node))" "b + length (page_keys (describe s node))"] Cons.prems
      by (simp add: add.assoc)
  qed (use Cons.IH [of a b] Cons.prems in simp)
qed simp

lemma ResidentArenaUsage_eq:
  assumes ok: "arena_ok s"
  shows "ResidentArenaUsageLocked s = (held_entries s, size (held_pages s))"
proof -
  note sz = arena_sizes [OF ok]
  have e: "held_entries s = sum_list (map (\<lambda>node. if is_resident node then length (ni_groups (describe s node)) else 0) (pc_nodes s))"
    unfolding held_entries_def by (rule tally_nodes [OF sz(4)])
  have p: "size (held_pages s) = sum_list (map (\<lambda>node. if is_resident node then length (page_keys (describe s node)) else 0) (pc_nodes s))"
    unfolding held_pages_def size_tally by (subst tally_nodes [OF sz(4)]) (simp only: size_mset)
  have "held_entries s < 2 ^ 32" "size (held_pages s) < 2 ^ 32" using ok sz(1,2) by (auto simp: arena_ok_def)
  moreover have "node_ok s node" if "node \<in> set (pc_nodes s)" "is_resident node" for node
    using that ok by (auto simp: in_set_conv_nth arena_ok_def)
  ultimately show ?thesis unfolding ResidentArenaUsageLocked_def using usage_loop [OF ok, of "pc_nodes s" 0 0] e p by simp
qed

lemma TailArenaCapacity_iff:
  assumes "arena_ok s"
  shows "TailArenaCapacityEnoughLocked s a b \<longleftrightarrow>
    a \<le> max_group_entries s - next_group_entry s \<and> b \<le> max_page_handles s - next_page_handle s"
  using arena_sizes [OF assms] by (simp add: TailArenaCapacityEnoughLocked_def u32_sub_le size_ok_def)

lemma CompactedArenaCapacity_iff:
  assumes "arena_ok s"
  shows "CompactedArenaCapacityEnoughLocked s a b \<longleftrightarrow>
    a \<le> max_group_entries s - held_entries s \<and> b \<le> max_page_handles s - size (held_pages s)"
proof -
  have "held_entries s \<le> max_group_entries s" "size (held_pages s) \<le> max_page_handles s" using assms by (auto simp: arena_ok_def)
  then show ?thesis using arena_sizes(3) [OF assms]
    by (simp add: CompactedArenaCapacityEnoughLocked_def ResidentArenaUsage_eq [OF assms] u32_sub_le size_ok_def)
qed

section \<open>Maintenance\<close>

text \<open>What compacting and rebuilding tables do: nothing to the content.\<close>

definition outer :: "prefix_cache \<Rightarrow> prefix_cache" where
  "outer s = frame (s\<lparr>page_ref_slots := []\<rparr>)"

definition tidied :: "prefix_cache \<Rightarrow> prefix_cache \<Rightarrow> bool" where
  "tidied s s' \<longleftrightarrow> pc_inv s' \<and> content s' = content s \<and> outer s' = outer s
     \<and> next_group_entry s' \<le> next_group_entry s \<and> next_page_handle s' \<le> next_page_handle s"

lemma tidied_refl: "pc_inv s \<Longrightarrow> tidied s s"
  by (simp add: tidied_def)

lemma tidied_trans: "tidied s t \<Longrightarrow> tidied t u \<Longrightarrow> tidied s u"
  by (simp add: tidied_def)

lemma outer_fields:
  assumes "outer s' = outer s"
  shows "max_nodes s' = max_nodes s" and "max_group_entries s' = max_group_entries s" and "max_page_handles s' = max_page_handles s"
    and "local_attachments s' = local_attachments s" and "next_local_attachment s' = next_local_attachment s"
    and "pc_specs s' = pc_specs s" and "hash_block_tokens s' = hash_block_tokens s"
    and "commit_boundary_tokens s' = commit_boundary_tokens s" and "global_epoch s' = global_epoch s"
  using frame_fields [OF assms [unfolded outer_def]] by simp_all

lemma frame_outer: "frame s' = frame s \<Longrightarrow> outer s' = outer s"
proof -
  assume f: "frame s' = frame s"
  have "outer s = (frame s)\<lparr>page_ref_slots := []\<rparr>" for s by (simp add: outer_def frame_def)
  then show ?thesis using f by simp
qed

lemma RebuildNodeIndex_tidied:
  assumes inv: "pc_inv s"
  obtains s' where "RebuildNodeIndexLocked s = (Inr (), s')" and "tidied s s'"
proof -
  obtain slots where r: "RebuildNodeIndexLocked s = (Inr (), s\<lparr>node_index_slots := slots\<rparr>)" "index_exact (s\<lparr>node_index_slots := slots\<rparr>)"
    using rebuilt_index [OF pc_invD(1) [OF inv]] digest_unique [OF pc_invD(2) [OF inv]] by metis
  let ?s = "s\<lparr>node_index_slots := slots\<rparr>"
  have "held_pages ?s = held_pages s" by (simp add: held_pages_def)
  then have "pc_inv ?s" using inv r(2) unfolding pc_inv_def by (simp add: refs_count_def refs_wf_def config_ok_def)
  then show ?thesis using that r(1) by (simp add: tidied_def outer_def frame_def)
qed

lemma RebuildPageRefIndex_tidied:
  assumes inv: "pc_inv s"
  obtains s' where "RebuildPageRefIndexLocked s = (Inr (), s')" and "tidied s s'"
proof -
  obtain slots where r: "RebuildPageRefIndexLocked s = (Inr (), s\<lparr>page_ref_slots := slots\<rparr>)" "refs_wf (s\<lparr>page_ref_slots := slots\<rparr>)"
    "table_map ref_cls pslot_refs slots = ref_map s"
    using RebuildPageRefIndex_map [OF pc_invD(7) [OF inv] refs_countD(1) [OF pc_invD(3) [OF inv]]] by metis
  let ?s = "s\<lparr>page_ref_slots := slots\<rparr>"
  have "held_pages ?s = held_pages s" by (simp add: held_pages_def)
  moreover have "index_exact ?s = index_exact s" by (rule index_frame) simp_all
  moreover have "refs_count ?s (held_pages s)" using refs_countD(2) [OF pc_invD(3) [OF inv]] r(2,3) by (simp add: refs_count_def)
  ultimately have "pc_inv ?s" using inv unfolding pc_inv_def by (simp add: config_ok_def)
  then show ?thesis using that r(1) by (simp add: tidied_def outer_def frame_def)
qed

lemma CompactArenas_tidied:
  assumes "pc_inv s"
  obtains s' where "CompactArenasLocked s = (Inr (), s')" and "tidied s s'"
    and "next_group_entry s' = held_entries s" and "next_page_handle s' = size (held_pages s)"
proof -
  obtain s' where s': "CompactArenasLocked s = (Inr (), s')" "pc_inv s'" "content s' = content s" "frame s' = frame s"
    "next_group_entry s' = held_entries s" "next_page_handle s' = size (held_pages s)" by (rule CompactArenas_ok [OF assms])
  have "held_entries s \<le> next_group_entry s" "size (held_pages s) \<le> next_page_handle s"
    using pc_invD(1) [OF assms] by (simp_all add: arena_ok_def)
  then show ?thesis using that [of s'] s' frame_outer [OF s'(4)] by (simp add: tidied_def)
qed

text \<open>Room at the tails is kept, and room after a compaction becomes room at the tails.\<close>

lemma tidied_tail:
  assumes "pc_inv s" and "tidied s s'" and "TailArenaCapacityEnoughLocked s a b"
  shows "TailArenaCapacityEnoughLocked s' a b"
proof -
  have "arena_ok s'" using assms(2) pc_invD(1) by (simp add: tidied_def)
  moreover have "max_group_entries s' = max_group_entries s" "max_page_handles s' = max_page_handles s"
    using assms(2) outer_fields [of s' s] by (simp_all add: tidied_def)
  ultimately show ?thesis
    using assms(2,3) TailArenaCapacity_iff pc_invD(1) [OF assms(1)] by (auto simp: tidied_def)
qed

lemma CompactArenas_tail:
  assumes inv: "pc_inv s" and c: "CompactedArenaCapacityEnoughLocked s a b" and run: "CompactArenasLocked s = (Inr (), s')"
  shows "TailArenaCapacityEnoughLocked s' a b"
proof -
  obtain s1 where s1: "CompactArenasLocked s = (Inr (), s1)" "tidied s s1" "next_group_entry s1 = held_entries s"
    "next_page_handle s1 = size (held_pages s)" by (rule CompactArenas_tidied [OF inv])
  have [simp]: "s1 = s'" using s1(1) run by simp
  have "arena_ok s'" using s1(2) pc_invD(1) by (simp add: tidied_def)
  moreover have "max_group_entries s' = max_group_entries s" "max_page_handles s' = max_page_handles s"
    using s1(2) outer_fields [of s' s] by (simp_all add: tidied_def)
  ultimately show ?thesis using c s1(3,4) TailArenaCapacity_iff CompactedArenaCapacity_iff [OF pc_invD(1) [OF inv]] by auto
qed

lemma if_either: "(if P then x else if Q then x else y) = x \<or> (\<not> P \<and> (if P then x else if Q then x else y) = y)"
  by simp

lemma AfterEviction_either:
  "CompactArenasAfterEvictionIfUsefulLocked a b s = CompactArenasLocked s
   \<or> (\<not> (\<not> TailArenaCapacityEnoughLocked s a b \<and> CompactedArenaCapacityEnoughLocked s a b)
      \<and> CompactArenasAfterEvictionIfUsefulLocked a b s
         = and_then (RebuildNodeIndexIfNeededLocked s) (\<lambda>_. RebuildPageRefIndexIfNeededLocked))"
  unfolding CompactArenasAfterEvictionIfUsefulLocked_def
  by (cases "ResidentArenaUsageLocked s") (simp only: prod.case Let_def, rule if_either)

lemma AfterEviction_tidied:
  assumes inv: "pc_inv s"
  obtains s' where "CompactArenasAfterEvictionIfUsefulLocked a b s = (Inr (), s')" and "tidied s s'"
    and "TailArenaCapacityEnoughLocked s a b \<or> CompactedArenaCapacityEnoughLocked s a b \<longrightarrow> TailArenaCapacityEnoughLocked s' a b"
proof -
  obtain s1 where s1: "RebuildNodeIndexIfNeededLocked s = (Inr (), s1)" "tidied s s1"
    using RebuildNodeIndex_tidied [OF inv] tidied_refl [OF inv] unfolding RebuildNodeIndexIfNeededLocked_def by metis
  then have "pc_inv s1" by (simp add: tidied_def)
  then obtain s2 where s2: "RebuildPageRefIndexIfNeededLocked s1 = (Inr (), s2)" "tidied s1 s2"
    using RebuildPageRefIndex_tidied tidied_refl unfolding RebuildPageRefIndexIfNeededLocked_def by metis
  obtain s3 where s3: "CompactArenasLocked s = (Inr (), s3)" "tidied s s3" using CompactArenas_tidied [OF inv] by metis
  let ?tail = "TailArenaCapacityEnoughLocked s a b" and ?comp = "CompactedArenaCapacityEnoughLocked s a b"
  consider "CompactArenasAfterEvictionIfUsefulLocked a b s = (Inr (), s3)"
    | "?tail \<or> \<not> ?comp" "CompactArenasAfterEvictionIfUsefulLocked a b s = (Inr (), s2)"
    using AfterEviction_either [of a b s] s1(1) s2(1) s3(1) by auto
  then show ?thesis
  proof cases
    case 1
    then show ?thesis using that [OF 1 s3(2)] tidied_tail [OF inv s3(2)] CompactArenas_tail [OF inv _ s3(1)] by blast
  next
    case 2
    then show ?thesis using that [OF 2(2) tidied_trans [OF s1(2) s2(2)]] tidied_tail [OF inv tidied_trans [OF s1(2) s2(2)]] by blast
  qed
qed

lemma ForCapacity_tidied:
  assumes inv: "pc_inv s"
  obtains s' where "CompactArenasForCapacityLocked a b s = (Inr (), s')" and "tidied s s'"
    and "TailArenaCapacityEnoughLocked s a b \<or> CompactedArenaCapacityEnoughLocked s a b \<longrightarrow> TailArenaCapacityEnoughLocked s' a b"
proof -
  obtain s3 where s3: "CompactArenasLocked s = (Inr (), s3)" "tidied s s3" using CompactArenas_tidied [OF inv] by metis
  show ?thesis
  proof (cases "\<not> TailArenaCapacityEnoughLocked s a b \<and> CompactedArenaCapacityEnoughLocked s a b")
    case True
    then show ?thesis using that [OF _ s3(2)] s3(1) CompactArenas_tail [OF inv _ s3(1)] by (simp add: CompactArenasForCapacityLocked_def)
  next
    case False
    then show ?thesis using that [OF _ tidied_refl [OF inv]] by (auto simp: CompactArenasForCapacityLocked_def)
  qed
qed

section \<open>The eviction methods\<close>

lemma inv_counters [simp]:
  "pc_inv (s\<lparr>evicted_total := n\<rparr>) = pc_inv s" "pc_inv (s\<lparr>protected_total := n\<rparr>) = pc_inv s"
  "pc_inv (s\<lparr>lookup_hits := n\<rparr>) = pc_inv s" "pc_inv (s\<lparr>lookup_misses := n\<rparr>) = pc_inv s"
  by (simp_all add: pc_inv_def index_exact_def index_wf_def refs_count_def refs_wf_def config_ok_def held_pages_def)

lemma tail_counters [simp]:
  "TailArenaCapacityEnoughLocked (s\<lparr>evicted_total := n\<rparr>) a b = TailArenaCapacityEnoughLocked s a b"
  "TailArenaCapacityEnoughLocked (s\<lparr>protected_total := n\<rparr>) a b = TailArenaCapacityEnoughLocked s a b"
  by (simp_all add: TailArenaCapacityEnoughLocked_def)

text \<open>What every eviction method promises of its result and of the state it leaves.\<close>

definition evict_result :: "(node_info \<Rightarrow> bool) \<Rightarrow> prefix_cache \<Rightarrow> PrefixEvictionResult \<Rightarrow> prefix_cache \<Rightarrow> bool" where
  "evict_result wanted s r s' \<longleftrightarrow> pc_inv s'
     \<and> (\<forall>m i. content s' m = Some i \<longrightarrow> content s m = Some i)
     \<and> (\<forall>m i. content s m = Some i \<longrightarrow> content s' m = None \<longrightarrow> holds (local_attachments s) m = 0 \<and> wanted i)
     \<and> freed_keys (evicted_group_pages r) = mset_set (set_mset (held_pages s) - set_mset (held_pages s'))
     \<and> evicted_nodes r = card (dom (content s) - dom (content s'))
     \<and> outer s' = outer (s\<lparr>evicted_total := evicted_total s', protected_total := protected_total s'\<rparr>)"

lemma rest_outer: "rest s' = rest s \<Longrightarrow> outer s' = outer s"
proof -
  assume r: "rest s' = rest s"
  have "outer s = (rest s)\<lparr>group_entries := [], page_handles := [], next_group_entry := 0, next_page_handle := 0\<rparr>" for s
    by (simp add: outer_def frame_def rest_def)
  then show ?thesis using r by simp
qed

lemma outer_counters:
  assumes "outer s' = outer s"
  shows "outer (s'\<lparr>evicted_total := a, protected_total := b\<rparr>) = outer (s\<lparr>evicted_total := a, protected_total := b\<rparr>)"
proof -
  have "outer (s\<lparr>evicted_total := a, protected_total := b\<rparr>) = (outer s)\<lparr>evicted_total := a, protected_total := b\<rparr>" for s
    by (simp add: outer_def frame_def)
  then show ?thesis using assms by simp
qed

lemma finish_ok:
  assumes run: "evict_run wanted ns s no_eviction s1 r" and w: "\<And>m i. content s m = Some i \<Longrightarrow> wanted (pc_nodes s ! m) \<Longrightarrow> want i"
  obtains s' where "finish_eviction a b r s1 = (Inr r, s')" and "evict_result want s r s'" and "content s' = content s1"
    and "TailArenaCapacityEnoughLocked s1 a b \<or> (evicted_nodes r \<noteq> 0 \<and> CompactedArenaCapacityEnoughLocked s1 a b)
           \<longrightarrow> TailArenaCapacityEnoughLocked s' a b"
proof -
  have inv: "pc_inv s1" and sh: "shrinks s s1" using run by (simp_all add: evict_run_def)
  have "\<exists>s2. (if evicted_nodes r \<noteq> 0 then CompactArenasAfterEvictionIfUsefulLocked a b s1 else (Inr (), s1)) = (Inr (), s2)
     \<and> tidied s1 s2 \<and> (TailArenaCapacityEnoughLocked s1 a b \<or> (evicted_nodes r \<noteq> 0 \<and> CompactedArenaCapacityEnoughLocked s1 a b)
        \<longrightarrow> TailArenaCapacityEnoughLocked s2 a b)"
  proof (cases "evicted_nodes r = 0")
    case True
    then show ?thesis using tidied_refl [OF inv] by auto
  next
    case False
    obtain s2 where "CompactArenasAfterEvictionIfUsefulLocked a b s1 = (Inr (), s2)" "tidied s1 s2"
      "TailArenaCapacityEnoughLocked s1 a b \<or> CompactedArenaCapacityEnoughLocked s1 a b \<longrightarrow> TailArenaCapacityEnoughLocked s2 a b"
      by (rule AfterEviction_tidied [OF inv, of a b])
    then show ?thesis using False by auto
  qed
  then obtain s2 where s2: "(if evicted_nodes r \<noteq> 0 then CompactArenasAfterEvictionIfUsefulLocked a b s1 else (Inr (), s1)) = (Inr (), s2)"
    "tidied s1 s2" "TailArenaCapacityEnoughLocked s1 a b \<or> (evicted_nodes r \<noteq> 0 \<and> CompactedArenaCapacityEnoughLocked s1 a b)
        \<longrightarrow> TailArenaCapacityEnoughLocked s2 a b" by blast
  let ?s = "s2\<lparr>evicted_total := u64 (evicted_total s2 + evicted_nodes r), protected_total := u64 (protected_total s2 + protected_nodes r)\<rparr>"
  have fin: "finish_eviction a b r s1 = (Inr r, ?s)" unfolding finish_eviction_def s2(1) and_then_Inr ..
  have c: "content ?s = content s1" "pc_inv ?s" using s2(2) by (simp_all add: tidied_def)
  have out: "outer s2 = outer s" using s2(2) rest_outer [of s1 s] sh by (simp add: tidied_def shrinks_def)
  have "max_nodes ?s = max_nodes s1" using outer_fields(1) [OF out] shrinks_fields(3) [OF sh] by simp
  then have held: "held_pages ?s = held_pages s1" unfolding held_pages_def c(1) by simp
  have "content s m = Some i" if "content s1 m = Some i" for m i using sh that unfolding shrinks_def by (metis option.distinct(1))
  moreover have "holds (local_attachments s) m = 0 \<and> want i" if "content s m = Some i" "content s1 m = None" for m i
    using run sh that w [OF that(1)] unfolding evict_run_def shrinks_def by simp
  moreover have "freed_keys (evicted_group_pages r) = mset_set (set_mset (held_pages s) - set_mset (held_pages s1))"
    using run by (simp add: evict_run_def no_eviction_def freed_keys_def)
  moreover have "evicted_nodes r = card (dom (content s) - dom (content s1))"
    using run by (simp add: evict_run_def no_eviction_def)
  ultimately have "evict_result want s r ?s"
    unfolding evict_result_def c(1) held using c(2) outer_counters [OF out] by simp
  then show ?thesis using that [OF fin _ c(1)] s2(3) by simp
qed

lemma content_card: "card (dom (content s)) \<le> max_nodes s"
proof -
  have "dom (content s) \<subseteq> {..<max_nodes s}" by (auto simp: content_Some)
  then show ?thesis using card_mono [of "{..<max_nodes s}" "dom (content s)"] by simp
qed

lemma scan_ok:
  assumes inv: "pc_inv s" and ns: "set ns \<subseteq> {..<max_nodes s}"
    and w: "\<And>m i. content s m = Some i \<Longrightarrow> wanted (pc_nodes s ! m) = want i"
  obtains r s1 s' where "evict_loop wanted stop scan ns 0 no_eviction s = (Inr r, s1)"
    and "finish_eviction a b r s1 = (Inr r, s')" and "evict_result want s r s'" and "content s' = content s1" and "shrinks s s1" and "pc_inv s1"
    and "stop r s1 \<or> scan \<noteq> 0 \<or> (\<forall>m \<in> set ns. \<forall>i. content s' m = Some i \<longrightarrow> holds (local_attachments s) m \<noteq> 0 \<or> \<not> want i)"
    and "TailArenaCapacityEnoughLocked s1 a b \<or> (evicted_nodes r \<noteq> 0 \<and> CompactedArenaCapacityEnoughLocked s1 a b)
           \<longrightarrow> TailArenaCapacityEnoughLocked s' a b"
proof -
  note ok = pc_invD(1) [OF inv]
  have "evicted_nodes no_eviction + card (dom (content s)) < 2 ^ 32"
    using content_card [of s] pc_invD(7) [OF inv] by (simp add: no_eviction_def size_ok_def)
  from evict_loop_ok [OF inv ns this, of wanted stop scan 0] obtain r s1 where l:
    "evict_loop wanted stop scan ns 0 no_eviction s = (Inr r, s1)" "evict_run wanted ns s no_eviction s1 r"
    "stop r s1 \<or> scan \<noteq> 0 \<or> (\<forall>m \<in> set ns. content s1 m \<noteq> None \<longrightarrow> holds (local_attachments s) m \<noteq> 0 \<or> \<not> wanted (pc_nodes s ! m))"
    by blast
  have sh: "shrinks s s1" and inv1: "pc_inv s1" using l(2) by (simp_all add: evict_run_def)
  obtain s' where f: "finish_eviction a b r s1 = (Inr r, s')" "evict_result want s r s'" "content s' = content s1"
    "TailArenaCapacityEnoughLocked s1 a b \<or> (evicted_nodes r \<noteq> 0 \<and> CompactedArenaCapacityEnoughLocked s1 a b)
           \<longrightarrow> TailArenaCapacityEnoughLocked s' a b"
    by (rule finish_ok [OF l(2), of want a b]) (use w in blast)+
  have "content s m = Some i" if "content s1 m = Some i" for m i using sh that unfolding shrinks_def by (metis option.distinct(1))
  then have "stop r s1 \<or> scan \<noteq> 0 \<or> (\<forall>m \<in> set ns. \<forall>i. content s' m = Some i \<longrightarrow> holds (local_attachments s) m \<noteq> 0 \<or> \<not> want i)"
    using l(3) w f(3) by (metis option.distinct(1))
  then show ?thesis using that [OF l(1) f(1-3) sh inv1] f(4) by blast
qed

lemma evict_result_none: "pc_inv s \<Longrightarrow> tidied s s' \<Longrightarrow> evict_result want s no_eviction s'"
proof -
  assume inv: "pc_inv s" and t: "tidied s s'"
  have "held_pages s' = held_pages s"
    using t outer_fields(1) [of s' s] unfolding held_pages_def by (simp add: tidied_def)
  moreover have o: "outer s' = outer s" using t by (simp add: tidied_def)
  moreover have "evicted_total s' = evicted_total s" "protected_total s' = protected_total s"
    using arg_cong [OF o, of evicted_total] arg_cong [OF o, of protected_total] by (simp_all add: outer_def frame_def)
  ultimately show ?thesis using t by (simp add: evict_result_def tidied_def no_eviction_def freed_keys_def)
qed

lemma candidates_set [simp]: "set (eviction_candidates s) = dom (content s)"
  by (auto simp: eviction_candidates_def content_def split: if_splits)

lemma candidates_bound: "set (eviction_candidates s) \<subseteq> {..<max_nodes s}" "set [0..<max_nodes s] \<subseteq> {..<max_nodes s}"
  by (auto simp: content_Some)

lemma ClearUnprotected_ok:
  assumes inv: "pc_inv s"
  obtains r s' where "ClearUnprotected s = (Inr r, s')" and "evict_result (\<lambda>_. True) s r s'"
    and "\<And>m. content s' m = (if holds (local_attachments s) m = 0 then None else content s m)"
proof -
  obtain r s1 s' where *: "evict_loop (\<lambda>_. True) (\<lambda>_ _. False) 0 [0..<max_nodes s] 0 no_eviction s = (Inr r, s1)"
    "finish_eviction 0 0 r s1 = (Inr r, s')" "evict_result (\<lambda>_. True) s r s'"
    "False \<or> (0 :: nat) \<noteq> 0 \<or> (\<forall>m \<in> set [0..<max_nodes s]. \<forall>i. content s' m = Some i \<longrightarrow> holds (local_attachments s) m \<noteq> 0 \<or> \<not> True)"
    by (rule scan_ok [OF inv candidates_bound(2), of "\<lambda>_. True" "\<lambda>_. True" "\<lambda>_ _. False" 0 0 0]) (simp, blast)
  have "content s' m = (if holds (local_attachments s) m = 0 then None else content s m)" for m
  proof (cases "content s' m")
    case None
    then show ?thesis using *(3) unfolding evict_result_def by (cases "content s m") auto
  next
    case (Some i)
    then have "content s m = Some i" using *(3) by (simp add: evict_result_def)
    then have "m < max_nodes s" by (simp add: content_Some)
    then show ?thesis using *(4) Some \<open>content s m = Some i\<close> by simp
  qed
  then show ?thesis using that [of r s'] *(1-3) by (simp add: ClearUnprotected_def)
qed

lemma ClearNamespace_ok:
  assumes inv: "pc_inv s"
  obtains r s' where "ClearNamespace ns s = (Inr r, s')" and "evict_result (\<lambda>i. ni_namespace i = ns) s r s'"
    and "\<And>m i. content s' m = Some i \<longleftrightarrow> content s m = Some i \<and> (holds (local_attachments s) m \<noteq> 0 \<or> ni_namespace i \<noteq> ns)"
proof -
  obtain r s1 s' where *: "evict_loop (\<lambda>node. node_namespace node = ns) (\<lambda>_ _. False) 0 [0..<max_nodes s] 0 no_eviction s = (Inr r, s1)"
    "finish_eviction 0 0 r s1 = (Inr r, s')" "evict_result (\<lambda>i. ni_namespace i = ns) s r s'"
    "False \<or> (0 :: nat) \<noteq> 0 \<or> (\<forall>m \<in> set [0..<max_nodes s]. \<forall>i. content s' m = Some i \<longrightarrow>
        holds (local_attachments s) m \<noteq> 0 \<or> ni_namespace i \<noteq> ns)"
    by (rule scan_ok [OF inv candidates_bound(2), of "\<lambda>node. node_namespace node = ns" "\<lambda>i. ni_namespace i = ns" "\<lambda>_ _. False" 0 0 0])
      (simp add: content_Some describe_def, blast)
  have "content s' m = Some i \<longleftrightarrow> content s m = Some i \<and> (holds (local_attachments s) m \<noteq> 0 \<or> ni_namespace i \<noteq> ns)" for m i
  proof
    assume c: "content s' m = Some i"
    then have "content s m = Some i" using *(3) by (simp add: evict_result_def)
    then have "m < max_nodes s" by (simp add: content_Some)
    then show "content s m = Some i \<and> (holds (local_attachments s) m \<noteq> 0 \<or> ni_namespace i \<noteq> ns)"
      using *(4) c \<open>content s m = Some i\<close> by simp
  next
    assume c: "content s m = Some i \<and> (holds (local_attachments s) m \<noteq> 0 \<or> ni_namespace i \<noteq> ns)"
    then show "content s' m = Some i" using *(3) unfolding evict_result_def by (cases "content s' m") auto
  qed
  then show ?thesis using that [of r s'] *(1-3) by (simp add: ClearNamespace_def)
qed

lemma EvictUntilReleasablePages_ok:
  assumes inv: "pc_inv s"
  obtains r s' where "EvictUntilReleasablePages req scan s = (Inr r, s')" and "evict_result (\<lambda>_. True) s r s'"
    and "scan = 0 \<longrightarrow> HasEnoughReleasablePages r (NormalizePageRequirements req)
           \<or> (\<forall>m. content s' m \<noteq> None \<longrightarrow> holds (local_attachments s) m \<noteq> 0)"
proof (cases "NormalizePageRequirements req = []")
  case True
  then show ?thesis using that [OF _ evict_result_none [OF inv tidied_refl [OF inv]]]
    by (simp add: EvictUntilReleasablePages_def HasEnoughReleasablePages_def)
next
  case False
  let ?stop = "\<lambda>r (_ :: prefix_cache). HasEnoughReleasablePages r (NormalizePageRequirements req)"
  obtain r s1 s' where *: "evict_loop (\<lambda>_. True) ?stop scan (eviction_candidates s) 0 no_eviction s = (Inr r, s1)"
    "finish_eviction 0 0 r s1 = (Inr r, s')" "evict_result (\<lambda>_. True) s r s'"
    "?stop r s1 \<or> scan \<noteq> 0 \<or> (\<forall>m \<in> set (eviction_candidates s). \<forall>i. content s' m = Some i \<longrightarrow> holds (local_attachments s) m \<noteq> 0 \<or> \<not> True)"
    by (rule scan_ok [OF inv candidates_bound(1), of "\<lambda>_. True" "\<lambda>_. True" ?stop scan 0 0]) (simp, blast)
  have "m \<in> set (eviction_candidates s)" if "content s' m \<noteq> None" for m
    using *(3) that by (auto simp: evict_result_def)
  then have "scan = 0 \<longrightarrow> HasEnoughReleasablePages r (NormalizePageRequirements req)
     \<or> (\<forall>m. content s' m \<noteq> None \<longrightarrow> holds (local_attachments s) m \<noteq> 0)" using *(4) by blast
  then show ?thesis using that [of r s'] *(1-3) False by (simp add: EvictUntilReleasablePages_def Let_def)
qed

lemma free_slots:
  assumes "arena_ok s"
  shows "CountFreeNodeSlotsLocked s = max_nodes s - card (dom (content s))"
proof -
  have len: "length (pc_nodes s) = max_nodes s" using arena_sizes(4) [OF assms] .
  have "is_free_node = (\<lambda>node. \<not> is_resident node)"
  proof
    show "is_free_node node = (\<not> is_resident node)" for node
      by (cases "node_state node") (simp_all add: is_free_node_def is_resident_def)
  qed
  then have "CountFreeNodeSlotsLocked s = length (filter (\<lambda>node. \<not> is_resident node) (pc_nodes s))" by (simp add: CountFreeNodeSlotsLocked_def)
  also have "\<dots> = max_nodes s - length (filter is_resident (pc_nodes s))"
    using sum_length_filter_compl [of is_resident "pc_nodes s"] len by simp
  also have "length (filter is_resident (pc_nodes s)) = card (dom (content s))"
  proof -
    have "dom (content s) = {n. n < length (pc_nodes s) \<and> is_resident (pc_nodes s ! n)}" by (auto simp: content_def len split: if_splits)
    then show ?thesis by (simp add: length_filter_conv_card)
  qed
  finally show ?thesis .
qed

lemma EvictUntilFree_ok:
  assumes inv: "pc_inv s"
  obtains r s' where "EvictUntilFree nodes entries handles scan s = (Inr r, s')" and "evict_result (\<lambda>_. True) s r s'"
    and "scan = 0 \<longrightarrow> (nodes \<le> CountFreeNodeSlotsLocked s' \<and> TailArenaCapacityEnoughLocked s' entries handles)
           \<or> (\<forall>m. content s' m \<noteq> None \<longrightarrow> holds (local_attachments s) m \<noteq> 0)"
proof -
  let ?enough = "\<lambda>s. nodes \<le> CountFreeNodeSlotsLocked s \<and> TailArenaCapacityEnoughLocked s entries handles"
  let ?after = "\<lambda>s. nodes \<le> CountFreeNodeSlotsLocked s \<and> CompactedArenaCapacityEnoughLocked s entries handles"
  let ?stop = "\<lambda>(_ :: PrefixEvictionResult) s. ?enough s \<or> ?after s"
  obtain s0 where s0: "CompactArenasForCapacityLocked entries handles s = (Inr (), s0)" "tidied s s0"
    "TailArenaCapacityEnoughLocked s entries handles \<or> CompactedArenaCapacityEnoughLocked s entries handles
       \<longrightarrow> TailArenaCapacityEnoughLocked s0 entries handles"
    by (rule ForCapacity_tidied [OF inv])
  note none = evict_result_none [OF inv]
  have unf: "EvictUntilFree nodes entries handles scan s = (if ?enough s then (Inr no_eviction, s)
      else and_then (CompactArenasForCapacityLocked entries handles s) (\<lambda>_ s.
           if ?enough s then (Inr no_eviction, s)
           else and_then (evict_loop (\<lambda>_. True) ?stop scan (eviction_candidates s) 0 no_eviction s) (finish_eviction entries handles)))"
    unfolding EvictUntilFree_def Let_def ..
  show ?thesis
  proof (cases "?enough s \<or> ?enough s0")
    case True
    then show ?thesis
    proof (cases "?enough s")
      case True
      then have "EvictUntilFree nodes entries handles scan s = (Inr no_eviction, s)" unfolding unf by simp
      then show ?thesis using that [OF _ none [OF tidied_refl [OF inv]]] True by blast
    next
      case False
      then have "EvictUntilFree nodes entries handles scan s = (Inr no_eviction, s0)" unfolding unf s0(1) using True by auto
      then show ?thesis using that [OF _ none [OF s0(2)]] True False by blast
    qed
  next
    case go: False
    have inv0: "pc_inv s0" and c0: "content s0 = content s" and o0: "outer s0 = outer s" using s0(2) by (simp_all add: tidied_def)
    obtain r s1 s' where *: "evict_loop (\<lambda>_. True) ?stop scan (eviction_candidates s0) 0 no_eviction s0 = (Inr r, s1)"
      "finish_eviction entries handles r s1 = (Inr r, s')" "evict_result (\<lambda>_. True) s0 r s'" "content s' = content s1" "shrinks s0 s1" "pc_inv s1"
      "?stop r s1 \<or> scan \<noteq> 0 \<or> (\<forall>m \<in> set (eviction_candidates s0). \<forall>i. content s' m = Some i \<longrightarrow> holds (local_attachments s0) m \<noteq> 0 \<or> \<not> True)"
      "TailArenaCapacityEnoughLocked s1 entries handles \<or> (evicted_nodes r \<noteq> 0 \<and> CompactedArenaCapacityEnoughLocked s1 entries handles)
           \<longrightarrow> TailArenaCapacityEnoughLocked s' entries handles"
      by (rule scan_ok [OF inv0 candidates_bound(1), of "\<lambda>_. True" "\<lambda>_. True" ?stop scan entries handles]) (simp, blast)
    have run: "EvictUntilFree nodes entries handles scan s = (Inr r, s')"
      unfolding unf s0(1) using go *(1,2) by auto
    have held: "held_pages s0 = held_pages s" using c0 outer_fields(1) [OF o0] by (simp add: held_pages_def)
    have res: "evict_result (\<lambda>_. True) s r s'"
      using *(3) outer_counters [OF o0] outer_fields(4) [OF o0] unfolding evict_result_def c0 held by simp
    have "arena_ok s'" using res pc_invD(1) by (simp add: evict_result_def)
    moreover have "outer s' = outer (s0\<lparr>evicted_total := evicted_total s', protected_total := protected_total s'\<rparr>)"
      using *(3) by (simp add: evict_result_def)
    from outer_fields(1) [OF this] have "max_nodes s' = max_nodes s1" using shrinks_fields(3) [OF *(5)] by simp
    ultimately have free: "CountFreeNodeSlotsLocked s' = CountFreeNodeSlotsLocked s1"
      using free_slots [of s'] free_slots [OF pc_invD(1) [OF *(6)]] *(4) by simp
    show ?thesis
    proof (rule that [OF run res], intro impI)
      assume "scan = 0"
      show "?enough s' \<or> (\<forall>m. content s' m \<noteq> None \<longrightarrow> holds (local_attachments s) m \<noteq> 0)"
      proof (cases "?stop r s1")
        case True
        have "CompactedArenaCapacityEnoughLocked s1 entries handles \<longrightarrow> evicted_nodes r \<noteq> 0"
        proof (intro impI notI)
          assume comp: "CompactedArenaCapacityEnoughLocked s1 entries handles" and "evicted_nodes r = 0"
          then have "dom (content s0) \<subseteq> dom (content s')" using *(3) by (simp add: evict_result_def)
          moreover have "content s0 m = Some i" if "content s' m = Some i" for m i using *(3) that by (simp add: evict_result_def)
          ultimately have "content s' m = content s0 m" for m by (cases "content s' m"; cases "content s0 m") (auto simp: dom_def)
          then have c1: "content s1 = content s" using *(4) c0 by (simp add: fun_eq_iff)
          then have "CompactedArenaCapacityEnoughLocked s entries handles"
            using comp CompactedArenaCapacity_iff [OF pc_invD(1) [OF *(6)]] CompactedArenaCapacity_iff [OF pc_invD(1) [OF inv]]
              shrinks_fields [OF *(5)] outer_fields [OF o0] by (simp add: held_pages_def held_entries_def)
          moreover have "CountFreeNodeSlotsLocked s0 = CountFreeNodeSlotsLocked s1"
            using free_slots [OF pc_invD(1) [OF inv0]] free_slots [OF pc_invD(1) [OF *(6)]] c0 c1 shrinks_fields(3) [OF *(5)] by simp
          ultimately show False using s0(3) True go by auto
        qed
        then show ?thesis using True *(8) free by auto
      next
        case False
        then have "\<forall>m \<in> set (eviction_candidates s0). \<forall>i. content s' m = Some i \<longrightarrow> holds (local_attachments s) m \<noteq> 0"
          using *(7) \<open>scan = 0\<close> outer_fields(4) [OF o0] by metis
        moreover have "m \<in> set (eviction_candidates s0)" if "content s' m \<noteq> None" for m
          using *(3) that by (auto simp: evict_result_def)
        ultimately show ?thesis by blast
      qed
    qed
  qed
qed

section \<open>Counting pages\<close>

lemma in_tally: "k \<in># tally N f a \<longleftrightarrow> (\<exists>n < N. \<exists>i. a n = Some i \<and> k \<in># f i)"
proof -
  have "k \<in># (\<Sum>n<N. case a n of None \<Rightarrow> 0 | Some i \<Rightarrow> f i) \<longleftrightarrow> (\<exists>n < N. \<exists>i. a n = Some i \<and> k \<in># f i)"
    by (induction N) (auto simp: less_Suc_eq split: option.splits)
  then show ?thesis by (simp add: tally_def)
qed

lemma in_held: "k \<in># held_pages s \<longleftrightarrow> (\<exists>n i. content s n = Some i \<and> k \<in> set (page_keys i))"
  unfolding held_pages_def in_tally by (auto simp: content_Some)

text \<open>The number of pages a result returns for a group.\<close>

definition returned :: "GroupCommitPages list \<Rightarrow> nat \<Rightarrow> nat" where
  "returned gs g = sum_list (map (length \<circ> snd) (filter (\<lambda>x. fst x = g) gs))"

lemma returned_keys: "returned gs g = size (filter_mset (\<lambda>k. fst k = g) (freed_keys gs))"
proof (induction gs)
  case (Cons x gs)
  obtain g' ps where x: "x = (g', ps)" by force
  have "filter_mset (\<lambda>k. fst k = g) (mset (map (Pair g') ps)) = (if g' = g then mset (map (Pair g') ps) else {#})"
    by (auto simp: filter_mset_eq_conv)
  then show ?case using Cons by (simp add: x returned_def freed_keys_def del: mset_map)
qed (simp add: returned_def freed_keys_def)

lemma group_pages_set:
  assumes "arena_ok s" and "content s n = Some i"
  shows "set (group_pages_of s g (pc_nodes s ! n)) = {p. (g, p) \<in> set (page_keys i)}"
proof -
  note node = arena_node [OF assms]
  show ?thesis
    unfolding group_pages_of_def node_entries_range(3) [OF assms(1) node(3)]
    by (auto simp: node(4) page_keys_def describe_def entry_info_def)
qed

definition releasable :: "prefix_cache \<Rightarrow> nat \<Rightarrow> nat set" where
  "releasable s g = {p. (\<exists>n i. content s n = Some i \<and> (g, p) \<in> set (page_keys i))
     \<and> \<not> (\<exists>n i. content s n = Some i \<and> holds (local_attachments s) n \<noteq> 0 \<and> (g, p) \<in> set (page_keys i))}"

lemma CountReleasablePages_eq:
  assumes inv: "pc_inv s"
  shows "CountReleasablePages s g = card (releasable s g)"
proof -
  note ok = pc_invD(1) [OF inv]
  have len: "length (pc_nodes s) = max_nodes s" using arena_sizes(4) [OF ok] .
  let ?un = "concat (map (group_pages_of s g) (filter (\<lambda>node. \<not> NodeIsProtectedLocked s node) (filter is_resident (pc_nodes s))))"
  let ?pr = "concat (map (group_pages_of s g) (filter (NodeIsProtectedLocked s) (filter is_resident (pc_nodes s))))"
  have resident: "(\<exists>node \<in> set (pc_nodes s). is_resident node \<and> P node) \<longleftrightarrow> (\<exists>n i. content s n = Some i \<and> P (pc_nodes s ! n))" for P
  proof -
    have "(\<exists>node \<in> set (pc_nodes s). is_resident node \<and> P node) \<longleftrightarrow> (\<exists>n < max_nodes s. is_resident (pc_nodes s ! n) \<and> P (pc_nodes s ! n))"
      unfolding len [symmetric] by (metis in_set_conv_nth)
    then show ?thesis by (auto simp: content_Some)
  qed
  have "p \<in> set ?un \<longleftrightarrow> (\<exists>node \<in> set (pc_nodes s). is_resident node \<and> (\<not> NodeIsProtectedLocked s node \<and> p \<in> set (group_pages_of s g node)))" for p
    by auto
  then have un: "p \<in> set ?un \<longleftrightarrow> (\<exists>n i. content s n = Some i \<and> holds (local_attachments s) n = 0 \<and> (g, p) \<in> set (page_keys i))" for p
    unfolding resident using protected_iff [OF inv] group_pages_set [OF ok] by (metis (mono_tags, lifting) mem_Collect_eq)
  have "p \<in> set ?pr \<longleftrightarrow> (\<exists>node \<in> set (pc_nodes s). is_resident node \<and> (NodeIsProtectedLocked s node \<and> p \<in> set (group_pages_of s g node)))" for p
    by auto
  then have pr: "p \<in> set ?pr \<longleftrightarrow> (\<exists>n i. content s n = Some i \<and> holds (local_attachments s) n \<noteq> 0 \<and> (g, p) \<in> set (page_keys i))" for p
    unfolding resident using protected_iff [OF inv] group_pages_set [OF ok] by (metis (mono_tags, lifting) mem_Collect_eq)
  have "releasable s g = set (filter (\<lambda>page. page \<notin> set ?pr) (remdups ?un))"
    unfolding releasable_def set_filter set_remdups Collect_mem_eq un pr by (auto simp del: set_concat)
  moreover have "distinct (filter (\<lambda>page. page \<notin> set ?pr) (remdups ?un))" by simp
  ultimately show ?thesis by (metis (no_types, lifting) CountReleasablePages_def distinct_card)
qed

lemma freed_when_clear:
  assumes inv: "pc_inv s" and res: "evict_result want s r s'"
    and gone: "\<And>m. content s' m \<noteq> None \<Longrightarrow> holds (local_attachments s) m \<noteq> 0"
  shows "returned (evicted_group_pages r) g = CountReleasablePages s g"
proof -
  have c: "content s' n = Some i \<longleftrightarrow> content s n = Some i \<and> holds (local_attachments s) n \<noteq> 0" for n i
    using res gone [of n] unfolding evict_result_def by (cases "content s' n"; cases "content s n") auto
  let ?D = "set_mset (held_pages s) - set_mset (held_pages s')"
  have "filter_mset (\<lambda>k. fst k = g) (mset_set ?D) = mset_set {k \<in> ?D. fst k = g}"
    by (rule filter_mset_mset_set) simp
  then have "returned (evicted_group_pages r) g = card {k \<in> ?D. fst k = g}"
    using res unfolding returned_keys evict_result_def by simp
  also have "{k \<in> ?D. fst k = g} = Pair g ` releasable s g"
    unfolding releasable_def by (auto simp: in_held c image_iff) blast
  also have "card (Pair g ` releasable s g) = card (releasable s g)" by (rule card_image) (simp add: inj_on_def)
  finally show ?thesis by (simp add: CountReleasablePages_eq [OF inv])
qed

lemma returned_le:
  assumes "evict_result want s r s'" and "pc_inv s"
  shows "sum_list (map (length \<circ> snd) (evicted_group_pages r)) < 2 ^ 32"
proof -
  have "sum_list (map (length \<circ> snd) gs) = size (freed_keys gs)" for gs
    by (induction gs) (auto simp: freed_keys_def)
  moreover have "size (freed_keys (evicted_group_pages r)) \<le> size (held_pages s)"
  proof -
    have "card (set_mset (held_pages s) - set_mset (held_pages s')) \<le> card (set_mset (held_pages s))" by (rule card_mono) auto
    moreover have "card (set_mset M) \<le> size M" for M :: "(nat \<times> nat) multiset" by (induction M) (auto simp: card_insert_if)
    ultimately show ?thesis using assms(1) unfolding evict_result_def by (metis (no_types, lifting) le_trans size_mset_set)
  qed
  moreover have "size (held_pages s) < 2 ^ 32" using pc_invD(1) [OF assms(2)] arena_sizes(2) by (fastforce simp: arena_ok_def size_ok_def)
  ultimately show ?thesis by simp
qed

lemma released_count:
  assumes "sorted_wrt (<) (map fst acc)"
    and "\<And>g. (case map_of acc g of None \<Rightarrow> 0 | Some n \<Rightarrow> n) + sum_list (map (length \<circ> snd) gs) < 2 ^ 32"
  shows "(case map_of (fold (\<lambda>(g, pages) acc.
             ordered_put g (u32 ((case map_of acc g of None \<Rightarrow> 0 | Some n \<Rightarrow> n) + length pages)) acc) gs acc) g of
             None \<Rightarrow> 0 | Some k \<Rightarrow> k)
         = (case map_of acc g of None \<Rightarrow> 0 | Some n \<Rightarrow> n) + returned gs g"
  using assms
proof (induction gs arbitrary: acc)
  case (Cons x gs)
  obtain g' ps where x: "x = (g', ps)" by force
  let ?n = "\<lambda>acc g. case map_of acc g of None \<Rightarrow> 0 | Some n \<Rightarrow> n"
  let ?acc = "ordered_put g' (u32 (?n acc g' + length ps)) acc"
  have w: "u32 (?n acc g' + length ps) = ?n acc g' + length ps" using Cons.prems(2) [of g'] by (simp add: x u32_def)
  have upd: "?n ?acc h = (if h = g' then ?n acc g' + length ps else ?n acc h)" for h
    using map_of_ordered_put [OF Cons.prems(1)] w by simp
  have "?n ?acc h + sum_list (map (length \<circ> snd) gs) < 2 ^ 32" for h
    unfolding upd using Cons.prems(2) [of h] by (cases "h = g'") (simp_all add: x comp_def)
  from Cons.IH [OF sorted_ordered_put [OF Cons.prems(1)] this] show ?case by (simp add: x upd returned_def)
qed (simp add: returned_def)

lemma HasEnough_iff:
  assumes "evict_result want s r s'" and "pc_inv s"
  shows "HasEnoughReleasablePages r reqs \<longleftrightarrow> (\<forall>(g, n) \<in> set reqs. n \<le> returned (evicted_group_pages r) g)"
  using released_count [of "[]" "evicted_group_pages r"] returned_le [OF assms]
  by (auto simp: HasEnoughReleasablePages_def Let_def list_all_iff)

end
