(* ===== verification/Prefix_Commit.thy ===== *)
theory Prefix_Commit
  imports Prefix_Clear
begin

text \<open>
  Committing a prefix: the node of a block is inserted completely or not at all, and a commit
  adds one node per block that has none yet.
\<close>

section \<open>The groups of a block\<close>

definition group_template :: "nat \<Rightarrow> nat \<Rightarrow> nat \<Rightarrow> SharedGroupEntry" where
  "group_template g start raw_end =
     ResetGroupEntry\<lparr>entry_state := kResident, entry_group := g, entry_start := start, entry_end := raw_end\<rparr>"

fun block_groups :: "(nat \<Rightarrow> nat list option) \<Rightarrow> nat \<Rightarrow> nat \<Rightarrow> HostKVGroupSpec list \<Rightarrow> GroupEntrySnapshot list" where
  "block_groups pages start raw_end [] = []"
| "block_groups pages start raw_end (spec # specs) =
     (case group_pages_for pages start raw_end spec of
        None \<Rightarrow> block_groups pages start raw_end specs
      | Some ps \<Rightarrow> (group_template (spec_group spec) start raw_end, ps) # block_groups pages start raw_end specs)"

lemma slice_length [simp]: "length (group_slice spec start raw_end ps) = pages_needed spec start raw_end"
  by (simp add: group_slice_def)

lemma page_range: "(start :: nat) \<le> raw_end \<Longrightarrow> start div r + (raw_end - start) div r \<le> raw_end div r"
  by (metis div_add1_eq le_add1 le_add_diff_inverse)

lemma covered_iff:
  assumes "start \<le> raw_end" and "raw_end < 2 ^ 32"
  shows "group_covered spec start raw_end ps \<longleftrightarrow> first_page spec start + pages_needed spec start raw_end \<le> length ps"
proof -
  have "first_page spec start + pages_needed spec start raw_end \<le> raw_end"
    using page_range [OF assms(1), of "raw_page_tokens spec"] div_le_dividend [of raw_end "raw_page_tokens spec"]
    unfolding first_page_def pages_needed_def by linarith
  then show ?thesis using assms(2) by (simp add: group_covered_def u32_def)
qed

lemma block_groups_length: "length (block_groups pages start raw_end specs) \<le> length specs"
  by (induction specs) (auto split: option.split)

lemma block_groups_pages:
  "length (all_pages (block_groups pages start raw_end specs)) \<le> (raw_end - start) * length specs"
proof (induction specs)
  case (Cons spec specs)
  have "pages_needed spec start raw_end \<le> raw_end - start" by (simp add: pages_needed_def)
  then show ?case using Cons by (auto simp: group_pages_for_def split: option.split)
qed simp

text \<open>The required groups of a block are there when the commit checked their pages.\<close>

definition block_ready :: "(nat \<Rightarrow> nat list option) \<Rightarrow> nat \<Rightarrow> nat \<Rightarrow> HostKVGroupSpec list \<Rightarrow> bool" where
  "block_ready pages start raw_end specs \<longleftrightarrow>
     (\<forall>spec \<in> set specs. required_for_reuse spec \<longrightarrow> group_pages_for pages start raw_end spec \<noteq> None)"

lemma count_groups_eq:
  assumes "block_ready pages start raw_end specs"
    and "entries + length specs < 2 ^ 32" and "handles + (raw_end - start) * length specs < 2 ^ 32"
  shows "count_groups pages start raw_end specs entries handles
      = Inr (entries + length (block_groups pages start raw_end specs), handles + length (all_pages (block_groups pages start raw_end specs)))"
  using assms
proof (induction specs arbitrary: entries handles)
  case (Cons spec specs)
  let ?k = "pages_needed spec start raw_end"
  have ready: "block_ready pages start raw_end specs" using Cons.prems(1) by (simp add: block_ready_def)
  have "?k \<le> raw_end - start" by (simp add: pages_needed_def)
  then have "u32 (entries + 1) = entries + 1" "u32 (handles + ?k) = handles + ?k"
    and "handles + ?k + (raw_end - start) * length specs < 2 ^ 32"
    using Cons.prems(2,3) by (simp_all add: u32_def)
  then show ?case
    using Cons.IH [OF ready, of entries handles] Cons.IH [OF ready, of "entries + 1" "handles + ?k"] Cons.prems
    by (auto simp: group_pages_for_def block_ready_def split: option.split)
qed simp

lemma check_pages:
  assumes "check_required_pages pages tokens specs = Inr ()" and "spec \<in> set specs" and "required_for_reuse spec"
  obtains ps where "pages (spec_group spec) = Some ps" and "tokens div raw_page_tokens spec \<le> length ps"
proof -
  have "\<exists>ps. pages (spec_group spec) = Some ps \<and> tokens div raw_page_tokens spec \<le> length ps"
    using assms by (induction specs) (auto split: if_splits option.splits)
  then show ?thesis using that by blast
qed

lemma ready_block:
  assumes c: "check_required_pages pages tokens specs = Inr ()" and e: "start \<le> raw_end" "raw_end \<le> tokens" "raw_end < 2 ^ 32"
    and al: "\<And>spec. spec \<in> set specs \<Longrightarrow> required_for_reuse spec \<Longrightarrow> group_aligned spec start raw_end"
  shows "block_ready pages start raw_end specs"
  unfolding block_ready_def
proof (intro ballI impI)
  fix spec assume spec: "spec \<in> set specs" "required_for_reuse spec"
  obtain ps where ps: "pages (spec_group spec) = Some ps" "tokens div raw_page_tokens spec \<le> length ps"
    using check_pages [OF c spec] .
  have "raw_end div raw_page_tokens spec \<le> tokens div raw_page_tokens spec" using e(2) by (rule div_le_mono)
  then have "group_covered spec start raw_end ps"
    using covered_iff [OF e(1,3)] page_range [OF e(1), of "raw_page_tokens spec"] ps(2)
    by (simp add: first_page_def pages_needed_def)
  then show "group_pages_for pages start raw_end spec \<noteq> None" using ps(1) al [OF spec] by (simp add: group_pages_for_def)
qed

section \<open>Writing the groups of a block\<close>

lemma write_pages_refs:
  assumes "refs_count s M" and "size_ok s" and "size M + length ps \<le> max_page_handles s"
    and "h + length ps \<le> length (page_handles s)" and "length (page_handles s) < 2 ^ 32"
  shows "\<exists>slots. fold_do (\<lambda>page h s. and_then (IncrementPageRefLocked g page (s\<lparr>page_handles := (page_handles s)[h := page]\<rparr>))
                      (\<lambda>_ s. (Inr (u32 (h + 1)), s))) ps h s
       = (Inr (h + length ps), s\<lparr>page_handles := overwrite h ps (page_handles s), page_ref_slots := slots\<rparr>)
     \<and> refs_count (s\<lparr>page_handles := overwrite h ps (page_handles s), page_ref_slots := slots\<rparr>) (mset (map (Pair g) ps) + M)"
  using assms
proof (induction ps arbitrary: h s M)
  case Nil
  then show ?case by (intro exI [of _ "page_ref_slots s"]) simp
next
  case (Cons p ps)
  let ?s = "s\<lparr>page_handles := (page_handles s)[h := p]\<rparr>"
  have "refs_count ?s M" "size_ok ?s" using Cons.prems(1,2) by (simp_all add: refs_count_def refs_wf_def size_ok_def)
  then obtain slots where i: "IncrementPageRefLocked g p ?s = (Inr (), ?s\<lparr>page_ref_slots := slots\<rparr>)"
    "refs_count (?s\<lparr>page_ref_slots := slots\<rparr>) (add_mset (g, p) M)"
    by (rule IncrementPageRef_count) (use Cons.prems(3) in auto)
  have w: "u32 (h + 1) = h + 1" using Cons.prems(4,5) by (simp add: u32_def)
  let ?t = "?s\<lparr>page_ref_slots := slots\<rparr>"
  have "size_ok ?t" "size (add_mset (g, p) M) + length ps \<le> max_page_handles ?t" "h + 1 + length ps \<le> length (page_handles ?t)"
    "length (page_handles ?t) < 2 ^ 32" using Cons.prems by (simp_all add: size_ok_def)
  from Cons.IH [OF i(2) this] obtain slots' where
    "fold_do (\<lambda>page h s. and_then (IncrementPageRefLocked g page (s\<lparr>page_handles := (page_handles s)[h := page]\<rparr>))
                      (\<lambda>_ s. (Inr (u32 (h + 1)), s))) ps (h + 1) ?t
       = (Inr (h + 1 + length ps), ?t\<lparr>page_handles := overwrite (h + 1) ps (page_handles ?t), page_ref_slots := slots'\<rparr>)"
    "refs_count (?t\<lparr>page_handles := overwrite (h + 1) ps (page_handles ?t), page_ref_slots := slots'\<rparr>) (mset (map (Pair g) ps) + add_mset (g, p) M)"
    by blast
  moreover have "overwrite (h + 1) ps (page_handles ?t) = overwrite h (p # ps) (page_handles s)"
    using overwrite_Cons [of h p ps "page_handles s"] Cons.prems(4) by simp
  ultimately show ?case using i(1) w by (intro exI [of _ slots']) simp
qed


definition group_keys :: "GroupEntrySnapshot list \<Rightarrow> (nat \<times> nat) list" where
  "group_keys gs = concat (map (\<lambda>(e, ps). map (Pair (entry_group e)) ps) gs)"

lemma length_group_keys: "length (group_keys gs) = length (all_pages gs)"
  by (induction gs) (auto simp: group_keys_def)

lemma write_groups_refs:
  assumes "refs_count s M" and "size_ok s" and "size M + length (all_pages (block_groups pages start raw_end specs)) \<le> max_page_handles s"
    and "h + length (all_pages (block_groups pages start raw_end specs)) \<le> length (page_handles s)" and "length (page_handles s) < 2 ^ 32"
    and "a + length (block_groups pages start raw_end specs) \<le> length (group_entries s)" and "length (group_entries s) < 2 ^ 32"
  shows "\<exists>slots s'. fold_do (write_group pages start raw_end) specs (a, h) s
       = (Inr (a + length (block_groups pages start raw_end specs), h + length (all_pages (block_groups pages start raw_end specs))), s')
     \<and> s' = s\<lparr>group_entries := overwrite a (placed h (block_groups pages start raw_end specs)) (group_entries s),
               page_handles := overwrite h (all_pages (block_groups pages start raw_end specs)) (page_handles s), page_ref_slots := slots\<rparr>
     \<and> refs_count s' (mset (group_keys (block_groups pages start raw_end specs)) + M)"
  using assms
proof (induction specs arbitrary: a h s M)
  case Nil
  then show ?case by (intro exI [of _ "page_ref_slots s"] exI [of _ s]) (simp add: group_keys_def)
next
  case (Cons spec specs)
  show ?case
  proof (cases "group_pages_for pages start raw_end spec")
    case None
    then show ?thesis using Cons by (simp add: write_group_def)
  next
    case (Some ps)
    let ?gs = "block_groups pages start raw_end specs" and ?g = "spec_group spec"
    have len: "length ps = pages_needed spec start raw_end"
      using Some by (auto simp: group_pages_for_def split: option.splits if_splits)
    define E where "E = ResetGroupEntry\<lparr>entry_state := kResident, entry_group := ?g, entry_start := start,
      entry_end := raw_end, first_page_handle := h, page_handle_count := pages_needed spec start raw_end\<rparr>"
    let ?s = "s\<lparr>group_entries := (group_entries s)[a := E]\<rparr>"
    have "refs_count ?s M" "size_ok ?s" "size M + length ps \<le> max_page_handles ?s" "h + length ps \<le> length (page_handles ?s)"
      "length (page_handles ?s) < 2 ^ 32"
      using Cons.prems Some by (simp_all add: refs_count_def refs_wf_def size_ok_def)
    from write_pages_refs [OF this, of ?g] obtain slots where w:
      "fold_do (\<lambda>page h s. and_then (IncrementPageRefLocked ?g page (s\<lparr>page_handles := (page_handles s)[h := page]\<rparr>))
                      (\<lambda>_ s. (Inr (u32 (h + 1)), s))) ps h ?s
       = (Inr (h + length ps), ?s\<lparr>page_handles := overwrite h ps (page_handles ?s), page_ref_slots := slots\<rparr>)"
      "refs_count (?s\<lparr>page_handles := overwrite h ps (page_handles ?s), page_ref_slots := slots\<rparr>) (mset (map (Pair ?g) ps) + M)"
      by blast
    let ?t = "?s\<lparr>page_handles := overwrite h ps (page_handles ?s), page_ref_slots := slots\<rparr>"
    have step: "write_group pages start raw_end spec (a, h) s = (Inr (a + 1, h + length ps), ?t)"
      using w(1) Cons.prems(6,7) Some by (simp add: write_group_def E_def u32_def)
    have "size_ok ?t" "size (mset (map (Pair ?g) ps) + M) + length (all_pages ?gs) \<le> max_page_handles ?t"
      "h + length ps + length (all_pages ?gs) \<le> length (page_handles ?t)" "length (page_handles ?t) < 2 ^ 32"
      "a + 1 + length ?gs \<le> length (group_entries ?t)" "length (group_entries ?t) < 2 ^ 32"
      using Cons.prems Some by (simp_all add: size_ok_def)
    from Cons.IH [OF w(2) this] obtain slots' s' where
      "fold_do (write_group pages start raw_end) specs (a + 1, h + length ps) ?t
         = (Inr (a + 1 + length ?gs, h + length ps + length (all_pages ?gs)), s')"
      and s': "s' = ?t\<lparr>group_entries := overwrite (a + 1) (placed (h + length ps) ?gs) (group_entries ?t),
               page_handles := overwrite (h + length ps) (all_pages ?gs) (page_handles ?t), page_ref_slots := slots'\<rparr>"
      and "refs_count s' (mset (group_keys ?gs) + (mset (map (Pair ?g) ps) + M))" by blast
    moreover have "overwrite (a + 1) (placed (h + length ps) ?gs) (group_entries ?t)
        = overwrite a (placed h (block_groups pages start raw_end (spec # specs))) (group_entries s)"
      using Cons.prems(6) Some len
      by (simp add: overwrite_Cons E_def group_template_def ResetGroupEntry_def)
    moreover have "overwrite (h + length ps) (all_pages ?gs) (page_handles ?t)
        = overwrite h (all_pages (block_groups pages start raw_end (spec # specs))) (page_handles s)"
      using overwrite_append [of h ps "all_pages ?gs" "page_handles s"] Cons.prems(4) Some by simp
    moreover have "mset (group_keys ?gs) + (mset (map (Pair ?g) ps) + M)
        = mset (group_keys (block_groups pages start raw_end (spec # specs))) + M"
      using Some by (simp add: group_keys_def group_template_def del: mset_map)
    ultimately show ?thesis using step Some
      by (intro exI [of _ slots'] exI [of _ s']) (simp add: ac_simps)
  qed
qed

section \<open>Inserting a node\<close>

lemma first_free_node_at:
  assumes "is_free_node (ns ! k)" and "k < length ns"
  obtains n where "first_free_node i ns = Some (i + n)" and "n < length ns" and "is_free_node (ns ! n)"
proof -
  have "\<exists>n. first_free_node i ns = Some (i + n) \<and> n < length ns \<and> is_free_node (ns ! n)"
    using assms
  proof (induction ns arbitrary: i k)
    case (Cons x ns)
    show ?case
    proof (cases "is_free_node x")
      case False
      then obtain k' where "k = Suc k'" using Cons.prems by (cases k) auto
      then have "is_free_node (ns ! k')" "k' < length ns" using Cons.prems by simp_all
      from Cons.IH [OF this, of "Suc i"] show ?thesis using False by (metis add_Suc_shift first_free_node.simps(2) length_Cons not_less_eq nth_Cons_Suc)
    qed auto
  qed simp
  then show ?thesis using that by blast
qed

lemma free_node:
  assumes ok: "arena_ok s" and room: "card (dom (content s)) < max_nodes s"
  obtains n where "first_free_node 0 (pc_nodes s) = Some n" and "n < max_nodes s" and "content s n = None"
proof -
  have "\<not> {..<max_nodes s} \<subseteq> dom (content s)" using card_mono [of "dom (content s)" "{..<max_nodes s}"] room by auto
  then obtain k where "k < max_nodes s" "content s k = None" by auto
  moreover have free: "is_free_node node = (\<not> is_resident node)" for node
    by (cases "node_state node") (simp_all add: is_free_node_def is_resident_def)
  ultimately have "is_free_node (pc_nodes s ! k)" "k < length (pc_nodes s)" using arena_sizes(4) [OF ok] by (auto simp: content_None)
  then obtain n where "first_free_node 0 (pc_nodes s) = Some (0 + n)" "n < length (pc_nodes s)" "is_free_node (pc_nodes s ! n)"
    by (rule first_free_node_at)
  then show ?thesis using that [of n] arena_sizes(4) [OF ok] by (simp add: content_None free)
qed

text \<open>What a commit leaves alone.\<close>

definition setting :: "prefix_cache \<Rightarrow> prefix_cache" where
  "setting s = frame (s\<lparr>page_ref_slots := [], global_epoch := 0\<rparr>)"

lemma setting_fields:
  assumes "setting s' = setting s"
  shows "max_nodes s' = max_nodes s" and "max_group_entries s' = max_group_entries s" and "max_page_handles s' = max_page_handles s"
    and "local_attachments s' = local_attachments s" and "next_local_attachment s' = next_local_attachment s"
    and "pc_specs s' = pc_specs s" and "hash_block_tokens s' = hash_block_tokens s"
    and "commit_boundary_tokens s' = commit_boundary_tokens s"
  using frame_fields [OF assms [unfolded setting_def]] by simp_all

lemma outer_setting: "outer s' = outer s \<Longrightarrow> setting s' = setting s"
proof -
  have "setting s = (outer s)\<lparr>global_epoch := 0\<rparr>" for s by (simp add: setting_def outer_def frame_def)
  then show "outer s' = outer s \<Longrightarrow> setting s' = setting s" by simp
qed

definition block_info :: "PrefixDigest \<Rightarrow> (nat \<Rightarrow> nat list option) \<Rightarrow> HostKVGroupSpec list \<Rightarrow> nat \<Rightarrow> nat \<times> nat \<times> PrefixDigest \<Rightarrow> node_info" where
  "block_info namespace pages specs epoch b = (case b of (start, raw_end, digest) \<Rightarrow>
     \<lparr>ni_namespace = namespace, ni_digest = digest, ni_start = start, ni_end = raw_end, ni_epoch = epoch,
      ni_groups = map snapshot_info (block_groups pages start raw_end specs)\<rparr>)"

lemma block_groups_set:
  "x \<in> set (block_groups pages start raw_end specs) \<longleftrightarrow>
     (\<exists>spec \<in> set specs. \<exists>ps. group_pages_for pages start raw_end spec = Some ps \<and> x = (group_template (spec_group spec) start raw_end, ps))"
  by (induction specs) (auto split: option.split)

lemma block_complete:
  assumes "block_ready pages start raw_end specs"
  shows "complete_info specs (block_info namespace pages specs epoch (start, raw_end, digest))"
  unfolding complete_info_def block_info_def
proof (clarsimp)
  fix spec assume spec: "spec \<in> set specs" "required_for_reuse spec"
  then obtain ps where "group_pages_for pages start raw_end spec = Some ps" using assms by (auto simp: block_ready_def)
  then have "(group_template (spec_group spec) start raw_end, ps) \<in> set (block_groups pages start raw_end specs)"
    using spec(1) by (auto simp: block_groups_set)
  then show "\<exists>x \<in> set (block_groups pages start raw_end specs). gi_group (snapshot_info x) = spec_group spec
      \<and> gi_start (snapshot_info x) \<le> start \<and> raw_end \<le> gi_end (snapshot_info x)"
    by (rule rev_bexI) (simp add: snapshot_info_def group_template_def)
qed

lemma attach_ok_insert:
  assumes "attach_ok c atts next" and "c n = None" and "\<forall>g \<in> set (ni_groups i). gi_active g = 0 \<and> gi_pending g = 0"
  shows "attach_ok (c(n \<mapsto> i)) atts next"
proof -
  have "n \<notin> set (att_nodes a)" if "(h, a) \<in> set atts" for h a
    using assms(1,2) that by (auto simp: attach_ok_def)
  then have "count_list (att_nodes a) n = 0" if "(h, a) \<in> set atts" for h a
    using that by (simp add: count_list_0_iff)
  then have "holds atts n = 0" "loads atts n = 0"
    by (auto simp: holds_def loads_def sum_list_eq_0_iff)
  then show ?thesis using assms by (fastforce simp: attach_ok_def)
qed

lemma block_keys: "page_keys (block_info namespace pages specs epoch (start, raw_end, digest)) = group_keys (block_groups pages start raw_end specs)"
  by (simp add: page_keys_def block_info_def group_keys_def comp_def snapshot_info_def case_prod_unfold)

lemma index_room:
  assumes "index_exact s"
  shows "card (dom (index_map s)) \<le> card (dom (content s))"
proof -
  have "dom (index_map s) \<subseteq> (\<lambda>n. ni_digest (the (content s n))) ` dom (content s)"
    using assms by (force simp: index_exact_def dom_def)
  from card_mono [OF _ this] show ?thesis using card_image_le [OF dom_content_finite] by (meson dom_content_finite finite_imageI le_trans)
qed

lemma insert_node_ok:
  fixes pages start raw_end s
  defines "gs \<equiv> block_groups pages start raw_end (pc_specs s)"
  assumes inv: "pc_inv s" and fresh: "FindNodeLocked s digest = None" and ready: "block_ready pages start raw_end (pc_specs s)"
    and small: "(raw_end - start) * length (pc_specs s) < 2 ^ 31" and room: "card (dom (content s)) < max_nodes s"
    and fit: "next_group_entry s + length gs \<le> max_group_entries s" "next_page_handle s + length (all_pages gs) \<le> max_page_handles s"
  obtains n s' where "insert_node namespace pages start raw_end digest s = (Inr n, s')" and "pc_inv s'" and "content s n = None"
    and "content s' = (content s)(n \<mapsto> block_info namespace pages (pc_specs s) (u64 (global_epoch s + 1)) (start, raw_end, digest))"
    and "next_group_entry s' = next_group_entry s + length gs" and "next_page_handle s' = next_page_handle s + length (all_pages gs)"
    and "setting s' = setting s"
proof -
  note ok = pc_invD(1) [OF inv] and sz = arena_sizes [OF pc_invD(1) [OF inv]] and size = pc_invD(7) [OF inv]
  have lim: "max_nodes s \<le> 2 ^ 30" "max_group_entries s \<le> 2 ^ 31" "max_page_handles s \<le> 2 ^ 30" using size by (simp_all add: size_ok_def)
  have cg: "count_groups pages start raw_end (pc_specs s) 0 0 = Inr (length gs, length (all_pages gs))"
    unfolding gs_def using count_groups_eq [OF ready, of 0 0] small pc_invD(5) [OF inv] by (simp add: config_ok_def)
  have caps: "u32 (next_group_entry s + length gs) = next_group_entry s + length gs"
    "u32 (next_page_handle s + length (all_pages gs)) = next_page_handle s + length (all_pages gs)"
    using fit lim by (simp_all add: u32_def del: length_concat)
  have w: "size (held_pages s) + length (all_pages gs) \<le> max_page_handles s"
    "next_page_handle s + length (all_pages gs) \<le> length (page_handles s)" "length (page_handles s) < 2 ^ 32"
    "next_group_entry s + length gs \<le> length (group_entries s)" "length (group_entries s) < 2 ^ 32"
    using ok fit lim by (simp_all add: arena_ok_def del: length_concat)
  obtain slots s1 where s1: "fold_do (write_group pages start raw_end) (pc_specs s) (next_group_entry s, next_page_handle s) s
       = (Inr (next_group_entry s + length gs, next_page_handle s + length (all_pages gs)), s1)"
    "s1 = s\<lparr>group_entries := overwrite (next_group_entry s) (placed (next_page_handle s) gs) (group_entries s),
               page_handles := overwrite (next_page_handle s) (all_pages gs) (page_handles s), page_ref_slots := slots\<rparr>"
    "refs_count s1 (mset (group_keys gs) + held_pages s)"
    using write_groups_refs [OF pc_invD(3) [OF inv] size w(1,2,3,4,5) [unfolded gs_def]] unfolding gs_def by blast
  obtain n where n: "first_free_node 0 (pc_nodes s) = Some n" "n < max_nodes s" "content s n = None"
    using free_node [OF ok room] .
  define node where "node = \<lparr>node_state = kResident, node_namespace = namespace, node_digest = digest,
    node_start = start, node_end = raw_end, first_group_entry = next_group_entry s,
    group_entry_count = length gs, last_access_epoch = u64 (global_epoch s + 1)\<rparr>"
  define s2 where "s2 = s1\<lparr>pc_nodes := (pc_nodes s)[n := node], global_epoch := u64 (global_epoch s + 1),
    next_group_entry := next_group_entry s + length gs, next_page_handle := next_page_handle s + length (all_pages gs)\<rparr>"
  have a2: "arena_ok s2" "content s2 = (content s)(n \<mapsto> tail_info node gs)"
    by (rule append_node [OF ok n(2,3) fit, of node]; simp add: s2_def s1(2) node_def is_resident_def)+
  have info: "tail_info node gs = block_info namespace pages (pc_specs s) (u64 (global_epoch s + 1)) (start, raw_end, digest)"
    by (simp add: tail_info_def node_def block_info_def gs_def)
  have ix: "index_exact s" by (rule pc_invD(2) [OF inv])
  have "size_ok s2" "index_wf s2" using size pc_invD(8) [OF inv] by (simp_all add: s2_def s1(2) size_ok_def index_wf_def)
  moreover have "card (dom (index_map s2)) < length (node_index_slots s2)"
  proof -
    have "length (node_index_slots s) = MaxNodeIndexSlots (max_nodes s)" using pc_invD(8) [OF inv] by (simp add: index_wf_def)
    moreover have "max_nodes s \<le> MaxNodeIndexSlots (max_nodes s)" using index_size [OF size] by (metis add_leD1 mult_2)
    ultimately show ?thesis using index_room [OF ix] room by (simp add: s2_def s1(2))
  qed
  ultimately obtain islots where i: "InsertNodeIndexLocked digest n s2 = (Inr (), s2\<lparr>node_index_slots := islots\<rparr>)"
    "index_wf (s2\<lparr>node_index_slots := islots\<rparr>)" "table_map node_cls islot_node islots = (index_map s2)(digest \<mapsto> n)"
    by (rule InsertNodeIndex_map)
  let ?s = "s2\<lparr>node_index_slots := islots\<rparr>"
  have c: "content ?s = (content s)(n \<mapsto> block_info namespace pages (pc_specs s) (u64 (global_epoch s + 1)) (start, raw_end, digest))"
    using a2(2) info by simp
  have run: "insert_node namespace pages start raw_end digest s = (Inr n, ?s)"
  proof -
    have "and_then (AllocateNodeLocked s1) (\<lambda>n s.
        let epoch = u64 (global_epoch s + 1);
            s1 = s\<lparr>pc_nodes := (pc_nodes s)
                     [n := \<lparr>node_state = kResident, node_namespace = namespace, node_digest = digest,
                            node_start = start, node_end = raw_end, first_group_entry = next_group_entry s0,
                            group_entry_count = length gs, last_access_epoch = epoch\<rparr>],
                   global_epoch := epoch, next_group_entry := next_group_entry s0 + length gs,
                   next_page_handle := next_page_handle s0 + length (all_pages gs)\<rparr>
        in and_then (InsertNodeIndexLocked digest n s1) (\<lambda>_ s. (Inr n, s))) = (Inr n, ?s)" if "s0 = s" for s0
      using n(1) i(1) that by (simp add: AllocateNodeLocked_def s1(2) s2_def node_def Let_def del: length_concat)
    then show ?thesis using cg caps fit s1(1) by (simp add: insert_node_def del: length_concat)
  qed
  have "index_exact ?s"
  proof -
    have no: "content s m = Some j \<Longrightarrow> ni_digest j \<noteq> digest" for m j
      using FindNode_content [OF size ix, of digest m] fresh by auto
    have "((index_map s)(digest \<mapsto> n)) d = Some m \<longleftrightarrow> (\<exists>j. content ?s m = Some j \<and> ni_digest j = d)" for d m
      using ix no n(3) unfolding c by (cases "d = digest"; cases "m = n") (auto simp: index_exact_def block_info_def)
    moreover have "index_map s2 = index_map s" by (simp add: s2_def s1(2))
    ultimately show ?thesis using i(2,3) by (simp add: index_exact_def)
  qed
  moreover have "refs_count ?s (held_pages ?s)"
  proof -
    have "held_pages ?s = mset (group_keys gs) + held_pages s"
      unfolding held_pages_def c using n(2,3)
      by (simp add: tally_add s2_def s1(2) block_keys gs_def)
    then show ?thesis using s1(3) by (simp add: refs_count_def refs_wf_def s2_def)
  qed
  moreover have "attach_ok (content ?s) (local_attachments ?s) (next_local_attachment ?s)"
  proof -
    have "gi_active g = 0 \<and> gi_pending g = 0" if "g \<in> snapshot_info ` set (block_groups pages start raw_end (pc_specs s))" for g
      using that by (auto simp: block_groups_set snapshot_info_def group_template_def ResetGroupEntry_def)
    then show ?thesis unfolding c using attach_ok_insert [OF pc_invD(4) [OF inv] n(3)] by (simp add: s2_def s1(2) block_info_def)
  qed
  moreover have "config_ok ?s" using pc_invD(5) [OF inv] by (simp add: config_ok_def s2_def s1(2))
  moreover have "complete_info (pc_specs ?s) j" if "content ?s m = Some j" for m j
    using that pc_invD(6) [OF inv, of m] block_complete [OF ready] unfolding c
    by (cases "m = n") (auto simp: s2_def s1(2))
  ultimately have "pc_inv ?s" using a2(1) by (simp add: pc_inv_def)
  then show ?thesis by (rule that [OF run _ n(3) c]) (simp_all add: s2_def s1(2) setting_def frame_def)
qed

section \<open>The blocks of a commit\<close>

text \<open>The blocks that end at a commit boundary, each with the boundary it starts from.\<close>

fun boundary_blocks :: "nat \<Rightarrow> nat \<Rightarrow> nat \<Rightarrow> (nat \<times> PrefixDigest) list \<Rightarrow> (nat \<times> nat \<times> PrefixDigest) list" where
  "boundary_blocks tokens boundary start [] = []"
| "boundary_blocks tokens boundary start ((raw_end, digest) # chain) =
     (if tokens < raw_end \<or> raw_end mod boundary \<noteq> 0 then boundary_blocks tokens boundary start chain
      else (start, raw_end, digest) # boundary_blocks tokens boundary raw_end chain)"

definition ascending :: "nat \<Rightarrow> nat \<Rightarrow> (nat \<times> PrefixDigest) list \<Rightarrow> bool" where
  "ascending start limit chain \<longleftrightarrow> sorted_wrt (<) (map fst chain) \<and> (\<forall>(e, d) \<in> set chain. start < e \<and> e \<le> limit)"

lemma ascending_Cons:
  assumes "ascending start limit ((e, d) # chain)"
  shows "start < e" and "e \<le> limit" and "ascending e limit chain" and "ascending start limit chain"
  using assms by (auto simp: ascending_def)

lemma block_bounds:
  assumes "(a, e, d) \<in> set (boundary_blocks tokens boundary start chain)" and "ascending start limit chain"
  shows "start \<le> a \<and> a < e \<and> e \<le> tokens \<and> e \<le> limit \<and> boundary dvd e \<and> (boundary dvd start \<longrightarrow> boundary dvd a)"
  using assms
proof (induction tokens boundary start chain rule: boundary_blocks.induct)
  case (2 tokens boundary start raw_end digest chain)
  note asc = ascending_Cons [OF 2(4)]
  show ?case
  proof (cases "tokens < raw_end \<or> raw_end mod boundary \<noteq> 0")
    case True
    then show ?thesis using 2(1) [OF True _ asc(4)] 2(3) by simp
  next
    case False
    then have "boundary dvd raw_end" "raw_end \<le> tokens" by auto
    then show ?thesis using 2(2) [OF False _ asc(3)] 2(3) asc False by (auto dest: less_imp_le)
  qed
qed simp

definition entries_of :: "(nat \<Rightarrow> nat list option) \<Rightarrow> HostKVGroupSpec list \<Rightarrow> (nat \<times> nat \<times> PrefixDigest) list \<Rightarrow> nat" where
  "entries_of pages specs blocks = (\<Sum>(start, raw_end, d) \<leftarrow> blocks. length (block_groups pages start raw_end specs))"

definition handles_of :: "(nat \<Rightarrow> nat list option) \<Rightarrow> HostKVGroupSpec list \<Rightarrow> (nat \<times> nat \<times> PrefixDigest) list \<Rightarrow> nat" where
  "handles_of pages specs blocks = (\<Sum>(start, raw_end, d) \<leftarrow> blocks. length (all_pages (block_groups pages start raw_end specs)))"

lemma of_simps [simp]:
  "entries_of pages specs [] = 0" "handles_of pages specs [] = 0"
  "entries_of pages specs ((start, raw_end, d) # bs) = length (block_groups pages start raw_end specs) + entries_of pages specs bs"
  "handles_of pages specs ((start, raw_end, d) # bs) = length (all_pages (block_groups pages start raw_end specs)) + handles_of pages specs bs"
  by (simp_all add: entries_of_def handles_of_def del: length_concat)

lemma of_filter:
  assumes "\<And>b. P b \<Longrightarrow> Q b"
  shows "length (filter P bs) \<le> length (filter Q bs)" and "entries_of pages specs (filter P bs) \<le> entries_of pages specs (filter Q bs)"
    and "handles_of pages specs (filter P bs) \<le> handles_of pages specs (filter Q bs)"
  using assms by (induction bs) (auto simp del: length_concat)

definition missing :: "prefix_cache \<Rightarrow> (nat \<times> nat \<times> PrefixDigest) list \<Rightarrow> (nat \<times> nat \<times> PrefixDigest) list" where
  "missing s = filter (\<lambda>(a, e, d). FindNodeLocked s d = None)"

lemma missing_simps [simp]:
  "missing s [] = []"
  "missing s ((a, e, d) # bs) = (if FindNodeLocked s d = None then (a, e, d) # missing s bs else missing s bs)"
  by (simp_all add: missing_def)

section \<open>The plan of a commit\<close>

lemma plan_groups:
  fixes plan pages e specs
  defines "gs \<equiv> block_groups pages (plan_start plan) e specs" and "plan' \<equiv> fold (plan_group pages e) specs plan"
  assumes "group_entries_needed plan + length specs < 2 ^ 32"
    and "page_handles_needed plan + (e - plan_start plan) * length specs < 2 ^ 32"
  shows "plan_start plan' = plan_start plan \<and> new_nodes_needed plan' = new_nodes_needed plan
    \<and> group_entries_needed plan' = group_entries_needed plan + length gs
    \<and> page_handles_needed plan' = page_handles_needed plan + length (all_pages gs)"
  using assms(3,4) unfolding gs_def plan'_def
proof (induction specs arbitrary: plan)
  case (Cons spec specs)
  show ?case
  proof (cases "group_pages_for pages (plan_start plan) e spec")
    case None
    then show ?thesis using Cons by (simp add: plan_group_def)
  next
    case (Some ps)
    have "length ps = pages_needed spec (plan_start plan) e"
      using Some by (auto simp: group_pages_for_def split: option.splits if_splits)
    then have "length ps \<le> e - plan_start plan" by (simp add: pages_needed_def)
    then have "u32 (group_entries_needed plan + 1) = group_entries_needed plan + 1"
      "u32 (page_handles_needed plan + length ps) = page_handles_needed plan + length ps"
      "page_handles_needed plan + length ps + (e - plan_start plan) * length specs < 2 ^ 32"
      using Cons.prems by (simp_all add: u32_def)
    then show ?thesis using Cons.IH [of "plan_group pages e spec plan"] Cons.prems Some
      by (simp add: plan_group_def)
  qed
qed simp

lemma fits:
  fixes x :: nat
  shows "x \<le> a \<Longrightarrow> a + b = c \<Longrightarrow> c < 2 ^ 31 \<Longrightarrow> y \<le> b \<Longrightarrow> x + y < 2 ^ 32"
    and "x \<le> a \<Longrightarrow> a + b = c \<Longrightarrow> g \<le> b \<Longrightarrow> y \<le> g \<Longrightarrow> x + y \<le> c" and "x \<le> a \<Longrightarrow> a + b = c \<Longrightarrow> y \<le> b \<Longrightarrow> x + y \<le> c"
  by auto

lemma plan_blocks:
  fixes plan s pages tokens chain
  defines "plan' \<equiv> fold (plan_block s pages tokens) chain plan"
    and "new \<equiv> missing s (boundary_blocks tokens (commit_boundary_tokens s) (plan_start plan) chain)"
  assumes "ascending (plan_start plan) limit chain" and "limit * length (pc_specs s) < 2 ^ 31" and "pc_specs s \<noteq> []"
    and "new_nodes_needed plan \<le> plan_start plan" and "group_entries_needed plan \<le> plan_start plan * length (pc_specs s)"
    and "page_handles_needed plan \<le> plan_start plan * length (pc_specs s)" and "plan_start plan \<le> limit"
  shows "new_nodes_needed plan' = new_nodes_needed plan + length new
    \<and> group_entries_needed plan' = group_entries_needed plan + entries_of pages (pc_specs s) new
    \<and> page_handles_needed plan' = page_handles_needed plan + handles_of pages (pc_specs s) new
    \<and> group_entries_needed plan' \<le> limit * length (pc_specs s) \<and> page_handles_needed plan' \<le> limit * length (pc_specs s)"
  using assms(3,6-9) unfolding plan'_def new_def
proof (induction chain arbitrary: plan)
  case Nil
  have "plan_start plan * length (pc_specs s) \<le> limit * length (pc_specs s)" using Nil.prems(5) by (rule mult_le_mono1)
  then have "group_entries_needed plan \<le> limit * length (pc_specs s)" "page_handles_needed plan \<le> limit * length (pc_specs s)"
    using Nil.prems(3,4) by linarith+
  then show ?case by simp
next
  case (Cons x chain)
  obtain e d where x: "x = (e, d)" by (cases x)
  note asc = ascending_Cons [OF Cons.prems(1) [unfolded x]]
  let ?G = "length (pc_specs s)" and ?a = "plan_start plan"
  have G: "0 < ?G" using assms(5) by simp
  have grow: "?a * ?G + (e - ?a) * ?G = e * ?G" using asc(1) by (simp add: add_mult_distrib [symmetric])
  have le: "e * ?G \<le> limit * ?G" using asc(2) by simp
  have stp: "?a * ?G \<le> e * ?G" using asc(1) by simp
  consider (skip) "tokens < e \<or> e mod commit_boundary_tokens s \<noteq> 0"
    | (old) "\<not> (tokens < e \<or> e mod commit_boundary_tokens s \<noteq> 0)" "FindNodeLocked s d \<noteq> None"
    | (new) "\<not> (tokens < e \<or> e mod commit_boundary_tokens s \<noteq> 0)" "FindNodeLocked s d = None" by blast
  then show ?case
  proof cases
    case skip
    then show ?thesis using Cons.IH [OF asc(4) Cons.prems(2-)] by (simp add: x plan_block_def)
  next
    case old
    let ?p = "plan\<lparr>plan_start := e\<rparr>"
    have "new_nodes_needed ?p \<le> plan_start ?p" "group_entries_needed ?p \<le> plan_start ?p * ?G" "page_handles_needed ?p \<le> plan_start ?p * ?G"
      using Cons.prems(2) asc(1) le_trans [OF Cons.prems(3) stp] le_trans [OF Cons.prems(4) stp] by simp_all
    then show ?thesis using Cons.IH [of ?p] asc old by (simp add: x plan_block_def)
  next
    case new
    let ?q = "plan\<lparr>new_nodes_needed := u32 (new_nodes_needed plan + 1)\<rparr>" and ?gs = "block_groups pages ?a e (pc_specs s)"
    let ?r = "fold (plan_group pages e) (pc_specs s) ?q"
    let ?p = "?r\<lparr>plan_start := e\<rparr>"
    have lim: "e * ?G < 2 ^ 31" using le assms(4) by linarith
    have "e * 1 \<le> e * ?G" using G by (intro mult_le_mono2) linarith
    then have e: "e < 2 ^ 31" using lim by linarith
    have g: "1 * ?G \<le> (e - ?a) * ?G" using asc(1) by (intro mult_le_mono1) linarith
    have q: "group_entries_needed ?q = group_entries_needed plan" "page_handles_needed ?q = page_handles_needed plan"
      "plan_start ?q = ?a" "new_nodes_needed ?q = u32 (new_nodes_needed plan + 1)" by simp_all
    note gg = g [unfolded mult_1]
    have "group_entries_needed ?q + ?G < 2 ^ 32" unfolding q by (rule fits(1) [OF Cons.prems(3) grow lim gg])
    moreover have "page_handles_needed ?q + (e - plan_start ?q) * ?G < 2 ^ 32"
      unfolding q by (rule fits(1) [OF Cons.prems(4) grow lim le_refl])
    ultimately have "plan_start ?r = ?a \<and> new_nodes_needed ?r = u32 (new_nodes_needed plan + 1)
        \<and> group_entries_needed ?r = group_entries_needed plan + length ?gs
        \<and> page_handles_needed ?r = page_handles_needed plan + length (all_pages ?gs)"
      using plan_groups [of ?q "pc_specs s" e pages] unfolding q by blast
    note p = this
    have nn: "u32 (new_nodes_needed plan + 1) = new_nodes_needed plan + 1" using Cons.prems(2) asc(1) e by (simp add: u32_def)
    have "group_entries_needed plan + length ?gs \<le> e * ?G"
      by (rule fits(2) [OF Cons.prems(3) grow gg block_groups_length])
    moreover have "page_handles_needed plan + length (all_pages ?gs) \<le> e * ?G"
      by (rule fits(3) [OF Cons.prems(4) grow block_groups_pages])
    ultimately have en: "group_entries_needed ?p \<le> e * ?G" "page_handles_needed ?p \<le> e * ?G" using p by (simp_all del: length_concat)
    have "new_nodes_needed ?p \<le> plan_start ?p" using p nn Cons.prems(2) asc(1) by simp
    then show ?thesis using Cons.IH [of ?p] asc en p nn new by (simp add: x plan_block_def del: length_concat)
  qed
qed

section \<open>The loop of a commit\<close>

definition grown :: "PrefixDigest \<Rightarrow> (nat \<Rightarrow> nat list option) \<Rightarrow> (nat \<times> nat \<times> PrefixDigest) list \<Rightarrow> nat list
    \<Rightarrow> prefix_cache \<Rightarrow> prefix_cache \<Rightarrow> bool" where
  "grown namespace pages blocks ns s s' \<longleftrightarrow> pc_inv s' \<and> setting s' = setting s \<and> content s \<subseteq>\<^sub>m content s'
     \<and> distinct ns \<and> set ns \<inter> dom (content s) = {} \<and> dom (content s') = dom (content s) \<union> set ns
     \<and> (\<forall>(a, e, d) \<in> set blocks. \<exists>n i. content s' n = Some i \<and> ni_digest i = d)
     \<and> (\<forall>n \<in> set ns. \<exists>b \<in> set blocks. \<exists>epoch. content s' n = Some (block_info namespace pages (pc_specs s) epoch b))"

lemma grown_existing:
  assumes "grown namespace pages blocks ns s s'" and "content s n = Some i" and "ni_digest i = d"
  shows "grown namespace pages ((a, e, d) # blocks) ns s s'"
proof -
  have "content s' n = Some i" using assms(1,2) by (auto simp: grown_def map_le_def dom_def)
  then show ?thesis using assms unfolding grown_def by fastforce
qed

lemma grown_new:
  assumes g: "grown namespace pages blocks ns t s'" and "setting t = setting s" and "content s n = None"
    and t: "content t = (content s)(n \<mapsto> block_info namespace pages (pc_specs s) epoch (a, e, d))"
  shows "grown namespace pages ((a, e, d) # blocks) (n # ns) s s'"
proof -
  have n: "content s' n = Some (block_info namespace pages (pc_specs s) epoch (a, e, d))"
    using g unfolding grown_def map_le_def t by auto
  have "content s \<subseteq>\<^sub>m content t" using assms(3) by (auto simp: t map_le_def)
  then have "content s \<subseteq>\<^sub>m content s'" using g by (auto simp: grown_def intro: map_le_trans)
  moreover have "n \<notin> set ns" using g t by (auto simp: grown_def)
  moreover have "set (n # ns) \<inter> dom (content s) = {}" using g assms(3) by (auto simp: grown_def t)
  moreover have "dom (content s') = dom (content s) \<union> set (n # ns)" using g by (auto simp: grown_def t)
  moreover have "\<exists>n i. content s' n = Some i \<and> ni_digest i = d" using n by (intro exI) (auto simp: block_info_def)
  moreover have "\<exists>b \<in> set ((a, e, d) # blocks). \<exists>epoch. content s' m = Some (block_info namespace pages (pc_specs s) epoch b)"
    if "m \<in> set (n # ns)" for m
  proof (cases "m = n")
    case True
    then show ?thesis using n by auto
  next
    case False
    then show ?thesis using that g setting_fields(6) [OF assms(2)] by (fastforce simp: grown_def)
  qed
  ultimately show ?thesis using g assms(2) unfolding grown_def by auto
qed

lemma commit_loop_ok:
  assumes "pc_inv s" and "check_required_pages pages tokens (pc_specs s) = Inr ()" and "ascending (prog_start p) limit chain"
    and "limit * length (pc_specs s) < 2 ^ 31" and "commit_boundary_tokens s dvd prog_start p"
    and "bs = boundary_blocks tokens (commit_boundary_tokens s) (prog_start p) chain"
    and "card (dom (content s)) + length (missing s bs) \<le> max_nodes s"
    and "next_group_entry s + entries_of pages (pc_specs s) (missing s bs) \<le> max_group_entries s"
    and "next_page_handle s + handles_of pages (pc_specs s) (missing s bs) \<le> max_page_handles s"
  shows "\<exists>p' s' ns. fold_do (commit_block namespace pages tokens) chain p s = (Inr p', s')
     \<and> prog_inserted p' = prog_inserted p @ ns \<and> grown namespace pages bs ns s s'"
  using assms
proof (induction chain arbitrary: p s bs)
  case Nil
  then show ?case by (intro exI [of _ p] exI [of _ s] exI [of _ "[]"]) (simp add: grown_def)
next
  case (Cons x chain)
  obtain e d where x: "x = (e, d)" by (cases x)
  note inv = Cons.prems(1) and asc = ascending_Cons [OF Cons.prems(3) [unfolded x]]
  note find = FindNode_content [OF pc_invD(7,2) [OF inv]]
  let ?a = "prog_start p" and ?G = "length (pc_specs s)" and ?b = "commit_boundary_tokens s"
  consider (skip) "tokens < e \<or> e mod ?b \<noteq> 0"
    | (old) n where "\<not> (tokens < e \<or> e mod ?b \<noteq> 0)" "FindNodeLocked s d = Some n"
    | (new) "\<not> (tokens < e \<or> e mod ?b \<noteq> 0)" "FindNodeLocked s d = None" by blast
  then show ?case
  proof cases
    case skip
    then have "commit_block namespace pages tokens x p s = (Inr p, s)" by (simp add: x commit_block_def)
    moreover have "bs = boundary_blocks tokens ?b ?a chain" using skip Cons.prems(6) by (simp add: x)
    ultimately show ?thesis using Cons.IH [OF inv Cons.prems(2) asc(4) Cons.prems(4,5) _ Cons.prems(7-9)] by simp
  next
    case old
    let ?p = "p\<lparr>prog_existing := u32 (prog_existing p + 1), prog_start := e\<rparr>" and ?bs = "boundary_blocks tokens ?b e chain"
    have step: "commit_block namespace pages tokens x p s = (Inr ?p, s)" using old by (simp add: x commit_block_def)
    have bs: "bs = (?a, e, d) # ?bs" using old Cons.prems(6) by (simp add: x)
    obtain i where i: "content s n = Some i" "ni_digest i = d" using old(2) find by blast
    have "?b dvd prog_start ?p" using old(1) by auto
    then have "\<exists>p' s' ns. fold_do (commit_block namespace pages tokens) chain ?p s = (Inr p', s')
        \<and> prog_inserted p' = prog_inserted ?p @ ns \<and> grown namespace pages ?bs ns s s'"
      using Cons.IH [OF inv Cons.prems(2) _ Cons.prems(4), of ?p ?bs] asc(3) Cons.prems(7-9) bs old(2) by simp
    then obtain p' s' ns where "fold_do (commit_block namespace pages tokens) chain ?p s = (Inr p', s')"
      "prog_inserted p' = prog_inserted p @ ns" "grown namespace pages ?bs ns s s'" by auto
    then show ?thesis using step bs grown_existing [OF _ i] by (intro exI [of _ p'] exI [of _ s'] exI [of _ ns]) simp
  next
    case new
    let ?bs = "boundary_blocks tokens ?b e chain" and ?gs = "block_groups pages ?a e (pc_specs s)"
    have bs: "bs = (?a, e, d) # ?bs" using new Cons.prems(6) by (simp add: x)
    have G: "0 < ?G" using pc_invD(5) [OF inv] by (auto simp: config_ok_def)
    have lim: "e * ?G < 2 ^ 31" using Cons.prems(4) mult_le_mono1 [OF asc(2), of ?G] by linarith
    moreover have "e * 1 \<le> e * ?G" using G by (intro mult_le_mono2) linarith
    ultimately have "e < 2 ^ 31" by linarith
    then have e: "e < 2 ^ 32" by simp
    have dvd: "?b dvd e" using new(1) by auto
    have "block_ready pages ?a e (pc_specs s)"
    proof (rule ready_block [OF Cons.prems(2) less_imp_le [OF asc(1)] _ e])
      show "group_aligned spec ?a e" if "spec \<in> set (pc_specs s)" "required_for_reuse spec" for spec
      proof -
        have "raw_page_tokens spec dvd ?b" using pc_invD(5) [OF inv] that by (simp add: config_ok_def)
        then show ?thesis using dvd Cons.prems(5) by (meson dvd_imp_mod_0 dvd_trans group_aligned_def)
      qed
    qed (use new(1) in simp)
    moreover have "(e - ?a) * ?G < 2 ^ 31" using lim mult_le_mono1 [of "e - ?a" e ?G] by linarith
    moreover have "card (dom (content s)) < max_nodes s" "next_group_entry s + length ?gs \<le> max_group_entries s"
      "next_page_handle s + length (all_pages ?gs) \<le> max_page_handles s"
      using Cons.prems(7-9) bs new(2) by (simp_all del: length_concat)
    ultimately obtain n t where t: "insert_node namespace pages ?a e d s = (Inr n, t)" "pc_inv t" "content s n = None"
      "content t = (content s)(n \<mapsto> block_info namespace pages (pc_specs s) (u64 (global_epoch s + 1)) (?a, e, d))"
      "next_group_entry t = next_group_entry s + length ?gs" "next_page_handle t = next_page_handle s + length (all_pages ?gs)"
      "setting t = setting s" by (rule insert_node_ok [OF inv new(2)])
    note set = setting_fields [OF t(7)]
    let ?p = "p\<lparr>prog_inserted := prog_inserted p @ [n], prog_start := e\<rparr>"
    have step: "commit_block namespace pages tokens x p s = (Inr ?p, t)" using new t(1) by (simp add: x commit_block_def)
    have sub: "FindNodeLocked t k = None \<Longrightarrow> FindNodeLocked s k = None" for k
    proof (rule ccontr)
      assume none: "FindNodeLocked t k = None" and "FindNodeLocked s k \<noteq> None"
      then obtain m i where "content s m = Some i" "ni_digest i = k" using find by blast
      then have "content t m = Some i" using t(3,4) by (cases "m = n") auto
      then show False using none \<open>ni_digest i = k\<close> FindNode_content [OF pc_invD(7,2) [OF t(2)], of k m] by simp
    qed
    have less: "length (missing t ?bs) \<le> length (missing s ?bs)"
      "entries_of pages (pc_specs s) (missing t ?bs) \<le> entries_of pages (pc_specs s) (missing s ?bs)"
      "handles_of pages (pc_specs s) (missing t ?bs) \<le> handles_of pages (pc_specs s) (missing s ?bs)"
      unfolding missing_def by (rule of_filter; use sub in auto)+
    have card: "card (dom (content t)) = Suc (card (dom (content s)))" using t(3,4) by (simp add: domIff)
    have "\<exists>p' s' ns. fold_do (commit_block namespace pages tokens) chain ?p t = (Inr p', s')
        \<and> prog_inserted p' = prog_inserted ?p @ ns \<and> grown namespace pages ?bs ns t s'"
      using Cons.IH [OF t(2), of ?p ?bs] Cons.prems(2,4,7-9) asc(3) dvd less card t(5,6) bs new(2)
      by (simp add: set del: length_concat)
    then obtain p' s' ns where "fold_do (commit_block namespace pages tokens) chain ?p t = (Inr p', s')"
      "prog_inserted p' = prog_inserted p @ n # ns" "grown namespace pages ?bs ns t s'" by auto
    then show ?thesis using step bs grown_new [OF _ t(7,3,4)]
      by (intro exI [of _ p'] exI [of _ s'] exI [of _ "n # ns"]) simp
  qed
qed

section \<open>A commit\<close>

lemma chain_ascending:
  assumes "0 < block"
  shows "ascending start (start + n * block) (chain_blocks namespace parent tokens block start n)"
  using assms
proof (induction n arbitrary: start parent)
  case (Suc n)
  let ?d = "HashPrefixBlock namespace parent (drop start tokens) block"
  have "ascending (start + block) (start + block + n * block) (chain_blocks namespace ?d tokens block (start + block) n)"
    using Suc by blast
  then show ?case using Suc.prems by (fastforce simp: ascending_def Let_def add.assoc)
qed (simp add: ascending_def)

lemma BuildPrefixHashChain_ok:
  assumes "0 < block" and "length tokens < 2 ^ 32"
  obtains chain where "BuildPrefixHashChain namespace tokens block = Inr chain" and "ascending 0 (length tokens) chain"
proof -
  let ?n = "(length tokens - length tokens mod block) div block"
  have "?n * block \<le> length tokens" by (metis div_times_less_eq_dividend diff_le_self le_trans)
  moreover have "ascending 0 (0 + ?n * block) (chain_blocks namespace zero_digest tokens block 0 ?n)"
    using assms(1) by (rule chain_ascending)
  ultimately have "ascending 0 (length tokens) (chain_blocks namespace zero_digest tokens block 0 ?n)"
    by (fastforce simp: ascending_def)
  then show ?thesis using that [of "chain_blocks namespace zero_digest tokens block 0 ?n"] assms
    by (simp add: BuildPrefixHashChain_def u32_def Let_def)
qed

text \<open>The tokens a commit covers and the blocks it commits.\<close>

definition commit_span :: "int list \<Rightarrow> nat \<Rightarrow> prefix_cache \<Rightarrow> nat" where
  "commit_span token_ids commit_tokens s =
     (let limit = min commit_tokens (length token_ids) in limit - limit mod commit_boundary_tokens s)"

definition commit_blocks :: "PrefixDigest \<Rightarrow> int list \<Rightarrow> nat \<Rightarrow> prefix_cache \<Rightarrow> (nat \<times> nat \<times> PrefixDigest) list" where
  "commit_blocks namespace token_ids commit_tokens s =
     (case BuildPrefixHashChain namespace token_ids (hash_block_tokens s) of
        Inl e \<Rightarrow> []
      | Inr chain \<Rightarrow> boundary_blocks (commit_span token_ids commit_tokens s) (commit_boundary_tokens s) 0 chain)"

definition commit_fits :: "int list \<Rightarrow> prefix_cache \<Rightarrow> bool" where
  "commit_fits token_ids s \<longleftrightarrow> length token_ids * length (pc_specs s) < 2 ^ 31"

lemma no_blocks: "ascending start limit chain \<Longrightarrow> boundary_blocks 0 boundary start chain = []"
  by (induction "0 :: nat" boundary start chain rule: boundary_blocks.induct) (auto dest: ascending_Cons)

lemma tidied_setting: "tidied s t \<Longrightarrow> setting t = setting s"
  by (rule outer_setting) (simp add: tidied_def)

lemma grown_tidied:
  assumes "tidied s t" and "grown namespace pages blocks ns t u"
  shows "grown namespace pages blocks ns s u"
proof -
  have c: "content t = content s" and st: "setting t = setting s"
    using assms(1) tidied_setting [OF assms(1)] by (simp_all add: tidied_def)
  show ?thesis using assms(2) unfolding grown_def c st setting_fields(6) [OF st] .
qed

lemma grown_refl: "pc_inv s \<Longrightarrow> grown namespace pages [] [] s s"
  by (simp add: grown_def)

lemma plan_counts:
  fixes s pages tokens chain
  defines "plan \<equiv> plan_commit s pages tokens chain" and "new \<equiv> missing s (boundary_blocks tokens (commit_boundary_tokens s) 0 chain)"
  assumes inv: "pc_inv s" and fit: "commit_fits token_ids s" and chain: "ascending 0 (length token_ids) chain"
  shows "new_nodes_needed plan = length new" and "group_entries_needed plan = entries_of pages (pc_specs s) new"
    and "page_handles_needed plan = handles_of pages (pc_specs s) new"
    and "group_entries_needed plan < 2 ^ 31" and "page_handles_needed plan < 2 ^ 31"
proof -
  have specs: "pc_specs s \<noteq> []" using pc_invD(5) [OF inv] by (auto simp: config_ok_def)
  note * = plan_blocks [of "\<lparr>plan_start = 0, new_nodes_needed = 0, group_entries_needed = 0, page_handles_needed = 0, inserted_pages = []\<rparr>"
        "length token_ids" chain s pages tokens]
  show "new_nodes_needed plan = length new" "group_entries_needed plan = entries_of pages (pc_specs s) new"
    "page_handles_needed plan = handles_of pages (pc_specs s) new" "group_entries_needed plan < 2 ^ 31" "page_handles_needed plan < 2 ^ 31"
    using * chain fit specs unfolding plan_def new_def plan_commit_def commit_fits_def by simp_all
qed

text \<open>After the compaction a commit asks for, the arenas have room exactly when the compacted ones have.\<close>

lemma compacted_room:
  assumes inv: "pc_inv s" and run: "CompactArenasForCapacityLocked a b s = (Inr (), t)" and t: "tidied s t" and small: "a < 2 ^ 31" "b < 2 ^ 31"
  shows "u32 (next_group_entry t + a) \<le> max_group_entries t \<and> u32 (next_page_handle t + b) \<le> max_page_handles t
    \<longleftrightarrow> CompactedArenaCapacityEnoughLocked s a b"
proof -
  have c: "content t = content s" and inv': "pc_inv t" and o: "setting t = setting s"
    using t tidied_setting [OF t] by (simp_all add: tidied_def)
  note f = setting_fields [OF o] and sz = arena_sizes [OF pc_invD(1) [OF inv']]
  have held: "held_entries s \<le> next_group_entry t" "size (held_pages s) \<le> next_page_handle t"
    using pc_invD(1) [OF inv'] c f by (simp_all add: arena_ok_def held_entries_def held_pages_def)
  have sums: "u32 (next_group_entry t + a) = next_group_entry t + a" "u32 (next_page_handle t + b) = next_page_handle t + b"
    using sz(1,2) small by (simp_all add: u32_def)
  obtain t' where "CompactArenasForCapacityLocked a b s = (Inr (), t')"
    "TailArenaCapacityEnoughLocked s a b \<or> CompactedArenaCapacityEnoughLocked s a b \<longrightarrow> TailArenaCapacityEnoughLocked t' a b"
    by (rule ForCapacity_tidied [OF inv])
  then have "CompactedArenaCapacityEnoughLocked s a b \<longrightarrow> TailArenaCapacityEnoughLocked t a b" using run by simp
  then show ?thesis
    using held f sz(7,8) unfolding sums TailArenaCapacity_iff [OF pc_invD(1) [OF inv']] CompactedArenaCapacity_iff [OF pc_invD(1) [OF inv]]
    by auto
qed

lemma commit_stage:
  assumes inv: "pc_inv s" and fit: "commit_fits token_ids s"
    and chain: "BuildPrefixHashChain namespace token_ids (hash_block_tokens s) = Inr chain" "ascending 0 (length token_ids) chain"
    and span: "tokens = commit_span token_ids commit_tokens s" and pages: "check_required_pages pages tokens (pc_specs s) = Inr ()"
    and nodes: "new_nodes_needed (plan_commit s pages tokens chain) \<le> CountFreeNodeSlotsLocked s"
    and t: "tidied s t"
    and caps: "u32 (next_group_entry t + group_entries_needed (plan_commit s pages tokens chain)) \<le> max_group_entries t"
      "u32 (next_page_handle t + page_handles_needed (plan_commit s pages tokens chain)) \<le> max_page_handles t"
  shows "\<exists>p' s' ns. fold_do (commit_block namespace pages tokens) chain \<lparr>prog_start = 0, prog_existing = 0, prog_inserted = []\<rparr> t = (Inr p', s')
     \<and> prog_inserted p' = ns \<and> grown namespace pages (commit_blocks namespace token_ids commit_tokens s) ns s s'"
proof -
  have c: "content t = content s" and inv': "pc_inv t" and o: "setting t = setting s"
    using t tidied_setting [OF t] by (simp_all add: tidied_def)
  note f = setting_fields [OF o]
  let ?bs = "boundary_blocks tokens (commit_boundary_tokens s) 0 chain" and ?new = "missing s (boundary_blocks tokens (commit_boundary_tokens s) 0 chain)"
  have find: "FindNodeLocked t d = FindNodeLocked s d" for d
    using FindNode_content [OF pc_invD(7,2) [OF inv], of d] FindNode_content [OF pc_invD(7,2) [OF inv'], of d] c by (metis not_Some_eq)
  note plan = plan_counts [OF inv fit chain(2), of pages tokens]
  have lim: "next_group_entry t \<le> 2 ^ 31" "next_page_handle t \<le> 2 ^ 30" using arena_sizes [OF pc_invD(1) [OF inv']] by auto
  have "next_group_entry t + entries_of pages (pc_specs s) ?new \<le> max_group_entries t"
    "next_page_handle t + handles_of pages (pc_specs s) ?new \<le> max_page_handles t"
    using caps plan(2-5) lim fit by (simp_all add: u32_def commit_fits_def)
  moreover have "card (dom (content s)) \<le> max_nodes s"
    using card_mono [of "{..<max_nodes s}" "dom (content s)"] by (force simp: content_Some dom_def)
  then have "card (dom (content t)) + length ?new \<le> max_nodes t"
    using nodes plan(1) free_slots [OF pc_invD(1) [OF inv]] c f(1) by simp
  moreover have "missing t = missing s" by (simp add: missing_def find)
  ultimately have "\<exists>p' s' ns. fold_do (commit_block namespace pages tokens) chain \<lparr>prog_start = 0, prog_existing = 0, prog_inserted = []\<rparr> t = (Inr p', s')
     \<and> prog_inserted p' = [] @ ns \<and> grown namespace pages ?bs ns t s'"
    using commit_loop_ok [OF inv', of pages tokens "\<lparr>prog_start = 0, prog_existing = 0, prog_inserted = []\<rparr>" "length token_ids" chain ?bs]
      pages chain(2) fit by (simp add: f commit_fits_def)
  moreover have "commit_blocks namespace token_ids commit_tokens s = ?bs" using chain(1) span by (simp add: commit_blocks_def)
  ultimately show ?thesis using grown_tidied [OF t] by auto
qed

definition commit_done :: "PrefixDigest \<Rightarrow> int list \<Rightarrow> nat \<Rightarrow> GroupCommitPages list \<Rightarrow> bool \<Rightarrow> prefix_cache
    \<Rightarrow> PrefixCommitResult \<Rightarrow> nat list \<Rightarrow> prefix_cache \<Rightarrow> prefix_cache \<Rightarrow> bool" where
  "commit_done namespace token_ids commit_tokens group_pages protect s r ns t s' \<longleftrightarrow>
     grown namespace (pages_by_group group_pages) (commit_blocks namespace token_ids commit_tokens s) ns s t
     \<and> committed_tokens r = commit_span token_ids commit_tokens s \<and> inserted_nodes r = length ns \<and> pc_inv s'
     \<and> (if protect \<and> ns \<noteq> []
        then active_attachment_handle r = next_local_attachment s
          \<and> (\<exists>nodes es. s' = attach_state ns nodes es t)
          \<and> content s' = (\<lambda>n. map_option (attached ns (u64 (global_epoch t + 1)) n) (content t n))
        else active_attachment_handle r = 0 \<and> s' = t)"

lemma grown_few: "grown namespace pages blocks ns s t \<Longrightarrow> length ns \<le> 2 ^ 30"
proof -
  assume g: "grown namespace pages blocks ns s t"
  then have inv: "pc_inv t" and d: "distinct ns" and sub: "set ns \<subseteq> dom (content t)" by (auto simp: grown_def)
  have "dom (content t) \<subseteq> {..<max_nodes t}" by (auto simp: content_Some)
  then have "card (set ns) \<le> max_nodes t" using card_mono [of "{..<max_nodes t}" "set ns"] sub by auto
  then show ?thesis using distinct_card [OF d] pc_invD(7) [OF inv] by (simp add: size_ok_def)
qed

lemma grown_attach_room:
  assumes inv: "pc_inv s" and g: "grown namespace pages blocks ns s t" and h: "next_local_attachment s < 2 ^ 64 - 1"
  shows "attach_room ns t" and "set ns \<subseteq> dom (content t)"
proof -
  note f = setting_fields [of t s] and dist = g [unfolded grown_def]
  have st: "setting t = setting s" using g by (simp add: grown_def)
  have "holds (local_attachments s) n = 0" if "n \<in> set ns" for n
  proof -
    have "content s n = None" using g that by (auto simp: grown_def)
    then have "n \<notin> set (att_nodes a)" if "(h, a) \<in> set (local_attachments s)" for h a
      using pc_invD(4) [OF inv] that by (auto simp: attach_ok_def)
    then show ?thesis by (auto simp: holds_def sum_list_eq_0_iff count_list_0_iff)
  qed
  moreover have "count_list ns n \<le> 1" for n 
  proof -
    have "distinct xs \<Longrightarrow> count_list xs n \<le> 1" for xs by (induction xs) (auto simp: count_list_0_iff)
    then show ?thesis using dist by blast
  qed
  ultimately show "attach_room ns t" using h setting_fields(4,5) [OF st] by (fastforce simp: attach_room_def intro: le_less_trans)
  show "set ns \<subseteq> dom (content t)" using dist by auto
qed

lemma commit_few:
  assumes "pc_inv s" and "commit_fits token_ids s"
  shows "length token_ids < 2 ^ 31"
proof -
  have "0 < length (pc_specs s)" using pc_invD(5) [OF assms(1)] by (auto simp: config_ok_def)
  then have "length token_ids * 1 \<le> length token_ids * length (pc_specs s)" by (intro mult_le_mono2) linarith
  then show ?thesis using assms(2) unfolding commit_fits_def by linarith
qed

text \<open>The end of a commit, after its loop.\<close>

definition commit_tail :: "bool \<Rightarrow> nat \<Rightarrow> GroupCommitPages list \<Rightarrow> commit_progress \<Rightarrow> prefix_cache \<Rightarrow> PrefixCommitResult result \<times> prefix_cache" where
  "commit_tail protect tokens inserted p s =
     (let r = \<lparr>committed_tokens = tokens, inserted_nodes = u32 (length (prog_inserted p)), existing_nodes = prog_existing p,
               active_attachment_handle = 0, inserted_group_pages = inserted\<rparr>
      in if protect \<and> prog_inserted p \<noteq> []
         then and_then (AttachNodesLocked (prog_inserted p) s) (\<lambda>handle s. (Inr (r\<lparr>active_attachment_handle := handle\<rparr>), s))
         else (Inr r, s))"

lemma commit_tail_ok:
  assumes inv: "pc_inv s" and h: "next_local_attachment s < 2 ^ 64 - 1" and p: "prog_inserted p = ns"
    and g: "grown namespace (pages_by_group group_pages) (commit_blocks namespace token_ids commit_tokens s) ns s u"
  shows "\<exists>r s'. commit_tail protect (commit_span token_ids commit_tokens s) inserted p u = (Inr r, s')
    \<and> commit_done namespace token_ids commit_tokens group_pages protect s r ns u s'"
proof -
  have n: "u32 (length ns) = length ns" using grown_few [OF g] by (simp add: u32_def)
  have invu: "pc_inv u" and stu: "setting u = setting s" using g by (simp_all add: grown_def)
  let ?r = "\<lparr>committed_tokens = commit_span token_ids commit_tokens s, inserted_nodes = length ns, existing_nodes = prog_existing p,
    active_attachment_handle = 0, inserted_group_pages = inserted\<rparr>"
  show ?thesis
  proof (cases "protect \<and> ns \<noteq> []")
    case True
    obtain nodes es where a: "AttachNodesLocked ns u = (Inr (next_local_attachment u), attach_state ns nodes es u)"
      "pc_inv (attach_state ns nodes es u)"
      "content (attach_state ns nodes es u) = (\<lambda>n. map_option (attached ns (u64 (global_epoch u + 1)) n) (content u n))"
      using AttachNodes_ok [OF invu _ grown_attach_room(2,1) [OF inv g h]] True by blast
    have "commit_done namespace token_ids commit_tokens group_pages protect s
        (?r\<lparr>active_attachment_handle := next_local_attachment u\<rparr>) ns u (attach_state ns nodes es u)"
      unfolding commit_done_def using g a(2,3) True setting_fields(5) [OF stu] by auto
    then show ?thesis using a(1) True n p by (auto simp: commit_tail_def)
  next
    case False
    have "commit_done namespace token_ids commit_tokens group_pages protect s ?r ns u u"
      unfolding commit_done_def using g invu False by auto
    then show ?thesis using False n p by (auto simp: commit_tail_def)
  qed
qed

lemma commit_unfold:
  fixes namespace token_ids commit_tokens group_pages s chain
  defines "tokens \<equiv> commit_span token_ids commit_tokens s" and "pages \<equiv> pages_by_group group_pages"
  defines "plan \<equiv> plan_commit s pages tokens chain"
  assumes u: "u32 (length token_ids) = length token_ids" and "tokens \<noteq> 0"
    and chain: "BuildPrefixHashChain namespace token_ids (hash_block_tokens s) = Inr chain"
  shows "CommitPrefixPages namespace token_ids commit_tokens group_pages protect s =
    (case check_required_pages pages tokens (pc_specs s) of Inl e \<Rightarrow> (Inl e, s)
     | Inr _ \<Rightarrow>
       if CountFreeNodeSlotsLocked s < new_nodes_needed plan then (Inl (Runtime_error ''Host prefix cache node table is full''), s)
       else and_then (CompactArenasForCapacityLocked (group_entries_needed plan) (page_handles_needed plan) s) (\<lambda>_ s.
         if max_group_entries s < u32 (next_group_entry s + group_entries_needed plan)
         then (Inl (Runtime_error ''Host prefix cache group entry table is full''), s)
         else if max_page_handles s < u32 (next_page_handle s + page_handles_needed plan)
         then (Inl (Runtime_error ''Host prefix cache page handle arena is full''), s)
         else and_then (fold_do (commit_block namespace pages tokens) chain \<lparr>prog_start = 0, prog_existing = 0, prog_inserted = []\<rparr> s)
                (commit_tail protect tokens (inserted_pages plan))))"
proof -
  have span: "min commit_tokens (length token_ids) - min commit_tokens (length token_ids) mod commit_boundary_tokens s = tokens"
    by (simp add: commit_span_def Let_def tokens_def)
  have tail: "commit_tail protect tokens x = (\<lambda>p s.
      let r = \<lparr>committed_tokens = tokens, inserted_nodes = u32 (length (prog_inserted p)), existing_nodes = prog_existing p,
               active_attachment_handle = 0, inserted_group_pages = x\<rparr>
      in if protect \<and> prog_inserted p \<noteq> []
         then and_then (AttachNodesLocked (prog_inserted p) s) (\<lambda>handle s. (Inr (r\<lparr>active_attachment_handle := handle\<rparr>), s))
         else (Inr r, s))" for x
    by (simp add: fun_eq_iff commit_tail_def)
  show ?thesis unfolding CommitPrefixPages_def u Let_def span chain tail plan_def pages_def using assms(5) by (simp only: if_False sum.case)
qed

text \<open>
  What stops a commit: a required group without enough pages, fewer free nodes than new blocks, or
  arenas that stay too full even when compacted.
\<close>

definition commit_blocked :: "PrefixDigest \<Rightarrow> int list \<Rightarrow> nat \<Rightarrow> GroupCommitPages list \<Rightarrow> prefix_cache \<Rightarrow> bool" where
  "commit_blocked namespace token_ids commit_tokens group_pages s \<longleftrightarrow>
     (let tokens = commit_span token_ids commit_tokens s; pages = pages_by_group group_pages;
          new = missing s (commit_blocks namespace token_ids commit_tokens s)
      in tokens \<noteq> 0 \<and> (check_required_pages pages tokens (pc_specs s) \<noteq> Inr () \<or> CountFreeNodeSlotsLocked s < length new
           \<or> \<not> CompactedArenaCapacityEnoughLocked s (entries_of pages (pc_specs s) new) (handles_of pages (pc_specs s) new)))"

lemma CommitPrefixPages_cases:
  assumes inv: "pc_inv s" and fit: "commit_fits token_ids s" and h: "next_local_attachment s < 2 ^ 64 - 1"
  shows "if commit_blocked namespace token_ids commit_tokens group_pages s
    then \<exists>e s'. CommitPrefixPages namespace token_ids commit_tokens group_pages protect s = (Inl e, s') \<and> tidied s s'
    else \<exists>r ns t s'. CommitPrefixPages namespace token_ids commit_tokens group_pages protect s = (Inr r, s')
        \<and> commit_done namespace token_ids commit_tokens group_pages protect s r ns t s'"
proof -
  let ?tokens = "commit_span token_ids commit_tokens s" and ?pages = "pages_by_group group_pages"
  let ?run = "CommitPrefixPages namespace token_ids commit_tokens group_pages protect s"
  have few: "length token_ids < 2 ^ 31" "0 < hash_block_tokens s"
    using commit_few [OF inv fit] pc_invD(5) [OF inv] by (auto simp: config_ok_def)
  then have u: "u32 (length token_ids) = length token_ids" by (simp add: u32_def)
  obtain chain where chain: "BuildPrefixHashChain namespace token_ids (hash_block_tokens s) = Inr chain" "ascending 0 (length token_ids) chain"
    using BuildPrefixHashChain_ok [OF few(2), of token_ids namespace] few(1) by auto
  let ?plan = "plan_commit s ?pages ?tokens chain"
  show ?thesis
  proof (cases "?tokens = 0")
    case True
    then have run: "?run = (Inr no_commit, s)" unfolding CommitPrefixPages_def u by (simp add: commit_span_def Let_def)
    have "commit_blocks namespace token_ids commit_tokens s = []" using True chain no_blocks [OF chain(2)] by (simp add: commit_blocks_def)
    then have "commit_done namespace token_ids commit_tokens group_pages protect s no_commit [] s s"
      using True grown_refl [OF inv] inv by (simp add: commit_done_def no_commit_def)
    then show ?thesis using run True by (auto simp: commit_blocked_def)
  next
    case False
    note start = commit_unfold [OF u False chain(1), of group_pages protect] and plan = plan_counts [OF inv fit chain(2), of ?pages ?tokens]
    obtain t where t: "CompactArenasForCapacityLocked (group_entries_needed ?plan) (page_handles_needed ?plan) s = (Inr (), t)" "tidied s t"
      using ForCapacity_tidied [OF inv, of "group_entries_needed ?plan" "page_handles_needed ?plan"] by metis
    have bs: "commit_blocks namespace token_ids commit_tokens s = boundary_blocks ?tokens (commit_boundary_tokens s) 0 chain"
      using chain(1) by (simp add: commit_blocks_def)
    have blocked: "commit_blocked namespace token_ids commit_tokens group_pages s \<longleftrightarrow>
        check_required_pages ?pages ?tokens (pc_specs s) \<noteq> Inr () \<or> CountFreeNodeSlotsLocked s < new_nodes_needed ?plan
        \<or> \<not> (u32 (next_group_entry t + group_entries_needed ?plan) \<le> max_group_entries t
              \<and> u32 (next_page_handle t + page_handles_needed ?plan) \<le> max_page_handles t)"
      using False compacted_room [OF inv t plan(4,5)] unfolding commit_blocked_def Let_def bs plan(1-3) by blast
    show ?thesis
    proof (cases "commit_blocked namespace token_ids commit_tokens group_pages s")
      case True
      moreover have "\<exists>e s'. ?run = (Inl e, s') \<and> tidied s s'"
        using True tidied_refl [OF inv] t unfolding blocked start by (auto simp: not_le split: sum.split)
      ultimately show ?thesis by simp
    next
      case go: False
      have "\<exists>p' s' ns. fold_do (commit_block namespace ?pages ?tokens) chain \<lparr>prog_start = 0, prog_existing = 0, prog_inserted = []\<rparr> t = (Inr p', s')
         \<and> prog_inserted p' = ns \<and> grown namespace ?pages (commit_blocks namespace token_ids commit_tokens s) ns s s'"
        by (rule commit_stage [OF inv fit chain refl _ _ t(2)]) (use go in \<open>simp_all add: blocked\<close>)
      then obtain p u ns where loop: "fold_do (commit_block namespace ?pages ?tokens) chain \<lparr>prog_start = 0, prog_existing = 0, prog_inserted = []\<rparr> t = (Inr p, u)"
         "prog_inserted p = ns" "grown namespace ?pages (commit_blocks namespace token_ids commit_tokens s) ns s u" by blast
      have "?run = commit_tail protect ?tokens (inserted_pages ?plan) p u"
        unfolding start using go t(1) loop(1) by (simp add: blocked not_less)
      then show ?thesis using go commit_tail_ok [OF inv h loop(2,3), of protect "inserted_pages ?plan"] by (simp; metis)
    qed
  qed
qed

end
