(* ===== verification/Prefix_Lookup.thy ===== *)
theory Prefix_Lookup
  imports Prefix_Commit
begin

text \<open>
  Lookups: they match the longest run of committed blocks, attach exactly the nodes of that run and
  return the pages of each group in the order of the blocks.
\<close>

section \<open>The nodes a lookup matches\<close>

lemma required_groups:
  assumes inv: "pc_inv s" and n: "content s n = Some i"
  shows "NodeHasRequiredGroupsLocked s (pc_nodes s ! n)"
proof -
  note ok = pc_invD(1) [OF inv] and node = arena_node [OF pc_invD(1) [OF inv] n]
  have res: "\<forall>e \<in> set (node_entries s (pc_nodes s ! n)). entry_state e = kResident"
    using node_entries_range [OF ok node(3)] node(3) by (auto simp: node_ok_def entry_ok_def resident_entries_def slot_range_def)
  have c: "complete_info (pc_specs s) i" by (rule pc_invD(6) [OF inv n])
  show ?thesis unfolding NodeHasRequiredGroupsLocked_def list_all_iff list_ex_iff imp_conv_disj [symmetric]
  proof (intro ballI impI)
    fix spec assume "spec \<in> set (pc_specs s)" "required_for_reuse spec"
    then obtain g where "g \<in> set (ni_groups i)" "gi_group g = spec_group spec" "gi_start g \<le> ni_start i" "ni_end i \<le> gi_end g"
      using c by (auto simp: complete_info_def)
    then show "\<exists>e \<in> set (node_entries s (pc_nodes s ! n)). entry_state e = kResident \<and> entry_group e = spec_group spec
        \<and> entry_start e \<le> node_start (pc_nodes s ! n) \<and> node_end (pc_nodes s ! n) \<le> entry_end e"
      using res node(4) by (auto simp: describe_def entry_info_def)
  qed
qed

text \<open>The nodes of a digest list up to the first digest that has none.\<close>

fun matched :: "prefix_cache \<Rightarrow> (nat \<times> nat \<times> PrefixDigest) list \<Rightarrow> nat list" where
  "matched s [] = []"
| "matched s ((a, e, d) # bs) = (case FindNodeLocked s d of None \<Rightarrow> [] | Some n \<Rightarrow> n # matched s bs)"

definition matched_end :: "prefix_cache \<Rightarrow> nat \<Rightarrow> nat list \<Rightarrow> nat" where
  "matched_end s tokens ns = (if ns = [] then tokens else ni_end (the (content s (last ns))))"

lemma matched_dom:
  assumes "pc_inv s"
  shows "set (matched s bs) \<subseteq> dom (content s)"
proof (induction bs)
  case (Cons b bs)
  obtain a e d where b: "b = (a, e, d)" by (cases b)
  have "n \<in> dom (content s)" if "FindNodeLocked s d = Some n" for n
    using FindNode_content [OF pc_invD(7,2) [OF assms], of d n] that by auto
  then show ?case using Cons by (cases "FindNodeLocked s d") (simp_all add: b)
qed simp

lemma lookup_loop_eq:
  assumes inv: "pc_inv s" and "\<forall>(e, d) \<in> set chain. e \<le> limit"
  shows "lookup_loop s chain hits tokens =
    (hits @ matched s (boundary_blocks limit (commit_boundary_tokens s) start chain),
     matched_end s tokens (matched s (boundary_blocks limit (commit_boundary_tokens s) start chain)))"
  using assms(2)
proof (induction chain arbitrary: hits tokens start)
  case (Cons x chain)
  obtain e d where x: "x = (e, d)" by (cases x)
  show ?case
  proof (cases "e mod commit_boundary_tokens s = 0 \<and> FindNodeLocked s d \<noteq> None")
    case True
    then obtain n where n: "FindNodeLocked s d = Some n" by blast
    then obtain i where i: "content s n = Some i" using FindNode_content [OF pc_invD(7,2) [OF inv]] by blast
    then have "ni_end i = node_end (pc_nodes s ! n)" by (simp add: content_Some describe_def)
    then show ?thesis using Cons.IH [of "hits @ [n]" "node_end (pc_nodes s ! n)" e] Cons.prems True n i required_groups [OF inv i]
      by (auto simp: x matched_end_def)
  next
    case False
    then show ?thesis using Cons.IH [of hits tokens start] Cons.prems by (auto simp: x matched_end_def)
  qed
qed (simp add: matched_end_def)

section \<open>The pages a lookup returns\<close>

definition pages_in :: "nat \<Rightarrow> node_info \<Rightarrow> nat list" where
  "pages_in g i = concat (map gi_pages (filter (\<lambda>x. gi_group x = g) (ni_groups i)))"

definition run_pages :: "prefix_cache \<Rightarrow> nat list \<Rightarrow> nat \<Rightarrow> nat list" where
  "run_pages s ns g = concat (map (\<lambda>n. case content s n of None \<Rightarrow> [] | Some i \<Rightarrow> pages_in g i) ns)"

definition run_groups :: "prefix_cache \<Rightarrow> nat list \<Rightarrow> nat set" where
  "run_groups s ns = (\<Union>n \<in> set ns. case content s n of None \<Rightarrow> {} | Some i \<Rightarrow> gi_group ` set (ni_groups i))"

definition spans_ok :: "(nat \<times> GroupMaterializationSpan) list \<Rightarrow> bool" where
  "spans_ok spans \<longleftrightarrow> sorted_wrt (<) (map fst spans) \<and> (\<forall>(g, x) \<in> set spans. span_group x = g)"

definition pages_at :: "(nat \<times> GroupMaterializationSpan) list \<Rightarrow> nat \<Rightarrow> nat list" where
  "pages_at spans g = (case map_of spans g of None \<Rightarrow> [] | Some x \<Rightarrow> span_pages x)"

lemma set_ordered_put: "x \<in> set (ordered_put k v xs) \<Longrightarrow> x = (k, v) \<or> x \<in> set xs"
  by (induction k v xs rule: ordered_put.induct) (auto split: if_splits)

lemma add_span_ok:
  assumes "spans_ok spans"
  shows "spans_ok (add_span s e spans)"
    and "pages_at (add_span s e spans) g = pages_at spans g @ (if entry_group e = g then handle_pages s e else [])"
    and "dom (map_of (add_span s e spans)) = insert (entry_group e) (dom (map_of spans))"
  using assms map_of_ordered_put [of spans] sorted_ordered_put [of spans]
  by (auto simp: spans_ok_def add_span_def pages_at_def Let_def dest!: set_ordered_put split: option.split)

lemma add_spans_ok:
  assumes "spans_ok spans"
  shows "spans_ok (fold (add_span s) es spans)
    \<and> (\<forall>g. pages_at (fold (add_span s) es spans) g = pages_at spans g @ concat (map (handle_pages s) (filter (\<lambda>e. entry_group e = g) es)))
    \<and> dom (map_of (fold (add_span s) es spans)) = entry_group ` set es \<union> dom (map_of spans)"
  using assms
proof (induction es arbitrary: spans)
  case (Cons e es)
  from Cons.IH [OF add_span_ok(1) [OF Cons.prems], of s e] show ?case
    using add_span_ok(2,3) [OF Cons.prems, of s e] by auto
qed simp

lemma gather_ok:
  assumes ok: "arena_ok s" and "set ns \<subseteq> dom (content s)" and "spans_ok spans"
  shows "\<exists>spans'. gather_spans s ns spans = Inr spans' \<and> spans_ok spans'
    \<and> (\<forall>g. pages_at spans' g = pages_at spans g @ run_pages s ns g) \<and> dom (map_of spans') = run_groups s ns \<union> dom (map_of spans)"
  using assms(2,3)
proof (induction ns arbitrary: spans)
  case Nil
  then show ?case by (simp add: run_pages_def run_groups_def)
next
  case (Cons n ns)
  then obtain i where i: "content s n = Some i" by auto
  note node = arena_node [OF ok i]
  let ?es = "resident_entries s (pc_nodes s ! n)"
  have es: "map (entry_info s) ?es = ni_groups i"
    unfolding node_entries_range(3) [OF ok node(3)] by (simp add: node(4) describe_def)
  have "concat (map (handle_pages s) (filter (\<lambda>e. entry_group e = g) ?es)) = pages_in g i" for g
    unfolding pages_in_def es [symmetric] by (simp add: filter_map comp_def entry_info_def)
  moreover have "entry_group ` set ?es = gi_group ` set (ni_groups i)"
    unfolding es [symmetric] by (auto simp: entry_info_def image_image)
  moreover note a = add_spans_ok [OF Cons.prems(2), of s ?es]
  moreover obtain spans' where s': "gather_spans s ns (fold (add_span s) ?es spans) = Inr spans'" "spans_ok spans'"
    "\<forall>g. pages_at spans' g = pages_at (fold (add_span s) ?es spans) g @ run_pages s ns g"
    "dom (map_of spans') = run_groups s ns \<union> dom (map_of (fold (add_span s) ?es spans))"
    using Cons.IH [of "fold (add_span s) ?es spans"] a Cons.prems(1) by auto
  moreover have "run_groups s (n # ns) = gi_group ` set (ni_groups i) \<union> run_groups s ns" using i by (auto simp: run_groups_def)
  moreover have "run_pages s (n # ns) g = pages_in g i @ run_pages s ns g" for g using i by (simp add: run_pages_def)
  ultimately show ?case using node(1,2) by auto
qed

lemma order_spans_mset:
  "distinct (map fst spans) \<Longrightarrow> mset (order_spans specs spans) = mset (map snd spans)"
proof (induction specs arbitrary: spans)
  case (Cons spec specs)
  let ?g = "spec_group spec"
  show ?case
  proof (cases "map_of spans ?g")
    case (Some x)
    then have mem: "(?g, x) \<in> set spans" by (rule map_of_SomeD)
    have "filter (\<lambda>y. fst y = ?g) spans = [(?g, x)]"
      using Cons.prems mem by (induction spans) (auto simp: filter_empty_conv image_iff)
    then have "mset (filter (\<lambda>y. fst y = ?g) spans) = {#(?g, x)#}" by (simp del: mset_filter)
    then have m: "mset spans = add_mset (?g, x) (mset (filter (\<lambda>(g, _). g \<noteq> ?g) spans))"
      using multiset_partition [of "mset spans" "\<lambda>y. fst y = ?g"] by (simp add: case_prod_unfold)
    have "mset (map snd spans) = add_mset x (mset (map snd (filter (\<lambda>(g, _). g \<noteq> ?g) spans)))"
      using arg_cong [OF m, of "image_mset snd"] by simp
    moreover have "distinct (map fst (filter (\<lambda>(g, _). g \<noteq> ?g) spans))" using Cons.prems by (simp add: distinct_map_filter)
    ultimately show ?thesis using Cons.IH [of "filter (\<lambda>(g, _). g \<noteq> ?g) spans"] Some
      by simp
  qed (use Cons in simp)
qed simp

definition run_spans :: "prefix_cache \<Rightarrow> nat list \<Rightarrow> GroupMaterializationSpan list \<Rightarrow> bool" where
  "run_spans s ns spans \<longleftrightarrow> distinct (map span_group spans) \<and> span_group ` set spans = run_groups s ns
     \<and> (\<forall>x \<in> set spans. span_pages x = run_pages s ns (span_group x))"

lemma Build_spans_ok:
  assumes "arena_ok s" and "set ns \<subseteq> dom (content s)"
  obtains spans where "BuildMaterializationSpansLocked s ns = Inr spans" and "run_spans s ns spans"
proof -
  obtain m where m: "gather_spans s ns [] = Inr m" "spans_ok m" "\<And>g. pages_at m g = run_pages s ns g" "dom (map_of m) = run_groups s ns"
    using gather_ok [OF assms, of "[]"] by (auto simp: spans_ok_def pages_at_def)
  have dist: "distinct (map fst m)" using m(2) by (simp add: spans_ok_def strict_sorted_iff)
  have key: "g = span_group x" if "(g, x) \<in> set m" for g x using m(2) that by (auto simp: spans_ok_def)
  have ms: "mset (order_spans (pc_specs s) m) = mset (map snd m)" by (rule order_spans_mset [OF dist])
  then have set: "set (order_spans (pc_specs s) m) = snd ` set m" by (metis image_set set_mset_mset)
  have fst: "map span_group (map snd m) = map fst m" using key by auto
  have "mset (map span_group (order_spans (pc_specs s) m)) = mset (map fst m)"
    using arg_cong [OF ms, of "image_mset span_group"] fst by (metis mset_map)
  then have "distinct (map span_group (order_spans (pc_specs s) m))" using dist by (metis mset_eq_imp_distinct_iff)
  moreover have "span_group ` snd ` set m = run_groups s ns"
  proof -
    have "span_group ` snd ` set m = fst ` set m" using fst by (metis image_set)
    then show ?thesis using m(4) by (simp add: dom_map_of_conv_image_fst)
  qed
  moreover have "span_pages x = run_pages s ns (span_group x)" if x: "x \<in> snd ` set m" for x
  proof -
    obtain g where "(g, x) \<in> set m" using x by auto
    then have "map_of m (span_group x) = Some x" using key dist by (metis map_of_is_SomeI)
    then show ?thesis using m(3) [of "span_group x"] by (simp add: pages_at_def)
  qed
  ultimately have "run_spans s ns (order_spans (pc_specs s) m)" unfolding run_spans_def set by blast
  then show ?thesis using that m(1) by (simp add: BuildMaterializationSpansLocked_def)
qed

section \<open>Lookups\<close>

definition lookup_blocks :: "PrefixDigest \<Rightarrow> int list \<Rightarrow> prefix_cache \<Rightarrow> (nat \<times> nat \<times> PrefixDigest) list" where
  "lookup_blocks namespace tokens s =
     (case BuildPrefixHashChain namespace tokens (hash_block_tokens s) of
        Inl e \<Rightarrow> []
      | Inr chain \<Rightarrow> boundary_blocks (length tokens) (commit_boundary_tokens s) 0 chain)"

definition lookup_run :: "PrefixDigest \<Rightarrow> int list \<Rightarrow> prefix_cache \<Rightarrow> nat list" where
  "lookup_run namespace tokens s = matched s (lookup_blocks namespace tokens s)"

lemma lookup_chain:
  assumes inv: "pc_inv s" and "length tokens < 2 ^ 32"
  obtains chain where "BuildPrefixHashChain namespace tokens (hash_block_tokens s) = Inr chain"
    and "lookup_loop s chain [] 0 = (lookup_run namespace tokens s, matched_end s 0 (lookup_run namespace tokens s))"
proof -
  have "0 < hash_block_tokens s" using pc_invD(5) [OF inv] by (simp add: config_ok_def)
  then obtain chain where c: "BuildPrefixHashChain namespace tokens (hash_block_tokens s) = Inr chain" "ascending 0 (length tokens) chain"
    using BuildPrefixHashChain_ok [OF _ assms(2)] by metis
  then have "\<forall>(e, d) \<in> set chain. e \<le> length tokens" by (auto simp: ascending_def)
  from that [OF c(1)] lookup_loop_eq [OF inv this, of "[]" 0 0] show ?thesis by (simp add: lookup_run_def lookup_blocks_def c(1))
qed

lemma EstimateLookup_ok:
  assumes inv: "pc_inv s" and "length tokens < 2 ^ 32"
  obtains spans where "EstimateLookup namespace tokens s = Inr
      (if lookup_run namespace tokens s = [] then no_lookup\<lparr>miss_reason_mask := 1\<rparr>
       else \<lparr>attachment_handle = 0, common_cached_tokens = matched_end s 0 (lookup_run namespace tokens s),
             materialization_spans = spans, miss_reason_mask = 0\<rparr>)"
    and "run_spans s (lookup_run namespace tokens s) spans"
proof -
  obtain chain where c: "BuildPrefixHashChain namespace tokens (hash_block_tokens s) = Inr chain"
    "lookup_loop s chain [] 0 = (lookup_run namespace tokens s, matched_end s 0 (lookup_run namespace tokens s))"
    by (rule lookup_chain [OF assms])
  have "set (lookup_run namespace tokens s) \<subseteq> dom (content s)" unfolding lookup_run_def by (rule matched_dom [OF inv])
  with pc_invD(1) [OF inv] obtain spans where "BuildMaterializationSpansLocked s (lookup_run namespace tokens s) = Inr spans"
    "run_spans s (lookup_run namespace tokens s) spans" by (rule Build_spans_ok)
  then show ?thesis using that [of spans] c by (simp add: EstimateLookup_def)
qed

lemma run_attached:
  assumes "content s' = (\<lambda>n. map_option (attached ns e n) (content s n))"
  shows "run_spans s' ms = run_spans s ms"
proof -
  have p: "map_option (pages_in g) (content s' n) = map_option (pages_in g) (content s n)" for n g
    unfolding assms by (cases "content s n")
      (simp_all add: pages_in_def attached_def shift_active_def filter_map comp_def)
  have "run_pages s' ms g = run_pages s ms g" for g
    unfolding run_pages_def
  proof (rule arg_cong [of _ _ concat], rule map_cong [OF refl])
    show "(case content s' n of None \<Rightarrow> [] | Some i \<Rightarrow> pages_in g i) = (case content s n of None \<Rightarrow> [] | Some i \<Rightarrow> pages_in g i)" for n
      using p [of g n] by (cases "content s' n"; cases "content s n") simp_all
  qed
  moreover have "run_groups s' ms = run_groups s ms"
  proof -
    have "(case content s' n of None \<Rightarrow> {} | Some i \<Rightarrow> gi_group ` set (ni_groups i))
        = (case content s n of None \<Rightarrow> {} | Some i \<Rightarrow> gi_group ` set (ni_groups i))" for n
      unfolding assms by (cases "content s n") (simp_all add: attached_def shift_active_def image_image)
    then show ?thesis by (simp add: run_groups_def)
  qed
  ultimately show ?thesis by (simp add: fun_eq_iff run_spans_def)
qed

lemma LookupAndAttach_hit:
  assumes inv: "pc_inv s" and few: "length tokens < 2 ^ 32" and hit: "lookup_run namespace tokens s \<noteq> []"
    and room: "attach_room (lookup_run namespace tokens s) s"
  obtains t spans where "LookupAndAttach namespace tokens s =
      (Inr \<lparr>attachment_handle = next_local_attachment s, common_cached_tokens = matched_end s 0 (lookup_run namespace tokens s),
            materialization_spans = spans, miss_reason_mask = 0\<rparr>, t\<lparr>lookup_hits := u64 (lookup_hits s + 1)\<rparr>)"
    and "AttachNodesLocked (lookup_run namespace tokens s) s = (Inr (next_local_attachment s), t)" and "pc_inv t"
    and "content t = (\<lambda>n. map_option (attached (lookup_run namespace tokens s) (u64 (global_epoch s + 1)) n) (content s n))"
    and "local_attachments t = (next_local_attachment s, \<lparr>att_nodes = lookup_run namespace tokens s, att_loads = 0, att_release = False\<rparr>) # local_attachments s"
    and "run_spans s (lookup_run namespace tokens s) spans"
proof -
  let ?ns = "lookup_run namespace tokens s"
  obtain chain where c: "BuildPrefixHashChain namespace tokens (hash_block_tokens s) = Inr chain"
    "lookup_loop s chain [] 0 = (?ns, matched_end s 0 ?ns)" by (rule lookup_chain [OF inv few])
  have dom: "set ?ns \<subseteq> dom (content s)" unfolding lookup_run_def by (rule matched_dom [OF inv])
  obtain nodes es where a: "AttachNodesLocked ?ns s = (Inr (next_local_attachment s), attach_state ?ns nodes es s)"
    "pc_inv (attach_state ?ns nodes es s)"
    "content (attach_state ?ns nodes es s) = (\<lambda>n. map_option (attached ?ns (u64 (global_epoch s + 1)) n) (content s n))"
    by (rule AttachNodes_ok [OF inv hit dom room])
  let ?t = "attach_state ?ns nodes es s"
  have "set ?ns \<subseteq> dom (content ?t)" using dom unfolding a(3) by auto
  with pc_invD(1) [OF a(2)] obtain spans where sp: "BuildMaterializationSpansLocked ?t ?ns = Inr spans" "run_spans ?t ?ns spans"
    by (rule Build_spans_ok)
  have "LookupAndAttach namespace tokens s =
      (Inr \<lparr>attachment_handle = next_local_attachment s, common_cached_tokens = matched_end s 0 ?ns,
            materialization_spans = spans, miss_reason_mask = 0\<rparr>, ?t\<lparr>lookup_hits := u64 (lookup_hits s + 1)\<rparr>)"
    using c a(1) sp(1) hit by (simp add: LookupAndAttach_def attach_state_def)
  then show ?thesis by (rule that [OF _ a]) (use sp(2) run_attached [OF a(3)] in \<open>simp_all add: attach_state_def\<close>)
qed

lemma LookupAndAttach_miss:
  assumes inv: "pc_inv s" and few: "length tokens < 2 ^ 32" and miss: "lookup_run namespace tokens s = []"
  shows "LookupAndAttach namespace tokens s = (Inr (no_lookup\<lparr>miss_reason_mask := 1\<rparr>), s\<lparr>lookup_misses := u64 (lookup_misses s + 1)\<rparr>)"
proof -
  obtain chain where "BuildPrefixHashChain namespace tokens (hash_block_tokens s) = Inr chain"
    "lookup_loop s chain [] 0 = ([], matched_end s 0 [])" using lookup_chain [OF inv few] miss by metis
  then show ?thesis by (simp add: LookupAndAttach_def)
qed

end
