(* ===== verification/Prefix_Reach.thy ===== *)
theory Prefix_Reach
  imports Prefix_Lookup
begin

text \<open>
  The construction of a prefix cache from its configuration, and the states its methods lead to.
\<close>

section \<open>Token boundaries\<close>

text \<open>The least common multiple of the required page sizes, without a bound.\<close>

definition required_lcm :: "HostKVGroupSpec list \<Rightarrow> nat \<Rightarrow> nat" where
  "required_lcm specs = fold (\<lambda>spec r. if required_for_reuse spec then lcm r (raw_page_tokens spec) else r) specs"

lemma required_lcm_simps [simp]:
  "required_lcm [] r = r"
  "required_lcm (spec # specs) r = required_lcm specs (if required_for_reuse spec then lcm r (raw_page_tokens spec) else r)"
  by (simp_all add: required_lcm_def)

lemma required_lcm_dvd: "r dvd required_lcm specs r"
proof (induction specs arbitrary: r)
  case (Cons spec specs)
  then show ?case by (auto intro: dvd_trans [OF dvd_lcm1])
qed simp

lemma required_lcm_member: "spec \<in> set specs \<Longrightarrow> required_for_reuse spec \<Longrightarrow> raw_page_tokens spec dvd required_lcm specs r"
proof (induction specs arbitrary: r)
  case (Cons x specs)
  then show ?case using required_lcm_dvd [of "lcm r (raw_page_tokens spec)" specs] by (auto intro: dvd_trans [OF dvd_lcm2])
qed simp

lemma required_lcm_least:
  "r dvd m \<Longrightarrow> (\<And>spec. spec \<in> set specs \<Longrightarrow> required_for_reuse spec \<Longrightarrow> raw_page_tokens spec dvd m) \<Longrightarrow> required_lcm specs r dvd m"
  by (induction specs arbitrary: r) auto

lemma required_lcm_pos: "0 < r \<Longrightarrow> (\<And>spec. spec \<in> set specs \<Longrightarrow> 0 < raw_page_tokens spec) \<Longrightarrow> 0 < required_lcm specs r"
  by (induction specs arbitrary: r) (auto simp: lcm_pos_nat)

lemma boundary_fold:
  assumes "0 < r" and "\<And>spec. spec \<in> set specs \<Longrightarrow> 0 < raw_page_tokens spec" and "required_lcm specs r < 2 ^ 32"
  shows "fold (\<lambda>spec (has, result). if \<not> required_for_reuse spec then (has, result) else (True, Prefix_Hash.Lcm result (raw_page_tokens spec))) specs (b, r)
    = (b \<or> (\<exists>spec \<in> set specs. required_for_reuse spec), required_lcm specs r)"
  using assms
proof (induction specs arbitrary: b r)
  case (Cons spec specs)
  show ?case
  proof (cases "required_for_reuse spec")
    case True
    let ?l = "lcm r (raw_page_tokens spec)"
    have pos: "0 < ?l" using Cons.prems(1,2) by (simp add: lcm_pos_nat)
    have "?l \<le> required_lcm specs ?l" using required_lcm_dvd [of ?l specs] required_lcm_pos [OF pos] Cons.prems(2) by (auto intro: dvd_imp_le)
    then have "?l < 2 ^ 32" using Cons.prems(3) True by simp
    then have "Prefix_Hash.Lcm r (raw_page_tokens spec) = ?l"
      using Cons.prems(1,2) by (auto simp: Prefix_Hash.Lcm_def u32_def lcm_nat_def div_mult_swap mult.commute)
    then show ?thesis using Cons.IH [OF pos, of True] Cons.prems True by simp
  qed (use Cons in auto)
qed simp

lemma ComputeCommitBoundaryTokens_eq:
  assumes "\<And>spec. spec \<in> set specs \<Longrightarrow> 0 < raw_page_tokens spec" and "required_lcm specs 1 < 2 ^ 32"
    and "\<exists>spec \<in> set specs. required_for_reuse spec"
  shows "ComputeCommitBoundaryTokens specs = required_lcm specs 1"
  using boundary_fold [of 1 specs False] assms by (simp add: ComputeCommitBoundaryTokens_def)

lemma validate_specs_Inr:
  "validate_specs specs b = Inr c \<longleftrightarrow> (\<forall>spec \<in> set specs. 0 < raw_page_tokens spec \<and> 0 < compression_ratio spec)
     \<and> c = (b \<or> (\<exists>spec \<in> set specs. required_for_reuse spec))"
  by (induction specs arbitrary: b) (auto simp: ValidateGroupSpec_def split: sum.split)

section \<open>Construction\<close>

text \<open>The sizes for which no 32-bit value of the cache wraps around.\<close>

definition config_fits :: "HostPrefixCacheConfig \<Rightarrow> bool" where
  "config_fits config \<longleftrightarrow> cfg_max_nodes config \<le> 2 ^ 30 \<and> cfg_max_page_handles config \<le> 2 ^ 30
     \<and> cfg_max_group_entries config \<le> 2 ^ 31 \<and> length (cfg_group_specs config) < 2 ^ 31
     \<and> required_lcm (cfg_group_specs config) 1 < 2 ^ 32"

lemma constructed_config:
  assumes "HostPrefixCacheCoordinator config = Inr (block, boundary)" and "config_fits config"
  shows "config_ok (ConstructPrefixCache config block boundary)" and "size_ok (ConstructPrefixCache config block boundary)"
proof -
  let ?specs = "cfg_group_specs config"
  have run: "cfg_max_nodes config \<noteq> 0 \<and> cfg_max_page_handles config \<noteq> 0
      \<and> (\<exists>has. validate_specs ?specs False = Inr has \<and> has) \<and> block \<noteq> 0 \<and> boundary \<noteq> 0 \<and> boundary = ComputeCommitBoundaryTokens ?specs"
    using assms(1) unfolding HostPrefixCacheCoordinator_def Let_def
    by (cases "validate_specs ?specs False") (simp_all split: if_split_asm)
  then have pos: "\<And>spec. spec \<in> set ?specs \<Longrightarrow> 0 < raw_page_tokens spec" and req: "\<exists>spec \<in> set ?specs. required_for_reuse spec"
    using validate_specs_Inr [of ?specs False True] by auto
  have "boundary = required_lcm ?specs 1" using ComputeCommitBoundaryTokens_eq [OF pos _ req] assms(2) run by (simp add: config_fits_def)
  then show "config_ok (ConstructPrefixCache config block boundary)"
    using pos req run assms(2) required_lcm_member [of _ ?specs 1] by (auto simp: config_ok_def ConstructPrefixCache_def config_fits_def)
  show "size_ok (ConstructPrefixCache config block boundary)"
    using run assms(2) by (simp add: size_ok_def ConstructPrefixCache_def config_fits_def)
qed

lemma prefix_construct_inv:
  assumes "HostPrefixCacheCoordinator config = Inr (block, boundary)" and "config_fits config"
  shows "pc_inv (ConstructPrefixCache config block boundary)"
proof -
  let ?s = "ConstructPrefixCache config block boundary"
  have "\<not> is_resident (pc_nodes ?s ! n)" if "n < max_nodes ?s" for n
    using that by (simp add: ConstructPrefixCache_def is_resident_def empty_node_def)
  then have c: "content ?s = Map.empty" by (auto simp: fun_eq_iff content_def)
  have "arena_ok ?s"
    using constructed_config(2) [OF assms] \<open>\<And>n. n < max_nodes ?s \<Longrightarrow> \<not> is_resident (pc_nodes ?s ! n)\<close>
    by (auto simp: arena_ok_def held_entries_def held_pages_def c) (simp_all add: ConstructPrefixCache_def)
  moreover have "index_map ?s = Map.empty"
    by (rule table_map_vacant) (simp add: ConstructPrefixCache_def node_cls_def empty_islot_def)
  moreover have "index_wf ?s" unfolding index_wf_def
    by (intro conjI probe_inv_vacant) (simp_all add: ConstructPrefixCache_def node_cls_def empty_islot_def)
  moreover have "ref_map ?s = Map.empty"
    by (rule table_map_vacant) (simp add: ConstructPrefixCache_def ref_cls_def empty_pslot_def)
  moreover have "refs_wf ?s" unfolding refs_wf_def
    by (intro conjI probe_inv_vacant) (simp_all add: ConstructPrefixCache_def ref_cls_def empty_pslot_def)
  moreover have "attach_ok (content ?s) (local_attachments ?s) (next_local_attachment ?s)"
    unfolding c by (simp add: attach_ok_def ConstructPrefixCache_def)
  ultimately show ?thesis using constructed_config(1) [OF assms]
    by (simp add: pc_inv_def c index_exact_def refs_count_def held_pages_def)
qed

lemma hash_block_fold:
  assumes "\<And>spec. spec \<in> set specs \<Longrightarrow> 0 < raw_page_tokens spec"
  shows "fold (\<lambda>spec result. if \<not> required_for_reuse spec then result
      else if result = 0 then raw_page_tokens spec else Prefix_Hash.Gcd result (raw_page_tokens spec)) specs r
    = fold (\<lambda>spec result. if required_for_reuse spec then gcd result (raw_page_tokens spec) else result) specs r"
  using assms by (induction specs arbitrary: r) (auto simp: Prefix_Hash.Gcd_def)

lemma gcd_fold_dvd:
  fixes r :: nat
  shows "d dvd fold (\<lambda>spec result. if required_for_reuse spec then gcd result (raw_page_tokens spec) else result) specs r
    \<longleftrightarrow> d dvd r \<and> (\<forall>spec \<in> set specs. required_for_reuse spec \<longrightarrow> d dvd raw_page_tokens spec)"
  by (induction specs arbitrary: r) auto

lemma ComputeHashBlockTokens_dvd:
  assumes "\<And>spec. spec \<in> set specs \<Longrightarrow> 0 < raw_page_tokens spec"
  shows "d dvd ComputeHashBlockTokens specs \<longleftrightarrow> (\<forall>spec \<in> set specs. required_for_reuse spec \<longrightarrow> d dvd raw_page_tokens spec)"
  unfolding ComputeHashBlockTokens_def using hash_block_fold [of specs 0, OF assms] gcd_fold_dvd [of d specs 0] by simp

lemma default_hash_divides:
  assumes "\<And>spec. spec \<in> set specs \<Longrightarrow> 0 < raw_page_tokens spec" and "required_lcm specs 1 < 2 ^ 32"
    and req: "\<exists>spec \<in> set specs. required_for_reuse spec"
  shows "ComputeHashBlockTokens specs dvd ComputeCommitBoundaryTokens specs"
proof -
  obtain spec where spec: "spec \<in> set specs" "required_for_reuse spec" using req by blast
  have "ComputeHashBlockTokens specs dvd raw_page_tokens spec"
    using ComputeHashBlockTokens_dvd [of specs "ComputeHashBlockTokens specs"] assms(1) spec by auto
  also have "raw_page_tokens spec dvd ComputeCommitBoundaryTokens specs"
    using ComputeCommitBoundaryTokens_eq [OF assms] required_lcm_member [OF spec] by simp
  finally show ?thesis .
qed

section \<open>Reachable states\<close>

text \<open>
  The states a sequence of method calls leads to. The guards exclude counter overflows the code
  does not check: \<open>2 ^ 32\<close> attachments or loads on one node, \<open>2 ^ 64 - 1\<close> handles, and token
  lists whose page count does not fit in 32 bits.
\<close>

inductive pc_reach :: "prefix_cache \<Rightarrow> bool" where
  reach_construct: "HostPrefixCacheCoordinator config = Inr (block, boundary) \<Longrightarrow> config_fits config
     \<Longrightarrow> pc_reach (ConstructPrefixCache config block boundary)"
| reach_lookup: "pc_reach s \<Longrightarrow> length tokens < 2 ^ 32 \<Longrightarrow> attach_room (lookup_run namespace tokens s) s
     \<Longrightarrow> LookupAndAttach namespace tokens s = (r, s') \<Longrightarrow> pc_reach s'"
| reach_commit: "pc_reach s \<Longrightarrow> commit_fits token_ids s \<Longrightarrow> next_local_attachment s < 2 ^ 64 - 1
     \<Longrightarrow> CommitPrefixPages namespace token_ids commit_tokens group_pages protect s = (cr, s') \<Longrightarrow> pc_reach s'"
| reach_release: "pc_reach s \<Longrightarrow> ReleaseAttachment h s = (u, s') \<Longrightarrow> pc_reach s'"
| reach_begin_load: "pc_reach s \<Longrightarrow> load_room h s \<Longrightarrow> BeginAttachmentLoad h s = (u, s') \<Longrightarrow> pc_reach s'"
| reach_end_load: "pc_reach s \<Longrightarrow> EndAttachmentLoad h s = (u, s') \<Longrightarrow> pc_reach s'"
| reach_evict_free: "pc_reach s \<Longrightarrow> EvictUntilFree nodes entries handles scan s = (er, s') \<Longrightarrow> pc_reach s'"
| reach_evict_pages: "pc_reach s \<Longrightarrow> EvictUntilReleasablePages requirements scan s = (er, s') \<Longrightarrow> pc_reach s'"
| reach_clear: "pc_reach s \<Longrightarrow> ClearUnprotected s = (er, s') \<Longrightarrow> pc_reach s'"
| reach_clear_namespace: "pc_reach s \<Longrightarrow> ClearNamespace namespace s = (er, s') \<Longrightarrow> pc_reach s'"

lemma Lookup_inv:
  assumes inv: "pc_inv s" and few: "length tokens < 2 ^ 32" and room: "attach_room (lookup_run namespace tokens s) s"
  shows "pc_inv (snd (LookupAndAttach namespace tokens s))"
proof (cases "lookup_run namespace tokens s = []")
  case True
  then show ?thesis using LookupAndAttach_miss [OF inv few] inv by simp
next
  case False
  obtain t spans where "LookupAndAttach namespace tokens s =
      (Inr \<lparr>attachment_handle = next_local_attachment s, common_cached_tokens = matched_end s 0 (lookup_run namespace tokens s),
            materialization_spans = spans, miss_reason_mask = 0\<rparr>, t\<lparr>lookup_hits := u64 (lookup_hits s + 1)\<rparr>)" "pc_inv t"
    by (rule LookupAndAttach_hit [OF inv few False room])
  then show ?thesis by simp
qed

lemma reach_inv: "pc_reach s \<Longrightarrow> pc_inv s"
proof (induction rule: pc_reach.induct)
  case (reach_construct config block boundary)
  then show ?case by (rule prefix_construct_inv)
next
  case (reach_lookup s tokens namespace r s')
  then show ?case using Lookup_inv [of s tokens namespace] by simp
next
  case (reach_commit s token_ids namespace commit_tokens group_pages protect cr s')
  then show ?case
    using CommitPrefixPages_cases [of s token_ids namespace commit_tokens group_pages protect]
    by (auto simp: tidied_def commit_done_def split: if_splits)
next
  case (reach_release s h u s')
  then show ?case using ReleaseAttachment_inv [of s h] by simp
next
  case (reach_begin_load s h u s')
  then show ?case using BeginAttachmentLoad_inv [of s h] by simp
next
  case (reach_end_load s h u s')
  then show ?case using EndAttachmentLoad_inv [of s h] by simp
next
  case (reach_evict_free s nodes entries handles scan er s')
  obtain r t where "EvictUntilFree nodes entries handles scan s = (Inr r, t)" "evict_result (\<lambda>_. True) s r t"
    by (rule EvictUntilFree_ok [OF reach_evict_free.IH])
  then show ?case using reach_evict_free.hyps by (simp add: evict_result_def)
next
  case (reach_evict_pages s requirements scan er s')
  obtain r t where "EvictUntilReleasablePages requirements scan s = (Inr r, t)" "evict_result (\<lambda>_. True) s r t"
    by (rule EvictUntilReleasablePages_ok [OF reach_evict_pages.IH])
  then show ?case using reach_evict_pages.hyps by (simp add: evict_result_def)
next
  case (reach_clear s er s')
  obtain r t where "ClearUnprotected s = (Inr r, t)" "evict_result (\<lambda>_. True) s r t" by (rule ClearUnprotected_ok [OF reach_clear.IH])
  then show ?case using reach_clear.hyps by (simp add: evict_result_def)
next
  case (reach_clear_namespace s namespace er s')
  obtain r t where "ClearNamespace namespace s = (Inr r, t)" "evict_result (\<lambda>i. ni_namespace i = namespace) s r t"
    by (rule ClearNamespace_ok [OF reach_clear_namespace.IH])
  then show ?case using reach_clear_namespace.hyps by (simp add: evict_result_def)
qed

end
