(* ===== verification/Prefix_Roundtrip.thy ===== *)
theory Prefix_Roundtrip
  imports Prefix_Reach
begin

text \<open>
  A commit followed by a lookup: every prompt that starts with the committed tokens finds the
  committed blocks, and the pages of their groups come back in order.
\<close>

section \<open>The hash chain of an extended token list\<close>

lemma chain_ends: "(e, d) \<in> set (chain_blocks namespace parent tokens block start n) \<Longrightarrow> start + block \<le> e"
  by (induction n arbitrary: start parent) (fastforce simp: Let_def)+

lemma chain_extend:
  assumes "start + n * block \<le> length tokens"
  shows "\<exists>tail. chain_blocks namespace parent (tokens @ suffix) block start (n + m) = chain_blocks namespace parent tokens block start n @ tail
    \<and> (\<forall>(e, d) \<in> set tail. start + Suc n * block \<le> e)"
  using assms
proof (induction n arbitrary: start parent)
  case 0
  show ?case using chain_ends [where tokens = "tokens @ suffix"] by auto
next
  case (Suc n)
  let ?d = "HashPrefixBlock namespace parent (drop start tokens) block"
  have "take block (drop start (tokens @ suffix)) = take block (drop start tokens)" using Suc.prems by simp
  then have "HashPrefixBlock namespace parent (drop start (tokens @ suffix)) block = ?d" by (simp only: HashPrefixBlock_def)
  then show ?case using Suc.IH [of "start + block" ?d] Suc.prems by (auto simp: Let_def add.assoc)
qed

lemma BuildPrefixHashChain_extend:
  assumes "0 < block" and "length (tokens @ suffix) < 2 ^ 32" and "BuildPrefixHashChain namespace tokens block = Inr chain"
  obtains tail where "BuildPrefixHashChain namespace (tokens @ suffix) block = Inr (chain @ tail)"
    and "\<forall>(e, d) \<in> set tail. length tokens < e"
proof -
  let ?n = "length tokens div block" and ?k = "length (tokens @ suffix) div block"
  have eq: "BuildPrefixHashChain namespace xs block = Inr (chain_blocks namespace zero_digest xs block 0 (length xs div block))"
    if "length xs < 2 ^ 32" for xs
  proof -
    have "(length xs - length xs mod block) div block = length xs div block" using assms(1) by (simp add: minus_mod_eq_mult_div)
    then show ?thesis using that assms(1) by (simp add: BuildPrefixHashChain_def u32_def Let_def)
  qed
  have "?n \<le> ?k" by (simp add: div_le_mono)
  then obtain m where m: "?k = ?n + m" using le_Suc_ex by blast
  have "0 + ?n * block \<le> length tokens" by simp
  from chain_extend [OF this, of namespace zero_digest suffix m] obtain tail where
    t: "chain_blocks namespace zero_digest (tokens @ suffix) block 0 ?k = chain_blocks namespace zero_digest tokens block 0 ?n @ tail"
      "\<forall>(e, d) \<in> set tail. Suc ?n * block \<le> e" using m by auto
  have "length tokens < Suc ?n * block" using dividend_less_div_times [OF assms(1), of "length tokens"] by simp
  then have "\<forall>(e, d) \<in> set tail. length tokens < e" using t(2) by fastforce
  then show thesis using that [of tail] t(1) eq [of tokens] eq [OF assms(2)] assms(2,3) by auto
qed

lemma boundary_late:
  "\<forall>(e, d) \<in> set tail. span < e \<Longrightarrow> boundary_blocks span boundary start (chain @ tail) = boundary_blocks span boundary start chain"
proof (induction span boundary start chain rule: boundary_blocks.induct)
  case (1 span boundary start)
  then show ?case by (induction span boundary start tail rule: boundary_blocks.induct) auto
qed auto

lemma boundary_prefix:
  assumes "ascending start limit chain" and "span \<le> limit'"
  shows "\<exists>tail. boundary_blocks limit' boundary start (chain @ suffix) = boundary_blocks span boundary start chain @ tail"
  using assms(1)
proof (induction chain arbitrary: start)
  case (Cons x chain)
  obtain e d where x: "x = (e, d)" by (cases x)
  note asc = ascending_Cons [OF Cons.prems [unfolded x]]
  have late: "boundary_blocks span boundary a chain = []" if "span < e" for a
  proof -
    have "\<forall>(e', d') \<in> set chain. span < e'" using asc(3) that by (auto simp: ascending_def)
    then show ?thesis by (induction span boundary a chain rule: boundary_blocks.induct) auto
  qed
  show ?case
  proof (cases "span < e")
    case True
    then show ?thesis using late by (simp add: x)
  next
    case False
    then show ?thesis using Cons.IH [OF asc(3)] Cons.IH [OF asc(4)] assms(2) by (auto simp: x)
  qed
qed simp

section \<open>The nodes of committed blocks\<close>

definition node_at :: "prefix_cache \<Rightarrow> nat \<times> nat \<times> PrefixDigest \<Rightarrow> nat" where
  "node_at s b = the (FindNodeLocked s (snd (snd b)))"

lemma matched_append:
  assumes "\<forall>(a, e, d) \<in> set bs. FindNodeLocked s d \<noteq> None"
  shows "matched s (bs @ tail) = map (node_at s) bs @ matched s tail"
  using assms by (induction bs) (auto simp: node_at_def)

lemma matched_takeWhile: "matched s bs = map (node_at s) (takeWhile (\<lambda>(a, e, d). FindNodeLocked s d \<noteq> None) bs)"
  by (induction bs) (auto simp: node_at_def split: option.split)

lemma committed_found:
  assumes g: "grown namespace pages bs ns s t" and same: "\<And>n. map_option ni_digest (content s' n) = map_option ni_digest (content t n)"
    and inv: "pc_inv s'"
  shows "\<forall>(a, e, d) \<in> set bs. FindNodeLocked s' d \<noteq> None"
proof -
  have "FindNodeLocked s' d \<noteq> None" if b: "(a, e, d) \<in> set bs" for a e d
  proof -
    obtain n i where "content t n = Some i" "ni_digest i = d" using g b unfolding grown_def by fastforce
    then obtain j where "content s' n = Some j" "ni_digest j = d" using same [of n] by auto
    then show ?thesis using FindNode_content [OF pc_invD(7,2) [OF inv], of d n] by simp
  qed
  then show ?thesis by blast
qed

lemma done_digests:
  assumes "commit_done namespace token_ids commit_tokens group_pages protect s r ns t s'"
  shows "map_option ni_digest (content s' n) = map_option ni_digest (content t n)"
    and "map_option ni_end (content s' n) = map_option ni_end (content t n)"
    and "map_option (pages_in g) (content s' n) = map_option (pages_in g) (content t n)"
  using assms unfolding commit_done_def
  by (cases "content t n"; auto simp: attached_def shift_active_def pages_in_def filter_map comp_def split: if_splits)+

lemma commit_fits_few:
  assumes "pc_inv s" and "commit_fits token_ids s"
  shows "length token_ids < 2 ^ 32"
proof -
  have "1 \<le> length (pc_specs s)" using pc_invD(5) [OF assms(1)] by (auto simp: config_ok_def Suc_le_eq)
  then have "length token_ids \<le> length token_ids * length (pc_specs s)" using mult_le_mono2 by fastforce
  also have "\<dots> < 2 ^ 31" using assms(2) unfolding commit_fits_def .
  finally show ?thesis by simp
qed

lemma commit_span_le: "commit_span token_ids commit_tokens s \<le> length token_ids"
  by (auto simp: commit_span_def Let_def)

lemma committed_run:
  assumes inv: "pc_inv s" and few: "length token_ids < 2 ^ 32" "length prompt < 2 ^ 32"
    and same: "take (commit_span token_ids commit_tokens s) prompt = take (commit_span token_ids commit_tokens s) token_ids"
    and d: "commit_done namespace token_ids commit_tokens group_pages protect s r ns t s'"
  shows "\<exists>tail. lookup_blocks namespace prompt s' = commit_blocks namespace token_ids commit_tokens s @ tail
    \<and> lookup_run namespace prompt s' = map (node_at s') (commit_blocks namespace token_ids commit_tokens s) @ matched s' tail"
proof -
  let ?span = "commit_span token_ids commit_tokens s"
  define common where "common = take ?span token_ids"
  have len: "length common = ?span" using commit_span_le [of token_ids commit_tokens s] by (simp add: common_def)
  have split: "token_ids = common @ drop ?span token_ids" "prompt = common @ drop ?span prompt"
    using append_take_drop_id [of ?span token_ids] append_take_drop_id [of ?span prompt] same by (simp_all add: common_def)
  have inv': "pc_inv s'" and g: "grown namespace (pages_by_group group_pages) (commit_blocks namespace token_ids commit_tokens s) ns s t"
    using d by (auto simp: commit_done_def)
  have st: "setting t = setting s" using g by (simp add: grown_def)
  have f: "hash_block_tokens s' = hash_block_tokens s" "commit_boundary_tokens s' = commit_boundary_tokens s"
    using d setting_fields(7,8) [OF st] by (auto simp: commit_done_def attach_state_def split: if_splits)
  have pos: "0 < hash_block_tokens s" using pc_invD(5) [OF inv] by (simp add: config_ok_def)
  have "length common < 2 ^ 32" using len few(1) commit_span_le [of token_ids commit_tokens s] by simp
  then obtain chain where chain: "BuildPrefixHashChain namespace common (hash_block_tokens s) = Inr chain" "ascending 0 (length common) chain"
    by (rule BuildPrefixHashChain_ok [OF pos])
  obtain t1 where t1: "BuildPrefixHashChain namespace token_ids (hash_block_tokens s) = Inr (chain @ t1)" "\<forall>(e, d) \<in> set t1. ?span < e"
    using BuildPrefixHashChain_extend [OF pos _ chain(1), of "drop ?span token_ids"] few(1) split(1) len by metis
  obtain t2 where t2: "BuildPrefixHashChain namespace prompt (hash_block_tokens s) = Inr (chain @ t2)"
    using BuildPrefixHashChain_extend [OF pos _ chain(1), of "drop ?span prompt"] few(2) split(2) by metis
  have "?span \<le> length prompt" using split(2) len by (metis length_append le_add1)
  from boundary_prefix [OF chain(2) this, of "commit_boundary_tokens s" t2] obtain tail where
    "lookup_blocks namespace prompt s' = commit_blocks namespace token_ids commit_tokens s @ tail"
    using t1(1) t2 f boundary_late [OF t1(2)] by (auto simp: lookup_blocks_def commit_blocks_def)
  moreover have "\<forall>(a, e, d) \<in> set (commit_blocks namespace token_ids commit_tokens s). FindNodeLocked s' d \<noteq> None"
    by (rule committed_found [OF g done_digests(1) [OF d] inv'])
  ultimately show ?thesis using matched_append by (auto simp: lookup_run_def)
qed

section \<open>How far the committed blocks reach\<close>

lemma chain_has:
  assumes "0 < k" and "k \<le> n"
  shows "\<exists>d. (start + k * block, d) \<in> set (chain_blocks namespace parent tokens block start n)"
  using assms
proof (induction n arbitrary: k start parent)
  case (Suc n)
  show ?case
  proof (cases "k = 1")
    case False
    then have "0 < k - 1" "k - 1 \<le> n" using Suc.prems by simp_all
    from Suc.IH [OF this, of "start + block"] obtain d where
      "(start + block + (k - 1) * block, d) \<in> set (chain_blocks namespace (HashPrefixBlock namespace parent (drop start tokens) block) tokens block (start + block) n)"
      by blast
    moreover have "start + block + (k - 1) * block = start + k * block" using \<open>0 < k - 1\<close> by (cases k) (auto simp: add.assoc)
    ultimately have "(start + k * block, d) \<in> set (chain_blocks namespace (HashPrefixBlock namespace parent (drop start tokens) block) tokens block (start + block) n)"
      by (simp only:)
    then show ?thesis by (intro exI [of _ d]) (simp add: Let_def)
  qed (auto simp: Let_def)
qed simp

lemma boundary_has: "(e, d) \<in> set chain \<Longrightarrow> e \<le> tokens \<Longrightarrow> e mod boundary = 0 \<Longrightarrow> \<exists>a. (a, e, d) \<in> set (boundary_blocks tokens boundary start chain)"
  by (induction tokens boundary start chain rule: boundary_blocks.induct) fastforce+

lemma block_ends_sorted:
  assumes "ascending start limit chain"
  shows "sorted_wrt (<) (map (\<lambda>(a, e, d). e) (boundary_blocks tokens boundary start chain))"
  using assms
proof (induction tokens boundary start chain rule: boundary_blocks.induct)
  case (2 tokens boundary start raw_end digest chain)
  note asc = ascending_Cons [OF 2(3)]
  have "raw_end < e" if "(a, e, d) \<in> set (boundary_blocks tokens boundary raw_end chain)" for a e d
    using block_bounds [OF that asc(3)] by auto
  then show ?case using 2(1) [OF _ asc(4)] 2(2) [OF _ asc(3)] by auto
qed simp

text \<open>No two blocks share a digest, and a node found by the digest of a block ends where the block ends.\<close>

definition no_collision :: "(nat \<times> nat \<times> PrefixDigest) list \<Rightarrow> prefix_cache \<Rightarrow> bool" where
  "no_collision blocks s \<longleftrightarrow> distinct (map (\<lambda>(a, e, d). d) blocks)
     \<and> list_all (\<lambda>(a, e, d). case FindNodeLocked s d of None \<Rightarrow> True | Some n \<Rightarrow> node_end (pc_nodes s ! n) = e) blocks"

lemma commit_span_block:
  assumes inv: "pc_inv s" and few: "length token_ids < 2 ^ 32" and dvd: "hash_block_tokens s dvd commit_boundary_tokens s"
    and pos: "0 < commit_span token_ids commit_tokens s"
  shows "\<exists>a d. (a, commit_span token_ids commit_tokens s, d) \<in> set (commit_blocks namespace token_ids commit_tokens s)"
proof -
  let ?e = "commit_span token_ids commit_tokens s" and ?h = "hash_block_tokens s" and ?b = "commit_boundary_tokens s"
  have cfg: "0 < ?h" "0 < ?b" using pc_invD(5) [OF inv] by (auto simp: config_ok_def)
  have "?b dvd ?e" "?e \<le> length token_ids" by (auto simp: commit_span_def Let_def)
  then obtain k where k: "?e = k * ?h" using dvd by (metis dvd_trans dvdE mult.commute)
  let ?n = "(length token_ids - length token_ids mod ?h) div ?h"
  have n: "?n = length token_ids div ?h" using cfg by (simp add: minus_mod_eq_mult_div)
  have "0 < k" "k \<le> ?n" using k pos \<open>?e \<le> length token_ids\<close> cfg(1) unfolding n by (auto simp: less_eq_div_iff_mult_less_eq)
  from chain_has [OF this, of 0 ?h namespace zero_digest token_ids] obtain d where "(?e, d) \<in> set (chain_blocks namespace zero_digest token_ids ?h 0 ?n)" using k by auto
  then have "\<exists>a. (a, ?e, d) \<in> set (boundary_blocks ?e ?b 0 (chain_blocks namespace zero_digest token_ids ?h 0 ?n))"
    by (rule boundary_has) (use \<open>?b dvd ?e\<close> in auto)
  moreover have "commit_blocks namespace token_ids commit_tokens s = boundary_blocks ?e ?b 0 (chain_blocks namespace zero_digest token_ids ?h 0 ?n)"
    using few cfg by (simp add: commit_blocks_def BuildPrefixHashChain_def u32_def Let_def)
  ultimately show ?thesis by auto
qed

lemma sorted_takeWhile: "sorted_wrt R (map f xs) \<Longrightarrow> sorted_wrt R (map f (takeWhile P xs))"
  by (induction xs) (auto dest: set_takeWhileD)

lemma run_reaches:
  assumes inv: "pc_inv s" and few: "length tokens < 2 ^ 32" and free: "no_collision (lookup_blocks namespace tokens s) s"
    and split: "lookup_blocks namespace tokens s = bs @ tail" and found: "\<forall>(a, e, d) \<in> set bs. FindNodeLocked s d \<noteq> None"
    and b: "(a, e, d) \<in> set bs"
  shows "lookup_run namespace tokens s \<noteq> []" and "e \<le> matched_end s 0 (lookup_run namespace tokens s)"
proof -
  let ?bs = "lookup_blocks namespace tokens s"
  let ?us = "takeWhile (\<lambda>(a, e, d). FindNodeLocked s d \<noteq> None) ?bs"
  have run: "lookup_run namespace tokens s = map (node_at s) ?us" unfolding lookup_run_def by (rule matched_takeWhile)
  have "?us = bs @ takeWhile (\<lambda>(a, e, d). FindNodeLocked s d \<noteq> None) tail"
    unfolding split using found by (intro takeWhile_append2) auto
  then have mem: "(a, e, d) \<in> set ?us" using b by auto
  then show "lookup_run namespace tokens s \<noteq> []" unfolding run by auto
  obtain a' e' d' where last: "last ?us = (a', e', d')" by (cases "last ?us")
  have in_us: "(a', e', d') \<in> set ?us" using mem last by (metis empty_iff last_in_set list.set(1))
  have "0 < hash_block_tokens s" using pc_invD(5) [OF inv] by (simp add: config_ok_def)
  then obtain chain where "BuildPrefixHashChain namespace tokens (hash_block_tokens s) = Inr chain" "ascending 0 (length tokens) chain"
    by (rule BuildPrefixHashChain_ok [OF _ few])
  then have "sorted_wrt (<) (map (\<lambda>(a, e, d). e) ?bs)" using block_ends_sorted by (simp add: lookup_blocks_def)
  then have sorted: "sorted_wrt (<) (map (\<lambda>(a, e, d). e) ?us)"
    by (rule sorted_takeWhile)
  have "e \<le> e'"
  proof -
    have "\<exists>vs. ?us = vs @ [(a', e', d')]" using mem last by (metis append_butlast_last_id empty_iff list.set(1))
    then obtain vs where vs: "?us = vs @ [(a', e', d')]" by blast
    have "(a, e, d) \<in> set vs \<or> e = e'" using mem unfolding vs by auto
    then show ?thesis using sorted unfolding vs by (auto simp: sorted_wrt_append)
  qed
  moreover have "matched_end s 0 (lookup_run namespace tokens s) = e'"
  proof -
    have f: "FindNodeLocked s d' \<noteq> None" and bs: "(a', e', d') \<in> set ?bs" using in_us by (auto dest: set_takeWhileD)
    then obtain n where n: "FindNodeLocked s d' = Some n" by blast
    then obtain i where i: "content s n = Some i" using FindNode_content [OF pc_invD(7,2) [OF inv]] by blast
    have "node_end (pc_nodes s ! n) = e'" using free bs n by (fastforce simp: no_collision_def list_all_iff)
    then have "ni_end i = e'" using i by (simp add: content_Some describe_def)
    moreover have ne: "?us \<noteq> []" using mem by (metis empty_iff list.set(1))
    have "last (map (node_at s) ?us) = n" unfolding last_map [OF ne] last using n by (simp add: node_at_def)
    ultimately show ?thesis using i ne unfolding run matched_end_def by (simp only: map_is_Nil_conv if_False option.sel)
  qed
  ultimately show "e \<le> matched_end s 0 (lookup_run namespace tokens s)" by simp
qed

section \<open>The pages of the committed blocks\<close>

lemma slice_eq:
  assumes "a \<le> e" and "e div raw_page_tokens spec \<le> length ps"
  shows "group_slice spec a e ps = take (pages_needed spec a e) (drop (first_page spec a) ps)"
proof -
  have "first_page spec a + pages_needed spec a e \<le> length ps"
    using page_range [OF assms(1), of "raw_page_tokens spec"] assms(2) by (simp add: first_page_def pages_needed_def)
  then show ?thesis by (intro nth_equalityI) (simp_all add: group_slice_def)
qed

lemma slices_join:
  assumes "ascending start limit chain" and "boundary dvd start" and "r dvd boundary" and "r = raw_page_tokens spec" and "0 < r"
    and "tokens div r \<le> length ps"
  shows "\<exists>stop. start \<le> stop \<and> stop \<le> max start tokens \<and> concat (map (\<lambda>(a, e, d). group_slice spec a e ps) (boundary_blocks tokens boundary start chain))
      = take (stop div r - start div r) (drop (start div r) ps)
    \<and> (\<forall>(a, e, d) \<in> set (boundary_blocks tokens boundary start chain). e \<le> stop)"
  using assms(1,2)
proof (induction chain arbitrary: start)
  case Nil
  then show ?case by auto
next
  case (Cons x chain)
  obtain e d where x: "x = (e, d)" by (cases x)
  note asc = ascending_Cons [OF Cons.prems(1) [unfolded x]]
  show ?case
  proof (cases "tokens < e \<or> e mod boundary \<noteq> 0")
    case True
    then show ?thesis using Cons.IH [OF asc(4) Cons.prems(2)] by (simp add: x)
  next
    case False
    then have dvd: "boundary dvd e" "r dvd e" "r dvd start" using assms(3) Cons.prems(2) by (auto intro: dvd_trans)
    from Cons.IH [OF asc(3) dvd(1)] obtain stop where stop: "e \<le> stop \<and> stop \<le> max e tokens"
      "concat (map (\<lambda>(a, e, d). group_slice spec a e ps) (boundary_blocks tokens boundary e chain)) = take (stop div r - e div r) (drop (e div r) ps)"
      "\<forall>(a, e', d) \<in> set (boundary_blocks tokens boundary e chain). e' \<le> stop" by blast
    have exact: "(e - start) div r = e div r - start div r"
      using dvd(2,3) assms(5) by (metis diff_mult_distrib2 dvd_mult_div_cancel nonzero_mult_div_cancel_left not_less_iff_gr_or_eq)
    have "e div r \<le> length ps" using False assms(6) div_le_mono [of e tokens r] by linarith
    then have "group_slice spec start e ps = take (e div r - start div r) (drop (start div r) ps)"
      using slice_eq [of start e spec ps] asc(1) dvd assms(4)
      by (simp add: pages_needed_def first_page_def exact [unfolded assms(4)])
    moreover have "take (e div r - start div r) (drop (start div r) ps) @ take (stop div r - e div r) (drop (e div r) ps)
        = take (stop div r - start div r) (drop (start div r) ps)"
    proof -
      have "start div r \<le> e div r" "e div r \<le> stop div r" using asc(1) stop(1) by (auto intro: div_le_mono)
      then have "stop div r - start div r = (e div r - start div r) + (stop div r - e div r)"
        "drop (e div r) ps = drop (e div r - start div r) (drop (start div r) ps)" by simp_all
      then show ?thesis by (simp only: take_add)
    qed
    ultimately show ?thesis using False stop asc(1) by (intro exI [of _ stop]) (auto simp: x)
  qed
qed

lemma block_pages:
  assumes "spec \<in> set specs" and "distinct (map spec_group specs)" and "group_pages_for pages a e spec = Some ps"
  shows "pages_in (spec_group spec) (block_info namespace pages specs epoch (a, e, d)) = ps"
proof -
  have "filter (\<lambda>x. entry_group (fst x) = spec_group spec) (block_groups pages a e specs) = [(group_template (spec_group spec) a e, ps)]"
    using assms
  proof (induction specs)
    case (Cons x specs)
    have none: "filter (\<lambda>x. entry_group (fst x) = g) (block_groups pages a e specs) = []" if "g \<notin> spec_group ` set specs" for g
      using that by (auto simp: filter_empty_conv block_groups_set group_template_def)
    show ?case
    proof (cases "x = spec")
      case True
      then show ?thesis using Cons.prems none [of "spec_group spec"] by (simp add: group_template_def)
    next
      case False
      then have "spec \<in> set specs" "spec_group x \<noteq> spec_group spec" using Cons.prems by force+
      then show ?thesis using Cons by (auto simp: group_template_def split: option.split)
    qed
  qed simp
  then have "map snapshot_info (filter (\<lambda>x. entry_group (fst x) = spec_group spec) (block_groups pages a e specs))
      = [snapshot_info (group_template (spec_group spec) a e, ps)]" by simp
  then show ?thesis
    by (simp add: pages_in_def block_info_def filter_map comp_def snapshot_info_def case_prod_unfold)
qed

text \<open>
  What a lookup returns for a committed block: the slice of the committed pages when the block
  was not in the cache, and the pages that the cache held already when it was.
\<close>

definition recalled_pages :: "prefix_cache \<Rightarrow> HostKVGroupSpec \<Rightarrow> nat list \<Rightarrow> nat \<times> nat \<times> PrefixDigest \<Rightarrow> nat list" where
  "recalled_pages s spec ps b =
     (case b of (a, e, d) \<Rightarrow>
        (case FindNodeLocked s d of
           None \<Rightarrow> group_slice spec a e ps
         | Some n \<Rightarrow> (case content s n of None \<Rightarrow> [] | Some i \<Rightarrow> pages_in (spec_group spec) i)))"

lemma committed_info:
  assumes d: "commit_done namespace token_ids commit_tokens group_pages protect s r ns t s'" and inv: "pc_inv s"
    and dist: "distinct (map (\<lambda>(a, e, d). d) (commit_blocks namespace token_ids commit_tokens s))"
    and b: "(a, e, k) \<in> set (commit_blocks namespace token_ids commit_tokens s)"
  shows "\<exists>epoch. map_option (pages_in g) (content s' (node_at s' (a, e, k))) =
    (case FindNodeLocked s k of
       None \<Rightarrow> Some (pages_in g (block_info namespace (pages_by_group group_pages) (pc_specs s) epoch (a, e, k)))
     | Some n \<Rightarrow> map_option (pages_in g) (content s n))"
proof -
  let ?bs = "commit_blocks namespace token_ids commit_tokens s" and ?pages = "pages_by_group group_pages"
  have gr: "grown namespace ?pages ?bs ns s t" and inv': "pc_inv s'" using d by (simp_all add: commit_done_def)
  note find = FindNode_content [OF pc_invD(7,2) [OF inv]] and find' = FindNode_content [OF pc_invD(7,2) [OF inv']]
  have "FindNodeLocked s' k \<noteq> None" using committed_found [OF gr done_digests(1) [OF d] inv'] b by blast
  then obtain n where n: "FindNodeLocked s' k = Some n" by blast
  then obtain i where "content s' n = Some i" "ni_digest i = k" using find' by blast
  then obtain j where j: "content t n = Some j" "ni_digest j = k" using done_digests(1) [OF d, of n] by (cases "content t n") auto
  have same: "content t m = Some x" if "content s m = Some x" for m x
    using gr that by (auto simp: grown_def map_le_def dom_def)
  show ?thesis
  proof (cases "content s n")
    case (Some x)
    then have "content s n = Some j" using same j(1) by fastforce
    then have "FindNodeLocked s k = Some n" using find j(2) by blast
    then show ?thesis using done_digests(3) [OF d, of g n] j(1) \<open>content s n = Some j\<close> n by (simp add: node_at_def)
  next
    case None
    have "FindNodeLocked s k \<noteq> Some m" for m
    proof
      assume "FindNodeLocked s k = Some m"
      then obtain x where x: "content s m = Some x" "ni_digest x = k" using find by blast
      then obtain y where "content s' m = Some y" "ni_digest y = k"
        using same done_digests(1) [OF d, of m] by (cases "content s' m") auto
      then have "m = n" using find' n by (metis option.inject)
      then show False using x(1) None by simp
    qed
    then have fresh: "FindNodeLocked s k = None" by (cases "FindNodeLocked s k") auto
    have "dom (content t) = dom (content s) \<union> set ns" using gr by (simp add: grown_def)
    then have "n \<in> set ns" using j(1) None by auto
    then obtain b' epoch where b': "b' \<in> set ?bs" "content t n = Some (block_info namespace ?pages (pc_specs s) epoch b')"
      using gr unfolding grown_def by blast
    have "snd (snd b') = k" using b'(2) j by (auto simp: block_info_def split: prod.splits)
    then have eq: "(\<lambda>(a, e, d). d) b' = (\<lambda>(a, e, d). d) (a, e, k)" by (cases b') simp
    have "inj_on (\<lambda>(a, e, d). d) (set ?bs)" using dist by (simp add: distinct_map)
    then have "b' = (a, e, k)" using eq b'(1) b by (rule inj_onD)
    then show ?thesis using done_digests(3) [OF d, of g n] b'(2) n fresh by (auto simp: node_at_def)
  qed
qed

lemma committed_pages:
  assumes inv: "pc_inv s" and few: "length token_ids < 2 ^ 32"
    and fin: "commit_done namespace token_ids commit_tokens group_pages protect s r ns t s'"
    and dist: "distinct (map (\<lambda>(a, e, d). d) (commit_blocks namespace token_ids commit_tokens s))"
    and spec: "spec \<in> set (pc_specs s)" "required_for_reuse spec" "distinct (map spec_group (pc_specs s))"
    and check: "check_required_pages (pages_by_group group_pages) (commit_span token_ids commit_tokens s) (pc_specs s) = Inr ()"
    and ps: "pages_by_group group_pages (spec_group spec) = Some ps"
  shows "run_pages s' (map (node_at s') (commit_blocks namespace token_ids commit_tokens s)) (spec_group spec)
      = concat (map (recalled_pages s spec ps) (commit_blocks namespace token_ids commit_tokens s))"
proof -
  let ?bs = "commit_blocks namespace token_ids commit_tokens s" and ?pages = "pages_by_group group_pages" and ?g = "spec_group spec"
  let ?span = "commit_span token_ids commit_tokens s" and ?r = "raw_page_tokens spec" and ?b = "commit_boundary_tokens s"
  have r: "0 < ?r" "?r dvd ?b" "0 < hash_block_tokens s" using pc_invD(5) [OF inv] spec by (auto simp: config_ok_def)
  obtain chain where chain: "BuildPrefixHashChain namespace token_ids (hash_block_tokens s) = Inr chain" "ascending 0 (length token_ids) chain"
    by (rule BuildPrefixHashChain_ok [OF r(3) few])
  have bs: "?bs = boundary_blocks ?span ?b 0 chain" using chain(1) by (simp add: commit_blocks_def)
  have len: "?span div ?r \<le> length ps" using check_pages [OF check spec(1,2)] ps by auto
  have one: "(case content s' (node_at s' b) of None \<Rightarrow> [] | Some i \<Rightarrow> pages_in ?g i) = recalled_pages s spec ps b"
    if b: "b \<in> set ?bs" for b
  proof -
    obtain a e d where bk: "b = (a, e, d)" by (cases b)
    have bd: "a < e" "e \<le> ?span" "e \<le> length token_ids" "?b dvd e" "?b dvd a" using block_bounds [of a e d] b chain(2) bk bs by auto
    have "group_aligned spec a e" using bd r(2) by (meson dvd_imp_mod_0 dvd_trans group_aligned_def)
    moreover have "block_ready ?pages a e [spec]"
    proof (rule ready_block)
      show "check_required_pages ?pages ?span [spec] = Inr ()" using spec(2) ps len by simp
    qed (use bd few calculation in auto)
    ultimately have "group_pages_for ?pages a e spec = Some (group_slice spec a e ps)"
      using spec(2) ps by (auto simp: block_ready_def group_pages_for_def split: if_splits)
    note new = block_pages [OF spec(1,3) this]
    obtain epoch where "map_option (pages_in ?g) (content s' (node_at s' b)) =
      (case FindNodeLocked s d of
         None \<Rightarrow> Some (pages_in ?g (block_info namespace ?pages (pc_specs s) epoch (a, e, d)))
       | Some n \<Rightarrow> map_option (pages_in ?g) (content s n))"
      using committed_info [OF fin inv dist, of a e d ?g] b bk by blast
    then show ?thesis
      by (cases "content s' (node_at s' b)") (auto simp: recalled_pages_def bk new split: option.splits)
  qed
  show ?thesis unfolding run_pages_def map_map comp_def by (rule arg_cong [of _ _ concat], rule map_cong [OF refl one])
qed

text \<open>When no block was in the cache, these are the committed pages from the first on.\<close>

lemma fresh_pages:
  assumes inv: "pc_inv s" and few: "length token_ids < 2 ^ 32"
    and fresh: "\<forall>(a, e, d) \<in> set (commit_blocks namespace token_ids commit_tokens s). FindNodeLocked s d = None"
    and spec: "spec \<in> set (pc_specs s)" "required_for_reuse spec"
    and len: "commit_span token_ids commit_tokens s div raw_page_tokens spec \<le> length ps"
    and reach: "(a, commit_span token_ids commit_tokens s, k) \<in> set (commit_blocks namespace token_ids commit_tokens s)"
  shows "concat (map (recalled_pages s spec ps) (commit_blocks namespace token_ids commit_tokens s))
      = take (commit_span token_ids commit_tokens s div raw_page_tokens spec) ps"
proof -
  let ?bs = "commit_blocks namespace token_ids commit_tokens s"
  let ?span = "commit_span token_ids commit_tokens s" and ?r = "raw_page_tokens spec" and ?b = "commit_boundary_tokens s"
  have r: "0 < ?r" "?r dvd ?b" "0 < hash_block_tokens s" using pc_invD(5) [OF inv] spec by (auto simp: config_ok_def)
  obtain chain where chain: "BuildPrefixHashChain namespace token_ids (hash_block_tokens s) = Inr chain" "ascending 0 (length token_ids) chain"
    by (rule BuildPrefixHashChain_ok [OF r(3) few])
  have bs: "?bs = boundary_blocks ?span ?b 0 chain" using chain(1) by (simp add: commit_blocks_def)
  obtain stop where stop: "concat (map (\<lambda>(a, e, d). group_slice spec a e ps) ?bs) = take (stop div ?r - 0 div ?r) (drop (0 div ?r) ps)"
    "\<forall>(a, e, d) \<in> set ?bs. e \<le> stop" "stop \<le> ?span"
    using slices_join [OF chain(2) _ r(2) refl r(1) len] unfolding bs by auto
  have "stop = ?span" using stop(2,3) reach by force
  moreover have same: "map (recalled_pages s spec ps) ?bs = map (\<lambda>(a, e, d). group_slice spec a e ps) ?bs"
    using fresh by (intro map_cong) (auto simp: recalled_pages_def)
  ultimately show ?thesis unfolding same using stop(1) by simp
qed

end
