(* ===== verification/Prefix_Calls.thy ===== *)
theory Prefix_Calls
  imports Prefix_Roundtrip
begin

text \<open>
  Sequences of calls: the four eviction methods under one name, an attachment and its release, and
  a release during a load.
\<close>

section \<open>The eviction methods\<close>

datatype evict_call =
    Until_free nat nat nat nat
  | Until_pages "GroupPageRequirement list" nat
  | All_unprotected
  | Namespace PrefixDigest

fun run_evict :: "evict_call \<Rightarrow> prefix_cache \<Rightarrow> PrefixEvictionResult result \<times> prefix_cache" where
  "run_evict (Until_free nodes entries handles scan) s = EvictUntilFree nodes entries handles scan s"
| "run_evict (Until_pages requirements scan) s = EvictUntilReleasablePages requirements scan s"
| "run_evict All_unprotected s = ClearUnprotected s"
| "run_evict (Namespace namespace) s = ClearNamespace namespace s"

lemma run_evict_ok:
  assumes inv: "pc_inv s"
  obtains r s' wanted where "run_evict c s = (Inr r, s')" and "evict_result wanted s r s'"
proof (cases c)
  case (Until_free nodes entries handles scan)
  show ?thesis by (rule EvictUntilFree_ok [OF inv, of nodes entries handles scan]) (use that Until_free in auto)
next
  case (Until_pages requirements scan)
  show ?thesis by (rule EvictUntilReleasablePages_ok [OF inv, of requirements scan]) (use that Until_pages in auto)
next
  case All_unprotected
  show ?thesis by (rule ClearUnprotected_ok [OF inv]) (use that All_unprotected in auto)
next
  case (Namespace namespace)
  show ?thesis by (rule ClearNamespace_ok [OF inv, of namespace]) (use that Namespace in auto)
qed

lemma evict_keeps:
  assumes "evict_result wanted s r s'" and "content s n = Some i" and "holds (local_attachments s) n \<noteq> 0"
  shows "content s' n = Some i"
proof -
  have gone: "content s m = Some j \<Longrightarrow> content s' m = None \<Longrightarrow> holds (local_attachments s) m = 0"
    and kept: "content s' m = Some j \<Longrightarrow> content s m = Some j" for m j
    using assms(1) unfolding evict_result_def by blast+
  show ?thesis using gone [OF assms(2)] kept [of n] assms(2,3) by (cases "content s' n") auto
qed

lemma held_member: "k \<in># held_pages s \<longleftrightarrow> (\<exists>n i. content s n = Some i \<and> k \<in> set (page_keys i))"
  using in_held by (cases k) blast

lemma evict_freed:
  assumes "evict_result wanted s r s'"
  shows "count (freed_keys (evicted_group_pages r)) k = (if k \<in># held_pages s \<and> k \<notin># held_pages s' then 1 else 0)"
  using assms unfolding evict_result_def by (simp add: count_mset_set')

section \<open>Attaching and releasing\<close>

definition without_epoch :: "node_info \<Rightarrow> node_info" where
  "without_epoch i = i\<lparr>ni_epoch := 0\<rparr>"

lemma attached_undone: "without_epoch (shift_active (\<lambda>k. k - count_list ns n) (attached ns e n i)) = without_epoch i"
  by (simp add: without_epoch_def attached_def shift_active_def comp_def)

lemma lookup_then_release:
  assumes inv: "pc_inv s" and few: "length tokens < 2 ^ 32" and hit: "lookup_run namespace tokens s \<noteq> []"
    and room: "attach_room (lookup_run namespace tokens s) s" and run: "LookupAndAttach namespace tokens s = (Inr r, s1)"
  shows "\<exists>s2. ReleaseAttachment (attachment_handle r) s1 = (Inr (), s2) \<and> local_attachments s2 = local_attachments s
    \<and> (\<forall>n. map_option without_epoch (content s2 n) = map_option without_epoch (content s n))"
proof -
  let ?ns = "lookup_run namespace tokens s" and ?h = "next_local_attachment s"
  let ?a = "\<lparr>att_nodes = lookup_run namespace tokens s, att_loads = 0, att_release = False\<rparr>"
  obtain t spans where l: "LookupAndAttach namespace tokens s =
      (Inr \<lparr>attachment_handle = ?h, common_cached_tokens = matched_end s 0 ?ns,
            materialization_spans = spans, miss_reason_mask = 0\<rparr>, t\<lparr>lookup_hits := u64 (lookup_hits s + 1)\<rparr>)" "pc_inv t"
    "content t = (\<lambda>n. map_option (attached ?ns (u64 (global_epoch s + 1)) n) (content s n))"
    "local_attachments t = (?h, ?a) # local_attachments s"
    by (rule LookupAndAttach_hit [OF inv few hit room]) blast
  have s1: "s1 = t\<lparr>lookup_hits := u64 (lookup_hits s + 1)\<rparr>" "attachment_handle r = ?h" using l(1) run by auto
  have inv1: "pc_inv s1" and c1: "content s1 = content t" and a1: "local_attachments s1 = (?h, ?a) # local_attachments s"
    using l(2,4) by (simp_all add: s1(1))
  have m: "map_of (local_attachments s1) ?h = Some ?a" using a1 by simp
  have pos: "0 < ?h" and fresh: "h' < ?h" if "(h', b) \<in> set (local_attachments s)" for h' b
    using pc_invD(4) [OF inv] that by (auto simp: attach_ok_def)
  have pos: "?h \<noteq> 0" using pc_invD(4) [OF inv] by (simp add: attach_ok_def)
  have er: "erase_attachment ?h (local_attachments s1) = local_attachments s"
    using fresh by (fastforce simp: a1 erase_attachment_def filter_id_conv)
  obtain es where d: "DecrementActiveRefsLocked (att_nodes ?a) (s1\<lparr>local_attachments := erase_attachment ?h (local_attachments s1)\<rparr>)
       = (Inr (), s1\<lparr>local_attachments := erase_attachment ?h (local_attachments s1), group_entries := es\<rparr>)"
    "content (s1\<lparr>local_attachments := erase_attachment ?h (local_attachments s1), group_entries := es\<rparr>)
       = (\<lambda>n. map_option (shift_active (\<lambda>k. k - count_list (att_nodes ?a) n)) (content s1 n))"
    by (rule drop_attachment [OF inv1 m]) simp_all
  let ?s2 = "s1\<lparr>local_attachments := erase_attachment ?h (local_attachments s1), group_entries := es\<rparr>"
  have "ReleaseAttachment ?h s1 = (Inr (), ?s2)" using m pos d(1) by (simp add: ReleaseAttachment_def)
  moreover have "map_option without_epoch (content ?s2 n) = map_option without_epoch (content s n)" for n
    unfolding d(2) c1 l(3) by (cases "content s n") (simp_all add: attached_undone)
  ultimately show ?thesis using s1(2) er by (intro exI [of _ ?s2]) simp
qed

lemma release_during_load:
  assumes inv: "pc_inv s" and room: "load_room h s" and a: "map_of (local_attachments s) h = Some a" "\<not> att_release a"
  shows "\<exists>s1 s2 s3. BeginAttachmentLoad h s = (Inr (), s1) \<and> ReleaseAttachment h s1 = (Inr (), s2)
    \<and> (\<forall>n \<in> set (att_nodes a). NodeIsProtectedLocked s2 (pc_nodes s2 ! n))
    \<and> EndAttachmentLoad h s2 = (Inr (), s3) \<and> (map_of (local_attachments s3) h = None \<longleftrightarrow> att_loads a = 0)"
proof -
  let ?b = "a\<lparr>att_loads := att_loads a + 1\<rparr>" and ?c = "a\<lparr>att_loads := att_loads a + 1, att_release := True\<rparr>"
  obtain es where b: "BeginAttachmentLoad h s = (Inr (), s\<lparr>local_attachments := assoc_put h ?b (local_attachments s), group_entries := es\<rparr>)"
    "pc_inv (s\<lparr>local_attachments := assoc_put h ?b (local_attachments s), group_entries := es\<rparr>)"
    by (rule begin_load [OF inv room a])
  let ?s1 = "s\<lparr>local_attachments := assoc_put h ?b (local_attachments s), group_entries := es\<rparr>"
  let ?s2 = "?s1\<lparr>local_attachments := assoc_put h ?c (local_attachments ?s1)\<rparr>"
  have h: "h \<noteq> 0" using attach_okD(4) [OF pc_invD(4) [OF inv] a(1)] by simp
  have m1: "map_of (local_attachments ?s1) h = Some ?b" and m2: "map_of (local_attachments ?s2) h = Some ?c" by (simp_all add: map_of_assoc_put)
  have r: "ReleaseAttachment h ?s1 = (Inr (), ?s2)" using m1 h a(2) by (simp add: ReleaseAttachment_def)
  have inv2: "pc_inv ?s2" using ReleaseAttachment_inv [OF b(2), of h] r by simp
  have prot: "NodeIsProtectedLocked ?s2 (pc_nodes ?s2 ! n)" if n: "n \<in> set (att_nodes a)" for n
  proof -
    have "n \<in> dom (content ?s2)" using attach_okD(3) [OF pc_invD(4) [OF inv2] m2] n by auto
    then obtain i where i: "content ?s2 n = Some i" by blast
    have "0 < count_list (att_nodes a) n" using n by (simp add: count_list_0_iff neq0_conv [symmetric])
    then have "holds (local_attachments ?s2) n \<noteq> 0" using holds_member(1) [OF m2, of n] by simp
    then show ?thesis using protected_iff [OF inv2 i] by simp
  qed
  let ?atts = "if att_release ?c \<and> att_loads ?c = 1 then erase_attachment h (local_attachments ?s2)
        else assoc_put h (?c\<lparr>att_loads := att_loads ?c - 1\<rparr>) (local_attachments ?s2)"
  obtain es' where e: "EndAttachmentLoad h ?s2 = (Inr (), ?s2\<lparr>local_attachments := ?atts, group_entries := es'\<rparr>)"
    by (rule finish_load [OF inv2 m2]) simp_all
  have "map_of (erase_attachment h xs) h = None" for xs :: "(nat \<times> LocalAttachment) list"
    by (auto simp: erase_attachment_def map_of_eq_None_iff)
  moreover have la: "local_attachments (x\<lparr>local_attachments := y, group_entries := z\<rparr>) = y" for x :: prefix_cache and y z by simp
  ultimately have "map_of ?atts h = None \<longleftrightarrow> att_loads a = 0" by (simp add: map_of_assoc_put)
  then have last: "map_of (local_attachments (?s2\<lparr>local_attachments := ?atts, group_entries := es'\<rparr>)) h = None \<longleftrightarrow> att_loads a = 0"
    unfolding la .
  show ?thesis
    by (rule exI [of _ ?s1], rule exI [of _ ?s2], rule exI [of _ "?s2\<lparr>local_attachments := ?atts, group_entries := es'\<rparr>"], intro conjI ballI)
      (fact b(1), fact r, erule prot, fact e, fact last)
qed

end
