(* ===== verification/Prefix_Properties.thy ===== *)
theory Prefix_Properties
  imports Prefix_Calls
begin

text \<open>
  What the prefix cache promises. The instances are built on \<open>pc_demo\<close>, a cache with one required
  group of two tokens per page, and on the same cache after one block was committed, with an
  attachment (\<open>pc_held\<close>) and without (\<open>pc_cached\<close>).
\<close>

definition pc_spec :: HostKVGroupSpec where
  "pc_spec = \<lparr>spec_group = 3, spec_semantic = kFullKV, required_for_reuse = True, raw_page_tokens = 2, compression_ratio = 1\<rparr>"

definition pc_config :: HostPrefixCacheConfig where
  "pc_config = \<lparr>shm_name = ''p'', cfg_group_specs = [pc_spec], cfg_hash_block_tokens = 0, cfg_max_nodes = 2,
     cfg_max_group_entries = 4, cfg_max_page_handles = 4\<rparr>"

definition pc_demo :: prefix_cache where
  "pc_demo = ConstructPrefixCache pc_config 2 2"

definition pc_after :: "bool \<Rightarrow> prefix_cache" where
  "pc_after protect = snd (CommitPrefixPages zero_digest [5, 6] 2 [(3, [7])] protect pc_demo)"

abbreviation pc_held :: prefix_cache where
  "pc_held \<equiv> pc_after True"

abbreviation pc_cached :: prefix_cache where
  "pc_cached \<equiv> pc_after False"

lemma pc_config_valid: "HostPrefixCacheCoordinator pc_config = Inr (2, 2)"
  by (simp add: HostPrefixCacheCoordinator_def pc_config_def pc_spec_def ValidateGroupSpec_def ComputeHashBlockTokens_def
      ComputeCommitBoundaryTokens_def Prefix_Hash.Lcm_def u32_def)

lemma pc_config_fits: "config_fits pc_config"
  by (simp add: config_fits_def pc_config_def pc_spec_def)

lemma pc_demo_reach: "pc_reach pc_demo"
  unfolding pc_demo_def by (rule reach_construct [OF pc_config_valid pc_config_fits])

lemma pc_demo_fields [simp]:
  "pc_specs pc_demo = [pc_spec]" "hash_block_tokens pc_demo = 2" "commit_boundary_tokens pc_demo = 2" "max_nodes pc_demo = 2"
  "max_group_entries pc_demo = 4" "max_page_handles pc_demo = 4" "local_attachments pc_demo = []" "next_local_attachment pc_demo = 1"
  by (simp_all add: pc_demo_def ConstructPrefixCache_def pc_config_def)

lemma pc_demo_content [simp]: "content pc_demo = Map.empty"
proof
  fix n
  have "\<not> is_resident (pc_nodes pc_demo ! n)" if "n < 2"
    using that by (simp add: pc_demo_def ConstructPrefixCache_def pc_config_def is_resident_def empty_node_def)
  then show "content pc_demo n = None" by (auto simp: content_None)
qed

lemma pc_demo_find [simp]: "FindNodeLocked pc_demo d = None"
  using FindNode_content [OF pc_invD(7,2) [OF reach_inv [OF pc_demo_reach]], of d] by (cases "FindNodeLocked pc_demo d") auto

abbreviation pc_digest :: PrefixDigest where
  "pc_digest \<equiv> HashPrefixBlock zero_digest zero_digest [5, 6] 2"

lemma pc_demo_blocks:
  "commit_span [5, 6] 2 pc_demo = 2" "commit_blocks zero_digest [5, 6] 2 pc_demo = [(0, 2, pc_digest)]"
  by (simp_all add: commit_span_def commit_blocks_def BuildPrefixHashChain_def Let_def u32_def)

lemma pc_demo_fits: "commit_fits [5, 6] pc_demo" "next_local_attachment pc_demo < 2 ^ 64 - 1"
  by (simp_all add: commit_fits_def)

lemma pc_demo_free: "\<not> commit_blocked zero_digest [5, 6] 2 [(3, [7])] pc_demo"
proof -
  note ok = pc_invD(1) [OF reach_inv [OF pc_demo_reach]]
  have "CountFreeNodeSlotsLocked pc_demo = 2" using free_slots [OF ok] by simp
  moreover have "length (block_groups (pages_by_group [(3, [7])]) 0 2 [pc_spec]) \<le> 4"
    using block_groups_length [of "pages_by_group [(3, [7])]" 0 2 "[pc_spec]"] by simp
  moreover have "length (all_pages (block_groups (pages_by_group [(3, [7])]) 0 2 [pc_spec])) \<le> 4"
    using block_groups_pages [of "pages_by_group [(3, [7])]" 0 2 "[pc_spec]"] by (simp del: length_concat)
  moreover have "check_required_pages (pages_by_group [(3, [7])]) 2 [pc_spec] = Inr ()"
    by (simp add: pages_by_group_def pc_spec_def)
  ultimately show ?thesis
    by (simp add: commit_blocked_def pc_demo_blocks CompactedArenaCapacity_iff [OF ok] held_entries_def held_pages_def
        del: length_concat)
qed

lemma pc_after_commit:
  obtains r n t where "CommitPrefixPages zero_digest [5, 6] 2 [(3, [7])] protect pc_demo = (Inr r, pc_after protect)"
    and "commit_done zero_digest [5, 6] 2 [(3, [7])] protect pc_demo r [n] t (pc_after protect)"
proof -
  obtain r ns t s' where run: "CommitPrefixPages zero_digest [5, 6] 2 [(3, [7])] protect pc_demo = (Inr r, s')"
    and d: "commit_done zero_digest [5, 6] 2 [(3, [7])] protect pc_demo r ns t s'"
    using CommitPrefixPages_cases [OF reach_inv [OF pc_demo_reach] pc_demo_fits, of zero_digest 2 "[(3, [7])]" protect] pc_demo_free by auto
  have held: "s' = pc_after protect" using run by (simp add: pc_after_def)
  have g: "grown zero_digest (pages_by_group [(3, [7])]) [(0, 2, pc_digest)] ns pc_demo t" using d by (simp add: commit_done_def pc_demo_blocks)
  have dom: "dom (content t) = set ns" and dist: "distinct ns" and "\<exists>m i. content t m = Some i" using g by (auto simp: grown_def)
  then obtain n ms where ns: "ns = n # ms" by (cases ns) auto
  have same: "m = k" if "m \<in> set ns" "k \<in> set ns" for m k
  proof -
    have "\<exists>e. content t m = Some (block_info zero_digest (pages_by_group [(3, [7])]) [pc_spec] e (0, 2, pc_digest))"
      "\<exists>e. content t k = Some (block_info zero_digest (pages_by_group [(3, [7])]) [pc_spec] e (0, 2, pc_digest))"
      using g that by (auto simp: grown_def)
    then obtain i j where "content t m = Some i" "content t k = Some j" "ni_digest i = ni_digest j" by (auto simp: block_info_def)
    then show ?thesis using digest_unique [of t] g pc_invD(2) by (auto simp: grown_def)
  qed
  have "ms = []"
  proof (cases ms)
    case (Cons k ks)
    then show ?thesis using same [of k n] dist ns by simp
  qed
  then show ?thesis using that [of r n t] run d held ns by simp
qed

lemma pc_after_reach: "pc_reach (pc_after protect)"
  by (rule pc_after_commit, rule reach_commit [OF pc_demo_reach pc_demo_fits])

lemmas pc_held_reach = pc_after_reach [of True] and pc_cached_reach = pc_after_reach [of False]

lemma pc_block: "group_keys (block_groups (pages_by_group [(3, [7])]) 0 2 [pc_spec]) = [(3, 7)]"
  by (simp add: group_keys_def group_pages_for_def pages_by_group_def pc_spec_def group_aligned_def group_covered_def
      first_page_def pages_needed_def group_slice_def group_template_def u32_def)

lemma pc_after_state:
  obtains n i where "local_attachments (pc_after protect) = (if protect then [(1, \<lparr>att_nodes = [n], att_loads = 0, att_release = False\<rparr>)] else [])"
    and "content (pc_after protect) n = Some i" and "dom (content (pc_after protect)) = {n}" and "ni_end i = 2" and "ni_digest i = pc_digest"
    and "page_keys i = [(3, 7)]"
proof -
  let ?i = "\<lambda>e. block_info zero_digest (pages_by_group [(3, [7])]) [pc_spec] e (0, 2, pc_digest)"
  obtain r n t where d: "commit_done zero_digest [5, 6] 2 [(3, [7])] protect pc_demo r [n] t (pc_after protect)" by (rule pc_after_commit)
  then have g: "grown zero_digest (pages_by_group [(3, [7])]) [(0, 2, pc_digest)] [n] pc_demo t" by (simp add: commit_done_def pc_demo_blocks)
  have st: "setting t = setting pc_demo" using g by (simp add: grown_def)
  obtain e where t: "content t n = Some (?i e)" using g by (auto simp: grown_def)
  have dom: "dom (content t) = {n}" using g by (simp add: grown_def)
  have i: "ni_end (?i e) = 2" "ni_digest (?i e) = pc_digest" "page_keys (?i e) = [(3, 7)]"
    by (simp_all only: block_keys pc_block) (simp_all add: block_info_def)
  show ?thesis
  proof (cases protect)
    case True
    then obtain nodes es where held: "pc_after protect = attach_state [n] nodes es t"
      and c: "content (pc_after protect) = (\<lambda>m. map_option (attached [n] (u64 (global_epoch t + 1)) m) (content t m))"
      using d by (auto simp: commit_done_def)
    have "dom (content (pc_after protect)) = {n}" using dom unfolding c by (auto simp: dom_def)
    moreover have "local_attachments (pc_after protect) = [(1, \<lparr>att_nodes = [n], att_loads = 0, att_release = False\<rparr>)]"
      using setting_fields(4,5) [OF st] by (simp add: held attach_state_def)
    moreover have "content (pc_after protect) n = Some (attached [n] (u64 (global_epoch t + 1)) n (?i e))" by (simp add: c t)
    moreover have "page_keys (attached ns u n j) = page_keys j" "ni_end (attached ns u n j) = ni_end j" "ni_digest (attached ns u n j) = ni_digest j"
      for ns u n j by (simp_all add: page_keys_def attached_def shift_active_def comp_def)
    ultimately show ?thesis using that [of n "attached [n] (u64 (global_epoch t + 1)) n (?i e)"] i True by simp
  next
    case False
    then show ?thesis using that [of n "?i e"] i d t dom setting_fields(4) [OF st] by (simp add: commit_done_def)
  qed
qed

lemma pc_after_fields [simp]:
  "pc_specs (pc_after protect) = [pc_spec]" "hash_block_tokens (pc_after protect) = 2" "commit_boundary_tokens (pc_after protect) = 2"
  "next_local_attachment (pc_after protect) = (if protect then 2 else 1)"
proof -
  obtain r n t where d: "commit_done zero_digest [5, 6] 2 [(3, [7])] protect pc_demo r [n] t (pc_after protect)" by (rule pc_after_commit)
  then have st: "setting t = setting pc_demo" and held: "if protect then \<exists>nodes es. pc_after protect = attach_state [n] nodes es t else pc_after protect = t"
    by (auto simp: commit_done_def grown_def split: if_splits)
  show "pc_specs (pc_after protect) = [pc_spec]" "hash_block_tokens (pc_after protect) = 2" "commit_boundary_tokens (pc_after protect) = 2"
    "next_local_attachment (pc_after protect) = (if protect then 2 else 1)"
    using setting_fields [OF st] held by (auto simp: attach_state_def split: if_splits)
qed

lemma pc_held_node:
  obtains n i where "local_attachments pc_held = [(1, \<lparr>att_nodes = [n], att_loads = 0, att_release = False\<rparr>)]" and "content pc_held n = Some i"
    and "ni_digest i = pc_digest"
  by (rule pc_after_state [of True]) simp

lemma pc_cached_count: "CountReleasablePages pc_cached 3 = 1"
proof -
  obtain n i where s: "local_attachments pc_cached = []" "content pc_cached n = Some i" "dom (content pc_cached) = {n}" "page_keys i = [(3, 7)]"
    by (rule pc_after_state [of False]) simp
  have one: "content pc_cached m = Some j \<longleftrightarrow> m = n \<and> j = i" for m j using s(2,3) by (cases "m = n") auto
  have "releasable pc_cached 3 = {7}" unfolding releasable_def one s(1) by (auto simp: s(4) holds_def)
  then show ?thesis using CountReleasablePages_eq [OF reach_inv [OF pc_cached_reach]] by simp
qed

section \<open>The books of the cache\<close>

text \<open>
  C7. In every state the methods lead to, the node index finds exactly the resident node with the
  digest, and the page reference table counts for each page of a group how many times the resident
  nodes hold it.
\<close>
theorem prefix_books_exact:
  assumes "pc_reach s"
  shows "(FindNodeLocked s d = Some n \<longleftrightarrow> n < max_nodes s \<and> is_resident (pc_nodes s ! n) \<and> node_digest (pc_nodes s ! n) = d)
    \<and> (case FindPageRefSlotLocked s g p of None \<Rightarrow> 0 | Some i \<Rightarrow> pslot_refs (page_ref_slots s ! i)) = count (held_pages s) (g, p)"
proof
  note inv = reach_inv [OF assms]
  show "FindNodeLocked s d = Some n \<longleftrightarrow> n < max_nodes s \<and> is_resident (pc_nodes s ! n) \<and> node_digest (pc_nodes s ! n) = d"
    unfolding FindNode_content [OF pc_invD(7,2) [OF inv]] by (auto simp: content_Some describe_def)
  show "(case FindPageRefSlotLocked s g p of None \<Rightarrow> 0 | Some i \<Rightarrow> pslot_refs (page_ref_slots s ! i)) = count (held_pages s) (g, p)"
    using FindPageRefSlot_map [OF pc_invD(7) [OF inv] refs_countD(1) [OF pc_invD(3) [OF inv]], of g p]
      refs_countD(2) [OF pc_invD(3) [OF inv], of "(g, p)"]
    by (cases "FindPageRefSlotLocked s g p") (auto split: if_splits)
qed

theorem prefix_books_exact_witness:
  "\<exists>n. FindNodeLocked pc_held pc_digest = Some n \<and> n < max_nodes pc_held \<and> is_resident (pc_nodes pc_held ! n)"
proof -
  obtain n i where "content pc_held n = Some i" "ni_digest i = pc_digest" by (rule pc_held_node)
  then have "n < max_nodes pc_held \<and> is_resident (pc_nodes pc_held ! n) \<and> node_digest (pc_nodes pc_held ! n) = pc_digest"
    by (auto simp: content_Some describe_def)
  then show ?thesis using prefix_books_exact [OF pc_held_reach, of pc_digest n] by auto
qed

text \<open>Every slot in use of the two tables stands for an entry of its map, and a masked hash is a slot.\<close>

lemma index_slot_node:
  assumes "pc_inv s" and "x \<in> set (node_index_slots s)" and "islot_state x = kResident"
  shows "islot_node x < max_nodes s" and "is_resident (pc_nodes s ! islot_node x)"
    and "node_digest (pc_nodes s ! islot_node x) = islot_digest x"
proof -
  have "probe_inv node_cls node_order (node_index_slots s)" using pc_invD(8) [OF assms(1)] by (simp add: index_wf_def)
  moreover have "\<exists>i < length (node_index_slots s). node_cls (node_index_slots s ! i) = Held (islot_digest x)
      \<and> islot_node (node_index_slots s ! i) = islot_node x"
    using assms(2,3) by (auto simp: in_set_conv_nth node_cls_def)
  ultimately have "index_map s (islot_digest x) = Some (islot_node x)" by (simp only: node_tab.map_iff)
  then have "\<exists>i. content s (islot_node x) = Some i \<and> ni_digest i = islot_digest x"
    using pc_invD(2) [OF assms(1)] by (simp add: index_exact_def)
  then show "islot_node x < max_nodes s" and "is_resident (pc_nodes s ! islot_node x)"
    and "node_digest (pc_nodes s ! islot_node x) = islot_digest x" by (auto simp: content_Some describe_def)
qed

lemma ref_slot_count:
  assumes "pc_inv s" and "x \<in> set (page_ref_slots s)" and "pslot_state x = kResident"
  shows "0 < pslot_refs x" and "pslot_refs x = count (held_pages s) (pslot_group x, pslot_page x)"
proof -
  note refs = refs_countD [OF pc_invD(3) [OF assms(1)]]
  have "probe_inv ref_cls ref_order (page_ref_slots s)" using refs(1) by (simp add: refs_wf_def)
  moreover have "\<exists>i < length (page_ref_slots s). ref_cls (page_ref_slots s ! i) = Held (pslot_group x, pslot_page x)
      \<and> pslot_refs (page_ref_slots s ! i) = pslot_refs x"
    using assms(2,3) by (auto simp: in_set_conv_nth ref_cls_def)
  ultimately have "ref_map s (pslot_group x, pslot_page x) = Some (pslot_refs x)" by (simp only: ref_tab.map_iff)
  then show "0 < pslot_refs x" and "pslot_refs x = count (held_pages s) (pslot_group x, pslot_page x)"
    using refs(2) [of "(pslot_group x, pslot_page x)"] by (auto split: if_splits simp flip: count_greater_zero_iff)
qed

lemma masked_probe:
  assumes "pc_inv s"
  shows "length (node_index_slots s) = MaxNodeIndexSlots (max_nodes s)"
    and "length (page_ref_slots s) = MaxPageRefSlots (max_page_handles s)"
    and "h AND u32_sub (length (node_index_slots s)) 1 < length (node_index_slots s)"
    and "h AND u32_sub (length (page_ref_slots s)) 1 < length (page_ref_slots s)"
proof -
  show n: "length (node_index_slots s) = MaxNodeIndexSlots (max_nodes s)" using pc_invD(8) [OF assms] by (simp add: index_wf_def)
  show p: "length (page_ref_slots s) = MaxPageRefSlots (max_page_handles s)"
    using refs_countD(1) [OF pc_invD(3) [OF assms]] by (simp add: refs_wf_def)
  show "h AND u32_sub (length (node_index_slots s)) 1 < length (node_index_slots s)"
    unfolding n by (rule index_size [OF pc_invD(7) [OF assms]]) (simp only: mask_mod mod_less_divisor)
  show "h AND u32_sub (length (page_ref_slots s)) 1 < length (page_ref_slots s)"
    unfolding p by (rule refs_size [OF pc_invD(7) [OF assms]]) (simp only: mask_mod mod_less_divisor)
qed

text \<open>
  C27. In every reachable state the five arrays of the cache have the lengths they were laid out
  with, and the indices stored in them are in range: the entries of a resident node are resident
  entries below the tail of their arena and their page handles lie below the tail of theirs; a
  resident slot of the node index names a resident node with the digest of the slot; an attachment
  names resident nodes only. A hash masked with the size of a table is a slot of it, and a resident
  slot of the page reference table counts the references of its page, at least one.
\<close>
theorem prefix_indices_in_range:
  assumes "pc_reach s"
  shows "length (pc_nodes s) = max_nodes s \<and> length (group_entries s) = max_group_entries s \<and> length (page_handles s) = max_page_handles s
    \<and> length (node_index_slots s) = MaxNodeIndexSlots (max_nodes s) \<and> length (page_ref_slots s) = MaxPageRefSlots (max_page_handles s)
    \<and> next_group_entry s \<le> max_group_entries s \<and> next_page_handle s \<le> max_page_handles s
    \<and> (\<forall>h. h AND u32_sub (length (node_index_slots s)) 1 < length (node_index_slots s)
          \<and> h AND u32_sub (length (page_ref_slots s)) 1 < length (page_ref_slots s))
    \<and> (\<forall>node \<in> set (pc_nodes s). is_resident node \<longrightarrow> (\<forall>i \<in> set (entry_slots node). i < next_group_entry s
          \<and> entry_state (group_entries s ! i) = kResident
          \<and> first_page_handle (group_entries s ! i) + page_handle_count (group_entries s ! i) \<le> next_page_handle s))
    \<and> (\<forall>x \<in> set (node_index_slots s). islot_state x = kResident \<longrightarrow> islot_node x < max_nodes s
          \<and> is_resident (pc_nodes s ! islot_node x) \<and> node_digest (pc_nodes s ! islot_node x) = islot_digest x)
    \<and> (\<forall>x \<in> set (page_ref_slots s). pslot_state x = kResident \<longrightarrow>
          0 < pslot_refs x \<and> pslot_refs x = count (held_pages s) (pslot_group x, pslot_page x))
    \<and> (\<forall>(h, a) \<in> set (local_attachments s). \<forall>n \<in> set (att_nodes a). n < max_nodes s \<and> is_resident (pc_nodes s ! n))"
proof -
  note inv = reach_inv [OF assms] and ok = pc_invD(1) [OF reach_inv [OF assms]]
  have "i < next_group_entry s \<and> entry_state (group_entries s ! i) = kResident
      \<and> first_page_handle (group_entries s ! i) + page_handle_count (group_entries s ! i) \<le> next_page_handle s"
    if node: "node \<in> set (pc_nodes s)" "is_resident node" and i: "i \<in> set (entry_slots node)" for node i
  proof -
    have "node_ok s node" using ok node by (auto simp: arena_ok_def in_set_conv_nth)
    moreover from entry_slots_range(2) [OF ok this] have "i \<in> slot_range node" using i by simp
    ultimately show ?thesis by (auto simp: node_ok_def entry_ok_def slot_range_def)
  qed
  moreover have "n < max_nodes s \<and> is_resident (pc_nodes s ! n)" if "(h, a) \<in> set (local_attachments s)" "n \<in> set (att_nodes a)" for h a n
  proof -
    have "n \<in> dom (content s)" using pc_invD(4) [OF inv] that by (auto simp: attach_ok_def)
    then show ?thesis by (auto simp: content_Some)
  qed
  ultimately show ?thesis
    using arena_sizes [OF ok] masked_probe [OF inv] index_slot_node [OF inv] ref_slot_count [OF inv] by blast
qed

theorem prefix_indices_in_range_witness:
  "length (pc_nodes pc_held) = max_nodes pc_held \<and> next_page_handle pc_held \<le> max_page_handles pc_held
    \<and> islot_node ` {x \<in> set (node_index_slots pc_held). islot_state x = kResident} \<subseteq> {..<max_nodes pc_held}"
  using prefix_indices_in_range [OF pc_held_reach] by auto

section \<open>Eviction\<close>

text \<open>
  C4. No eviction method throws in a reachable state, and the pages it returns to its caller are
  exactly those that a resident node held before the call and none holds after it, each of them once.
\<close>
theorem eviction_frees_exactly:
  assumes "pc_reach s"
  shows "\<exists>r s'. run_evict c s = (Inr r, s')
    \<and> (\<forall>k. count (freed_keys (evicted_group_pages r)) k = (if k \<in># held_pages s \<and> k \<notin># held_pages s' then 1 else 0))"
proof -
  obtain r s' wanted where "run_evict c s = (Inr r, s')" "evict_result wanted s r s'" by (rule run_evict_ok [OF reach_inv [OF assms]])
  then show ?thesis using evict_freed by blast
qed

theorem eviction_frees_exactly_witness:
  "\<exists>r s'. ClearUnprotected pc_held = (Inr r, s')
    \<and> (\<forall>k. count (freed_keys (evicted_group_pages r)) k = (if k \<in># held_pages pc_held \<and> k \<notin># held_pages s' then 1 else 0))"
  using eviction_frees_exactly [OF pc_held_reach, of All_unprotected] by simp

text \<open>
  C10. A node that an attachment holds survives every eviction unchanged, and none of its pages is
  returned to the caller.
\<close>
theorem eviction_spares_attached:
  assumes "pc_reach s" and "run_evict c s = (Inr r, s')" and "content s n = Some i"
    and "\<exists>(h, a) \<in> set (local_attachments s). n \<in> set (att_nodes a)"
  shows "content s' n = Some i \<and> (\<forall>k \<in> set (page_keys i). k \<notin># freed_keys (evicted_group_pages r))"
proof -
  obtain r' t wanted where "run_evict c s = (Inr r', t)" "evict_result wanted s r' t" by (rule run_evict_ok [OF reach_inv [OF assms(1)]])
  then have res: "evict_result wanted s r s'" using assms(2) by simp
  obtain h a where a: "(h, a) \<in> set (local_attachments s)" "n \<in> set (att_nodes a)" using assms(4) by blast
  have "map_of (local_attachments s) h = Some a"
    using pc_invD(4) [OF reach_inv [OF assms(1)]] a(1) by (simp add: attach_ok_def)
  then have "0 < holds (local_attachments s) n"
    using holds_member(1) [of _ h a n] a(2) count_list_0_iff [of "att_nodes a" n] by (metis gr0I le_zero_eq)
  then have c: "content s' n = Some i" using evict_keeps [OF res assms(3)] by simp
  then have "k \<in># held_pages s'" if "k \<in> set (page_keys i)" for k using that held_member by blast
  then show ?thesis using c evict_freed [OF res] by (simp add: not_in_iff)
qed

theorem eviction_spares_attached_witness:
  "\<exists>n i r s'. content pc_held n = Some i \<and> ClearUnprotected pc_held = (Inr r, s') \<and> content s' n = Some i"
proof -
  obtain n i where held: "local_attachments pc_held = [(1, \<lparr>att_nodes = [n], att_loads = 0, att_release = False\<rparr>)]" "content pc_held n = Some i"
    by (rule pc_held_node)
  obtain r s' wanted where run: "run_evict All_unprotected pc_held = (Inr r, s')" by (rule run_evict_ok [OF reach_inv [OF pc_held_reach]])
  have "content s' n = Some i" using eviction_spares_attached [OF pc_held_reach run held(2)] held(1) by simp
  then show ?thesis using run held(2) by auto
qed

text \<open>
  C28. \<open>CountReleasablePages\<close> predicts \<open>ClearUnprotected\<close>: for every group, it is the number of pages
  of the group that a full clearing returns.
\<close>
theorem count_predicts_clear:
  assumes "pc_reach s"
  shows "\<exists>r s'. ClearUnprotected s = (Inr r, s') \<and> (\<forall>g. returned (evicted_group_pages r) g = CountReleasablePages s g)"
proof -
  note inv = reach_inv [OF assms]
  obtain r s' where r: "ClearUnprotected s = (Inr r, s')" "evict_result (\<lambda>_. True) s r s'"
    "\<And>m. content s' m = (if holds (local_attachments s) m = 0 then None else content s m)"
    by (rule ClearUnprotected_ok [OF inv]) blast
  have "content s' m \<noteq> None \<Longrightarrow> holds (local_attachments s) m \<noteq> 0" for m using r(3) [of m] by (auto split: if_splits)
  then have "returned (evicted_group_pages r) g = CountReleasablePages s g" for g by (rule freed_when_clear [OF inv r(2)])
  then show ?thesis using r(1) by blast
qed

theorem count_predicts_clear_witness:
  "\<exists>r s'. ClearUnprotected pc_held = (Inr r, s') \<and> (\<forall>g. returned (evicted_group_pages r) g = CountReleasablePages pc_held g)"
  by (rule count_predicts_clear [OF pc_held_reach])

text \<open>
  C29. When \<open>CountReleasablePages\<close> covers every requirement, an unlimited \<open>EvictUntilReleasablePages\<close>
  returns at least the required number of pages of every group.
\<close>
theorem evict_pages_sufficient:
  assumes "pc_reach s" and "\<forall>(g, n) \<in> set (NormalizePageRequirements requirements). n \<le> CountReleasablePages s g"
  shows "\<exists>r s'. EvictUntilReleasablePages requirements 0 s = (Inr r, s')
    \<and> (\<forall>(g, n) \<in> set (NormalizePageRequirements requirements). n \<le> returned (evicted_group_pages r) g)"
proof -
  note inv = reach_inv [OF assms(1)]
  obtain r s' where r: "EvictUntilReleasablePages requirements 0 s = (Inr r, s')" "evict_result (\<lambda>_. True) s r s'"
    "(0 :: nat) = 0 \<longrightarrow> HasEnoughReleasablePages r (NormalizePageRequirements requirements)
       \<or> (\<forall>m. content s' m \<noteq> None \<longrightarrow> holds (local_attachments s) m \<noteq> 0)"
    by (rule EvictUntilReleasablePages_ok [OF inv])
  then consider "HasEnoughReleasablePages r (NormalizePageRequirements requirements)"
    | "\<forall>m. content s' m \<noteq> None \<longrightarrow> holds (local_attachments s) m \<noteq> 0" by blast
  then have "\<forall>(g, n) \<in> set (NormalizePageRequirements requirements). n \<le> returned (evicted_group_pages r) g"
  proof cases
    case 1
    then show ?thesis using HasEnough_iff [OF r(2) inv] by simp
  next
    case 2
    then have "returned (evicted_group_pages r) g = CountReleasablePages s g" for g using freed_when_clear [OF inv r(2)] by blast
    then show ?thesis using assms(2) by simp
  qed
  then show ?thesis using r(1) by blast
qed

theorem evict_pages_sufficient_witness:
  "\<exists>r s'. EvictUntilReleasablePages [\<lparr>requirement_group = 3, min_pages = 1\<rparr>] 0 pc_cached = (Inr r, s')
    \<and> 1 \<le> returned (evicted_group_pages r) 3"
  using evict_pages_sufficient [OF pc_cached_reach, of "[\<lparr>requirement_group = 3, min_pages = 1\<rparr>]"]
  by (simp add: NormalizePageRequirements_def u32_def pc_cached_count)

text \<open>
  C30. An unlimited \<open>EvictUntilFree\<close> ends with the room it was asked for, or with attached nodes only.
\<close>
theorem evict_free_makes_room:
  assumes "pc_reach s"
  shows "\<exists>r s'. EvictUntilFree nodes entries handles 0 s = (Inr r, s')
    \<and> (nodes \<le> CountFreeNodeSlotsLocked s' \<and> TailArenaCapacityEnoughLocked s' entries handles
       \<or> (\<forall>node \<in> set (pc_nodes s'). is_resident node \<longrightarrow> NodeIsProtectedLocked s' node))"
proof -
  note inv = reach_inv [OF assms]
  obtain r s' where r: "EvictUntilFree nodes entries handles 0 s = (Inr r, s')" "evict_result (\<lambda>_. True) s r s'"
    "(0 :: nat) = 0 \<longrightarrow> (nodes \<le> CountFreeNodeSlotsLocked s' \<and> TailArenaCapacityEnoughLocked s' entries handles)
       \<or> (\<forall>m. content s' m \<noteq> None \<longrightarrow> holds (local_attachments s) m \<noteq> 0)"
    by (rule EvictUntilFree_ok [OF inv])
  have inv': "pc_inv s'" using r(2) by (simp add: evict_result_def)
  have atts: "local_attachments s' = local_attachments s" using r(2) outer_fields(4) [of s'] by (simp add: evict_result_def)
  have "NodeIsProtectedLocked s' node" if all: "\<forall>m. content s' m \<noteq> None \<longrightarrow> holds (local_attachments s) m \<noteq> 0"
    and node: "node \<in> set (pc_nodes s')" "is_resident node" for node
  proof -
    obtain m where m: "m < max_nodes s'" "pc_nodes s' ! m = node"
      using node(1) arena_sizes(4) [OF pc_invD(1) [OF inv']] by (auto simp: in_set_conv_nth)
    then obtain i where i: "content s' m = Some i" using node(2) by (auto simp: content_def)
    then show ?thesis using all protected_iff [OF inv' i] m(2) atts by auto
  qed
  then show ?thesis using r(1,3) by blast
qed

theorem evict_free_makes_room_witness:
  "\<exists>r s'. EvictUntilFree 2 4 4 0 pc_held = (Inr r, s')
    \<and> (2 \<le> CountFreeNodeSlotsLocked s' \<and> TailArenaCapacityEnoughLocked s' 4 4
       \<or> (\<forall>node \<in> set (pc_nodes s'). is_resident node \<longrightarrow> NodeIsProtectedLocked s' node))"
  by (rule evict_free_makes_room [OF pc_held_reach])

text \<open>
  C31. \<open>ClearNamespace\<close> removes exactly the nodes of the namespace that no attachment holds.
\<close>
theorem clear_namespace_exact:
  assumes "pc_reach s"
  shows "\<exists>r s'. ClearNamespace namespace s = (Inr r, s')
    \<and> (\<forall>n i. content s' n = Some i \<longleftrightarrow> content s n = Some i \<and> (NodeIsProtectedLocked s (pc_nodes s ! n) \<or> ni_namespace i \<noteq> namespace))"
proof -
  note inv = reach_inv [OF assms]
  obtain r s' where "ClearNamespace namespace s = (Inr r, s')" "evict_result (\<lambda>i. ni_namespace i = namespace) s r s'"
    "\<And>m i. content s' m = Some i \<longleftrightarrow> content s m = Some i \<and> (holds (local_attachments s) m \<noteq> 0 \<or> ni_namespace i \<noteq> namespace)"
    by (rule ClearNamespace_ok [OF inv]) blast
  then show ?thesis using protected_iff [OF inv] by blast
qed

theorem clear_namespace_exact_witness:
  "\<exists>r s'. ClearNamespace zero_digest pc_held = (Inr r, s') \<and> (\<exists>n i. content s' n = Some i)"
proof -
  obtain n i where held: "local_attachments pc_held = [(1, \<lparr>att_nodes = [n], att_loads = 0, att_release = False\<rparr>)]" "content pc_held n = Some i"
    by (rule pc_held_node)
  have "holds (local_attachments pc_held) n \<noteq> 0" by (simp add: held(1) holds_def)
  then have "NodeIsProtectedLocked pc_held (pc_nodes pc_held ! n)" using protected_iff [OF reach_inv [OF pc_held_reach] held(2)] by simp
  then show ?thesis using clear_namespace_exact [OF pc_held_reach, of zero_digest] held(2) by blast
qed

text \<open>
  C32. Compacting the arenas leaves the content of the cache as it is and no gap in either arena.
\<close>
theorem compaction_keeps_content:
  assumes "pc_reach s"
  shows "\<exists>s'. CompactArenasLocked s = (Inr (), s') \<and> content s' = content s \<and> local_attachments s' = local_attachments s
    \<and> next_group_entry s' = held_entries s \<and> next_page_handle s' = size (held_pages s)"
proof -
  obtain s' where "CompactArenasLocked s = (Inr (), s')" "content s' = content s" "frame s' = frame s"
    "next_group_entry s' = held_entries s" "next_page_handle s' = size (held_pages s)"
    by (rule CompactArenas_ok [OF reach_inv [OF assms]])
  then show ?thesis using frame_fields [of s' s] by blast
qed

theorem compaction_keeps_content_witness:
  "\<exists>s'. CompactArenasLocked pc_held = (Inr (), s') \<and> content s' = content pc_held"
  using compaction_keeps_content [OF pc_held_reach] by blast

section \<open>Commits and lookups\<close>

text \<open>
  C5. A commit is all or nothing. It throws exactly when a required group has too few pages, there
  are fewer free nodes than new blocks, or the compacted arenas lack the room, and then it changes
  neither the content nor the attachments; otherwise it leaves every block of the prefix in the index.
\<close>
theorem commit_all_or_nothing:
  assumes "pc_reach s" and "commit_fits token_ids s" and "next_local_attachment s < 2 ^ 64 - 1"
  shows "if commit_blocked namespace token_ids commit_tokens group_pages s
    then \<exists>e s'. CommitPrefixPages namespace token_ids commit_tokens group_pages protect s = (Inl e, s')
      \<and> content s' = content s \<and> local_attachments s' = local_attachments s
    else \<exists>r s'. CommitPrefixPages namespace token_ids commit_tokens group_pages protect s = (Inr r, s')
      \<and> committed_tokens r = commit_span token_ids commit_tokens s
      \<and> (\<forall>(a, e, d) \<in> set (commit_blocks namespace token_ids commit_tokens s). FindNodeLocked s' d \<noteq> None)"
proof (cases "commit_blocked namespace token_ids commit_tokens group_pages s")
  case True
  then obtain e s' where "CommitPrefixPages namespace token_ids commit_tokens group_pages protect s = (Inl e, s')" "tidied s s'"
    using CommitPrefixPages_cases [OF reach_inv [OF assms(1)] assms(2,3), of namespace commit_tokens group_pages protect] by auto
  then show ?thesis using True outer_fields(4) [of s' s] by (simp add: tidied_def)
next
  case False
  then obtain r ns t s' where run: "CommitPrefixPages namespace token_ids commit_tokens group_pages protect s = (Inr r, s')"
    and d: "commit_done namespace token_ids commit_tokens group_pages protect s r ns t s'"
    using CommitPrefixPages_cases [OF reach_inv [OF assms(1)] assms(2,3), of namespace commit_tokens group_pages protect] by auto
  have g: "grown namespace (pages_by_group group_pages) (commit_blocks namespace token_ids commit_tokens s) ns s t" and inv': "pc_inv s'"
    using d by (simp_all add: commit_done_def)
  have "\<forall>(a, e, d) \<in> set (commit_blocks namespace token_ids commit_tokens s). FindNodeLocked s' d \<noteq> None"
    by (rule committed_found [OF g done_digests(1) [OF d] inv'])
  then show ?thesis using False run d by (simp add: commit_done_def)
qed

theorem commit_all_or_nothing_witness:
  "\<exists>r s'. CommitPrefixPages zero_digest [5, 6] 2 [(3, [7])] True pc_demo = (Inr r, s') \<and> FindNodeLocked s' pc_digest \<noteq> None"
  using commit_all_or_nothing [OF pc_demo_reach pc_demo_fits, of zero_digest 2 "[(3, [7])]" True] pc_demo_free
  by (auto simp: pc_demo_blocks)

text \<open>
  C12. A lookup matches the longest run of block boundaries from the start of the prompt whose digests are in the
  cache, attaches exactly the nodes of the run under a new handle, and returns for every group of
  them the pages of the run in order; a lookup without a match changes nothing but its counter.
\<close>
theorem lookup_longest_run:
  assumes "pc_reach s" and "length tokens < 2 ^ 32" and "attach_room (lookup_run namespace tokens s) s"
  shows "\<exists>q s'. LookupAndAttach namespace tokens s = (Inr q, s')
    \<and> (if lookup_run namespace tokens s = []
       then attachment_handle q = 0 \<and> common_cached_tokens q = 0 \<and> materialization_spans q = []
         \<and> s' = s\<lparr>lookup_misses := u64 (lookup_misses s + 1)\<rparr>
       else attachment_handle q = next_local_attachment s
         \<and> common_cached_tokens q = node_end (pc_nodes s ! last (lookup_run namespace tokens s))
         \<and> run_spans s (lookup_run namespace tokens s) (materialization_spans q)
         \<and> local_attachments s' = (attachment_handle q,
             \<lparr>att_nodes = lookup_run namespace tokens s, att_loads = 0, att_release = False\<rparr>) # local_attachments s)"
proof (cases "lookup_run namespace tokens s = []")
  case True
  then show ?thesis using LookupAndAttach_miss [OF reach_inv [OF assms(1)] assms(2) True] by (simp add: no_lookup_def)
next
  case False
  note inv = reach_inv [OF assms(1)]
  obtain t spans where l: "LookupAndAttach namespace tokens s =
      (Inr \<lparr>attachment_handle = next_local_attachment s, common_cached_tokens = matched_end s 0 (lookup_run namespace tokens s),
            materialization_spans = spans, miss_reason_mask = 0\<rparr>, t\<lparr>lookup_hits := u64 (lookup_hits s + 1)\<rparr>)"
    "local_attachments t = (next_local_attachment s, \<lparr>att_nodes = lookup_run namespace tokens s, att_loads = 0, att_release = False\<rparr>) # local_attachments s"
    "run_spans s (lookup_run namespace tokens s) spans"
    by (rule LookupAndAttach_hit [OF inv assms(2) False assms(3)]) blast
  have "last (lookup_run namespace tokens s) \<in> dom (content s)"
    using False matched_dom [OF inv, of "lookup_blocks namespace tokens s"] last_in_set unfolding lookup_run_def by blast
  then obtain i where i: "content s (last (lookup_run namespace tokens s)) = Some i" by blast
  then have "ni_end i = node_end (pc_nodes s ! last (lookup_run namespace tokens s))" by (simp add: content_Some describe_def)
  then have "matched_end s 0 (lookup_run namespace tokens s) = node_end (pc_nodes s ! last (lookup_run namespace tokens s))"
    using False i by (simp add: matched_end_def)
  then show ?thesis using False l by simp
qed

lemma pc_lookup_blocks: "lookup_blocks zero_digest [5, 6, 8] (pc_after protect) = [(0, 2, pc_digest)]"
proof -
  have "take 2 [5, 6, 8 :: int] = take 2 [5, 6]" by simp
  then have "HashPrefixBlock zero_digest zero_digest [5, 6, 8] 2 = pc_digest" by (simp only: HashPrefixBlock_def)
  then show ?thesis by (simp add: lookup_blocks_def BuildPrefixHashChain_def Let_def u32_def)
qed

lemma pc_after_find:
  obtains n i where "FindNodeLocked (pc_after protect) pc_digest = Some n" and "content (pc_after protect) n = Some i" and "ni_end i = 2"
    and "local_attachments (pc_after protect) = (if protect then [(1, \<lparr>att_nodes = [n], att_loads = 0, att_release = False\<rparr>)] else [])"
proof -
  obtain n i where s: "local_attachments (pc_after protect) = (if protect then [(1, \<lparr>att_nodes = [n], att_loads = 0, att_release = False\<rparr>)] else [])"
    "content (pc_after protect) n = Some i" "ni_end i = 2" "ni_digest i = pc_digest" by (rule pc_after_state)
  then have "FindNodeLocked (pc_after protect) pc_digest = Some n"
    using FindNode_content [OF pc_invD(7,2) [OF reach_inv [OF pc_after_reach]]] by blast
  then show ?thesis using that s by blast
qed

lemma pc_after_room:
  shows "lookup_run zero_digest [5, 6, 8] (pc_after protect) \<noteq> []"
    and "attach_room (lookup_run zero_digest [5, 6, 8] (pc_after protect)) (pc_after protect)"
proof -
  obtain n where f: "FindNodeLocked (pc_after protect) pc_digest = Some n"
    and s: "local_attachments (pc_after protect) = (if protect then [(1, \<lparr>att_nodes = [n], att_loads = 0, att_release = False\<rparr>)] else [])"
    by (rule pc_after_find)
  have run: "lookup_run zero_digest [5, 6, 8] (pc_after protect) = [n]" by (simp add: lookup_run_def pc_lookup_blocks f)
  show "lookup_run zero_digest [5, 6, 8] (pc_after protect) \<noteq> []"
    and "attach_room (lookup_run zero_digest [5, 6, 8] (pc_after protect)) (pc_after protect)"
    unfolding run by (auto simp: attach_room_def s holds_def)
qed

theorem lookup_longest_run_witness:
  "\<exists>q s'. LookupAndAttach zero_digest [5, 6, 8] pc_held = (Inr q, s') \<and> attachment_handle q = 2"
  using lookup_longest_run [OF pc_held_reach _ pc_after_room(2)] pc_after_room(1) [of True] by auto

lemma run_pages_append: "run_pages s (ms @ ns) g = run_pages s ms g @ run_pages s ns g"
  by (simp add: run_pages_def)

lemma run_has_group:
  assumes inv: "pc_inv s" and ns: "ns \<noteq> []" "set ns \<subseteq> dom (content s)" and spec: "spec \<in> set (pc_specs s)" "required_for_reuse spec"
  shows "spec_group spec \<in> run_groups s ns"
proof -
  have n: "hd ns \<in> set ns" using ns(1) by simp
  then obtain i where i: "content s (hd ns) = Some i" using ns(2) by blast
  then have "spec_group spec \<in> gi_group ` set (ni_groups i)" using pc_invD(6) [OF inv i] spec by (force simp: complete_info_def)
  then show ?thesis using n i unfolding run_groups_def by force
qed

text \<open>
  C9. What was committed is found again. After a successful commit of at least one block, a lookup
  of any prompt that starts with the committed tokens reports at least these tokens as cached, and
  the pages it returns for a required group start with the pages of the committed blocks, in order.
  For a block that the cache did not have these are the committed pages; for a block that it had,
  they are the pages it held before, which a second commit does not replace. So when no block was
  in the cache they are the committed pages of the group from the first on.
  The blocks of the prompt must have distinct digests and a node found under one must end where the
  block ends, the groups must be distinct, a hash block must divide the commit boundary, as it does
  when it is left to the constructor, the prompts must be short enough for the 32-bit counts
  (\<open>commit_fits\<close>, below 2^32 tokens) and the counters of attachments must have room.
\<close>
theorem commit_lookup_roundtrip:
  assumes "pc_reach s" and "commit_fits token_ids s" and "next_local_attachment s < 2 ^ 64 - 1"
    and "CommitPrefixPages namespace token_ids commit_tokens group_pages protect s = (Inr r, s')" and "0 < committed_tokens r"
    and "hash_block_tokens s dvd commit_boundary_tokens s" and "distinct (map spec_group (pc_specs s))"
    and "take (committed_tokens r) prompt = take (committed_tokens r) token_ids"
    and "length prompt < 2 ^ 32" and "no_collision (lookup_blocks namespace prompt s') s'"
    and "attach_room (lookup_run namespace prompt s') s'"
  shows "\<exists>q s2. LookupAndAttach namespace prompt s' = (Inr q, s2) \<and> committed_tokens r \<le> common_cached_tokens q
    \<and> (\<forall>spec \<in> set (pc_specs s). required_for_reuse spec \<longrightarrow>
         (\<exists>x \<in> set (materialization_spans q). \<exists>ps later. span_group x = spec_group spec
            \<and> pages_by_group group_pages (spec_group spec) = Some ps
            \<and> span_pages x = concat (map (recalled_pages s spec ps) (commit_blocks namespace token_ids commit_tokens s)) @ later
            \<and> ((\<forall>(a, e, d) \<in> set (commit_blocks namespace token_ids commit_tokens s). FindNodeLocked s d = None) \<longrightarrow>
                 span_pages x = take (committed_tokens r div raw_page_tokens spec) ps @ later)))"
proof -
  note inv = reach_inv [OF assms(1)] and cases = CommitPrefixPages_cases [OF reach_inv [OF assms(1)] assms(2,3)]
  let ?bs = "commit_blocks namespace token_ids commit_tokens s" and ?span = "commit_span token_ids commit_tokens s"
  let ?run = "lookup_run namespace prompt s'"
  have free: "\<not> commit_blocked namespace token_ids commit_tokens group_pages s"
    using cases [of namespace commit_tokens group_pages protect] assms(4) by (auto split: if_splits)
  then obtain ns t where d: "commit_done namespace token_ids commit_tokens group_pages protect s r ns t s'"
    using cases [of namespace commit_tokens group_pages protect] assms(4) by auto
  have span: "committed_tokens r = ?span" and inv': "pc_inv s'" using d by (simp_all add: commit_done_def)
  have few: "length token_ids < 2 ^ 32" by (rule commit_fits_few [OF inv assms(2)])
  obtain a k where b: "(a, ?span, k) \<in> set ?bs"
    using commit_span_block [OF inv few assms(6), of commit_tokens namespace] assms(5) span by auto
  obtain tail where tail: "lookup_blocks namespace prompt s' = ?bs @ tail" "?run = map (node_at s') ?bs @ matched s' tail"
    using committed_run [OF inv few assms(9) _ d] assms(8) span by auto
  have found: "\<forall>(a, e, d) \<in> set ?bs. FindNodeLocked s' d \<noteq> None"
    using committed_found [OF _ done_digests(1) [OF d] inv'] d unfolding commit_done_def by blast
  note reach = run_reaches [OF inv' assms(9,10) tail(1) found b]
  have dist: "distinct (map (\<lambda>(a, e, d). d) ?bs)" using assms(10) unfolding no_collision_def tail(1) by simp
  obtain u spans where l: "LookupAndAttach namespace prompt s' =
      (Inr \<lparr>attachment_handle = next_local_attachment s', common_cached_tokens = matched_end s' 0 ?run,
            materialization_spans = spans, miss_reason_mask = 0\<rparr>, u\<lparr>lookup_hits := u64 (lookup_hits s' + 1)\<rparr>)"
    "run_spans s' ?run spans" by (rule LookupAndAttach_hit [OF inv' assms(9) reach(1) assms(11)]) blast
  have "\<exists>x \<in> set spans. \<exists>ps later. span_group x = spec_group spec \<and> pages_by_group group_pages (spec_group spec) = Some ps
      \<and> span_pages x = concat (map (recalled_pages s spec ps) ?bs) @ later
      \<and> ((\<forall>(a, e, d) \<in> set ?bs. FindNodeLocked s d = None) \<longrightarrow> span_pages x = take (?span div raw_page_tokens spec) ps @ later)"
    if spec: "spec \<in> set (pc_specs s)" "required_for_reuse spec" for spec
  proof -
    have check: "check_required_pages (pages_by_group group_pages) ?span (pc_specs s) = Inr ()"
      using free assms(5) span by (auto simp: commit_blocked_def Let_def)
    obtain ps where ps: "pages_by_group group_pages (spec_group spec) = Some ps" "?span div raw_page_tokens spec \<le> length ps"
      by (rule check_pages [OF check spec])
    have st: "setting t = setting s" using d by (simp add: commit_done_def grown_def)
    have specs: "pc_specs s' = pc_specs s" using d setting_fields(6) [OF st] by (auto simp: commit_done_def attach_state_def split: if_splits)
    have "set ?run \<subseteq> dom (content s')" unfolding lookup_run_def by (rule matched_dom [OF inv'])
    then have "spec_group spec \<in> run_groups s' ?run" using run_has_group [OF inv' reach(1)] spec specs by simp
    then obtain x where x: "x \<in> set spans" "span_group x = spec_group spec" "span_pages x = run_pages s' ?run (spec_group spec)"
      using l(2) unfolding run_spans_def by (metis imageE)
    have "run_pages s' (map (node_at s') ?bs) (spec_group spec) = concat (map (recalled_pages s spec ps) ?bs)"
      by (rule committed_pages [OF inv few d dist spec assms(7) check ps(1)])
    then have "span_pages x = concat (map (recalled_pages s spec ps) ?bs) @ run_pages s' (matched s' tail) (spec_group spec)"
      using x(3) tail(2) by (simp add: run_pages_append)
    then show ?thesis using x(1,2) ps fresh_pages [OF inv few _ spec ps(2) b] by (intro bexI exI) auto
  qed
  then show ?thesis using l(1) reach(2) span by (intro exI) auto
qed

theorem commit_lookup_roundtrip_witness:
  "\<exists>q s2. LookupAndAttach zero_digest [5, 6, 8] pc_cached = (Inr q, s2) \<and> 2 \<le> common_cached_tokens q
    \<and> (\<exists>x \<in> set (materialization_spans q). \<exists>later. span_group x = 3 \<and> span_pages x = 7 # later)"
proof -
  obtain r n t where run: "CommitPrefixPages zero_digest [5, 6] 2 [(3, [7])] False pc_demo = (Inr r, pc_cached)"
    and d: "commit_done zero_digest [5, 6] 2 [(3, [7])] False pc_demo r [n] t pc_cached" by (rule pc_after_commit)
  have two: "committed_tokens r = 2" using d by (simp add: commit_done_def pc_demo_blocks)
  obtain m i where f: "FindNodeLocked pc_cached pc_digest = Some m" "content pc_cached m = Some i" "ni_end i = 2" by (rule pc_after_find)
  have free: "no_collision (lookup_blocks zero_digest [5, 6, 8] pc_cached) pc_cached"
    using f by (simp add: pc_lookup_blocks no_collision_def content_Some describe_def)
  have room: "attach_room (lookup_run zero_digest [5, 6, 8] pc_cached) pc_cached" using pc_after_room(2) [of False] by simp
  show ?thesis
    using commit_lookup_roundtrip [OF pc_demo_reach pc_demo_fits run _ _ _ _ _ free room] two
    by (auto simp: pc_demo_blocks pc_spec_def pages_by_group_def)
qed

section \<open>Attachments\<close>

text \<open>
  Releasing the attachment of a lookup restores the attachments and, but for the access epochs,
  the content of the cache as they were before the lookup.
\<close>
lemma lookup_release_roundtrip:
  assumes "pc_reach s" and "length tokens < 2 ^ 32" and "lookup_run namespace tokens s \<noteq> []"
    and "attach_room (lookup_run namespace tokens s) s" and "LookupAndAttach namespace tokens s = (Inr r, s1)"
  shows "\<exists>s2. ReleaseAttachment (attachment_handle r) s1 = (Inr (), s2) \<and> local_attachments s2 = local_attachments s
    \<and> (\<forall>n. map_option without_epoch (content s2 n) = map_option without_epoch (content s n))"
  by (rule lookup_then_release [OF reach_inv [OF assms(1)] assms(2-5)])

text \<open>
  C33. A release during a load is deferred: the nodes of the attachment stay protected until the
  load ends, and when it was the only load the attachment is then gone.
\<close>
theorem load_defers_release:
  assumes "pc_reach s" and "load_room h s" and "map_of (local_attachments s) h = Some a" and "\<not> att_release a"
  shows "\<exists>s1 s2 s3. BeginAttachmentLoad h s = (Inr (), s1) \<and> ReleaseAttachment h s1 = (Inr (), s2)
    \<and> (\<forall>n \<in> set (att_nodes a). NodeIsProtectedLocked s2 (pc_nodes s2 ! n))
    \<and> EndAttachmentLoad h s2 = (Inr (), s3) \<and> (map_of (local_attachments s3) h = None \<longleftrightarrow> att_loads a = 0)"
  by (rule release_during_load [OF reach_inv [OF assms(1)] assms(2-4)])

theorem load_defers_release_witness:
  "\<exists>s1 s2 s3. BeginAttachmentLoad 1 pc_held = (Inr (), s1) \<and> ReleaseAttachment 1 s1 = (Inr (), s2)
    \<and> EndAttachmentLoad 1 s2 = (Inr (), s3) \<and> map_of (local_attachments s3) 1 = None"
proof -
  obtain n where held: "local_attachments pc_held = [(1, \<lparr>att_nodes = [n], att_loads = 0, att_release = False\<rparr>)]" by (rule pc_held_node)
  have "load_room 1 pc_held" by (simp add: load_room_def held loads_def)
  then show ?thesis using load_defers_release [OF pc_held_reach, of 1 "\<lparr>att_nodes = [n], att_loads = 0, att_release = False\<rparr>"] held by auto
qed

section \<open>Table sizes\<close>

text \<open>
  For up to \<open>2 ^ 30\<close> nodes the node index has a power of two of slots, at least twice and less
  than four times as many as nodes; for \<open>2 ^ 31\<close> nodes, which the constructor accepts, the
  32-bit size wraps around and the index has a single slot.
\<close>
lemma index_slots_bounds:
  "(0 < m \<and> m \<le> 2 ^ 30 \<longrightarrow> (\<exists>k. MaxNodeIndexSlots m = 2 ^ k \<and> 2 * m \<le> MaxNodeIndexSlots m \<and> MaxNodeIndexSlots m < 4 * m))
    \<and> MaxNodeIndexSlots (2 ^ 31) = 1
    \<and> HostPrefixCacheCoordinator (pc_config\<lparr>cfg_max_nodes := 2 ^ 31\<rparr>) = Inr (2, 2)"
proof (intro conjI impI)
  assume m: "0 < m \<and> m \<le> 2 ^ 30"
  then have "1 < m * 2" "m * 2 \<le> 2 ^ 31" by simp_all
  then obtain b where b: "2 ^ b < m * 2" "m * 2 \<le> 2 ^ Suc b" "NextPowerOfTwo (m * 2) = 2 ^ Suc b" by (rule NextPowerOfTwo_eq)
  have "u32 (m * 2) = m * 2" using m by (simp add: u32_def)
  then have "MaxNodeIndexSlots m = 2 ^ Suc b" using m b(3) by (simp add: MaxNodeIndexSlots_def)
  then show "\<exists>k. MaxNodeIndexSlots m = 2 ^ k \<and> 2 * m \<le> MaxNodeIndexSlots m \<and> MaxNodeIndexSlots m < 4 * m"
    using b(1,2) by (intro exI [of _ "Suc b"]) auto
next
  show "MaxNodeIndexSlots (2 ^ 31) = 1" by (simp add: MaxNodeIndexSlots_def u32_def NextPowerOfTwo_def)
  show "HostPrefixCacheCoordinator (pc_config\<lparr>cfg_max_nodes := 2 ^ 31\<rparr>) = Inr (2, 2)"
    by (simp add: HostPrefixCacheCoordinator_def pc_config_def pc_spec_def ValidateGroupSpec_def ComputeHashBlockTokens_def
        ComputeCommitBoundaryTokens_def Prefix_Hash.Lcm_def u32_def)
qed

end
