(* ===== verification/Load_Plan.thy ===== *)
theory Load_Plan
  imports Prelude
begin

unbundle bit_operations_syntax

text \<open>
  The read plan of the parameter server (\<open>Parameter_Server/weight_load_plan.h\<close>): every
  weight file of a directory goes into one buffer, back to back, each on a 4 KiB boundary.
  \<open>int64_t\<close> values are integers. The saturating addition is written out; the other
  additions and subtractions stay within the type, because the sizes are checked to be
  non-negative before they are used.
\<close>

section \<open>Extents\<close>

record WeightTensorExtent =
  extent_name :: string
  extent_offset :: int
  extent_byte_size :: int

record WeightFileExtent =
  extent_json_path :: string
  extent_file_name :: string
  extent_total_byte_size :: int
  extent_tensors :: "WeightTensorExtent list"

definition int64_max :: int where
  "int64_max = 2 ^ 63 - 1"

definition kWeightFileAlignment :: int where
  "kWeightFileAlignment = 4096"

section \<open>The plan\<close>

definition weight_plan_saturating_add :: "int \<Rightarrow> int \<Rightarrow> int" where
  "weight_plan_saturating_add a b = (if b > int64_max - a then int64_max else a + b)"

definition weight_plan_align_up :: "int \<Rightarrow> int" where
  "weight_plan_align_up value =
     (let padded = weight_plan_saturating_add value (kWeightFileAlignment - 1)
      in padded AND NOT (kWeightFileAlignment - 1))"

fun planned_loop :: "WeightFileExtent list \<Rightarrow> int \<Rightarrow> int \<Rightarrow> int" where
  "planned_loop [] offset fin = fin"
| "planned_loop (file # files) offset fin =
     (let fin = weight_plan_saturating_add offset (extent_total_byte_size file)
      in planned_loop files (weight_plan_align_up fin) fin)"

definition planned_weight_load_bytes :: "WeightFileExtent list \<Rightarrow> int" where
  "planned_weight_load_bytes files = planned_loop files 0 0"

fun check_tensors :: "int \<Rightarrow> WeightTensorExtent list \<Rightarrow> unit result" where
  "check_tensors bytes [] = Inr ()"
| "check_tensors bytes (t # ts) =
     (if extent_offset t < 0 \<or> extent_byte_size t < 0 \<or> extent_offset t > bytes - extent_byte_size t
      then Inl (Runtime_error ''WeightLoadPlanError: tensor '')
      else check_tensors bytes ts)"

fun check_extents :: "WeightFileExtent list \<Rightarrow> unit result" where
  "check_extents [] = Inr ()"
| "check_extents (file # files) =
     (if extent_total_byte_size file < 0
      then Inl (Runtime_error ''WeightLoadPlanError: '')
      else case check_tensors (extent_total_byte_size file) (extent_tensors file) of
        Inl e \<Rightarrow> Inl e
      | Inr _ \<Rightarrow> check_extents files)"

fun plan_loop :: "WeightFileExtent list \<Rightarrow> int \<Rightarrow> int \<Rightarrow> int list \<Rightarrow> int list result" where
  "plan_loop [] buffer_bytes offset starts = Inr starts"
| "plan_loop (file # files) buffer_bytes offset starts =
     (let fin = weight_plan_saturating_add offset (extent_total_byte_size file)
      in if fin > buffer_bytes then Inl (Runtime_error ''WeightLoadPlanError: planned weight load of '')
         else plan_loop files buffer_bytes (weight_plan_align_up fin) (starts @ [offset]))"

definition plan_weight_load :: "WeightFileExtent list \<Rightarrow> int \<Rightarrow> int list result" where
  "plan_weight_load files buffer_bytes =
     (if buffer_bytes \<le> 0
      then Inl (Runtime_error ''WeightLoadPlanError: weight buffer size must be positive'')
      else case check_extents files of
        Inl e \<Rightarrow> Inl e
      | Inr _ \<Rightarrow> plan_loop files buffer_bytes 0 [])"

definition check_weight_read_bound :: "int \<Rightarrow> int \<Rightarrow> int \<Rightarrow> unit result" where
  "check_weight_read_bound dest_offset nbytes buffer_bytes =
     (if dest_offset < 0 \<or> nbytes < 0 \<or> dest_offset > buffer_bytes - nbytes
      then Inl (Runtime_error ''WeightLoadPlanError: read of '')
      else Inr ())"

section \<open>What the plan decides\<close>

text \<open>
  The plan in unbounded arithmetic: the span of each file, the next file starting at the
  end rounded up to the alignment.
\<close>

definition round_up :: "int \<Rightarrow> int" where
  "round_up n = (n + 4095) div 4096 * 4096"

fun spans :: "int \<Rightarrow> int list \<Rightarrow> (int \<times> int) list" where
  "spans start [] = []"
| "spans start (n # sizes) = (start, start + n) # spans (round_up (start + n)) sizes"

definition tensor_fits :: "int \<Rightarrow> WeightTensorExtent \<Rightarrow> bool" where
  "tensor_fits bytes t \<longleftrightarrow>
     0 \<le> extent_offset t \<and> 0 \<le> extent_byte_size t \<and> extent_offset t + extent_byte_size t \<le> bytes"

definition extent_ok :: "WeightFileExtent \<Rightarrow> bool" where
  "extent_ok f \<longleftrightarrow> 0 \<le> extent_total_byte_size f
     \<and> list_all (tensor_fits (extent_total_byte_size f)) (extent_tensors f)"

definition file_spans :: "WeightFileExtent list \<Rightarrow> (int \<times> int) list" where
  "file_spans files = spans 0 (map extent_total_byte_size files)"

lemma check_tensors_iff: "check_tensors bytes ts = Inr () \<longleftrightarrow> list_all (tensor_fits bytes) ts"
  by (induction bytes ts rule: check_tensors.induct) (auto simp: tensor_fits_def)

lemma check_extents_iff: "check_extents files = Inr () \<longleftrightarrow> list_all extent_ok files"
  by (induction files rule: check_extents.induct)
    (auto simp: extent_ok_def check_tensors_iff [symmetric] split: sum.splits)

lemma and_not_mask: "(x :: int) AND - 4096 = x div 4096 * 4096"
proof -
  have "x AND NOT (mask 12) = push_bit 12 (drop_bit 12 x)"
    by (rule bit_eqI) (auto simp: bit_simps)
  moreover have "NOT (mask 12) = (- 4096 :: int)" by (simp add: minus_exp_eq_not_mask [symmetric])
  ultimately show ?thesis by (simp add: push_bit_eq_mult drop_bit_eq_div)
qed

lemma align_up_exact: "fin \<le> 2 ^ 63 - 4096 \<Longrightarrow> weight_plan_align_up fin = round_up fin"
  by (simp add: weight_plan_align_up_def weight_plan_saturating_add_def int64_max_def
      kWeightFileAlignment_def round_up_def and_not_mask)

lemma saturating_add_le:
  "fin \<le> 2 ^ 63 - 4096 \<Longrightarrow> weight_plan_saturating_add a b \<le> fin \<longleftrightarrow> a + b \<le> fin"
  by (auto simp: weight_plan_saturating_add_def int64_max_def)

lemma saturating_add_exact:
  "a + b \<le> 2 ^ 63 - 4096 \<Longrightarrow> weight_plan_saturating_add a b = a + b"
  by (simp add: weight_plan_saturating_add_def int64_max_def)

lemma round_up_ge: "n \<le> round_up n"
  unfolding round_up_def by linarith

lemma round_up_dvd: "4096 dvd round_up n"
  by (simp add: round_up_def)

lemma plan_loop_iff:
  assumes "buffer_bytes \<le> 2 ^ 63 - 4096"
  shows "plan_loop files buffer_bytes start acc = Inr starts \<longleftrightarrow>
      (\<forall>(s, e) \<in> set (spans start (map extent_total_byte_size files)). e \<le> buffer_bytes)
      \<and> starts = acc @ map fst (spans start (map extent_total_byte_size files))"
proof (induction files arbitrary: start acc)
  case (Cons f files)
  let ?n = "extent_total_byte_size f"
  show ?case
  proof (cases "start + ?n \<le> buffer_bytes")
    case True
    then have "weight_plan_saturating_add start ?n = start + ?n"
      using assms by (intro saturating_add_exact) simp
    moreover have "weight_plan_align_up (start + ?n) = round_up (start + ?n)"
      using True assms by (intro align_up_exact) simp
    ultimately show ?thesis using True Cons by (simp add: Let_def)
  next
    case False
    then show ?thesis using saturating_add_le [OF assms, of start ?n] by (simp add: Let_def)
  qed
qed auto

lemma plan_weight_load_iff:
  assumes "buffer_bytes \<le> 2 ^ 63 - 4096"
  shows "plan_weight_load files buffer_bytes = Inr starts \<longleftrightarrow>
      0 < buffer_bytes \<and> list_all extent_ok files
      \<and> (\<forall>(s, e) \<in> set (file_spans files). e \<le> buffer_bytes)
      \<and> starts = map fst (file_spans files)"
proof (cases "check_extents files")
  case Inl
  then have "\<not> list_all extent_ok files" using check_extents_iff [of files] by simp
  then show ?thesis using Inl by (simp add: plan_weight_load_def)
next
  case Inr
  then have "list_all extent_ok files" using check_extents_iff [of files] by simp
  then show ?thesis using Inr plan_loop_iff [OF assms, of files 0 "[]" starts]
    by (auto simp: plan_weight_load_def file_spans_def)
qed

text \<open>The refusals of the plan are not those of the check before a read.\<close>

lemma plan_refusal: "plan_weight_load files buffer_bytes \<noteq> Inl (Runtime_error ''WeightLoadPlanError: read of '')"
proof -
  have tensors: "check_tensors bytes ts \<noteq> Inl (Runtime_error ''WeightLoadPlanError: read of '')" for bytes ts
    by (induction bytes ts rule: check_tensors.induct) auto
  have "check_extents files \<noteq> Inl (Runtime_error ''WeightLoadPlanError: read of '')"
    by (induction files rule: check_extents.induct) (auto simp: tensors split: sum.splits)
  moreover have "plan_loop files buffer_bytes start acc \<noteq> Inl (Runtime_error ''WeightLoadPlanError: read of '')"
    for start acc
    by (induction files arbitrary: start acc) (auto simp: Let_def)
  ultimately show ?thesis by (auto simp: plan_weight_load_def split: sum.splits)
qed

text \<open>
  Beyond that size the rounding saturates downwards: a second file is planned on top of the
  end of the first.
\<close>

lemma plan_overlaps_at_limit:
  "plan_weight_load
     [\<lparr> extent_json_path = [], extent_file_name = [], extent_total_byte_size = 2 ^ 63 - 2, extent_tensors = [] \<rparr>,
      \<lparr> extent_json_path = [], extent_file_name = [], extent_total_byte_size = 1, extent_tensors = [] \<rparr>] (2 ^ 63 - 2)
   = Inr [0, 2 ^ 63 - 4096]"
  by code_simp

section \<open>Spans\<close>

lemma length_spans [simp]: "length (spans start sizes) = length sizes"
  by (induction start sizes rule: spans.induct) auto

lemma spans_start_ge:
  assumes "list_all ((\<le>) 0) sizes" and "(s, e) \<in> set (spans start sizes)"
  shows "start \<le> s"
  using assms
proof (induction start sizes rule: spans.induct)
  case (2 start n sizes)
  then show ?case using round_up_ge [of "start + n"] by fastforce
qed simp

lemma spans_sorted:
  assumes "list_all ((\<le>) 0) sizes"
  shows "sorted_wrt (\<lambda>(s, e) (s', e'). e \<le> s') (spans start sizes)"
  using assms
proof (induction start sizes rule: spans.induct)
  case (2 start n sizes)
  then show ?case using round_up_ge [of "start + n"] spans_start_ge [of sizes]
    by (fastforce intro: order.trans)
qed simp

lemma spans_width: "i < length sizes \<Longrightarrow> snd (spans start sizes ! i) = fst (spans start sizes ! i) + sizes ! i"
  by (induction start sizes arbitrary: i rule: spans.induct) (auto simp: nth_Cons split: nat.splits)

lemma spans_aligned:
  assumes "4096 dvd start" and "(s, e) \<in> set (spans start sizes)"
  shows "4096 dvd s"
  using assms by (induction start sizes rule: spans.induct) (auto simp: round_up_dvd)

end
