(* ===== verification/Load_Files.thy ===== *)
theory Load_Files
  imports Load_Plan
begin

text \<open>
  Loading the weight files (\<open>Parameter_Server/Parameter_Server.cpp\<close>). The directory listing
  and the JSON parser are arguments: what \<open>readdir\<close> and \<open>parseMetadata\<close> yield for a
  directory. So are the system calls that read a file, in a record per file, with the
  documented contract of \<open>pread\<close> and of the stream read stated as \<open>io_ok\<close>. The buffer is
  the list of its bytes, and a read writes into it at an offset from \<open>weight_ptr\<close>.
  Logging and timing are left out.
\<close>

section \<open>Data\<close>

record TensorInfo =
  info_dtype :: string
  info_shape :: "int list"
  info_offset :: int
  info_byte_size :: int

record FileMetadata =
  md_file_name :: string
  md_state_dict :: "(string \<times> TensorInfo) list"
  md_total_byte_size :: int

record tensor_meta =
  meta_offset :: int
  meta_shape :: "int list"
  meta_byte_size :: int
  meta_dtype :: string

datatype torch_dtype =
  kFloat32 | kFloat16 | kBFloat16 | kFloat8_e4m3fn | kUInt8 | kInt32 | kInt64

text \<open>A tensor made by \<open>from_blob\<close>: a view of the buffer at an offset.\<close>

record skeleton_tensor =
  skel_offset :: int
  skel_shape :: "int list"
  skel_dtype :: torch_dtype

type_synonym weights_storage = "(string \<times> (string \<times> tensor_meta) list) list"

record server =
  weight_buffer :: "char list"
  module_weights_storage :: weights_storage
  skeleton_state_dict :: "(string \<times> skeleton_tensor) list"
  state_dict_name_map :: "(string \<times> (string \<times> string) list) list"

text \<open>The operating system's side of one weight file.\<close>

record file_io =
  io_contents :: "char list"
  io_direct_open :: bool
  io_pread :: "nat \<Rightarrow> nat \<Rightarrow> int"
  io_tail_open :: bool
  io_tail_seek :: "nat \<Rightarrow> bool"
  io_tail_gcount :: "nat \<Rightarrow> nat \<Rightarrow> nat"

text \<open>
  \<open>pread\<close> at an offset returns a negative number on an error and otherwise the number of
  bytes it placed, at most as many as asked for and none past the end of the file; a
  stream read counts the bytes it placed in the same way.
\<close>

definition io_ok :: "file_io \<Rightarrow> bool" where
  "io_ok io \<longleftrightarrow>
     (\<forall>off n. io_pread io off n \<le> int n
        \<and> (0 < io_pread io off n \<longrightarrow> int off + io_pread io off n \<le> int (length (io_contents io))))
     \<and> (\<forall>off n. io_tail_gcount io off n \<le> n
        \<and> (0 < io_tail_gcount io off n \<longrightarrow> off + io_tail_gcount io off n \<le> length (io_contents io)))"

section \<open>Reading one file\<close>

definition write_at :: "nat \<Rightarrow> 'b list \<Rightarrow> 'b list \<Rightarrow> 'b list" where
  "write_at off bs buf = take off buf @ bs @ drop (off + length bs) buf"

definition read_into :: "file_io \<Rightarrow> nat \<Rightarrow> nat \<Rightarrow> nat \<Rightarrow> char list \<Rightarrow> char list" where
  "read_into io start off n buf = write_at (start + off) (take n (drop off (io_contents io))) buf"

function read_aligned ::
  "file_io \<Rightarrow> int \<Rightarrow> nat \<Rightarrow> nat \<Rightarrow> nat \<Rightarrow> char list \<Rightarrow> nat result \<times> char list" where
  "read_aligned io buffer_bytes global_offset file_offset remaining buf =
     (if remaining = 0 then (Inr file_offset, buf)
      else
        let to_read = min remaining (32 * 1024 * 1024);
            to_read = to_read div 4096 * 4096
        in case check_weight_read_bound (int (global_offset + file_offset)) (int to_read) buffer_bytes of
          Inl e \<Rightarrow> (Inl e, buf)
        | Inr _ \<Rightarrow>
            let bytes_read = io_pread io file_offset to_read
            in if bytes_read \<le> 0
               then (Inl (Runtime_error ''Failed to read aligned portion from file''), buf)
               else read_aligned io buffer_bytes global_offset (file_offset + nat bytes_read)
                      (remaining - nat bytes_read)
                      (read_into io global_offset file_offset (nat bytes_read) buf))"
  by pat_completeness auto
termination
  by (relation "measure (\<lambda>(io, bb, g, fo, remaining, buf). remaining)") auto

declare read_aligned.simps [simp del]

definition read_tail ::
  "file_io \<Rightarrow> int \<Rightarrow> nat \<Rightarrow> nat \<Rightarrow> nat \<Rightarrow> nat \<Rightarrow> char list \<Rightarrow> unit result \<times> char list" where
  "read_tail io buffer_bytes global_offset file_offset aligned_size tail_size buf =
     (if \<not> io_tail_open io then (Inl (Runtime_error ''Failed to open file for tail read: ''), buf)
      else if \<not> io_tail_seek io aligned_size then (Inl (Runtime_error ''Failed to seek to tail portion''), buf)
      else case check_weight_read_bound (int (global_offset + file_offset)) (int tail_size) buffer_bytes of
        Inl e \<Rightarrow> (Inl e, buf)
      | Inr _ \<Rightarrow>
          let gcount = io_tail_gcount io aligned_size tail_size;
              buf' = write_at (global_offset + file_offset)
                       (take gcount (drop aligned_size (io_contents io))) buf
          in if gcount \<noteq> tail_size then (Inl (Runtime_error ''Failed to read tail portion''), buf')
             else (Inr (), buf'))"

definition read_file ::
  "file_io \<Rightarrow> nat \<Rightarrow> int \<Rightarrow> nat \<Rightarrow> nat \<Rightarrow> char list \<Rightarrow> unit result \<times> char list" where
  "read_file io weight_ptr buffer_bytes global_offset total_byte_size buf =
     (if (weight_ptr + global_offset) mod 4096 \<noteq> 0
      then (Inl (Runtime_error ''Destination memory not aligned for direct I/O. ''), buf)
      else
        let aligned_size = total_byte_size div 4096 * 4096;
            tail_size = total_byte_size - aligned_size
        in and_then
          (if aligned_size > 0
           then if \<not> io_direct_open io then (Inl (Runtime_error ''Failed to open file with direct I/O: ''), buf)
                else read_aligned io buffer_bytes global_offset 0 aligned_size buf
           else (Inr 0, buf))
          (\<lambda>file_offset buf.
            if tail_size > 0
            then read_tail io buffer_bytes global_offset file_offset aligned_size tail_size buf
            else (Inr (), buf)))"

section \<open>Recording the tensors of a file\<close>

text \<open>\<open>operator[]\<close> of an associative container inserts a default value under a missing key.\<close>

definition get_or :: "'v \<Rightarrow> 'k \<Rightarrow> ('k \<times> 'v) list \<Rightarrow> 'v" where
  "get_or d k m = (case map_of m k of None \<Rightarrow> d | Some v \<Rightarrow> v)"

definition touch :: "'v \<Rightarrow> 'k \<Rightarrow> ('k \<times> 'v) list \<Rightarrow> ('k \<times> 'v) list" where
  "touch d k m = assoc_put k (get_or d k m) m"

fun resolve_dtype :: "string \<Rightarrow> torch_dtype result" where
  "resolve_dtype name =
     (if name = ''float32'' then Inr kFloat32
      else if name = ''float16'' then Inr kFloat16
      else if name = ''bfloat16'' then Inr kBFloat16
      else if name = ''float8_e4m3fn'' then Inr kFloat8_e4m3fn
      else if name = ''uint8'' then Inr kUInt8
      else if name = ''int32'' then Inr kInt32
      else if name = ''int64'' then Inr kInt64
      else Inl (Runtime_error ''Unsupported dtype: ''))"

definition record_tensor :: "int \<Rightarrow> string \<times> TensorInfo \<Rightarrow> unit \<Rightarrow> server \<Rightarrow> unit result \<times> server" where
  "record_tensor global_offset nt _ s =
     (case nt of (tensor_name, info) \<Rightarrow>
      case map_of (state_dict_name_map s) tensor_name of
        Some keys \<Rightarrow>
          let keys = touch [] ''tensor_key'' (touch [] ''module_key'' keys);
              module_key = get_or [] ''module_key'' keys;
              tensor_key = get_or [] ''tensor_key'' keys;
              meta = \<lparr> meta_offset = global_offset + info_offset info, meta_shape = info_shape info,
                       meta_byte_size = info_byte_size info, meta_dtype = info_dtype info \<rparr>;
              storage = module_weights_storage s
          in (Inr (), s \<lparr> state_dict_name_map := assoc_put tensor_name keys (state_dict_name_map s),
                module_weights_storage :=
                  assoc_put module_key (assoc_put tensor_key meta (get_or [] module_key storage)) storage \<rparr>)
      | None \<Rightarrow>
          (case resolve_dtype (info_dtype info) of
             Inl e \<Rightarrow> (Inl e, s)
           | Inr dtype \<Rightarrow>
               (Inr (), s \<lparr> skeleton_state_dict :=
                  assoc_put tensor_name
                    \<lparr> skel_offset = global_offset + info_offset info, skel_shape = info_shape info,
                      skel_dtype = dtype \<rparr> (skeleton_state_dict s) \<rparr>)))"

section \<open>Loading a directory\<close>

definition load_file ::
  "(string \<Rightarrow> file_io) \<Rightarrow> string \<Rightarrow> nat \<Rightarrow> int \<Rightarrow> FileMetadata \<times> int \<Rightarrow> unit \<Rightarrow> server \<Rightarrow> unit result \<times> server" where
  "load_file fs model_weights_path weight_ptr buffer_bytes fo _ s =
     (case fo of (metadata, global_offset) \<Rightarrow>
      let bin_file_path = model_weights_path @ ''/'' @ md_file_name metadata
      in case read_file (fs bin_file_path) weight_ptr buffer_bytes (nat global_offset)
                (nat (md_total_byte_size metadata)) (weight_buffer s) of
          (Inl e, buf) \<Rightarrow> (Inl e, s \<lparr> weight_buffer := buf \<rparr>)
        | (Inr _, buf) \<Rightarrow>
            fold_do (record_tensor global_offset) (md_state_dict metadata) ()
              (s \<lparr> weight_buffer := buf \<rparr>))"

definition extent_of :: "string \<Rightarrow> FileMetadata \<Rightarrow> WeightFileExtent" where
  "extent_of json_path parsed =
     \<lparr> extent_json_path = json_path, extent_file_name = md_file_name parsed,
       extent_total_byte_size = md_total_byte_size parsed,
       extent_tensors = map (\<lambda>(name, info).
         \<lparr> extent_name = name, extent_offset = info_offset info, extent_byte_size = info_byte_size info \<rparr>)
         (md_state_dict parsed) \<rparr>"

fun strstr :: "string \<Rightarrow> string \<Rightarrow> bool" where
  "strstr [] needle = (needle = [])"
| "strstr (c # cs) needle = (take (length needle) (c # cs) = needle \<or> strstr cs needle)"

definition find_json_paths :: "string \<Rightarrow> string list \<Rightarrow> string list" where
  "find_json_paths model_weights_path entries =
     map (\<lambda>d_name. model_weights_path @ ''/'' @ d_name)
       (filter (\<lambda>d_name. d_name \<noteq> ''.'' \<and> d_name \<noteq> ''..'' \<and> strstr d_name ''.json'') entries)"

fun parse_all :: "(string \<Rightarrow> FileMetadata option) \<Rightarrow> string list \<Rightarrow> (string \<times> FileMetadata) list result" where
  "parse_all parse [] = Inr []"
| "parse_all parse (json_path # paths) =
     (case parse json_path of
        None \<Rightarrow> Inl (Runtime_error ''Failed to parse JSON file: '')
      | Some parsed \<Rightarrow>
         (case parse_all parse paths of Inl e \<Rightarrow> Inl e | Inr all \<Rightarrow> Inr ((json_path, parsed) # all)))"

definition load_cus_format_file_to_host_mem ::
  "(string \<Rightarrow> file_io) \<Rightarrow> (string \<Rightarrow> FileMetadata option) \<Rightarrow> string list option \<Rightarrow> string \<Rightarrow> nat \<Rightarrow> int
   \<Rightarrow> server \<Rightarrow> unit result \<times> server" where
  "load_cus_format_file_to_host_mem fs parse listing model_weights_path weight_ptr buffer_bytes s =
     (case listing of
        None \<Rightarrow> (Inl (Runtime_error ''Failed to open directory: ''), s)
      | Some entries \<Rightarrow>
         (case parse_all parse (find_json_paths model_weights_path entries) of
            Inl e \<Rightarrow> (Inl e, s)
          | Inr parsed \<Rightarrow>
             (case plan_weight_load (map (\<lambda>(json_path, md). extent_of json_path md) parsed) buffer_bytes of
                Inl e \<Rightarrow> (Inl e, s)
              | Inr file_starts \<Rightarrow>
                  fold_do (load_file fs model_weights_path weight_ptr buffer_bytes)
                    (zip (map snd parsed) file_starts) () s)))"

end
