(* ===== verification/Load_Read.thy ===== *)
theory Load_Read
  imports Load_Files
begin

text \<open>
  What the reads of one file do to the buffer: on success the bytes of the file stand at
  its place, and whatever happens nothing outside that place changes and no read is
  refused by the bound check.
\<close>

section \<open>Writing into the buffer\<close>

definition same_outside :: "nat \<Rightarrow> nat \<Rightarrow> 'b list \<Rightarrow> 'b list \<Rightarrow> bool" where
  "same_outside lo hi buf buf' \<longleftrightarrow>
     length buf' = length buf \<and> (\<forall>i. i < lo \<or> hi \<le> i \<longrightarrow> buf' ! i = buf ! i)"

definition copied :: "file_io \<Rightarrow> nat \<Rightarrow> nat \<Rightarrow> nat \<Rightarrow> char list \<Rightarrow> bool" where
  "copied io start lo hi buf \<longleftrightarrow>
     hi \<le> length (io_contents io) \<and> (\<forall>i. lo \<le> i \<and> i < hi \<longrightarrow> buf ! (start + i) = io_contents io ! i)"

lemma length_write_at [simp]:
  "off + length bs \<le> length buf \<Longrightarrow> length (write_at off bs buf) = length buf"
  by (simp add: write_at_def)

lemma nth_write_at:
  assumes "off + length bs \<le> length buf"
  shows "write_at off bs buf ! i
    = (if off \<le> i \<and> i < off + length bs then bs ! (i - off) else buf ! i)"
  using assms by (auto simp: write_at_def nth_append)

lemma same_outside_refl [simp]: "same_outside lo hi buf buf"
  by (simp add: same_outside_def)

lemma same_outside_trans:
  "same_outside lo hi buf buf' \<Longrightarrow> same_outside lo hi buf' buf'' \<Longrightarrow> same_outside lo hi buf buf''"
  by (simp add: same_outside_def)

lemma same_outside_mono:
  "same_outside lo hi buf buf' \<Longrightarrow> lo' \<le> lo \<Longrightarrow> hi \<le> hi' \<Longrightarrow> same_outside lo' hi' buf buf'"
  by (auto simp: same_outside_def)

lemma write_at_outside:
  assumes "lo \<le> off" and "off + length bs \<le> hi" and "hi \<le> length buf"
  shows "same_outside lo hi buf (write_at off bs buf)"
  using assms by (auto simp: same_outside_def nth_write_at)

lemma copied_outside:
  assumes "copied io start lo hi buf" and "same_outside a b buf buf'"
    and "start + hi \<le> a \<or> b \<le> start + lo"
  shows "copied io start lo hi buf'"
  using assms by (auto simp: copied_def same_outside_def)

lemma copied_join:
  "copied io start lo mid buf \<Longrightarrow> copied io start mid hi buf \<Longrightarrow> copied io start lo hi buf"
  unfolding copied_def by (metis leI)

lemma write_copied:
  assumes "off + n \<le> length (io_contents io)" and "start + off + n \<le> length buf"
  shows "copied io start off (off + n) (write_at (start + off) (take n (drop off (io_contents io))) buf)"
  using assms by (auto simp: copied_def nth_write_at)

section \<open>The aligned part\<close>

lemma bound_ok:
  "int off + int n \<le> buffer_bytes \<Longrightarrow> check_weight_read_bound (int off) (int n) buffer_bytes = Inr ()"
  by (simp add: check_weight_read_bound_def)

text \<open>
  \<open>good_read io start lo hi buf r\<close>: the outcome of reading the bytes \<open>lo\<close> to \<open>hi\<close> of a file
  into its place at \<open>start\<close>. An exception is one of \<open>read_errors\<close>, which does not include the
  refusal of the bound check.
\<close>

definition read_errors :: "cpp_error set" where
  "read_errors =
     {Runtime_error ''Failed to read aligned portion from file'',
      Runtime_error ''Failed to open file for tail read: '',
      Runtime_error ''Failed to seek to tail portion'',
      Runtime_error ''Failed to read tail portion'',
      Runtime_error ''Failed to open file with direct I/O: '',
      Runtime_error ''Destination memory not aligned for direct I/O. ''}"

definition good_read :: "file_io \<Rightarrow> nat \<Rightarrow> nat \<Rightarrow> nat \<Rightarrow> char list \<Rightarrow> 'a result \<times> char list \<Rightarrow> bool" where
  "good_read io start lo hi buf r \<longleftrightarrow>
     same_outside (start + lo) (start + hi) buf (snd r)
     \<and> (case fst r of Inl e \<Rightarrow> e \<in> read_errors | Inr _ \<Rightarrow> copied io start lo hi (snd r))"

lemma good_read_Inl:
  "e \<in> read_errors \<Longrightarrow> same_outside (start + lo) (start + hi) buf buf' \<Longrightarrow> good_read io start lo hi buf (Inl e, buf')"
  by (simp add: good_read_def)

lemma good_read_step:
  assumes "good_read io start mid hi buf' r" and "same_outside (start + lo) (start + mid) buf buf'"
    and "copied io start lo mid buf'" and "lo \<le> mid" and "mid \<le> hi"
  shows "good_read io start lo hi buf r"
proof -
  have out: "same_outside (start + mid) (start + hi) buf' (snd r)"
    using assms(1) by (simp add: good_read_def)
  have "same_outside (start + lo) (start + hi) buf (snd r)"
    using same_outside_trans [OF same_outside_mono [OF assms(2)] same_outside_mono [OF out]] assms(4,5) by simp
  moreover have "copied io start lo mid (snd r)"
    using copied_outside [OF assms(3) out] by simp
  ultimately show ?thesis
    using assms(1) copied_join by (auto simp: good_read_def split: sum.splits)
qed

lemma pread_ok:
  assumes "io_ok io" and "0 < io_pread io off n"
  shows "nat (io_pread io off n) \<le> n" and "off + nat (io_pread io off n) \<le> length (io_contents io)"
proof -
  have "io_pread io off n \<le> int n \<and> int off + io_pread io off n \<le> int (length (io_contents io))"
    using assms unfolding io_ok_def by blast
  then show "nat (io_pread io off n) \<le> n" "off + nat (io_pread io off n) \<le> length (io_contents io)"
    using assms(2) by linarith+
qed

lemma gcount_ok:
  assumes "io_ok io" and "0 < n"
  shows "io_tail_gcount io off n \<le> n"
    and "io_tail_gcount io off n = n \<Longrightarrow> off + n \<le> length (io_contents io)"
  using assms unfolding io_ok_def by metis+

lemma read_aligned_good:
  assumes "io_ok io" and "length buf = nat buffer_bytes" and "int (start + off + n) \<le> buffer_bytes"
    and "off + n = hi" and "off \<le> length (io_contents io)"
  shows "good_read io start off hi buf (read_aligned io buffer_bytes start off n buf)
    \<and> (\<forall>off'. fst (read_aligned io buffer_bytes start off n buf) = Inr off' \<longrightarrow> off' = hi)"
  using assms(2-)
proof (induction n arbitrary: off buf rule: less_induct)
  case (less n)
  define k where "k = min n (32 * 1024 * 1024) div 4096 * 4096"
  define got where "got = io_pread io off k"
  let ?r = "read_aligned io buffer_bytes start off n buf"
  have k: "k \<le> n" unfolding k_def by (meson div_times_less_eq_dividend min.boundedE)
  have bound: "check_weight_read_bound (int (start + off)) (int k) buffer_bytes = Inr ()"
    using less.prems(2) k by (intro bound_ok) simp
  show ?case
  proof (cases "n = 0 \<or> got \<le> 0")
    case True
    then show ?thesis
      using less.prems(3,4) bound unfolding read_aligned.simps [of io buffer_bytes start off n buf] k_def got_def
      by (auto simp: Let_def good_read_def copied_def read_errors_def)
  next
    case False
    define buf' where "buf' = read_into io start off (nat got) buf"
    have step: "?r = read_aligned io buffer_bytes start (off + nat got) (n - nat got) buf'"
      using False bound unfolding read_aligned.simps [of io buffer_bytes start off n buf] k_def got_def buf'_def
      by (simp add: Let_def)
    have got: "nat got \<le> n" "off + nat got \<le> length (io_contents io)"
      using pread_ok [OF assms(1), of off k] False k by (auto simp: got_def)
    have room: "start + off + nat got \<le> length buf" using less.prems(1,2) got(1) by linarith
    have buf': "buf' = write_at (start + off) (take (nat got) (drop off (io_contents io))) buf"
      by (simp add: buf'_def read_into_def)
    have out: "same_outside (start + off) (start + (off + nat got)) buf buf'"
      unfolding buf' by (rule write_at_outside) (use room got in auto)
    have cop: "copied io start off (off + nat got) buf'"
      unfolding buf' using got(2) room by (intro write_copied) simp_all
    have IH: "good_read io start (off + nat got) hi buf'
        (read_aligned io buffer_bytes start (off + nat got) (n - nat got) buf')
      \<and> (\<forall>off'. fst (read_aligned io buffer_bytes start (off + nat got) (n - nat got) buf') = Inr off' \<longrightarrow> off' = hi)"
    proof (rule less.IH)
      show "n - nat got < n" using False by simp
      show "length buf' = nat buffer_bytes" using out less.prems(1) by (simp add: same_outside_def)
      show "int (start + (off + nat got) + (n - nat got)) \<le> buffer_bytes" using less.prems(2) got(1) by simp
      show "off + nat got + (n - nat got) = hi" using less.prems(3) got(1) by simp
    qed (rule got(2))
    then show ?thesis unfolding step
      using good_read_step [OF conjunct1 out cop, OF _ le_add1] got(1) less.prems(3) by (metis nat_add_left_cancel_le)
  qed
qed

section \<open>The whole file\<close>

lemma read_tail_good:
  assumes "io_ok io" and "length buf = nat buffer_bytes" and "int (start + off + n) \<le> buffer_bytes" and "0 < n"
  shows "good_read io start off (off + n) buf (read_tail io buffer_bytes start off off n buf)"
proof -
  define bs where "bs = take (io_tail_gcount io off n) (drop off (io_contents io))"
  have bound: "check_weight_read_bound (int (start + off)) (int n) buffer_bytes = Inr ()"
    using assms(3) by (intro bound_ok) simp
  have "length bs \<le> n" using gcount_ok(1) [OF assms(1,4), of off] by (simp add: bs_def)
  then have out: "same_outside (start + off) (start + (off + n)) buf (write_at (start + off) bs buf)"
    using assms(2,3) by (intro write_at_outside) auto
  have "copied io start off (off + n) (write_at (start + off) bs buf)" if "io_tail_gcount io off n = n"
    using gcount_ok(2) [OF assms(1,4) that] assms(2,3) that unfolding bs_def by (auto intro!: write_copied)
  moreover have "read_tail io buffer_bytes start off off n buf =
     (if \<not> io_tail_open io then (Inl (Runtime_error ''Failed to open file for tail read: ''), buf)
      else if \<not> io_tail_seek io off then (Inl (Runtime_error ''Failed to seek to tail portion''), buf)
      else if io_tail_gcount io off n \<noteq> n
        then (Inl (Runtime_error ''Failed to read tail portion''), write_at (start + off) bs buf)
      else (Inr (), write_at (start + off) bs buf))"
    using bound by (simp add: read_tail_def bs_def Let_def)
  ultimately show ?thesis using out by (simp add: good_read_def read_errors_def)
qed

lemma read_file_good:
  assumes "io_ok io" and "length buf = nat buffer_bytes" and "int (start + n) \<le> buffer_bytes"
  shows "good_read io start 0 n buf (read_file io weight_ptr buffer_bytes start n buf)"
proof -
  define a where "a = n div 4096 * 4096"
  define first where "first = (if a > 0
      then if \<not> io_direct_open io then (Inl (Runtime_error ''Failed to open file with direct I/O: ''), buf)
           else read_aligned io buffer_bytes start 0 a buf
      else (Inr 0, buf))"
  have a: "a \<le> n" by (simp add: a_def)
  have first: "good_read io start 0 a buf first" "\<And>off. fst first = Inr off \<Longrightarrow> off = a"
    using read_aligned_good [OF assms(1,2), of start 0 a a] assms(3) a
    by (auto simp: first_def good_read_def read_errors_def copied_def split: if_splits)
  show ?thesis
  proof (cases "(weight_ptr + start) mod 4096 = 0")
    case True
    then have r: "read_file io weight_ptr buffer_bytes start n buf = and_then first
        (\<lambda>off buf. if n - a > 0 then read_tail io buffer_bytes start off a (n - a) buf else (Inr (), buf))"
      by (simp add: read_file_def first_def Let_def flip: a_def)
    show ?thesis
    proof (cases "fst first")
      case (Inl e)
      define buf' where "buf' = snd first"
      have eq: "first = (Inl e, buf')" using Inl by (simp add: buf'_def prod_eq_iff)
      have "same_outside start (start + n) buf buf'"
        by (rule same_outside_mono) (use first(1) a in \<open>auto simp: eq good_read_def\<close>)
      moreover have "e \<in> read_errors" using first(1) by (simp add: eq good_read_def)
      ultimately show ?thesis unfolding r eq and_then_Inl by (simp add: good_read_Inl)
    next
      case (Inr off)
      then have off: "off = a" using first(2) by blast
      define buf' where "buf' = snd first"
      have split: "first = (Inr a, buf')" using Inr off by (simp add: buf'_def prod_eq_iff)
      have out: "same_outside (start + 0) (start + a) buf buf'" and cop: "copied io start 0 a buf'"
        using first(1) by (simp_all add: split good_read_def)
      have "good_read io start a n buf' (read_tail io buffer_bytes start a a (n - a) buf')" if "n - a > 0"
        using read_tail_good [OF assms(1), of buf' buffer_bytes start a "n - a"] assms(2,3) out a that
        by (simp add: same_outside_def)
      moreover have "good_read io start a n buf' (Inr (), buf')" if "\<not> n - a > 0"
        using cop a that by (simp add: good_read_def copied_def)
      ultimately show ?thesis
        unfolding r split and_then_Inr by (intro good_read_step [OF _ out cop _ a]) (auto split: if_split)
    qed
  next
    case False
    then show ?thesis by (simp add: read_file_def good_read_def read_errors_def)
  qed
qed

end
