(* ===== verification/Load_Store.thy ===== *)
theory Load_Store
  imports Load_Read
begin

text \<open>
  What the load records of the tensors. The two containers \<open>module_weights_storage_\<close> and
  \<open>skeleton_state_dict_\<close> are read as one directory from slots to entries: a tensor goes to the
  slot its name maps to, and recording it is one update of the directory.
\<close>

section \<open>The directory of tensors\<close>

datatype slot = In_module string string | In_skeleton string

datatype entry = Meta tensor_meta | Blob skeleton_tensor

text \<open>The keys a name map gives a tensor; a missing key reads as the empty string.\<close>

definition keys_of :: "(string \<times> (string \<times> string) list) list \<Rightarrow> string \<Rightarrow> (string \<times> string) option" where
  "keys_of m name = map_option (\<lambda>ks. (get_or [] ''module_key'' ks, get_or [] ''tensor_key'' ks)) (map_of m name)"

definition slot_of :: "(string \<Rightarrow> (string \<times> string) option) \<Rightarrow> string \<Rightarrow> slot" where
  "slot_of keys name = (case keys name of Some (mk, tk) \<Rightarrow> In_module mk tk | None \<Rightarrow> In_skeleton name)"

definition directory_entry :: "(string \<Rightarrow> (string \<times> string) option) \<Rightarrow> int \<Rightarrow> string \<times> TensorInfo \<Rightarrow> slot \<times> entry" where
  "directory_entry keys start = (\<lambda>(name, info). (slot_of keys name,
     (case keys name of
        Some _ \<Rightarrow> Meta \<lparr> meta_offset = start + info_offset info, meta_shape = info_shape info,
                       meta_byte_size = info_byte_size info, meta_dtype = info_dtype info \<rparr>
      | None \<Rightarrow> Blob \<lparr> skel_offset = start + info_offset info, skel_shape = info_shape info,
                     skel_dtype = projr (resolve_dtype (info_dtype info)) \<rparr>)))"

fun directory :: "server \<Rightarrow> slot \<Rightarrow> entry option" where
  "directory s (In_module mk tk) =
     map_option Meta (map_of (get_or [] mk (module_weights_storage s)) tk)"
| "directory s (In_skeleton name) = map_option Blob (map_of (skeleton_state_dict s) name)"

abbreviation name_keys :: "server \<Rightarrow> string \<Rightarrow> (string \<times> string) option" where
  "name_keys s \<equiv> keys_of (state_dict_name_map s)"

lemma get_or_put: "get_or d k' (assoc_put k v m) = (if k' = k then v else get_or d k' m)"
  by (simp add: get_or_def map_of_assoc_put)

lemma get_or_touch: "get_or d k (touch d k' m) = get_or d k m"
  by (simp add: touch_def get_or_put)

lemma keys_of_put:
  assumes "map_of m name = Some ks" and "\<And>k. get_or [] k ks' = get_or [] k ks"
  shows "keys_of (assoc_put name ks' m) = keys_of m"
  using assms by (auto simp: keys_of_def map_of_assoc_put fun_eq_iff)

definition dtype_error :: cpp_error where
  "dtype_error = Runtime_error ''Unsupported dtype: ''"

text \<open>
  \<open>recorded start ts s o'\<close>: \<open>o'\<close> is the outcome of recording the tensors \<open>ts\<close> of a file at
  \<open>start\<close>, a later tensor taking the slot of an earlier one with the same keys.
\<close>

definition recorded :: "int \<Rightarrow> (string \<times> TensorInfo) list \<Rightarrow> server \<Rightarrow> unit result \<times> server \<Rightarrow> bool" where
  "recorded start ts s = (\<lambda>(r, s').
     weight_buffer s' = weight_buffer s \<and> name_keys s' = name_keys s
     \<and> (case r of
          Inl e \<Rightarrow> e = dtype_error
        | Inr _ \<Rightarrow> directory s' = directory s ++ map_of (rev (map (directory_entry (name_keys s) start) ts))))"

lemma resolve_dtype_Inl: "resolve_dtype d = Inl e \<Longrightarrow> e = dtype_error"
  by (auto simp: dtype_error_def split: if_splits)

declare resolve_dtype.simps [simp del]

lemma directory_put_skeleton:
  "directory (s \<lparr> skeleton_state_dict := assoc_put name k (skeleton_state_dict s) \<rparr>)
   = (directory s)(In_skeleton name \<mapsto> Blob k)"
proof
  fix x show "directory (s \<lparr> skeleton_state_dict := assoc_put name k (skeleton_state_dict s) \<rparr>) x
      = ((directory s)(In_skeleton name \<mapsto> Blob k)) x"
    by (cases x) (simp_all add: map_of_assoc_put)
qed

lemma directory_put_module:
  "directory (s \<lparr> state_dict_name_map := m, module_weights_storage :=
      assoc_put mk (assoc_put tk meta (get_or [] mk (module_weights_storage s))) (module_weights_storage s) \<rparr>)
   = (directory s)(In_module mk tk \<mapsto> Meta meta)" (is "directory ?s = ?d")
proof
  fix x show "directory ?s x = ?d x"
    by (cases x) (simp_all add: map_of_assoc_put get_or_put)
qed

lemma record_tensor_recorded: "recorded start [nt] s (record_tensor start nt u s)"
proof -
  obtain name info where nt: "nt = (name, info)" by (cases nt)
  show ?thesis
  proof (cases "map_of (state_dict_name_map s) name")
    case None
    show ?thesis
    proof (cases "resolve_dtype (info_dtype info)")
      case Inl
      then show ?thesis using None
        by (simp add: nt recorded_def record_tensor_def resolve_dtype_Inl)
    next
      case Inr
      then show ?thesis using None
        by (simp add: nt recorded_def record_tensor_def directory_put_skeleton directory_entry_def slot_of_def keys_of_def)
    qed
  next
    case (Some ks)
    then show ?thesis
      by (simp add: nt recorded_def record_tensor_def Let_def directory_put_module directory_entry_def slot_of_def
          keys_of_put get_or_touch) (simp add: keys_of_def Some)
  qed
qed

lemma recorded_append:
  assumes "recorded start ts s (Inr u, s')" and "recorded start ts' s' r"
  shows "recorded start (ts @ ts') s r"
  using assms by (auto simp: recorded_def split: sum.splits prod.splits)

lemma record_all: "recorded start ts s (fold_do (record_tensor start) ts () s)"
proof (induction ts arbitrary: s)
  case Nil
  then show ?case by (simp add: recorded_def)
next
  case (Cons nt ts)
  obtain r s' where r: "record_tensor start nt () s = (r, s')" by (cases "record_tensor start nt () s")
  have one: "recorded start [nt] s (r, s')" using record_tensor_recorded [of start nt s "()"] r by simp
  show ?case
  proof (cases r)
    case (Inl e)
    then show ?thesis using one r by (simp add: recorded_def)
  next
    case (Inr u)
    then show ?thesis using recorded_append [OF _ Cons.IH [of s'], where ts = "[nt]" and s = s] one r by simp
  qed
qed

section \<open>Loading a planned list of files\<close>

definition file_of :: "(string \<Rightarrow> file_io) \<Rightarrow> string \<Rightarrow> FileMetadata \<Rightarrow> file_io" where
  "file_of fs path md = fs (path @ ''/'' @ md_file_name md)"

definition directory_entries :: "(string \<Rightarrow> (string \<times> string) option) \<Rightarrow> (FileMetadata \<times> int) list \<Rightarrow> (slot \<times> entry) list" where
  "directory_entries keys files = concat (map (\<lambda>(md, start). map (directory_entry keys start) (md_state_dict md)) files)"

definition in_place :: "(string \<Rightarrow> file_io) \<Rightarrow> string \<Rightarrow> char list \<Rightarrow> FileMetadata \<times> int \<Rightarrow> bool" where
  "in_place fs path buf = (\<lambda>(md, start).
     copied (file_of fs path md) (nat start) 0 (nat (md_total_byte_size md)) buf)"

text \<open>
  A list of files with their starts that follows a plan: each has room at its start, and
  each ends before the next begins.
\<close>

definition planned :: "int \<Rightarrow> (FileMetadata \<times> int) list \<Rightarrow> bool" where
  "planned buffer_bytes files \<longleftrightarrow>
     (\<forall>(md, start) \<in> set files. 0 \<le> start \<and> 0 \<le> md_total_byte_size md
        \<and> start + md_total_byte_size md \<le> buffer_bytes)
     \<and> sorted_wrt (\<lambda>(md, start) (md', start'). start + md_total_byte_size md \<le> start') files"

definition covered :: "(FileMetadata \<times> int) list \<Rightarrow> nat \<Rightarrow> bool" where
  "covered files i \<longleftrightarrow> list_ex (\<lambda>(md, start). start \<le> int i \<and> int i < start + md_total_byte_size md) files"

definition loaded ::
  "(string \<Rightarrow> file_io) \<Rightarrow> string \<Rightarrow> (FileMetadata \<times> int) list \<Rightarrow> server \<Rightarrow> (FileMetadata \<times> int) list \<Rightarrow> server \<Rightarrow> bool" where
  "loaded fs path files s done s' \<longleftrightarrow>
     length (weight_buffer s') = length (weight_buffer s)
     \<and> (\<forall>i. \<not> covered files i \<longrightarrow> weight_buffer s' ! i = weight_buffer s ! i)
     \<and> name_keys s' = name_keys s
     \<and> list_all (in_place fs path (weight_buffer s')) done
     \<and> directory s' = directory s ++ map_of (rev (directory_entries (name_keys s) done))"

definition load_errors :: "cpp_error set" where
  "load_errors = insert dtype_error read_errors"

definition load_failed :: "(FileMetadata \<times> int) list \<Rightarrow> server \<Rightarrow> cpp_error \<Rightarrow> server \<Rightarrow> bool" where
  "load_failed files s e s' \<longleftrightarrow> e \<in> load_errors
     \<and> length (weight_buffer s') = length (weight_buffer s)
     \<and> (\<forall>i. \<not> covered files i \<longrightarrow> weight_buffer s' ! i = weight_buffer s ! i)"

text \<open>A loop with an invariant over the elements it has done, and a fact for its exceptions.\<close>

lemma fold_do_run:
  assumes "I [] acc s"
    and step: "\<And>ys x zs acc s. xs = ys @ x # zs \<Longrightarrow> I ys acc s \<Longrightarrow>
      (case f x acc s of (Inl e, s') \<Rightarrow> E e s' | (Inr acc', s') \<Rightarrow> I (ys @ [x]) acc' s')"
  shows "case fold_do f xs acc s of (Inl e, s') \<Rightarrow> E e s' | (Inr acc', s') \<Rightarrow> I xs acc' s'"
proof -
  have "case fold_do f zs acc s of (Inl e, s') \<Rightarrow> E e s' | (Inr acc', s') \<Rightarrow> I xs acc' s'"
    if "xs = ys @ zs" and "I ys acc s" for ys zs acc s
    using that
  proof (induction zs arbitrary: ys acc s)
    case (Cons x zs)
    then show ?case using step [of ys x zs acc s] Cons.IH [of "ys @ [x]"]
      by (cases "f x acc s"; cases "fst (f x acc s)") auto
  qed simp
  then show ?thesis using assms(1) by simp
qed

lemma load_file_step:
  assumes "planned buffer_bytes files" and "files = ys @ (md, start) # zs"
    and "\<And>p. io_ok (fs p)" and "int (length (weight_buffer s)) = buffer_bytes"
    and "loaded fs path files s ys s1"
  shows "case load_file fs path weight_ptr buffer_bytes (md, start) u s1 of
      (Inl e, s') \<Rightarrow> load_failed files s e s'
    | (Inr _, s') \<Rightarrow> loaded fs path files s (ys @ [(md, start)]) s'"
proof -
  define n where "n = md_total_byte_size md"
  define buf where "buf = weight_buffer s1"
  define r where "r = read_file (file_of fs path md) weight_ptr buffer_bytes (nat start) (nat n) buf"
  have place: "0 \<le> start" "0 \<le> n" "start + n \<le> buffer_bytes"
    using assms(1,2) by (auto simp: planned_def n_def)
  have good: "good_read (file_of fs path md) (nat start) 0 (nat n) buf r"
    unfolding r_def
    by (rule read_file_good) (use assms(3-5) place in \<open>auto simp: file_of_def buf_def loaded_def\<close>)
  have len: "length (snd r) = length (weight_buffer s)"
    and out: "\<And>i. \<not> covered files i \<Longrightarrow> snd r ! i = weight_buffer s ! i"
    using good assms(2,5) place
    by (auto simp: good_read_def same_outside_def loaded_def buf_def covered_def n_def)
  have sep: "start' + md_total_byte_size md' \<le> start \<and> 0 \<le> start' \<and> 0 \<le> md_total_byte_size md'"
    if "(md', start') \<in> set ys" for md' start'
    using assms(1,2) that by (auto simp: planned_def sorted_wrt_append)
  have kept: "list_all (in_place fs path (snd r)) ys"
  proof (clarsimp simp: list_all_iff in_place_def)
    fix md' start' assume y: "(md', start') \<in> set ys"
    have before: "copied (file_of fs path md') (nat start') 0 (nat (md_total_byte_size md')) buf"
      using assms(5) y by (auto simp: loaded_def list_all_iff in_place_def buf_def)
    have "same_outside (nat start + 0) (nat start + nat n) buf (snd r)" using good by (simp add: good_read_def)
    moreover have "nat start' + nat (md_total_byte_size md') \<le> nat start + 0" using sep [OF y] by linarith
    ultimately show "copied (file_of fs path md') (nat start') 0 (nat (md_total_byte_size md')) (snd r)"
      using copied_outside [OF before] by blast
  qed
  have call: "load_file fs path weight_ptr buffer_bytes (md, start) u s1 =
      (case r of (Inl e, buf) \<Rightarrow> (Inl e, s1 \<lparr> weight_buffer := buf \<rparr>)
       | (Inr _, buf) \<Rightarrow> fold_do (record_tensor start) (md_state_dict md) () (s1 \<lparr> weight_buffer := buf \<rparr>))"
    by (simp add: load_file_def r_def buf_def n_def file_of_def)
  show ?thesis
  proof (cases "fst r")
    case (Inl e)
    then have "e \<in> load_errors" using good by (simp add: good_read_def load_errors_def)
    then show ?thesis using Inl len out unfolding call by (cases r) (simp add: load_failed_def)
  next
    case (Inr v)
    define s2 where "s2 = s1 \<lparr> weight_buffer := snd r \<rparr>"
    have dir: "directory s2 = directory s1"
    proof
      fix x show "directory s2 x = directory s1 x" by (cases x) (simp_all add: s2_def)
    qed
    obtain r2 s3 where run: "fold_do (record_tensor start) (md_state_dict md) () s2 = (r2, s3)"
      by (cases "fold_do (record_tensor start) (md_state_dict md) () s2")
    have rec: "recorded start (md_state_dict md) s2 (r2, s3)" using record_all [of start "md_state_dict md" s2] run by simp
    have call': "load_file fs path weight_ptr buffer_bytes (md, start) u s1 = (r2, s3)"
      using Inr run unfolding call by (cases r) (simp add: s2_def)
    have buf3: "weight_buffer s3 = snd r" using rec by (simp add: recorded_def s2_def)
    have here: "in_place fs path (snd r) (md, start)" using good Inr by (simp add: good_read_def in_place_def n_def)
    show ?thesis
    proof (cases r2)
      case (Inl e)
      then show ?thesis using rec len out unfolding call'
        by (simp add: recorded_def load_failed_def load_errors_def buf3)
    next
      case (Inr w)
      then have "directory s3 = directory s1 ++ map_of (rev (map (directory_entry (name_keys s1) start) (md_state_dict md)))"
        using rec dir by (simp add: recorded_def s2_def)
      then show ?thesis using Inr rec len out kept here assms(5) unfolding call'
        by (simp add: recorded_def loaded_def buf3 s2_def directory_entries_def)
    qed
  qed
qed

lemma load_planned:
  assumes "planned buffer_bytes files" and "\<And>p. io_ok (fs p)"
    and "int (length (weight_buffer s)) = buffer_bytes"
  shows "case fold_do (load_file fs path weight_ptr buffer_bytes) files () s of
      (Inl e, s') \<Rightarrow> load_failed files s e s'
    | (Inr _, s') \<Rightarrow> loaded fs path files s files s'"
proof (rule fold_do_run [where I = "\<lambda>ys _. loaded fs path files s ys"])
  show "loaded fs path files s [] s" by (simp add: loaded_def directory_entries_def)
next
  fix ys x zs u s1
  assume at: "files = ys @ x # zs" and before: "loaded fs path files s ys s1"
  obtain md start where x: "x = (md, start)" by (cases x)
  show "case load_file fs path weight_ptr buffer_bytes x u s1 of
      (Inl e, s') \<Rightarrow> load_failed files s e s' | (Inr _, s') \<Rightarrow> loaded fs path files s (ys @ [x]) s'"
    unfolding x by (rule load_file_step [OF assms(1) _ assms(2,3) before]) (use at x in simp)
qed

section \<open>From the plan to the load\<close>

lemma plan_planned:
  assumes "plan_weight_load (map (\<lambda>(path, md). extent_of path md) parsed) buffer_bytes = Inr starts"
    and "buffer_bytes \<le> 2 ^ 63 - 4096"
  shows "planned buffer_bytes (zip (map snd parsed) starts)" and "length starts = length parsed"
    and "(md, start) \<in> set (zip (map snd parsed) starts) \<Longrightarrow> (name, info) \<in> set (md_state_dict md) \<Longrightarrow>
      0 \<le> info_offset info \<and> 0 \<le> info_byte_size info
      \<and> info_offset info + info_byte_size info \<le> md_total_byte_size md"
proof -
  define sizes where "sizes = map (md_total_byte_size \<circ> snd) parsed"
  have sizes: "map extent_total_byte_size (map (\<lambda>(path, md). extent_of path md) parsed) = sizes"
    by (auto simp: sizes_def extent_of_def)
  have ok: "list_all extent_ok (map (\<lambda>(path, md). extent_of path md) parsed)"
    and fit: "\<forall>(s, e) \<in> set (spans 0 sizes). e \<le> buffer_bytes" and starts: "starts = map fst (spans 0 sizes)"
    using assms(1) unfolding plan_weight_load_iff [OF assms(2)] file_spans_def sizes by auto
  have pos: "list_all ((\<le>) 0) sizes"
    using ok by (auto simp: list_all_iff extent_ok_def sizes_def extent_of_def)
  show len: "length starts = length parsed" by (simp add: starts sizes_def)
  have nth: "snd (spans 0 sizes ! i) = starts ! i + md_total_byte_size (snd (parsed ! i))"
    "0 \<le> starts ! i" "0 \<le> md_total_byte_size (snd (parsed ! i))" "snd (spans 0 sizes ! i) \<le> buffer_bytes"
    if "i < length parsed" for i
  proof -
    have i: "i < length sizes" using that by (simp add: sizes_def)
    show "snd (spans 0 sizes ! i) = starts ! i + md_total_byte_size (snd (parsed ! i))"
      using spans_width [OF i, of 0] i that by (simp add: starts sizes_def)
    have "spans 0 sizes ! i \<in> set (spans 0 sizes)" using i by simp
    then show "0 \<le> starts ! i" "snd (spans 0 sizes ! i) \<le> buffer_bytes"
      using spans_start_ge [OF pos, of "fst (spans 0 sizes ! i)" "snd (spans 0 sizes ! i)" 0] fit i by (auto simp: starts split_beta)
    show "0 \<le> md_total_byte_size (snd (parsed ! i))"
      using pos that by (auto simp: list_all_iff sizes_def)
  qed
  have apart: "snd (spans 0 sizes ! i) \<le> starts ! j" if "i < j" "j < length parsed" for i j
    using sorted_wrt_nth_less [OF spans_sorted [OF pos, of 0] that(1)] that(2)
    by (simp add: starts sizes_def split_beta)
  show "planned buffer_bytes (zip (map snd parsed) starts)"
    unfolding planned_def
  proof (intro conjI)
    show "\<forall>(md, start) \<in> set (zip (map snd parsed) starts). 0 \<le> start \<and> 0 \<le> md_total_byte_size md
        \<and> start + md_total_byte_size md \<le> buffer_bytes"
      using nth len by (force simp: set_zip)
    show "sorted_wrt (\<lambda>(md, start) (md', start'). start + md_total_byte_size md \<le> start')
        (zip (map snd parsed) starts)"
      using nth(1) apart len by (auto simp: sorted_wrt_iff_nth_less)
  qed
  show "0 \<le> info_offset info \<and> 0 \<le> info_byte_size info
      \<and> info_offset info + info_byte_size info \<le> md_total_byte_size md"
    if "(md, start) \<in> set (zip (map snd parsed) starts)" and "(name, info) \<in> set (md_state_dict md)"
  proof -
    have "md \<in> set (map snd parsed)" using that(1) by (rule set_zip_leftD)
    then obtain path where "(path, md) \<in> set parsed" by auto
    then have "extent_ok (extent_of path md)" using ok by (auto simp: list_all_iff)
    then show ?thesis using that(2)
      by (auto simp: extent_ok_def extent_of_def list_all_iff tensor_fits_def split_beta)
  qed
qed

definition slice :: "int \<Rightarrow> int \<Rightarrow> 'b list \<Rightarrow> 'b list" where
  "slice off n xs = take (nat n) (drop (nat off) xs)"

lemma slice_copied:
  assumes "copied io (nat start) 0 (nat len) buf" and "0 \<le> start" and "0 \<le> off" and "0 \<le> n"
    and "off + n \<le> len" and "start + len \<le> int (length buf)"
  shows "slice (start + off) n buf = slice off n (io_contents io)"
    and "int (length (slice (start + off) n buf)) = n"
proof -
  have room: "nat off + nat n \<le> nat len" "nat (start + off) + nat n \<le> length buf" "nat (start + off) = nat start + nat off"
    using assms by linarith+
  have whole: "nat len \<le> length (io_contents io)"
    and bytes: "\<And>i. i < nat len \<Longrightarrow> buf ! (nat start + i) = io_contents io ! i"
    using assms(1) by (simp_all add: copied_def)
  have fits: "nat n \<le> length buf - nat (start + off)" "nat n \<le> length (io_contents io) - nat off"
    using room whole by linarith+
  show "slice (start + off) n buf = slice off n (io_contents io)"
  proof (rule nth_equalityI)
    show "length (slice (start + off) n buf) = length (slice off n (io_contents io))"
      using fits by (simp add: slice_def)
    fix i assume "i < length (slice (start + off) n buf)"
    then have "i < nat n" by (simp add: slice_def)
    then show "slice (start + off) n buf ! i = slice off n (io_contents io) ! i"
      using room whole bytes [of "nat off + i"] by (simp add: slice_def add.assoc)
  qed
  show "int (length (slice (start + off) n buf)) = n" using fits(1) assms(4) by (simp add: slice_def)
qed

end
