(* ===== verification/Meta_Codec.thy ===== *)
theory Meta_Codec
  imports Load_Files
begin

text \<open>
  The table of tensors in shared memory (\<open>Parameter_Server/posix_shm.cpp\<close>): the server writes
  \<open>module_weights_storage_\<close> into an anonymous file and every worker reads it back. A buffer is
  the list of its characters; \<open>memcpy\<close> of a 64-bit value is its eight bytes, least significant
  first. The writer is the list of the bytes written so far together with the size of the
  buffer, the reader is what is left between \<open>ptr\<close> and \<open>end\<close>.
\<close>

section \<open>64-bit values\<close>

fun le_bytes :: "nat \<Rightarrow> nat \<Rightarrow> char list" where
  "le_bytes 0 n = []"
| "le_bytes (Suc k) n = char_of n # le_bytes k (n div 256)"

fun of_le_bytes :: "char list \<Rightarrow> nat" where
  "of_le_bytes [] = 0"
| "of_le_bytes (c # cs) = of_char c + 256 * of_le_bytes cs"

definition size_t_bytes :: "nat \<Rightarrow> char list" where
  "size_t_bytes n = le_bytes 8 n"

definition int64_bytes :: "int \<Rightarrow> char list" where
  "int64_bytes x = le_bytes 8 (nat (x mod 2 ^ 64))"

definition of_int64_bytes :: "char list \<Rightarrow> int" where
  "of_int64_bytes cs = (let n = int (of_le_bytes cs) in if n < 2 ^ 63 then n else n - 2 ^ 64)"

section \<open>Size\<close>

definition meta_size :: "string \<times> tensor_meta \<Rightarrow> nat" where
  "meta_size inner = 8 + length (fst inner) + 8 * 2 + 8 + length (meta_shape (snd inner)) * 8
     + (8 + length (meta_dtype (snd inner)))"

definition module_size :: "string \<times> (string \<times> tensor_meta) list \<Rightarrow> nat" where
  "module_size outer = 8 + length (fst outer) + 8 + sum_list (map meta_size (snd outer))"

definition compute_serialized_size :: "weights_storage \<Rightarrow> nat" where
  "compute_serialized_size map' = 8 + sum_list (map module_size map')"

section \<open>Writing\<close>

text \<open>
  One \<open>if (ptr + n > buffer + buffer_size) throw\<close> followed by the copies it guards.
\<close>

definition put_bytes :: "nat \<Rightarrow> string \<Rightarrow> char list \<Rightarrow> char list \<Rightarrow> unit result \<times> char list" where
  "put_bytes buffer_size what bs written =
     (if length written + length bs > buffer_size
      then (Inl (Runtime_error (''Buffer overflow ('' @ what @ '')'')), written)
      else (Inr (), written @ bs))"

definition put_meta :: "nat \<Rightarrow> string \<times> tensor_meta \<Rightarrow> unit \<Rightarrow> char list \<Rightarrow> unit result \<times> char list" where
  "put_meta buffer_size inner _ written =
     (case inner of (inner_key, meta) \<Rightarrow>
      and_then (put_bytes buffer_size ''inner key'' (size_t_bytes (length inner_key) @ inner_key) written)
     (\<lambda>_ written. and_then (put_bytes buffer_size ''tensor_meta POD fields''
        (int64_bytes (meta_offset meta) @ int64_bytes (meta_byte_size meta)) written)
     (\<lambda>_ written. and_then (put_bytes buffer_size ''tensor_shape size''
        (size_t_bytes (length (meta_shape meta))) written)
     (\<lambda>_ written. and_then
        (if length (meta_shape meta) > 0
         then put_bytes buffer_size ''tensor_shape data'' (concat (map int64_bytes (meta_shape meta))) written
         else (Inr (), written))
     (\<lambda>_ written. put_bytes buffer_size ''tensor_meta dtype''
        (size_t_bytes (length (meta_dtype meta)) @ meta_dtype meta) written)))))"

definition put_module ::
  "nat \<Rightarrow> string \<times> (string \<times> tensor_meta) list \<Rightarrow> unit \<Rightarrow> char list \<Rightarrow> unit result \<times> char list" where
  "put_module buffer_size outer _ written =
     (case outer of (outer_key, inner) \<Rightarrow>
      and_then (put_bytes buffer_size ''outer key'' (size_t_bytes (length outer_key) @ outer_key) written)
     (\<lambda>_ written. and_then (put_bytes buffer_size ''inner map size'' (size_t_bytes (length inner)) written)
     (\<lambda>_ written. fold_do (put_meta buffer_size) inner () written)))"

definition serialize_map_to_buffer :: "weights_storage \<Rightarrow> nat \<Rightarrow> unit result \<times> char list" where
  "serialize_map_to_buffer map' buffer_size =
     and_then (put_bytes buffer_size ''outer_size'' (size_t_bytes (length map')) [])
       (\<lambda>_ written. fold_do (put_module buffer_size) map' () written)"

section \<open>Reading\<close>

text \<open>
  The source compares \<open>ptr + len\<close> with the end of the buffer, here the length is compared with
  the bytes that are left. The two agree as long as the pointer sum does not wrap; for a length
  near 2^64 read from a corrupt buffer the sum may wrap in C++, which is outside the model.
\<close>

definition take_bytes :: "string \<Rightarrow> nat \<Rightarrow> char list \<Rightarrow> char list result \<times> char list" where
  "take_bytes what n left =
     (if n > length left
      then (Inl (Runtime_error (''Buffer overflow (reading '' @ what @ '')'')), left)
      else (Inr (take n left), drop n left))"

definition get_size_t :: "string \<Rightarrow> char list \<Rightarrow> nat result \<times> char list" where
  "get_size_t what left =
     and_then (take_bytes what 8 left) (\<lambda>cs left. (Inr (of_le_bytes cs), left))"

fun split_int64 :: "nat \<Rightarrow> char list \<Rightarrow> int list" where
  "split_int64 0 cs = []"
| "split_int64 (Suc n) cs = of_int64_bytes (take 8 cs) # split_int64 n (drop 8 cs)"

text \<open>
  The product \<open>vec_size * sizeof(int64_t)\<close> wraps at 64 bits; \<open>resize\<close> throws a
  \<open>length_error\<close> beyond the largest vector of \<open>int64_t\<close>.
\<close>

definition get_shape :: "nat \<Rightarrow> char list \<Rightarrow> int list result \<times> char list" where
  "get_shape vec_size left =
     (if vec_size > 0
      then if u64 (vec_size * 8) > length left
           then (Inl (Runtime_error ''Buffer overflow (reading tensor_shape data)''), left)
           else if vec_size > 2 ^ 60 - 1 then (Inl (Logic_error ''vector::_M_default_append''), left)
           else (Inr (split_int64 vec_size left), drop (vec_size * 8) left)
      else (Inr [], left))"

definition get_meta ::
  "nat \<Rightarrow> (string \<times> tensor_meta) list \<Rightarrow> char list \<Rightarrow> (string \<times> tensor_meta) list result \<times> char list" where
  "get_meta _ inner_map left =
     and_then (get_size_t ''inner key length'' left)
     (\<lambda>inner_key_len left. and_then (take_bytes ''inner key data'' inner_key_len left)
     (\<lambda>inner_key left. and_then (take_bytes ''tensor_meta POD fields'' 16 left)
     (\<lambda>pod left. and_then (get_size_t ''tensor_shape size'' left)
     (\<lambda>vec_size left. and_then (get_shape vec_size left)
     (\<lambda>shape left. and_then (get_size_t ''tensor_meta dtype length'' left)
     (\<lambda>dtype_len left. and_then
        (if dtype_len > 0 then take_bytes ''tensor_meta dtype data'' dtype_len left else (Inr [], left))
     (\<lambda>dtype left. (Inr (assoc_put inner_key
          \<lparr> meta_offset = of_int64_bytes (take 8 pod), meta_shape = shape,
            meta_byte_size = of_int64_bytes (drop 8 pod), meta_dtype = dtype \<rparr> inner_map), left))))))))"

text \<open>A loop \<open>for (i = 0; i < n; ++i)\<close> whose body can throw.\<close>

fun repeat_do :: "nat \<Rightarrow> (nat \<Rightarrow> 'a \<Rightarrow> 's \<Rightarrow> 'a result \<times> 's) \<Rightarrow> nat \<Rightarrow> 'a \<Rightarrow> 's \<Rightarrow> 'a result \<times> 's" where
  "repeat_do 0 f i acc s = (Inr acc, s)"
| "repeat_do (Suc n) f i acc s = and_then (f i acc s) (repeat_do n f (Suc i))"

definition get_module :: "nat \<Rightarrow> weights_storage \<Rightarrow> char list \<Rightarrow> weights_storage result \<times> char list" where
  "get_module _ result left =
     and_then (get_size_t ''outer key length'' left)
     (\<lambda>key_len left. and_then (take_bytes ''outer key data'' key_len left)
     (\<lambda>outer_key left. and_then (get_size_t ''inner map size'' left)
     (\<lambda>inner_size left. and_then (repeat_do inner_size get_meta 0 [] left)
     (\<lambda>inner_map left. (Inr (assoc_put outer_key inner_map result), left)))))"

definition deserialize_map_from_buffer :: "char list \<Rightarrow> weights_storage result" where
  "deserialize_map_from_buffer buffer =
     fst (and_then (get_size_t ''outer_size'' buffer)
       (\<lambda>outer_size left. repeat_do outer_size get_module 0 [] left))"

text \<open>
  The anonymous file. Whether the system calls succeed is an argument of the writer, and
  what a process finds behind \<open>/proc/<pid>/fd/<n>\<close> one of the reader.
\<close>

record memfd_io =
  memfd_create_ok :: bool
  memfd_truncate_ok :: bool
  memfd_map_ok :: bool

definition serialize_to_memfd :: "memfd_io \<Rightarrow> weights_storage \<Rightarrow> char list result" where
  "serialize_to_memfd io map' =
     (let total_size = compute_serialized_size map'
      in if \<not> memfd_create_ok io then Inl (Runtime_error ''memfd_create for tensor metadata failed: '')
         else if \<not> memfd_truncate_ok io then Inl (Runtime_error ''ftruncate on tensor metadata memfd failed: '')
         else if \<not> memfd_map_ok io then Inl (Runtime_error ''mmap on tensor metadata memfd failed: '')
         else case serialize_map_to_buffer map' total_size of
           (Inl e, _) \<Rightarrow> Inl e
         | (Inr _, written) \<Rightarrow> Inr written)"

record proc_io =
  proc_file :: "int \<Rightarrow> int \<Rightarrow> char list option"
  proc_stat_ok :: bool
  proc_map_ok :: bool

definition deserialize_from_memfd :: "proc_io \<Rightarrow> int \<Rightarrow> int \<Rightarrow> weights_storage result" where
  "deserialize_from_memfd io memfd_creator_pid memfd_fd =
     (if memfd_creator_pid \<le> 0 \<or> memfd_fd < 0
      then Inl (Runtime_error ''tensor metadata attach requires a valid memfd_creator_pid and memfd_fd'')
      else case proc_file io memfd_creator_pid memfd_fd of
        None \<Rightarrow> Inl (Runtime_error ''Cannot open tensor metadata memfd '')
      | Some contents \<Rightarrow>
          if \<not> proc_stat_ok io then Inl (Runtime_error ''Failed to get tensor metadata memfd size'')
          else if \<not> proc_map_ok io then Inl (Runtime_error ''Failed to map tensor metadata memfd'')
          else deserialize_map_from_buffer contents)"

section \<open>Values\<close>

lemma length_le_bytes [simp]: "length (le_bytes k n) = k"
  by (induction k n rule: le_bytes.induct) auto

lemma of_le_bytes: "of_le_bytes (le_bytes k n) = n mod 256 ^ k"
proof (induction k n rule: le_bytes.induct)
  case (2 k n)
  have "n mod (256 * 256 ^ k) = 256 * (n div 256 mod 256 ^ k) + n mod 256"
    by (rule mod_mult2_eq)
  with 2 show ?case by (simp add: of_char_of)
qed simp

lemma length_size_t_bytes [simp]: "length (size_t_bytes n) = 8"
  by (simp add: size_t_bytes_def)

lemma length_int64_bytes [simp]: "length (int64_bytes x) = 8"
  by (simp add: int64_bytes_def)

lemma of_size_t_bytes: "n < 2 ^ 64 \<Longrightarrow> of_le_bytes (size_t_bytes n) = n"
  by (simp add: size_t_bytes_def of_le_bytes)

definition is_int64 :: "int \<Rightarrow> bool" where
  "is_int64 x \<longleftrightarrow> - (2 ^ 63) \<le> x \<and> x < 2 ^ 63"

lemma of_int64_bytes: "is_int64 x \<Longrightarrow> of_int64_bytes (int64_bytes x) = x"
proof -
  assume x: "is_int64 x"
  have "nat (x mod 2 ^ 64) mod 256 ^ 8 = nat (x mod 2 ^ 64)"
    by (simp add: nat_less_iff)
  then have "of_int64_bytes (int64_bytes x) = (let n = x mod 2 ^ 64 in if n < 2 ^ 63 then n else n - 2 ^ 64)"
    by (simp add: of_int64_bytes_def int64_bytes_def of_le_bytes)
  also have "\<dots> = x"
  proof (cases "0 \<le> x")
    case True
    then have "x mod 2 ^ 64 = x" using x by (intro mod_pos_pos_trivial) (auto simp: is_int64_def)
    then show ?thesis using x by (simp add: is_int64_def Let_def)
  next
    case False
    have "(x + 2 ^ 64) mod 2 ^ 64 = x + 2 ^ 64" using x False by (intro mod_pos_pos_trivial) (auto simp: is_int64_def)
    then have "x mod 2 ^ 64 = x + 2 ^ 64" by simp
    then show ?thesis using x by (simp add: is_int64_def Let_def)
  qed
  finally show ?thesis .
qed

section \<open>Readers of a given text\<close>

text \<open>
  \<open>reads p bs a\<close>: the reader \<open>p\<close> consumes exactly \<open>bs\<close> to yield \<open>a\<close>, and throws when the buffer
  ends inside \<open>bs\<close>.
\<close>

definition reads :: "(char list \<Rightarrow> 'a result \<times> char list) \<Rightarrow> char list \<Rightarrow> 'a \<Rightarrow> bool" where
  "reads p bs a \<longleftrightarrow> (\<forall>left. p (bs @ left) = (Inr a, left))
     \<and> (\<forall>n < length bs. \<exists>e left. p (take n bs) = (Inl e, left))"

lemma reads_return: "reads (\<lambda>left. (Inr a, left)) [] a"
  by (simp add: reads_def)

lemma reads_bind:
  assumes "reads p bs a" and "reads (q a) cs b"
  shows "reads (\<lambda>left. and_then (p left) q) (bs @ cs) b"
  unfolding reads_def
proof (intro conjI allI impI)
  fix left show "and_then (p ((bs @ cs) @ left)) q = (Inr b, left)"
    using assms by (simp add: reads_def)
next
  fix n assume n: "n < length (bs @ cs)"
  show "\<exists>e left. and_then (p (take n (bs @ cs))) q = (Inl e, left)"
  proof (cases "n < length bs")
    case True
    then obtain e left where "p (take n bs) = (Inl e, left)" using assms(1) unfolding reads_def by blast
    then show ?thesis using True by simp
  next
    case False
    then have "p (take n (bs @ cs)) = (Inr a, take (n - length bs) cs)"
      using assms(1) unfolding reads_def by simp
    moreover obtain e left where "q a (take (n - length bs) cs) = (Inl e, left)"
      using assms(2) n False unfolding reads_def by (metis add_less_imp_less_left le_add_diff_inverse length_append not_less)
    ultimately show ?thesis by simp
  qed
qed

lemma reads_take: "length bs = n \<Longrightarrow> reads (take_bytes what n) bs bs"
  by (auto simp: reads_def take_bytes_def)

lemma reads_size_t:
  assumes "n < 2 ^ 64"
  shows "reads (get_size_t what) (size_t_bytes n) n"
proof -
  have "reads (\<lambda>left. and_then (take_bytes what 8 left) (\<lambda>cs left. (Inr (of_le_bytes cs), left)))
      (size_t_bytes n @ []) (of_le_bytes (size_t_bytes n))"
    by (rule reads_bind [OF reads_take reads_return]) simp
  then show ?thesis using assms by (simp add: get_size_t_def [abs_def] of_size_t_bytes)
qed

lemma length_shape_bytes [simp]: "length (concat (map int64_bytes sh)) = length sh * 8"
  by (induction sh) auto

lemma split_shape:
  "list_all is_int64 sh \<Longrightarrow> split_int64 (length sh) (concat (map int64_bytes sh) @ left) = sh"
  by (induction sh) (auto simp: of_int64_bytes)

lemma reads_shape:
  assumes "list_all is_int64 sh" and "length sh < 2 ^ 60"
  shows "reads (get_shape (length sh)) (concat (map int64_bytes sh)) sh"
proof -
  have "u64 (length sh * 8) = length sh * 8" using assms(2) by (intro u64_id) simp
  then show ?thesis using assms split_shape [OF assms(1)] unfolding reads_def get_shape_def
    by (auto simp del: length_concat)
qed

section \<open>The text of a table\<close>

definition meta_text :: "string \<times> tensor_meta \<Rightarrow> char list" where
  "meta_text = (\<lambda>(key, meta).
     (size_t_bytes (length key) @ key)
     @ (int64_bytes (meta_offset meta) @ int64_bytes (meta_byte_size meta))
     @ size_t_bytes (length (meta_shape meta)) @ concat (map int64_bytes (meta_shape meta))
     @ (size_t_bytes (length (meta_dtype meta)) @ meta_dtype meta))"

definition module_text :: "string \<times> (string \<times> tensor_meta) list \<Rightarrow> char list" where
  "module_text = (\<lambda>(key, inner).
     (size_t_bytes (length key) @ key) @ size_t_bytes (length inner) @ concat (map meta_text inner))"

definition table_text :: "weights_storage \<Rightarrow> char list" where
  "table_text st = size_t_bytes (length st) @ concat (map module_text st)"

lemma length_meta_text: "length (meta_text kv) = meta_size kv"
  by (cases kv) (simp add: meta_text_def meta_size_def del: length_concat)

lemma length_module_text: "length (module_text kv) = module_size kv"
  by (cases kv) (simp add: module_text_def module_size_def length_concat o_def length_meta_text)

lemma length_table_text: "length (table_text st) = compute_serialized_size st"
  by (simp add: table_text_def compute_serialized_size_def length_concat o_def length_module_text)

section \<open>Writing and reading\<close>

text \<open>
  A table as a C++ program can hold it: keys are unique, numbers are within their types and
  containers within their sizes.
\<close>

definition meta_ok :: "string \<times> tensor_meta \<Rightarrow> bool" where
  "meta_ok = (\<lambda>(key, meta). length key < 2 ^ 64 \<and> is_int64 (meta_offset meta) \<and> is_int64 (meta_byte_size meta)
     \<and> list_all is_int64 (meta_shape meta) \<and> length (meta_shape meta) < 2 ^ 60
     \<and> length (meta_dtype meta) < 2 ^ 64)"

definition module_ok :: "string \<times> (string \<times> tensor_meta) list \<Rightarrow> bool" where
  "module_ok = (\<lambda>(key, inner). length key < 2 ^ 64 \<and> length inner < 2 ^ 64
     \<and> distinct (map fst inner) \<and> list_all meta_ok inner)"

definition table_ok :: "weights_storage \<Rightarrow> bool" where
  "table_ok st \<longleftrightarrow> length st < 2 ^ 64 \<and> distinct (map fst st) \<and> list_all module_ok st"

lemma reads_repeat:
  assumes "\<And>x i acc. x \<in> set xs \<Longrightarrow> reads (f i acc) (g x) (h x acc)"
  shows "reads (repeat_do (length xs) f i acc) (concat (map g xs)) (fold h xs acc)"
  using assms
proof (induction xs arbitrary: i acc)
  case Nil
  show ?case by (simp add: reads_def)
next
  case (Cons x xs)
  have "repeat_do (length (x # xs)) f i acc = (\<lambda>s. and_then (f i acc s) (repeat_do (length xs) f (Suc i)))"
    by (simp add: fun_eq_iff)
  moreover have "reads (f i acc) (g x) (h x acc)" using Cons.prems by simp
  moreover have "reads (repeat_do (length xs) f (Suc i) (h x acc)) (concat (map g xs)) (fold h xs (h x acc))"
    using Cons by simp
  ultimately show ?case using reads_bind by fastforce
qed

lemma fold_assoc_put:
  assumes "distinct (map fst acc @ map fst xs)"
  shows "fold (\<lambda>(k, v). assoc_put k v) xs acc = acc @ xs"
  using assms
proof (induction xs arbitrary: acc)
  case (Cons x xs)
  have "assoc_put k v acc = acc @ [(k, v)]" if "k \<notin> fst ` set acc" for k :: 'a and v :: 'b
    using that by (induction acc) auto
  then show ?case using Cons by (cases x) auto
qed simp

text \<open>
  The contract of the writer and the reader of one entry of a container, and what follows
  for the container: it is written in full when the buffer has room, and read back as it was.
\<close>

locale entry_codec =
  fixes ok :: "'k \<times> 'v \<Rightarrow> bool"
    and text_of :: "'k \<times> 'v \<Rightarrow> char list"
    and put :: "nat \<Rightarrow> 'k \<times> 'v \<Rightarrow> unit \<Rightarrow> char list \<Rightarrow> unit result \<times> char list"
    and get :: "nat \<Rightarrow> ('k \<times> 'v) list \<Rightarrow> char list \<Rightarrow> ('k \<times> 'v) list result \<times> char list"
  assumes puts: "length w + length (text_of kv) \<le> buffer_size \<Longrightarrow> put buffer_size kv u w = (Inr (), w @ text_of kv)"
    and gets: "ok (k, v) \<Longrightarrow> reads (get i acc) (text_of (k, v)) (assoc_put k v acc)"
begin

lemma puts_all:
  assumes "length w + length (concat (map text_of kvs)) \<le> buffer_size"
  shows "fold_do (put buffer_size) kvs () w = (Inr (), w @ concat (map text_of kvs))"
  using assms by (induction kvs arbitrary: w) (auto simp: puts)

lemma gets_all:
  assumes "distinct (map fst kvs)" and "list_all ok kvs"
  shows "reads (repeat_do (length kvs) get i []) (concat (map text_of kvs)) kvs"
proof -
  have "reads (repeat_do (length kvs) get i []) (concat (map text_of kvs)) (fold (\<lambda>(k, v). assoc_put k v) kvs [])"
    by (rule reads_repeat) (use assms(2) in \<open>auto simp: list_all_iff intro: gets\<close>)
  then show ?thesis using fold_assoc_put [of "[]" kvs] assms(1) by simp
qed

end

lemma put_meta_text:
  assumes "length w + length (meta_text kv) \<le> buffer_size"
  shows "put_meta buffer_size kv u w = (Inr (), w @ meta_text kv)"
  using assms by (cases kv) (auto simp: put_meta_def put_bytes_def meta_text_def simp del: length_concat)

lemma get_meta_text:
  assumes "meta_ok (key, meta)"
  shows "reads (get_meta i acc) (meta_text (key, meta)) (assoc_put key meta acc)"
proof -
  have ok: "length key < 2 ^ 64" "length (meta_shape meta) < 2 ^ 64" "is_int64 (meta_offset meta)"
    "is_int64 (meta_byte_size meta)" "list_all is_int64 (meta_shape meta)" "length (meta_shape meta) < 2 ^ 60"
    "length (meta_dtype meta) < 2 ^ 64"
    using assms by (simp_all add: meta_ok_def)
  have whole: "\<lparr> meta_offset = meta_offset meta, meta_shape = meta_shape meta,
      meta_byte_size = meta_byte_size meta, meta_dtype = meta_dtype meta \<rparr> = meta"
    by (cases meta) simp
  have pod: "length (int64_bytes (meta_offset meta) @ int64_bytes (meta_byte_size meta)) = 16" by simp
  have dtype: "reads (\<lambda>left. if length (meta_dtype meta) > 0
      then take_bytes ''tensor_meta dtype data'' (length (meta_dtype meta)) left else (Inr [], left))
      (meta_dtype meta) (meta_dtype meta)"
    by (auto simp: reads_def take_bytes_def)
  have "reads (get_meta i acc) (size_t_bytes (length key) @ key
      @ (int64_bytes (meta_offset meta) @ int64_bytes (meta_byte_size meta))
      @ size_t_bytes (length (meta_shape meta)) @ concat (map int64_bytes (meta_shape meta))
      @ size_t_bytes (length (meta_dtype meta)) @ meta_dtype meta @ []) (assoc_put key meta acc)"
    unfolding get_meta_def [abs_def]
    by (rule reads_bind, rule reads_size_t [OF ok(1)], rule reads_bind, rule reads_take [OF refl],
        rule reads_bind, rule reads_take [OF pod], rule reads_bind, rule reads_size_t [OF ok(2)],
        rule reads_bind, rule reads_shape [OF ok(5,6)], rule reads_bind, rule reads_size_t [OF ok(7)],
        rule reads_bind, rule dtype) (simp add: of_int64_bytes ok reads_def whole)
  then show ?thesis by (simp add: meta_text_def)
qed

interpretation metas: entry_codec meta_ok meta_text put_meta get_meta
  by unfold_locales (rule put_meta_text, assumption, rule get_meta_text)

lemma put_module_text:
  assumes "length w + length (module_text kv) \<le> buffer_size"
  shows "put_module buffer_size kv u w = (Inr (), w @ module_text kv)"
  using assms by (cases kv) (simp add: put_module_def put_bytes_def module_text_def metas.puts_all del: length_concat)

lemma get_module_text:
  assumes "module_ok (key, inner)"
  shows "reads (get_module i acc) (module_text (key, inner)) (assoc_put key inner acc)"
proof -
  have ok: "length key < 2 ^ 64" "length inner < 2 ^ 64" "distinct (map fst inner)" "list_all meta_ok inner"
    using assms by (simp_all add: module_ok_def)
  have "reads (get_module i acc) (size_t_bytes (length key) @ key
      @ size_t_bytes (length inner) @ concat (map meta_text inner) @ []) (assoc_put key inner acc)"
    unfolding get_module_def [abs_def]
    by (rule reads_bind, rule reads_size_t [OF ok(1)], rule reads_bind, rule reads_take [OF refl],
        rule reads_bind, rule reads_size_t [OF ok(2)], rule reads_bind, rule metas.gets_all [OF ok(3,4)],
        rule reads_return)
  then show ?thesis by (simp add: module_text_def)
qed

interpretation modules: entry_codec module_ok module_text put_module get_module
  by unfold_locales (rule put_module_text, assumption, rule get_module_text)

lemma serialize_writes:
  assumes "compute_serialized_size st \<le> buffer_size"
  shows "serialize_map_to_buffer st buffer_size = (Inr (), table_text st)"
  using assms unfolding length_table_text [symmetric]
  by (simp add: table_text_def serialize_map_to_buffer_def put_bytes_def modules.puts_all del: length_concat)

lemma deserialize_reads:
  assumes "table_ok st"
  shows "deserialize_map_from_buffer (table_text st) = Inr st"
    and "n < length (table_text st) \<Longrightarrow> \<exists>e. deserialize_map_from_buffer (take n (table_text st)) = Inl e"
proof -
  have ok: "length st < 2 ^ 64" "distinct (map fst st)" "list_all module_ok st"
    using assms by (simp_all add: table_ok_def)
  have "reads (\<lambda>left. and_then (get_size_t ''outer_size'' left)
      (\<lambda>outer_size left. repeat_do outer_size get_module 0 [] left)) (table_text st) st"
    unfolding table_text_def by (rule reads_bind, rule reads_size_t [OF ok(1)], rule modules.gets_all [OF ok(2,3)])
  then show "deserialize_map_from_buffer (table_text st) = Inr st"
    and "n < length (table_text st) \<Longrightarrow> \<exists>e. deserialize_map_from_buffer (take n (table_text st)) = Inl e"
    unfolding deserialize_map_from_buffer_def reads_def by (metis append_Nil2 fst_conv)+
qed

end
