(* ===== verification/Load_Properties.thy ===== *)
theory Load_Properties
  imports Load_Store Meta_Codec
begin

text \<open>
  The parameter server as a whole: the properties of the plan, of the load, of the table of
  tensors in shared memory, and of what a worker that reads the table finds in the buffer.
\<close>

section \<open>Starting the server\<close>

text \<open>
  \<open>Parameter_Server::Init\<close>. The allocation of the shared buffer gives \<open>weight_ptr\<close> and the
  bytes in \<open>weight_buffer\<close>; CUDA's memory report and the descriptors kept for later are left out.
\<close>

definition Init ::
  "(string \<Rightarrow> file_io) \<Rightarrow> (string \<Rightarrow> FileMetadata option) \<Rightarrow> string list option \<Rightarrow> memfd_io \<Rightarrow> string \<Rightarrow> nat \<Rightarrow> int
   \<Rightarrow> server \<Rightarrow> char list result \<times> server" where
  "Init fs parse listing io model_weights_path weight_ptr byte_size s =
     (case load_cus_format_file_to_host_mem fs parse listing model_weights_path weight_ptr byte_size s of
        (Inl e, s') \<Rightarrow> (Inl e, s')
      | (Inr _, s') \<Rightarrow> (serialize_to_memfd io (module_weights_storage s'), s'))"

section \<open>The files of a load\<close>

text \<open>The files that a load reads, each with its start in the buffer.\<close>

definition planned_files :: "(string \<Rightarrow> FileMetadata option) \<Rightarrow> string \<Rightarrow> string list \<Rightarrow> (FileMetadata \<times> int) list" where
  "planned_files parse path listing =
     (case parse_all parse (find_json_paths path listing) of
        Inl _ \<Rightarrow> []
      | Inr parsed \<Rightarrow> zip (map snd parsed) (map fst (file_spans (map (\<lambda>(path, md). extent_of path md) parsed))))"

lemma load_runs:
  assumes "\<And>p. io_ok (fs p)" and "int (length (weight_buffer s)) = buffer_bytes" and "buffer_bytes \<le> 2 ^ 63 - 4096"
    and "load_cus_format_file_to_host_mem fs parse (Some listing) path weight_ptr buffer_bytes s = (r, s')"
  shows "(\<exists>e. r = Inl e \<and> e \<noteq> Runtime_error ''WeightLoadPlanError: read of '' \<and> s' = s)
    \<or> planned buffer_bytes (planned_files parse path listing)
      \<and> (\<forall>(md, start) \<in> set (planned_files parse path listing). \<forall>(name, info) \<in> set (md_state_dict md).
           0 \<le> info_offset info \<and> 0 \<le> info_byte_size info
           \<and> info_offset info + info_byte_size info \<le> md_total_byte_size md)
      \<and> (case r of
           Inl e \<Rightarrow> load_failed (planned_files parse path listing) s e s'
         | Inr _ \<Rightarrow> loaded fs path (planned_files parse path listing) s (planned_files parse path listing) s')"
proof (cases "parse_all parse (find_json_paths path listing)")
  case (Inl e)
  have "e \<noteq> Runtime_error ''WeightLoadPlanError: read of ''" if "parse_all parse ps = Inl e" for ps
    using that by (induction ps) (auto split: option.splits sum.splits)
  then show ?thesis using assms(4) Inl by (auto simp: load_cus_format_file_to_host_mem_def)
next
  case parsed: (Inr parsed)
  let ?extents = "map (\<lambda>(path, md). extent_of path md) parsed"
  show ?thesis
  proof (cases "plan_weight_load ?extents buffer_bytes")
    case (Inl e)
    then show ?thesis using assms(4) parsed plan_refusal [of ?extents buffer_bytes]
      by (auto simp: load_cus_format_file_to_host_mem_def)
  next
    case (Inr starts)
    then have files: "planned_files parse path listing = zip (map snd parsed) starts"
      using plan_weight_load_iff [OF assms(3)] by (simp add: planned_files_def parsed)
    show ?thesis unfolding files
      using load_planned [where fs = fs and path = path and weight_ptr = weight_ptr,
          OF plan_planned(1) [OF Inr assms(3)] assms(1,2)]
        plan_planned(1,3) [OF Inr assms(3)] assms(4) parsed Inr
      by (auto simp: load_cus_format_file_to_host_mem_def)
  qed
qed

lemma load_success:
  assumes "load_cus_format_file_to_host_mem fs parse (Some listing) path weight_ptr buffer_bytes s = (Inr (), s')"
    and "\<And>p. io_ok (fs p)" and "int (length (weight_buffer s)) = buffer_bytes" and "buffer_bytes \<le> 2 ^ 63 - 4096"
  shows "loaded fs path (planned_files parse path listing) s (planned_files parse path listing) s'"
    and "(md, start) \<in> set (planned_files parse path listing) \<Longrightarrow> (name, info) \<in> set (md_state_dict md) \<Longrightarrow>
      slice (start + info_offset info) (info_byte_size info) (weight_buffer s')
      = slice (info_offset info) (info_byte_size info) (io_contents (file_of fs path md))
      \<and> int (length (slice (start + info_offset info) (info_byte_size info) (weight_buffer s'))) = info_byte_size info"
proof -
  let ?files = "planned_files parse path listing"
  have plan: "planned buffer_bytes ?files" and run: "loaded fs path ?files s ?files s'"
    and fits: "\<And>md start name info. (md, start) \<in> set ?files \<Longrightarrow> (name, info) \<in> set (md_state_dict md) \<Longrightarrow>
      0 \<le> info_offset info \<and> 0 \<le> info_byte_size info \<and> info_offset info + info_byte_size info \<le> md_total_byte_size md"
    using load_runs [OF assms(2-4,1)] by auto
  show "loaded fs path ?files s ?files s'" by (rule run)
  assume at: "(md, start) \<in> set ?files" "(name, info) \<in> set (md_state_dict md)"
  have "copied (file_of fs path md) (nat start) 0 (nat (md_total_byte_size md)) (weight_buffer s')"
    using run at(1) by (auto simp: loaded_def list_all_iff in_place_def)
  moreover have "0 \<le> start \<and> start + md_total_byte_size md \<le> int (length (weight_buffer s'))"
    using plan at(1) run assms(3) by (auto simp: planned_def loaded_def)
  ultimately show "slice (start + info_offset info) (info_byte_size info) (weight_buffer s')
      = slice (info_offset info) (info_byte_size info) (io_contents (file_of fs path md))
      \<and> int (length (slice (start + info_offset info) (info_byte_size info) (weight_buffer s'))) = info_byte_size info"
    using slice_copied fits [OF at] by blast
qed

text \<open>Every entry of the table of a new server comes from a tensor of a file.\<close>

lemma loaded_entry:
  assumes "loaded fs path files s files s'" and "module_weights_storage s = []"
    and "table_ok (module_weights_storage s')"
    and "(mk, tensors) \<in> set (module_weights_storage s')" and "(tk, meta) \<in> set tensors"
  obtains md start name info where "(md, start) \<in> set files" and "(name, info) \<in> set (md_state_dict md)"
    and "name_keys s name = Some (mk, tk)"
    and "meta = \<lparr> meta_offset = start + info_offset info, meta_shape = info_shape info,
          meta_byte_size = info_byte_size info, meta_dtype = info_dtype info \<rparr>"
proof -
  have "map_of (module_weights_storage s') mk = Some tensors" and "map_of tensors tk = Some meta"
    using assms(3-5) by (auto simp: table_ok_def module_ok_def list_all_iff)
  then have "directory s' (In_module mk tk) = Some (Meta meta)" by (simp add: get_or_def)
  moreover have "directory s (In_module mk tk) = None" using assms(2) by (simp add: get_or_def)
  ultimately have "map_of (rev (directory_entries (name_keys s) files)) (In_module mk tk) = Some (Meta meta)"
    using assms(1) by (simp add: loaded_def map_add_Some_iff del: directory.simps)
  then have "(In_module mk tk, Meta meta) \<in> set (directory_entries (name_keys s) files)"
    by (auto dest: map_of_SomeD)
  then show thesis
    using that by (fastforce simp: directory_entries_def directory_entry_def slot_of_def split: option.splits)
qed

text \<open>A small load: one file of four bytes with two tensors, one of them named by the map.\<close>

definition demo_file :: file_io where
  "demo_file = \<lparr> io_contents = ''abcd'', io_direct_open = True, io_pread = (\<lambda>off n. 0), io_tail_open = True,
     io_tail_seek = (\<lambda>off. True), io_tail_gcount = (\<lambda>off n. if off + n \<le> 4 then n else 0) \<rparr>"

definition demo_metadata :: FileMetadata where
  "demo_metadata = \<lparr> md_file_name = ''w.bin'', md_state_dict =
     [(''a'', \<lparr> info_dtype = ''bfloat16'', info_shape = [1], info_offset = 0, info_byte_size = 2 \<rparr>),
      (''b'', \<lparr> info_dtype = ''uint8'', info_shape = [2], info_offset = 2, info_byte_size = 2 \<rparr>)],
     md_total_byte_size = 4 \<rparr>"

definition demo_server :: server where
  "demo_server = \<lparr> weight_buffer = ''zzzz'', module_weights_storage = [], skeleton_state_dict = [],
     state_dict_name_map = [(''a'', [(''module_key'', ''m''), (''tensor_key'', ''t'')])] \<rparr>"

definition demo_after :: server where
  "demo_after = \<lparr> weight_buffer = ''abcd'',
     module_weights_storage = [(''m'', [(''t'', \<lparr> meta_offset = 0, meta_shape = [1], meta_byte_size = 2,
        meta_dtype = ''bfloat16'' \<rparr>)])],
     skeleton_state_dict = [(''b'', \<lparr> skel_offset = 2, skel_shape = [2], skel_dtype = kUInt8 \<rparr>)],
     state_dict_name_map = [(''a'', [(''module_key'', ''m''), (''tensor_key'', ''t'')])] \<rparr>"

abbreviation demo_load :: "unit result \<times> server" where
  "demo_load \<equiv> load_cus_format_file_to_host_mem (\<lambda>_. demo_file) (\<lambda>_. Some demo_metadata)
     (Some [''.'', ''w.json'']) ''d'' 4096 4 demo_server"

lemma demo_io: "io_ok demo_file"
  by (simp add: io_ok_def demo_file_def)

lemma demo_load_eq: "demo_load = (Inr (), demo_after)"
  by code_simp

lemma demo_files: "planned_files (\<lambda>_. Some demo_metadata) ''d'' [''.'', ''w.json''] = [(demo_metadata, 0)]"
  by code_simp

section \<open>The plan\<close>

text \<open>
  C37. \<open>plan_weight_load\<close> decides exactly: for a buffer of at most 2^63 - 4096 bytes it
  succeeds if and only if the buffer is not empty, no size is negative, every tensor lies
  inside its file and the files laid out back to back on 4 KiB boundaries end inside the
  buffer, all in unbounded arithmetic; and then the starts it returns are aligned, in order
  and apart from each other by the size of the file between them.
\<close>
theorem plan_weight_load_exact:
  assumes "buffer_bytes \<le> 2 ^ 63 - 4096"
  shows "(plan_weight_load files buffer_bytes = Inr starts \<longleftrightarrow>
      0 < buffer_bytes \<and> list_all extent_ok files
      \<and> (\<forall>(s, e) \<in> set (file_spans files). e \<le> buffer_bytes)
      \<and> starts = map fst (file_spans files))
    \<and> (plan_weight_load files buffer_bytes = Inr starts \<longrightarrow>
      length starts = length files \<and> list_all ((dvd) 4096) starts
      \<and> (\<forall>i j. i < j \<and> j < length files \<longrightarrow> starts ! i + extent_total_byte_size (files ! i) \<le> starts ! j))"
proof -
  define sizes where "sizes = map extent_total_byte_size files"
  have "length starts = length files \<and> list_all ((dvd) 4096) starts
      \<and> (\<forall>i j. i < j \<and> j < length files \<longrightarrow> starts ! i + extent_total_byte_size (files ! i) \<le> starts ! j)"
    if "plan_weight_load files buffer_bytes = Inr starts"
  proof -
    have ok: "list_all ((\<le>) 0) sizes" and starts: "starts = map fst (spans 0 sizes)"
      using that unfolding plan_weight_load_iff [OF assms]
      by (auto simp: file_spans_def sizes_def list_all_iff extent_ok_def)
    have "starts ! i + extent_total_byte_size (files ! i) \<le> starts ! j" if "i < j" "j < length files" for i j
      using sorted_wrt_nth_less [OF spans_sorted [OF ok, of 0] that(1)] spans_width [of i sizes 0] that
      by (simp add: starts sizes_def split_beta)
    moreover have "list_all ((dvd) 4096) starts"
      using spans_aligned [of 0 _ _ sizes] by (fastforce simp: starts list_all_iff)
    ultimately show ?thesis by (simp add: starts sizes_def)
  qed
  then show ?thesis using plan_weight_load_iff [OF assms] by blast
qed

theorem plan_weight_load_exact_witness:
  "plan_weight_load
     [\<lparr> extent_json_path = ''x.json'', extent_file_name = ''x.bin'', extent_total_byte_size = 5000, extent_tensors = [] \<rparr>,
      \<lparr> extent_json_path = ''y.json'', extent_file_name = ''y.bin'', extent_total_byte_size = 7,
        extent_tensors = [\<lparr> extent_name = ''t'', extent_offset = 3, extent_byte_size = 4 \<rparr>] \<rparr>] 8199 = Inr [0, 8192]"
  using plan_weight_load_exact [of 8199
     "[\<lparr> extent_json_path = ''x.json'', extent_file_name = ''x.bin'', extent_total_byte_size = 5000, extent_tensors = [] \<rparr>,
       \<lparr> extent_json_path = ''y.json'', extent_file_name = ''y.bin'', extent_total_byte_size = 7,
         extent_tensors = [\<lparr> extent_name = ''t'', extent_offset = 3, extent_byte_size = 4 \<rparr>] \<rparr>]" "[0, 8192]"]
  by (simp add: file_spans_def extent_ok_def tensor_fits_def round_up_def)

section \<open>The load\<close>

text \<open>
  C35. A successful load puts every tensor in its place: for every file of the plan and every
  tensor of it the bytes of the buffer at the start of the file plus the tensor's offset are
  the tensor's bytes in the file; the two directories together gain exactly one entry per
  slot, that of the last tensor with its keys, at that place; and the bytes that belong to no
  file are as they were.
\<close>
theorem load_places_tensors:
  assumes "load_cus_format_file_to_host_mem fs parse (Some listing) path weight_ptr buffer_bytes s = (Inr (), s')"
    and "\<And>p. io_ok (fs p)" and "int (length (weight_buffer s)) = buffer_bytes" and "buffer_bytes \<le> 2 ^ 63 - 4096"
  shows "(\<forall>(md, start) \<in> set (planned_files parse path listing). \<forall>(name, info) \<in> set (md_state_dict md).
        slice (start + info_offset info) (info_byte_size info) (weight_buffer s')
        = slice (info_offset info) (info_byte_size info) (io_contents (file_of fs path md))
        \<and> int (length (slice (start + info_offset info) (info_byte_size info) (weight_buffer s'))) = info_byte_size info)
    \<and> directory s' = directory s ++ map_of (rev (directory_entries (name_keys s) (planned_files parse path listing)))
    \<and> length (weight_buffer s') = length (weight_buffer s)
    \<and> (\<forall>i. \<not> covered (planned_files parse path listing) i \<longrightarrow> weight_buffer s' ! i = weight_buffer s ! i)"
  using load_success [OF assms] by (auto simp: loaded_def)

theorem load_places_tensors_witness:
  "slice 2 2 (weight_buffer demo_after) = ''cd''
   \<and> directory demo_after = directory demo_server
       ++ map_of (rev (directory_entries (name_keys demo_server) [(demo_metadata, 0)]))"
  using load_places_tensors [OF demo_load_eq demo_io]
  by (simp add: demo_files) (simp add: demo_server_def demo_metadata_def demo_after_def file_of_def demo_file_def slice_def)

text \<open>
  C36. Whatever the file system does within its contract, and whether or not the load
  succeeds, it writes only into the places of the planned files and never outside the
  buffer, and the check before a read never refuses a planned read: when the load fails the
  cause is the directory, a description, the plan, the file system or a tensor type.
\<close>
theorem load_stays_in_plan:
  assumes "load_cus_format_file_to_host_mem fs parse (Some listing) path weight_ptr buffer_bytes s = (r, s')"
    and "\<And>p. io_ok (fs p)" and "int (length (weight_buffer s)) = buffer_bytes" and "buffer_bytes \<le> 2 ^ 63 - 4096"
  shows "length (weight_buffer s') = length (weight_buffer s)
    \<and> (\<forall>i. \<not> covered (planned_files parse path listing) i \<longrightarrow> weight_buffer s' ! i = weight_buffer s ! i)
    \<and> r \<noteq> Inl (Runtime_error ''WeightLoadPlanError: read of '')
    \<and> (\<forall>e. r = Inl e \<longrightarrow> e \<in> load_errors \<or> s' = s)"
  using load_runs [OF assms(2-4,1)]
  by (auto simp: load_failed_def loaded_def load_errors_def read_errors_def dtype_error_def split: sum.splits)

theorem load_stays_in_plan_witness:
  "length (weight_buffer demo_after) = length (weight_buffer demo_server)
   \<and> fst demo_load \<noteq> Inl (Runtime_error ''WeightLoadPlanError: read of '')"
  using load_stays_in_plan [OF demo_load_eq demo_io] by (simp add: demo_load_eq) (simp add: demo_server_def)

section \<open>The table of tensors\<close>

text \<open>
  C38. The table of tensors survives shared memory: writing a table into a buffer of the
  computed size never overflows and fills the buffer to its last byte, a worker that reads
  the buffer gets the same table, and a buffer that ends early is refused at every length.
\<close>
theorem metadata_roundtrip:
  assumes "table_ok st"
  shows "serialize_map_to_buffer st (compute_serialized_size st) = (Inr (), table_text st)
    \<and> length (table_text st) = compute_serialized_size st
    \<and> deserialize_map_from_buffer (table_text st) = Inr st
    \<and> (\<forall>n < compute_serialized_size st. \<exists>e. deserialize_map_from_buffer (take n (table_text st)) = Inl e)"
  using serialize_writes [OF order.refl, of st] length_table_text [of st] deserialize_reads [OF assms] by auto

lemma demo_table_ok: "table_ok (module_weights_storage demo_after)"
  by (simp add: demo_after_def table_ok_def module_ok_def meta_ok_def is_int64_def)

theorem metadata_roundtrip_witness:
  "deserialize_map_from_buffer (table_text (module_weights_storage demo_after)) = Inr (module_weights_storage demo_after)
   \<and> (\<exists>e. deserialize_map_from_buffer (take 30 (table_text (module_weights_storage demo_after))) = Inl e)"
  using metadata_roundtrip [OF demo_table_ok]
  by (simp add: demo_after_def compute_serialized_size_def module_size_def meta_size_def)

section \<open>From the files to the workers\<close>

text \<open>
  C34. What a worker finds: when \<open>Init\<close> of a new server succeeds and a worker reads the table
  of tensors from the anonymous file, every entry of the table names a tensor of one of the
  files by the keys the name map gives it, and the bytes of the shared buffer at the entry's
  offset are the bytes of that tensor in its file.
\<close>
theorem worker_finds_weights:
  assumes "Init fs parse (Some listing) io path weight_ptr byte_size s = (Inr contents, s')"
    and "\<And>p. io_ok (fs p)" and "int (length (weight_buffer s)) = byte_size" and "byte_size \<le> 2 ^ 63 - 4096"
    and "module_weights_storage s = []" and "table_ok (module_weights_storage s')"
    and "proc_file proc pid fd = Some contents" and "proc_stat_ok proc" and "proc_map_ok proc"
    and "0 < pid" and "0 \<le> fd"
  shows "\<exists>table. deserialize_from_memfd proc pid fd = Inr table
    \<and> (\<forall>(module_key, tensors) \<in> set table. \<forall>(tensor_key, meta) \<in> set tensors.
        \<exists>(md, start) \<in> set (planned_files parse path listing). \<exists>(name, info) \<in> set (md_state_dict md).
          name_keys s name = Some (module_key, tensor_key)
          \<and> meta_byte_size meta = info_byte_size info \<and> meta_dtype meta = info_dtype info \<and> meta_shape meta = info_shape info
          \<and> slice (meta_offset meta) (meta_byte_size meta) (weight_buffer s')
            = slice (info_offset info) (info_byte_size info) (io_contents (file_of fs path md)))"
proof -
  let ?table = "module_weights_storage s'"
  have load: "load_cus_format_file_to_host_mem fs parse (Some listing) path weight_ptr byte_size s = (Inr (), s')"
    and ser: "serialize_to_memfd io ?table = Inr contents"
    using assms(1) by (auto simp: Init_def split: prod.splits sum.splits)
  have "contents = table_text ?table"
    using ser serialize_writes [OF order.refl, of ?table]
    by (auto simp: serialize_to_memfd_def Let_def split: if_splits)
  then have read: "deserialize_from_memfd proc pid fd = Inr ?table"
    using deserialize_reads(1) [OF assms(6)] assms(7-) by (simp add: deserialize_from_memfd_def)
  have "\<exists>(md, start) \<in> set (planned_files parse path listing). \<exists>(name, info) \<in> set (md_state_dict md).
      name_keys s name = Some (mk, tk)
      \<and> meta_byte_size meta = info_byte_size info \<and> meta_dtype meta = info_dtype info \<and> meta_shape meta = info_shape info
      \<and> slice (meta_offset meta) (meta_byte_size meta) (weight_buffer s')
        = slice (info_offset info) (info_byte_size info) (io_contents (file_of fs path md))"
    if "(mk, tensors) \<in> set ?table" and "(tk, meta) \<in> set tensors" for mk tensors tk meta
  proof -
    from loaded_entry [OF load_success(1) [OF load assms(2-4)] assms(5,6) that]
    obtain md start name info where at: "(md, start) \<in> set (planned_files parse path listing)"
        "(name, info) \<in> set (md_state_dict md)" and keys: "name_keys s name = Some (mk, tk)"
      and meta: "meta = \<lparr> meta_offset = start + info_offset info, meta_shape = info_shape info,
          meta_byte_size = info_byte_size info, meta_dtype = info_dtype info \<rparr>"
      by blast
    show ?thesis
      by (rule bexI [OF _ at(1)], simp, rule bexI [OF _ at(2)])
        (use keys load_success(2) [OF load assms(2-4) at] in \<open>simp add: meta\<close>)
  qed
  then show ?thesis using read by blast
qed

abbreviation demo_proc :: proc_io where
  "demo_proc \<equiv> \<lparr> proc_file = (\<lambda>pid fd. Some (table_text (module_weights_storage demo_after))),
     proc_stat_ok = True, proc_map_ok = True \<rparr>"

theorem worker_finds_weights_witness:
  "\<exists>table. deserialize_from_memfd demo_proc 7 3 = Inr table
    \<and> (\<forall>(module_key, tensors) \<in> set table. \<forall>(tensor_key, meta) \<in> set tensors.
        slice (meta_offset meta) (meta_byte_size meta) (weight_buffer demo_after) = ''ab'')"
proof -
  have "Init (\<lambda>_. demo_file) (\<lambda>_. Some demo_metadata) (Some [''.'', ''w.json'']) \<lparr> memfd_create_ok = True,
      memfd_truncate_ok = True, memfd_map_ok = True \<rparr> ''d'' 4096 4 demo_server
    = (Inr (table_text (module_weights_storage demo_after)), demo_after)"
    by (simp add: Init_def demo_load_eq serialize_to_memfd_def serialize_writes)
  from worker_finds_weights [OF this demo_io, of demo_proc 7 3] demo_table_ok
  obtain table where "deserialize_from_memfd demo_proc 7 3 = Inr table"
    and "\<forall>(module_key, tensors) \<in> set table. \<forall>(tensor_key, meta) \<in> set tensors.
      \<exists>(md, start) \<in> set [(demo_metadata, 0 :: int)]. \<exists>(name, info) \<in> set (md_state_dict md).
        name_keys demo_server name = Some (module_key, tensor_key)
        \<and> slice (meta_offset meta) (meta_byte_size meta) (weight_buffer demo_after)
          = slice (info_offset info) (info_byte_size info) (io_contents (file_of (\<lambda>_. demo_file) ''d'' md))"
    by (simp add: demo_files demo_server_def) fastforce
  then show ?thesis
    by (fastforce simp: demo_server_def demo_metadata_def file_of_def demo_file_def slice_def keys_of_def)
qed

end
