(* ===== verification/Kv_Layout.thy ===== *)
theory Kv_Layout
  imports Prelude
begin

unbundle bit_operations_syntax

text \<open>
  The shape of the host KV region: its configuration
  (\<open>KV_Storage/host_paged_kv_backend.h\<close>, \<open>host_paged_kv_config_utils.h\<close>), the layout of the
  page payload (\<open>host_paged_kv_layout.h\<close>), the sections of the shared mapping
  (\<open>ComputeOffsets\<close> of \<open>host_paged_kv_backend.cpp\<close>) and the geometry helpers
  (\<open>host_paged_kv_geometry.h\<close>). A \<open>size_t\<close> is a natural number below \<open>2 ^ 64\<close>, and every sum and
  product is reduced as the machine reduces it. An error carries the fixed part of its
  message. The names of the shared memory and of the
  logger, the paging hint and the descriptors of the configuration are left out.
\<close>

section \<open>Configuration\<close>

datatype HostKVPageFormat = kContiguousAoS | kPageSplitFp8Scale

definition kHostKVScaleBytesPerToken :: nat where
  "kHostKVScaleBytesPerToken = 4"

record HostPagedKVConfig =
  cfg_num_layers :: nat
  cfg_num_pages :: nat
  cfg_page_size_tokens :: nat
  cfg_num_k_heads :: nat
  cfg_k_head_dim :: nat
  cfg_num_v_heads :: nat
  cfg_v_head_dim :: nat
  cfg_k_element_size_bytes :: nat
  cfg_v_element_size_bytes :: nat
  cfg_sequence_table_capacity :: nat
  cfg_alignment_bytes :: nat
  cfg_page_format :: HostKVPageFormat
  cfg_logical_to_physical_layer :: "int list"

definition must_be_positive :: "string \<Rightarrow> nat \<Rightarrow> string list" where
  "must_be_positive field n = (if n = 0 then [field @ '' must be > 0''] else [])"

definition page_split_errors :: "HostPagedKVConfig \<Rightarrow> string list" where
  "page_split_errors c =
     (if cfg_page_format c = kPageSplitFp8Scale
      then (if cfg_num_k_heads c \<noteq> 1 then [''page_split_fp8_scale requires num_k_heads == 1''] else [])
         @ (if cfg_k_element_size_bytes c \<noteq> 1
            then [''page_split_fp8_scale requires k_element_size_bytes == 1 (k_head_dim is a byte count)''] else [])
         @ (if cfg_num_v_heads c \<noteq> 0 then [''page_split_fp8_scale requires num_v_heads == 0''] else [])
         @ (if cfg_k_head_dim c \<le> kHostKVScaleBytesPerToken
            then [''page_split_fp8_scale requires k_head_dim > 4 (data bytes + one fp32 scale)'']
            else if (cfg_k_head_dim c - kHostKVScaleBytesPerToken) mod 16 \<noteq> 0
            then [''page_split_fp8_scale requires (k_head_dim - 4) to be a multiple of 16''] else [])
      else [])"

definition layer_errors :: "HostPagedKVConfig \<Rightarrow> int \<Rightarrow> string list" where
  "layer_errors c physical_layer =
     (if physical_layer < -1 then [''logical_to_physical_layer must be >= -1'']
      else if cfg_num_layers c > 0 \<and> physical_layer \<ge> 0 \<and> nat physical_layer \<ge> cfg_num_layers c
      then [''logical_to_physical_layer physical layer id must be < num_layers''] else [])"

definition config_errors :: "HostPagedKVConfig \<Rightarrow> string list" where
  "config_errors c =
     must_be_positive ''num_layers'' (cfg_num_layers c) @ must_be_positive ''num_pages'' (cfg_num_pages c)
     @ must_be_positive ''page_size_tokens'' (cfg_page_size_tokens c)
     @ must_be_positive ''num_k_heads'' (cfg_num_k_heads c) @ must_be_positive ''k_head_dim'' (cfg_k_head_dim c)
     @ must_be_positive ''k_element_size_bytes'' (cfg_k_element_size_bytes c)
     @ page_split_errors c @ concat (map (layer_errors c) (cfg_logical_to_physical_layer c))"

definition SanitizeConfig :: "HostPagedKVConfig \<Rightarrow> HostPagedKVConfig result" where
  "SanitizeConfig config =
     (let c = (if cfg_sequence_table_capacity config = 0
               then config \<lparr> cfg_sequence_table_capacity := cfg_num_pages config \<rparr> else config);
          c = (if cfg_alignment_bytes c = 0 then c \<lparr> cfg_alignment_bytes := 64 \<rparr> else c)
      in if config_errors c \<noteq> [] then Inl (Invalid_argument ''Invalid HostPagedKVConfig: '')
         else if cfg_num_v_heads c = 0
         then Inr (c \<lparr> cfg_v_head_dim := 0, cfg_v_element_size_bytes := 0 \<rparr>)
         else
           let c = (if cfg_v_head_dim c = 0 then c \<lparr> cfg_v_head_dim := cfg_k_head_dim c \<rparr> else c)
           in Inr (if cfg_v_element_size_bytes c = 0
                   then c \<lparr> cfg_v_element_size_bytes := cfg_k_element_size_bytes c \<rparr> else c))"

definition AlignUp :: "nat \<Rightarrow> nat \<Rightarrow> nat" where
  "AlignUp value alignment =
     (if alignment = 0 then value
      else let remainder = value mod alignment
           in if remainder = 0 then value else u64 (value + (alignment - remainder)))"

definition HashCombine :: "64 word \<Rightarrow> 64 word \<Rightarrow> 64 word" where
  "HashCombine seed value =
     seed XOR (value + 0x9e3779b97f4a7c15 + push_bit 6 seed + drop_bit 2 seed)"

definition format_code :: "HostKVPageFormat \<Rightarrow> nat" where
  "format_code f = (case f of kContiguousAoS \<Rightarrow> 0 | kPageSplitFp8Scale \<Rightarrow> 1)"

definition HashHostKVConfig :: "HostPagedKVConfig \<Rightarrow> 64 word result" where
  "HashHostKVConfig config =
     (case SanitizeConfig config of
        Inl e \<Rightarrow> Inl e
      | Inr c \<Rightarrow> Inr (fold (\<lambda>n seed. HashCombine seed (of_nat n))
          [cfg_num_layers c, cfg_num_pages c, cfg_page_size_tokens c, cfg_num_k_heads c, cfg_k_head_dim c,
           cfg_num_v_heads c, cfg_v_head_dim c, cfg_k_element_size_bytes c, cfg_v_element_size_bytes c,
           cfg_sequence_table_capacity c, cfg_alignment_bytes c, format_code (cfg_page_format c)] 0))"

subsection \<open>Building it from the engine's configuration\<close>

record EngineHostConfig =
  ext_num_layers :: nat
  ext_num_pages_per_layer :: nat
  ext_page_size :: nat
  ext_num_k_heads :: nat
  ext_k_head_dim :: nat
  ext_num_v_heads :: nat
  ext_v_head_dim :: nat
  ext_kv_dtype :: string
  ext_page_format :: string
  ext_num_host_slots :: int

definition RequirePositive :: "nat \<Rightarrow> string \<Rightarrow> nat result" where
  "RequirePositive value field_name =
     (if value \<le> 0 then Inl (Invalid_argument (field_name @ '' must be greater than zero'')) else Inr value)"

definition ResolveElementSizeBytes :: "string \<Rightarrow> nat result" where
  "ResolveElementSizeBytes kv_dtype =
     (let dtype = (if kv_dtype = [] then ''bfloat16'' else kv_dtype)
      in if dtype = ''bfloat16'' \<or> dtype = ''float16'' then Inr 2
         else if dtype = ''float32'' then Inr 4
         else if dtype = ''float8_e4m3fn'' \<or> dtype = ''float8_e5m2'' then Inr 1
         else Inl (Invalid_argument ''Unsupported kv_dtype=''))"

definition ResolvePageFormat :: "string \<Rightarrow> HostKVPageFormat result" where
  "ResolvePageFormat page_format =
     (let format = (if page_format = [] then ''contiguous_aos'' else page_format)
      in if format = ''contiguous_aos'' then Inr kContiguousAoS
         else if format = ''page_split_fp8_scale'' then Inr kPageSplitFp8Scale
         else Inl (Invalid_argument ''Unsupported Host_Paged_KV_Config.page_format=''))"

definition DetermineSequenceTableCapacity :: "int \<Rightarrow> nat \<Rightarrow> nat" where
  "DetermineSequenceTableCapacity num_host_slots fallback =
     (if num_host_slots > 0 then nat num_host_slots else fallback)"

definition bind_result :: "'a result \<Rightarrow> ('a \<Rightarrow> 'b result) \<Rightarrow> 'b result" where
  "bind_result r f = (case r of Inl e \<Rightarrow> Inl e | Inr x \<Rightarrow> f x)"

definition BuildHostPagedKVConfig :: "EngineHostConfig \<Rightarrow> HostPagedKVConfig result" where
  "BuildHostPagedKVConfig external =
     bind_result (RequirePositive (ext_num_layers external) ''Host_Paged_KV_Config.num_layers'') (\<lambda>num_layers.
     bind_result (RequirePositive (ext_num_pages_per_layer external) ''Host_Paged_KV_Config.num_pages_per_layer'') (\<lambda>num_pages.
     bind_result (RequirePositive (ext_page_size external) ''Host_Paged_KV_Config.page_size'') (\<lambda>page_size.
     bind_result (RequirePositive (ext_num_k_heads external) ''Host_Paged_KV_Config.num_k_heads'') (\<lambda>num_k_heads.
     bind_result (RequirePositive (ext_k_head_dim external) ''Host_Paged_KV_Config.k_head_dim'') (\<lambda>k_head_dim.
     bind_result (if ext_num_v_heads external = 0 then Inr 0
                  else RequirePositive (ext_v_head_dim external) ''Host_Paged_KV_Config.v_head_dim'') (\<lambda>v_head_dim.
     bind_result (ResolvePageFormat (ext_page_format external)) (\<lambda>page_format.
     bind_result (ResolveElementSizeBytes (ext_kv_dtype external)) (\<lambda>element_size_bytes.
       Inr \<lparr> cfg_num_layers = num_layers, cfg_num_pages = num_pages, cfg_page_size_tokens = page_size,
             cfg_num_k_heads = num_k_heads, cfg_k_head_dim = k_head_dim,
             cfg_num_v_heads = ext_num_v_heads external, cfg_v_head_dim = v_head_dim,
             cfg_k_element_size_bytes = element_size_bytes,
             cfg_v_element_size_bytes = (if ext_num_v_heads external = 0 then 0 else element_size_bytes),
             cfg_sequence_table_capacity = DetermineSequenceTableCapacity (ext_num_host_slots external) num_pages,
             cfg_alignment_bytes = 64, cfg_page_format = page_format, cfg_logical_to_physical_layer = [] \<rparr>))))))))"

section \<open>Layout of the payload\<close>

datatype HostKVMode = kMHA | kMLA

definition kHasVCache :: "HostKVMode \<Rightarrow> bool" where
  "kHasVCache mode = (case mode of kMHA \<Rightarrow> True | kMLA \<Rightarrow> False)"

definition Adjust :: "HostKVMode \<Rightarrow> HostPagedKVConfig \<Rightarrow> HostPagedKVConfig" where
  "Adjust mode config =
     (case mode of
        kMHA \<Rightarrow>
          (let c = (if cfg_num_v_heads config = 0 then config \<lparr> cfg_num_v_heads := cfg_num_k_heads config \<rparr> else config);
               c = (if cfg_v_head_dim c = 0 then c \<lparr> cfg_v_head_dim := cfg_k_head_dim c \<rparr> else c)
           in if cfg_v_element_size_bytes c = 0
              then c \<lparr> cfg_v_element_size_bytes := cfg_k_element_size_bytes c \<rparr> else c)
      | kMLA \<Rightarrow> config \<lparr> cfg_num_v_heads := 0, cfg_v_head_dim := 0, cfg_v_element_size_bytes := 0 \<rparr>)"

record HostPagedKVLayout =
  lay_mode :: HostKVMode
  lay_config :: HostPagedKVConfig
  k_page_bytes :: nat
  k_data_token_bytes :: nat
  scale_token_bytes :: nat
  scale_region_offset :: nat
  v_page_bytes :: nat
  v_layer_offset :: nat
  layer_stride_bytes :: nat
  data_section_bytes :: nat
  fingerprint :: "64 word"

definition MakeLayout :: "HostKVMode \<Rightarrow> HostPagedKVConfig \<Rightarrow> HostPagedKVLayout result" where
  "MakeLayout mode config =
     bind_result (SanitizeConfig (Adjust mode config)) (\<lambda>c.
     bind_result (HashHostKVConfig c) (\<lambda>hash.
       let k_page = u64 (cfg_page_size_tokens c * cfg_num_k_heads c * cfg_k_head_dim c * cfg_k_element_size_bytes c);
           split = (cfg_page_format c = kPageSplitFp8Scale);
           k_data = (if split then cfg_k_head_dim c - kHostKVScaleBytesPerToken
                     else u64 (cfg_num_k_heads c * cfg_k_head_dim c * cfg_k_element_size_bytes c));
           v_page = (if kHasVCache mode
                     then u64 (cfg_page_size_tokens c * cfg_num_v_heads c * cfg_v_head_dim c * cfg_v_element_size_bytes c)
                     else 0);
           k_section = AlignUp (u64 (cfg_num_pages c * k_page)) (cfg_alignment_bytes c);
           stride = (if kHasVCache mode then u64 (k_section + cfg_num_pages c * v_page) else k_section)
       in Inr \<lparr> lay_mode = mode, lay_config = c, k_page_bytes = k_page, k_data_token_bytes = k_data,
                scale_token_bytes = (if split then kHostKVScaleBytesPerToken else 0),
                scale_region_offset = (if split then u64 (cfg_page_size_tokens c * k_data) else 0),
                v_page_bytes = v_page, v_layer_offset = (if kHasVCache mode then k_section else 0),
                layer_stride_bytes = stride, data_section_bytes = u64 (stride * cfg_num_layers c),
                fingerprint = HashCombine hash (of_nat (case mode of kMHA \<Rightarrow> 0 | kMLA \<Rightarrow> 1)) \<rparr>))"

text \<open>\<open>static_cast<std::size_t>\<close> of a page index sign-extends a negative one.\<close>

definition page_size_t :: "int \<Rightarrow> nat" where
  "page_size_t page_idx = nat (page_idx mod 2 ^ 64)"

definition KPageAddress :: "HostPagedKVLayout \<Rightarrow> nat \<Rightarrow> nat \<Rightarrow> int \<Rightarrow> nat" where
  "KPageAddress l base layer_idx page_idx =
     base + u64 (layer_idx * layer_stride_bytes l) + u64 (page_size_t page_idx * k_page_bytes l)"

definition VPageAddress :: "HostPagedKVLayout \<Rightarrow> nat \<Rightarrow> nat \<Rightarrow> int \<Rightarrow> nat" where
  "VPageAddress l base layer_idx page_idx =
     base + u64 (layer_idx * layer_stride_bytes l) + v_layer_offset l + u64 (page_size_t page_idx * v_page_bytes l)"

definition KDataTokenAddress :: "HostPagedKVLayout \<Rightarrow> nat \<Rightarrow> nat \<Rightarrow> int \<Rightarrow> nat \<Rightarrow> nat" where
  "KDataTokenAddress l base layer_idx page_idx page_offset_tokens =
     KPageAddress l base layer_idx page_idx + u64 (page_offset_tokens * k_data_token_bytes l)"

definition ScaleTokenAddress :: "HostPagedKVLayout \<Rightarrow> nat \<Rightarrow> nat \<Rightarrow> int \<Rightarrow> nat \<Rightarrow> nat result" where
  "ScaleTokenAddress l base layer_idx page_idx page_offset_tokens =
     (if cfg_page_format (lay_config l) \<noteq> kPageSplitFp8Scale
      then Inl (Logic_error ''HostPagedKVLayout: this page format has no scale region '')
      else Inr (KPageAddress l base layer_idx page_idx + scale_region_offset l
                + u64 (page_offset_tokens * scale_token_bytes l)))"

section \<open>Geometry\<close>

definition EnsureLayerBounds :: "HostPagedKVConfig \<Rightarrow> nat \<Rightarrow> unit result" where
  "EnsureLayerBounds c layer_idx =
     (if layer_idx \<ge> cfg_num_layers c then Inl (Out_of_range ''layer_idx'') else Inr ())"

definition EnsurePageBounds :: "HostPagedKVConfig \<Rightarrow> int \<Rightarrow> unit result" where
  "EnsurePageBounds c page_idx =
     (if page_idx < 0 \<or> page_size_t page_idx \<ge> cfg_num_pages c then Inl (Out_of_range ''page_idx'') else Inr ())"

definition KTokenBytes :: "HostPagedKVConfig \<Rightarrow> nat" where
  "KTokenBytes c = u64 (cfg_num_k_heads c * cfg_k_head_dim c * cfg_k_element_size_bytes c)"

definition KDataTokenBytes :: "HostPagedKVConfig \<Rightarrow> nat" where
  "KDataTokenBytes c =
     (if cfg_page_format c = kPageSplitFp8Scale then u64_sub (cfg_k_head_dim c) kHostKVScaleBytesPerToken
      else KTokenBytes c)"

definition ScaleTokenBytes :: "HostPagedKVConfig \<Rightarrow> nat" where
  "ScaleTokenBytes c = (if cfg_page_format c = kPageSplitFp8Scale then kHostKVScaleBytesPerToken else 0)"

definition ExpectedKHeadDim :: "HostPagedKVConfig \<Rightarrow> nat" where
  "ExpectedKHeadDim c =
     (if cfg_page_format c = kPageSplitFp8Scale then u64_sub (cfg_k_head_dim c) kHostKVScaleBytesPerToken
      else cfg_k_head_dim c)"

definition VTokenBytes :: "HostKVMode \<Rightarrow> HostPagedKVConfig \<Rightarrow> nat result" where
  "VTokenBytes mode c =
     (if kHasVCache mode then Inr (u64 (cfg_num_v_heads c * cfg_v_head_dim c * cfg_v_element_size_bytes c))
      else Inl (Logic_error ''V cache is disabled for this layout''))"

definition RequiredPages :: "HostPagedKVConfig \<Rightarrow> nat \<Rightarrow> nat result" where
  "RequiredPages c num_tokens =
     (if num_tokens = 0 then Inl (Invalid_argument ''num_tokens must be greater than zero'')
      else Inr (u64_sub (u64 (num_tokens + cfg_page_size_tokens c)) 1 div cfg_page_size_tokens c))"

definition ValidatePageCapacity :: "HostPagedKVConfig \<Rightarrow> int list \<Rightarrow> nat \<Rightarrow> unit result" where
  "ValidatePageCapacity c pages required_tokens =
     (if required_tokens > u64 (length pages * cfg_page_size_tokens c)
      then Inl (Out_of_range ''page table capacity insufficient for required tokens'') else Inr ())"

section \<open>Sections of the mapping\<close>

text \<open>
  The size of \<open>SharedHeader\<close>, which holds two \<open>pthread_mutex_t\<close>, is an argument; its alignment
  is 8. A \<open>SequenceEntry\<close> has 24 bytes.
\<close>

record region_offsets =
  header_offset :: nat
  free_stack_offset :: nat
  page_owner_offset :: nat
  page_link_offset :: nat
  sequence_table_offset :: nat
  data_offset :: nat
  total_bytes_unaligned :: nat

definition ComputeOffsets :: "nat \<Rightarrow> nat \<Rightarrow> nat \<Rightarrow> nat \<Rightarrow> region_offsets" where
  "ComputeOffsets header_size num_pages sequence_capacity data_bytes =
     (let header = AlignUp 0 8;
          offset = u64 (header + header_size);
          free_stack = AlignUp offset 4;
          offset = u64 (free_stack + 4 * num_pages);
          page_owner = AlignUp offset 8;
          offset = u64 (page_owner + 8 * num_pages);
          page_link = AlignUp offset 4;
          offset = u64 (page_link + 4 * num_pages);
          table = AlignUp offset 8;
          offset = u64 (table + 24 * sequence_capacity);
          data = AlignUp offset (2 * 1024 * 1024)
      in \<lparr> header_offset = header, free_stack_offset = free_stack, page_owner_offset = page_owner,
           page_link_offset = page_link, sequence_table_offset = table, data_offset = data,
           total_bytes_unaligned = u64 (data + data_bytes) \<rparr>)"

section \<open>Sanitized configurations\<close>

definition sanitized :: "HostPagedKVConfig \<Rightarrow> bool" where
  "sanitized c \<longleftrightarrow> config_errors c = [] \<and> 0 < cfg_sequence_table_capacity c \<and> 0 < cfg_alignment_bytes c
     \<and> (if cfg_num_v_heads c = 0 then cfg_v_head_dim c = 0 \<and> cfg_v_element_size_bytes c = 0
        else 0 < cfg_v_head_dim c \<and> 0 < cfg_v_element_size_bytes c)"

lemma layer_errors_updates [simp]:
  "layer_errors (c \<lparr> cfg_v_head_dim := n \<rparr>) = layer_errors c"
  "layer_errors (c \<lparr> cfg_v_element_size_bytes := n \<rparr>) = layer_errors c"
  "layer_errors (c \<lparr> cfg_sequence_table_capacity := n \<rparr>) = layer_errors c"
  "layer_errors (c \<lparr> cfg_alignment_bytes := n \<rparr>) = layer_errors c"
  by (simp_all add: layer_errors_def fun_eq_iff)

lemma config_errors_updates [simp]:
  "config_errors (c \<lparr> cfg_v_head_dim := n \<rparr>) = config_errors c"
  "config_errors (c \<lparr> cfg_v_element_size_bytes := n \<rparr>) = config_errors c"
  "config_errors (c \<lparr> cfg_sequence_table_capacity := n \<rparr>) = config_errors c"
  "config_errors (c \<lparr> cfg_alignment_bytes := n \<rparr>) = config_errors c"
  by (simp_all add: config_errors_def page_split_errors_def)

lemma config_okD:
  assumes "config_errors c = []"
  shows "0 < cfg_num_layers c" "0 < cfg_num_pages c" "0 < cfg_page_size_tokens c" "0 < cfg_num_k_heads c"
    "0 < cfg_k_head_dim c" "0 < cfg_k_element_size_bytes c"
    "cfg_page_format c = kPageSplitFp8Scale \<Longrightarrow> cfg_num_k_heads c = 1 \<and> cfg_k_element_size_bytes c = 1
       \<and> kHostKVScaleBytesPerToken < cfg_k_head_dim c"
  using assms by (auto simp: config_errors_def must_be_positive_def page_split_errors_def split: if_splits)

lemma SanitizeConfig_sanitized:
  assumes "SanitizeConfig config = Inr c'"
  shows "sanitized c'"
proof -
  define c1 where "c1 = (if cfg_sequence_table_capacity config = 0
      then config \<lparr> cfg_sequence_table_capacity := cfg_num_pages config \<rparr> else config)"
  define c where "c = (if cfg_alignment_bytes c1 = 0 then c1 \<lparr> cfg_alignment_bytes := 64 \<rparr> else c1)"
  define c2 where "c2 = (if cfg_v_head_dim c = 0 then c \<lparr> cfg_v_head_dim := cfg_k_head_dim c \<rparr> else c)"
  have run: "SanitizeConfig config =
      (if config_errors c \<noteq> [] then Inl (Invalid_argument ''Invalid HostPagedKVConfig: '')
       else if cfg_num_v_heads c = 0 then Inr (c \<lparr> cfg_v_head_dim := 0, cfg_v_element_size_bytes := 0 \<rparr>)
       else Inr (if cfg_v_element_size_bytes c2 = 0
                 then c2 \<lparr> cfg_v_element_size_bytes := cfg_k_element_size_bytes c2 \<rparr> else c2))"
    by (simp add: SanitizeConfig_def Let_def c1_def c_def c2_def)
  have ok: "config_errors c = []" using assms unfolding run by (simp split: if_splits)
  have c: "0 < cfg_sequence_table_capacity c \<and> 0 < cfg_alignment_bytes c"
    using config_okD(2) [OF ok] by (simp add: c_def c1_def split: if_splits)
  have c2: "config_errors c2 = []" "0 < cfg_sequence_table_capacity c2" "0 < cfg_alignment_bytes c2"
    "0 < cfg_v_head_dim c2" "cfg_num_v_heads c2 = cfg_num_v_heads c"
    using ok c config_okD(5) [OF ok] by (simp_all add: c2_def)
  show ?thesis
  proof (cases "cfg_num_v_heads c = 0")
    case True
    then have "c' = c \<lparr> cfg_v_head_dim := 0, cfg_v_element_size_bytes := 0 \<rparr>"
      using assms ok unfolding run by simp
    then show ?thesis using ok c True by (simp add: sanitized_def)
  next
    case False
    then have "c' = (if cfg_v_element_size_bytes c2 = 0
        then c2 \<lparr> cfg_v_element_size_bytes := cfg_k_element_size_bytes c2 \<rparr> else c2)"
      using assms ok unfolding run by simp
    then show ?thesis using c2 False config_okD(6) [OF c2(1)] by (simp add: sanitized_def)
  qed
qed

lemma SanitizeConfig_id:
  assumes "sanitized c"
  shows "SanitizeConfig c = Inr c"
proof -
  have ok: "config_errors c = []" "cfg_sequence_table_capacity c \<noteq> 0" "cfg_alignment_bytes c \<noteq> 0"
    using assms by (simp_all add: sanitized_def)
  show ?thesis
  proof (cases "cfg_num_v_heads c = 0")
    case True
    then have "c \<lparr> cfg_v_head_dim := 0, cfg_v_element_size_bytes := 0 \<rparr> = c"
      using assms by (cases c) (simp add: sanitized_def)
    then show ?thesis using ok True by (simp add: SanitizeConfig_def)
  next
    case False
    then have "cfg_v_head_dim c \<noteq> 0" "cfg_v_element_size_bytes c \<noteq> 0" using assms by (simp_all add: sanitized_def)
    then show ?thesis using ok False by (simp add: SanitizeConfig_def)
  qed
qed

lemma sanitize_again: "SanitizeConfig c = Inr c' \<Longrightarrow> SanitizeConfig c' = Inr c'"
  by (rule SanitizeConfig_id [OF SanitizeConfig_sanitized])

lemma HashHostKVConfig_sanitized: "SanitizeConfig c = Inr c' \<Longrightarrow> HashHostKVConfig c' = HashHostKVConfig c"
  by (simp add: HashHostKVConfig_def sanitize_again)

section \<open>Rounding\<close>

definition round_to :: "nat \<Rightarrow> nat \<Rightarrow> nat" where
  "round_to n a = (n + a - 1) div a * a"

lemma round_to_props:
  assumes "0 < a"
  shows "n \<le> round_to n a" "round_to n a < n + a" "a dvd round_to n a"
proof -
  have "round_to n a = n + a - 1 - (n + a - 1) mod a"
    unfolding round_to_def by (simp add: minus_mod_eq_div_mult [symmetric])
  moreover have "(n + a - 1) mod a < a" using assms by simp
  ultimately show "n \<le> round_to n a" "round_to n a < n + a" using assms by linarith+
  show "a dvd round_to n a" by (simp add: round_to_def)
qed

lemma AlignUp_exact:
  assumes "0 < a" and "round_to n a < 2 ^ 64"
  shows "AlignUp n a = round_to n a"
proof (cases "n mod a = 0")
  case True
  then obtain k where n: "n = a * k" by (auto elim: dvdE)
  have "(a * k + a - 1) div a = k" using assms(1) by (intro div_nat_eqI) (simp_all add: algebra_simps)
  then show ?thesis using True assms(1) n by (simp add: AlignUp_def round_to_def)
next
  case False
  have "(n + a - 1) div a = n div a + 1"
  proof -
    have "n + a - 1 = n div a * a + (n mod a - 1 + a)" using False div_mult_mod_eq [of n a] by linarith
    moreover have "(n mod a - 1 + a) div a = 1"
      using False assms(1) mod_less_divisor [OF assms(1), of n] by (intro div_nat_eqI) auto
    ultimately show ?thesis using assms(1) by simp
  qed
  then have "round_to n a = n div a * a + a" by (simp add: round_to_def)
  then have "round_to n a = n + (a - n mod a)"
    using div_mult_mod_eq [of n a] mod_less_divisor [OF assms(1), of n] by linarith
  then show ?thesis using False assms by (simp add: AlignUp_def Let_def u64_id)
qed

section \<open>Where the pages lie\<close>

datatype cache_part = K_part | V_part

definition part_bytes :: "HostPagedKVLayout \<Rightarrow> cache_part \<Rightarrow> nat" where
  "part_bytes l part = (case part of K_part \<Rightarrow> k_page_bytes l | V_part \<Rightarrow> v_page_bytes l)"

definition part_offset :: "HostPagedKVLayout \<Rightarrow> cache_part \<Rightarrow> nat" where
  "part_offset l part = (case part of K_part \<Rightarrow> 0 | V_part \<Rightarrow> v_layer_offset l)"

definition page_address :: "HostPagedKVLayout \<Rightarrow> cache_part \<Rightarrow> nat \<Rightarrow> nat \<Rightarrow> int \<Rightarrow> nat" where
  "page_address l part = (case part of K_part \<Rightarrow> KPageAddress l | V_part \<Rightarrow> VPageAddress l)"

definition has_part :: "HostPagedKVLayout \<Rightarrow> cache_part \<Rightarrow> bool" where
  "has_part l part = (case part of K_part \<Rightarrow> True | V_part \<Rightarrow> kHasVCache (lay_mode l))"

text \<open>The bytes of a page.\<close>

definition page_range :: "HostPagedKVLayout \<Rightarrow> nat \<Rightarrow> cache_part \<Rightarrow> nat \<Rightarrow> int \<Rightarrow> nat set" where
  "page_range l base part layer page =
     {page_address l part base layer page ..< page_address l part base layer page + part_bytes l part}"

text \<open>The bytes of the payload in unbounded arithmetic; a layout fits when \<open>size_t\<close> can count them.\<close>

definition exact_bytes :: "HostKVMode \<Rightarrow> HostPagedKVConfig \<Rightarrow> nat" where
  "exact_bytes mode c =
     (round_to (cfg_num_pages c * (cfg_page_size_tokens c * cfg_num_k_heads c * cfg_k_head_dim c * cfg_k_element_size_bytes c))
         (cfg_alignment_bytes c)
      + (if kHasVCache mode
         then cfg_num_pages c * (cfg_page_size_tokens c * cfg_num_v_heads c * cfg_v_head_dim c * cfg_v_element_size_bytes c)
         else 0)) * cfg_num_layers c"

definition layout_fits :: "HostPagedKVLayout \<Rightarrow> bool" where
  "layout_fits l \<longleftrightarrow> exact_bytes (lay_mode l) (lay_config l) < 2 ^ 64"

lemma MakeLayout_config:
  assumes "MakeLayout mode config = Inr l"
  shows "SanitizeConfig (Adjust mode config) = Inr (lay_config l)" and "sanitized (lay_config l)" and "lay_mode l = mode"
  using assms SanitizeConfig_sanitized
  by (auto simp: MakeLayout_def bind_result_def Let_def split: sum.splits)

lemma u64_le: "n \<le> m \<Longrightarrow> m < 2 ^ 64 \<Longrightarrow> u64 n = n"
  by (simp add: u64_id)

lemma MakeLayout_fields:
  assumes "MakeLayout mode config = Inr l"
  defines "c \<equiv> lay_config l"
  defines "section \<equiv> AlignUp (u64 (cfg_num_pages c * k_page_bytes l)) (cfg_alignment_bytes c)"
  shows "k_page_bytes l = u64 (cfg_page_size_tokens c * cfg_num_k_heads c * cfg_k_head_dim c * cfg_k_element_size_bytes c)"
    and "k_data_token_bytes l = (if cfg_page_format c = kPageSplitFp8Scale
        then cfg_k_head_dim c - kHostKVScaleBytesPerToken
        else u64 (cfg_num_k_heads c * cfg_k_head_dim c * cfg_k_element_size_bytes c))"
    and "scale_token_bytes l = (if cfg_page_format c = kPageSplitFp8Scale then kHostKVScaleBytesPerToken else 0)"
    and "scale_region_offset l = (if cfg_page_format c = kPageSplitFp8Scale
        then u64 (cfg_page_size_tokens c * k_data_token_bytes l) else 0)"
    and "v_page_bytes l = (if kHasVCache mode
        then u64 (cfg_page_size_tokens c * cfg_num_v_heads c * cfg_v_head_dim c * cfg_v_element_size_bytes c) else 0)"
    and "v_layer_offset l = (if kHasVCache mode then section else 0)"
    and "layer_stride_bytes l = (if kHasVCache mode then u64 (section + cfg_num_pages c * v_page_bytes l) else section)"
    and "data_section_bytes l = u64 (layer_stride_bytes l * cfg_num_layers c)"
proof -
  obtain c' hash where "SanitizeConfig (Adjust mode config) = Inr c'" and "HashHostKVConfig c' = Inr hash"
    using assms(1) by (auto simp: MakeLayout_def bind_result_def split: sum.splits)
  note eq = assms(1) [unfolded MakeLayout_def bind_result_def \<open>SanitizeConfig _ = _\<close> \<open>HashHostKVConfig _ = _\<close>
      sum.case Let_def sum.inject, symmetric]
  have "c = c'" unfolding c_def eq by simp
  show "k_page_bytes l = u64 (cfg_page_size_tokens c * cfg_num_k_heads c * cfg_k_head_dim c * cfg_k_element_size_bytes c)"
    "k_data_token_bytes l = (if cfg_page_format c = kPageSplitFp8Scale
        then cfg_k_head_dim c - kHostKVScaleBytesPerToken
        else u64 (cfg_num_k_heads c * cfg_k_head_dim c * cfg_k_element_size_bytes c))"
    "scale_token_bytes l = (if cfg_page_format c = kPageSplitFp8Scale then kHostKVScaleBytesPerToken else 0)"
    "scale_region_offset l = (if cfg_page_format c = kPageSplitFp8Scale
        then u64 (cfg_page_size_tokens c * k_data_token_bytes l) else 0)"
    "v_page_bytes l = (if kHasVCache mode
        then u64 (cfg_page_size_tokens c * cfg_num_v_heads c * cfg_v_head_dim c * cfg_v_element_size_bytes c) else 0)"
    "v_layer_offset l = (if kHasVCache mode then section else 0)"
    "layer_stride_bytes l = (if kHasVCache mode then u64 (section + cfg_num_pages c * v_page_bytes l) else section)"
    "data_section_bytes l = u64 (layer_stride_bytes l * cfg_num_layers c)"
    unfolding section_def \<open>c = c'\<close> unfolding eq by simp_all
qed

text \<open>Without wrap-around the constructor computes the sizes it means to.\<close>

lemma layout_sizes:
  assumes "MakeLayout mode config = Inr l" and "layout_fits l"
  defines "c \<equiv> lay_config l"
  shows "k_page_bytes l = cfg_page_size_tokens c * cfg_num_k_heads c * cfg_k_head_dim c * cfg_k_element_size_bytes c"
    and "data_section_bytes l = layer_stride_bytes l * cfg_num_layers c" and "data_section_bytes l < 2 ^ 64"
    and "has_part l part \<Longrightarrow> part_offset l part + cfg_num_pages c * part_bytes l part \<le> layer_stride_bytes l"
    and "has_part l V_part \<Longrightarrow> cfg_num_pages c * k_page_bytes l \<le> part_offset l V_part"
    and "0 < cfg_num_layers c" and "0 < cfg_num_pages c" and "0 < k_page_bytes l"
proof -
  define N where "N = cfg_num_pages c"
  define k where "k = cfg_page_size_tokens c * cfg_num_k_heads c * cfg_k_head_dim c * cfg_k_element_size_bytes c"
  define v where "v = (if kHasVCache mode
      then cfg_page_size_tokens c * cfg_num_v_heads c * cfg_v_head_dim c * cfg_v_element_size_bytes c else 0)"
  define a where "a = cfg_alignment_bytes c"
  have mode: "lay_mode l = mode" and san: "sanitized c" and run: "SanitizeConfig (Adjust mode config) = Inr c"
    using MakeLayout_config [OF assms(1)] by (simp_all add: c_def)
  have ok: "config_errors c = []" and a: "0 < a" using san by (simp_all add: sanitized_def a_def)
  note pos = config_okD [OF ok]
  have all: "(round_to (N * k) a + N * v) * cfg_num_layers c < 2 ^ 64"
    using assms(2) unfolding layout_fits_def exact_bytes_def mode c_def [symmetric] N_def k_def v_def a_def by auto
  have stride: "round_to (N * k) a + N * v < 2 ^ 64"
    using all pos(1) by (metis dual_order.strict_trans2 le_add1 mult.right_neutral mult_le_mono2 Suc_leI One_nat_def)
  have Nk: "N * k \<le> round_to (N * k) a" by (rule round_to_props(1) [OF a])
  have k_le: "k \<le> N * k" and v_le: "v \<le> N * v" using pos(2) by (simp_all add: N_def)
  note fields = MakeLayout_fields [OF assms(1), folded c_def]
  have k: "k_page_bytes l = k"
  proof -
    have "u64 k = k" by (rule u64_le [OF _ stride]) (use k_le Nk in linarith)
    then show ?thesis using fields(1) [folded k_def] by simp
  qed
  have v: "v_page_bytes l = v"
  proof -
    have "u64 v = v" by (rule u64_le [OF _ stride]) (use v_le in linarith)
    then show ?thesis using fields(5) by (simp add: v_def split: if_splits)
  qed
  have align: "AlignUp (u64 (N * k)) a = round_to (N * k) a"
    using AlignUp_exact [OF a, of "N * k"] u64_le [OF Nk] stride by simp
  have off: "kHasVCache mode \<Longrightarrow> v_layer_offset l = round_to (N * k) a"
    using fields(6) align by (simp add: k N_def a_def)
  have str: "layer_stride_bytes l = round_to (N * k) a + N * v"
  proof -
    have "\<not> kHasVCache mode \<Longrightarrow> v = 0" by (simp add: v_def)
    then show ?thesis using fields(7) align u64_id [OF stride] unfolding k v by (simp add: N_def a_def)
  qed
  show "k_page_bytes l = cfg_page_size_tokens c * cfg_num_k_heads c * cfg_k_head_dim c * cfg_k_element_size_bytes c"
    using k by (simp add: k_def)
  show data: "data_section_bytes l = layer_stride_bytes l * cfg_num_layers c"
    using fields(8) u64_id [OF all] by (simp add: str)
  show "data_section_bytes l < 2 ^ 64" using all unfolding data str .
  show "part_offset l part + cfg_num_pages c * part_bytes l part \<le> layer_stride_bytes l" if "has_part l part"
    using that off Nk unfolding str
    by (cases part) (auto simp: part_offset_def part_bytes_def has_part_def mode k v N_def)
  show "cfg_num_pages c * k_page_bytes l \<le> part_offset l V_part" if "has_part l V_part"
    using that off Nk by (simp add: part_offset_def has_part_def mode k N_def)
  show "0 < cfg_num_layers c" "0 < cfg_num_pages c" by (rule pos)+
  show "0 < k_page_bytes l" using pos by (simp add: k k_def)
qed

lemma page_size_t_nat: "0 \<le> page \<Longrightarrow> page < 2 ^ 64 \<Longrightarrow> page_size_t page = nat page"
  by (simp add: page_size_t_def)

lemma block_end: "i < n \<Longrightarrow> i * b + b \<le> n * (b :: nat)"
  using mult_le_mono1 [of "Suc i" n b] by simp

text \<open>Pages as blocks within a layer, layers as blocks within the section.\<close>

lemma page_address_exact:
  assumes "MakeLayout mode config = Inr l" and "layout_fits l" and "has_part l part"
    and "layer < cfg_num_layers (lay_config l)" and "0 \<le> page" and "nat page < cfg_num_pages (lay_config l)"
  shows "page_address l part base layer page
      = base + layer * layer_stride_bytes l + part_offset l part + nat page * part_bytes l part"
    and "part_offset l part + nat page * part_bytes l part + part_bytes l part \<le> layer_stride_bytes l"
    and "layer * layer_stride_bytes l + layer_stride_bytes l \<le> data_section_bytes l"
proof -
  note sizes = layout_sizes [OF assms(1,2)]
  have pages: "nat page * part_bytes l part + part_bytes l part \<le> cfg_num_pages (lay_config l) * part_bytes l part"
    using assms(6) by (rule block_end)
  show inside: "part_offset l part + nat page * part_bytes l part + part_bytes l part \<le> layer_stride_bytes l"
    using sizes(4) [OF assms(3)] pages by linarith
  show layers: "layer * layer_stride_bytes l + layer_stride_bytes l \<le> data_section_bytes l"
    using block_end [OF assms(4), of "layer_stride_bytes l"] sizes(2) by (simp add: mult.commute)
  have "u64 (layer * layer_stride_bytes l) = layer * layer_stride_bytes l"
    by (rule u64_le [OF _ sizes(3)]) (use layers in linarith)
  moreover have "u64 (page_size_t page * part_bytes l part) = nat page * part_bytes l part"
  proof -
    have "cfg_num_pages (lay_config l) \<le> cfg_num_pages (lay_config l) * k_page_bytes l" using sizes(8) by simp
    also have "\<dots> \<le> layer_stride_bytes l"
      using sizes(4) [of K_part] by (simp add: has_part_def part_offset_def part_bytes_def)
    finally have "nat page < 2 ^ 64" using assms(6) layers sizes(3) by linarith
    then have "page < 2 ^ 64" using assms(5) by (simp add: nat_less_iff)
    then have "page_size_t page = nat page" using assms(5) by (rule page_size_t_nat [rotated])
    moreover have "u64 (nat page * part_bytes l part) = nat page * part_bytes l part"
      by (rule u64_le [OF _ sizes(3)]) (use inside layers in linarith)
    ultimately show ?thesis by simp
  qed
  ultimately show "page_address l part base layer page
      = base + layer * layer_stride_bytes l + part_offset l part + nat page * part_bytes l part"
    by (cases part) (simp_all add: page_address_def KPageAddress_def VPageAddress_def part_offset_def part_bytes_def)
qed

lemma blocks_apart:
  assumes "i < j" and "x + n \<le> (b :: nat)"
  shows "i * b + x + n \<le> j * b"
proof -
  have "i * b + b \<le> j * b" using assms(1) by (rule block_end)
  then show ?thesis using assms(2) by linarith
qed

lemma pages_ordered:
  assumes "MakeLayout mode config = Inr l" and "layout_fits l" and "has_part l part" and "has_part l part'"
    and "layer < cfg_num_layers (lay_config l)" and "layer' < cfg_num_layers (lay_config l)"
    and "0 \<le> page" and "nat page < cfg_num_pages (lay_config l)"
    and "0 \<le> page'" and "nat page' < cfg_num_pages (lay_config l)"
    and "layer < layer' \<or> layer = layer' \<and> (part = K_part \<and> part' = V_part \<or> part = part' \<and> page < page')"
  shows "page_address l part base layer page + part_bytes l part \<le> page_address l part' base layer' page'"
proof -
  note here = page_address_exact [OF assms(1,2,3,5,7,8)] and there = page_address_exact [OF assms(1,2,4,6,9,10)]
  consider "layer < layer'" | "layer = layer'" "part = K_part" "part' = V_part" | "layer = layer'" "part = part'" "page < page'"
    using assms(11) by blast
  then show ?thesis
  proof cases
    case 1
    then have "layer * layer_stride_bytes l + (part_offset l part + nat page * part_bytes l part) + part_bytes l part
        \<le> layer' * layer_stride_bytes l"
      by (rule blocks_apart) (rule here(2))
    then show ?thesis unfolding here(1) there(1) by linarith
  next
    case 2
    have "nat page * part_bytes l part + part_bytes l part \<le> part_offset l part'"
      using layout_sizes(5) [OF assms(1,2)] block_end [OF assms(8), of "part_bytes l part"] assms(4) 2
      by (simp add: part_bytes_def)
    then show ?thesis unfolding here(1) there(1) using 2 by (simp add: part_offset_def)
  next
    case 3
    then have "nat page < nat page'" using assms(7) by simp
    then have "nat page * part_bytes l part + part_bytes l part \<le> nat page' * part_bytes l part" by (rule block_end)
    then show ?thesis unfolding here(1) there(1) using 3 by simp
  qed
qed

lemma page_inside:
  assumes "MakeLayout mode config = Inr l" and "layout_fits l" and "has_part l part"
    and "layer < cfg_num_layers (lay_config l)" and "0 \<le> page" and "nat page < cfg_num_pages (lay_config l)"
  shows "page_range l base part layer page \<subseteq> {base ..< base + data_section_bytes l}"
  using page_address_exact(1) [OF assms, of base] page_address_exact(2,3) [OF assms] unfolding page_range_def by auto

lemma pages_apart:
  assumes "MakeLayout mode config = Inr l" and "layout_fits l" and "has_part l part" and "has_part l part'"
    and "layer < cfg_num_layers (lay_config l)" and "layer' < cfg_num_layers (lay_config l)"
    and "0 \<le> page" and "nat page < cfg_num_pages (lay_config l)"
    and "0 \<le> page'" and "nat page' < cfg_num_pages (lay_config l)"
    and "(part, layer, page) \<noteq> (part', layer', page')"
  shows "page_range l base part layer page \<inter> page_range l base part' layer' page' = {}"
proof -
  have "(layer < layer' \<or> layer = layer' \<and> (part = K_part \<and> part' = V_part \<or> part = part' \<and> page < page'))
      \<or> (layer' < layer \<or> layer' = layer \<and> (part' = K_part \<and> part = V_part \<or> part' = part \<and> page' < page))"
    using assms(11) by (cases part; cases part') auto
  then show ?thesis
    using pages_ordered [OF assms(1-10), of base] pages_ordered [OF assms(1,2,4,3,6,5,9,10,7,8), of base]
    unfolding page_range_def by fastforce
qed

section \<open>Where the tokens lie in a page\<close>

datatype token_part = Data_of nat | Scale_of nat

definition token_range :: "HostPagedKVLayout \<Rightarrow> nat \<Rightarrow> nat \<Rightarrow> int \<Rightarrow> token_part \<Rightarrow> nat set" where
  "token_range l base layer page part =
     (case part of
        Data_of t \<Rightarrow> (let a = KDataTokenAddress l base layer page t in {a ..< a + k_data_token_bytes l})
      | Scale_of t \<Rightarrow> (case ScaleTokenAddress l base layer page t of
          Inl _ \<Rightarrow> {} | Inr a \<Rightarrow> {a ..< a + scale_token_bytes l}))"

definition token_of :: "token_part \<Rightarrow> nat" where
  "token_of part = (case part of Data_of t \<Rightarrow> t | Scale_of t \<Rightarrow> t)"

lemma tokens_exact:
  assumes "MakeLayout mode config = Inr l" and "layout_fits l"
  defines "T \<equiv> cfg_page_size_tokens (lay_config l)"
  shows "scale_region_offset l = (if cfg_page_format (lay_config l) = kPageSplitFp8Scale
      then T * k_data_token_bytes l else 0)"
    and "k_page_bytes l = T * k_data_token_bytes l + T * scale_token_bytes l"
proof -
  let ?c = "lay_config l"
  have ok: "config_errors ?c = []" using MakeLayout_config(2) [OF assms(1)] by (simp add: sanitized_def)
  note pos = config_okD [OF ok] and f = MakeLayout_fields [OF assms(1)] and sizes = layout_sizes [OF assms(1,2)]
  have k_small: "k_page_bytes l < 2 ^ 64"
    by (simp add: f(1))
  have "k_page_bytes l = T * k_data_token_bytes l + T * scale_token_bytes l
    \<and> (cfg_page_format ?c = kPageSplitFp8Scale \<longrightarrow> T * k_data_token_bytes l < 2 ^ 64)"
  proof (cases "cfg_page_format ?c = kPageSplitFp8Scale")
    case True
    then have "k_page_bytes l = T * cfg_k_head_dim ?c" using sizes(1) pos(7) by (simp add: T_def)
    moreover have "cfg_k_head_dim ?c = k_data_token_bytes l + scale_token_bytes l"
      using True pos(7) f(2,3) by simp
    ultimately show ?thesis using k_small by (simp add: add_mult_distrib2)
  next
    case False
    let ?d = "cfg_num_k_heads ?c * cfg_k_head_dim ?c * cfg_k_element_size_bytes ?c"
    have k: "k_page_bytes l = T * ?d" using sizes(1) by (simp add: T_def mult.assoc)
    moreover have "?d \<le> T * ?d" using pos(3) by (simp add: T_def)
    ultimately have "u64 ?d = ?d" using k_small by (intro u64_id) linarith
    then show ?thesis using False f(2,3) k by simp
  qed
  then show "k_page_bytes l = T * k_data_token_bytes l + T * scale_token_bytes l"
    and "scale_region_offset l = (if cfg_page_format ?c = kPageSplitFp8Scale then T * k_data_token_bytes l else 0)"
    using f(4) by (simp_all add: T_def u64_id)
qed

lemma token_ranges:
  assumes "MakeLayout mode config = Inr l" and "layout_fits l" and "layer < cfg_num_layers (lay_config l)"
    and "0 \<le> page" and "nat page < cfg_num_pages (lay_config l)" and "token_of part < cfg_page_size_tokens (lay_config l)"
  shows "token_range l base layer page part = (case part of
      Data_of t \<Rightarrow> {KPageAddress l base layer page + t * k_data_token_bytes l
        ..< KPageAddress l base layer page + t * k_data_token_bytes l + k_data_token_bytes l}
    | Scale_of t \<Rightarrow> {KPageAddress l base layer page + cfg_page_size_tokens (lay_config l) * k_data_token_bytes l + t * scale_token_bytes l
        ..< KPageAddress l base layer page + cfg_page_size_tokens (lay_config l) * k_data_token_bytes l + t * scale_token_bytes l
            + scale_token_bytes l})"
proof -
  note t = tokens_exact [OF assms(1,2)] and f = MakeLayout_fields [OF assms(1)]
  have k_small: "k_page_bytes l < 2 ^ 64" by (simp add: f(1))
  have data: "u64 (t * k_data_token_bytes l) = t * k_data_token_bytes l"
    and scale: "u64 (t * scale_token_bytes l) = t * scale_token_bytes l"
    if "t < cfg_page_size_tokens (lay_config l)" for t
    using block_end [OF that, of "k_data_token_bytes l"] block_end [OF that, of "scale_token_bytes l"] t(2) k_small
    by (auto intro!: u64_id simp del: mult_le_cancel2)
  show ?thesis
    using assms(6) data scale t(1) f(3)
    by (cases part)
      (auto simp: token_range_def token_of_def KDataTokenAddress_def ScaleTokenAddress_def Let_def)
qed

lemma token_inside:
  assumes "MakeLayout mode config = Inr l" and "layout_fits l" and "layer < cfg_num_layers (lay_config l)"
    and "0 \<le> page" and "nat page < cfg_num_pages (lay_config l)" and "token_of part < cfg_page_size_tokens (lay_config l)"
  shows "token_range l base layer page part \<subseteq> page_range l base K_part layer page"
proof -
  note t = tokens_exact(2) [OF assms(1,2)]
  show ?thesis
    using block_end [OF assms(6), of "k_data_token_bytes l"] block_end [OF assms(6), of "scale_token_bytes l"]
    unfolding token_ranges [OF assms] page_range_def
    by (cases part) (auto simp: token_of_def t part_bytes_def page_address_def simp del: mult_le_cancel2)
qed

lemma tokens_apart:
  assumes "MakeLayout mode config = Inr l" and "layout_fits l" and "layer < cfg_num_layers (lay_config l)"
    and "0 \<le> page" and "nat page < cfg_num_pages (lay_config l)" and "token_of part < cfg_page_size_tokens (lay_config l)"
    and "token_of part' < cfg_page_size_tokens (lay_config l)" and "part \<noteq> part'"
  shows "token_range l base layer page part \<inter> token_range l base layer page part' = {}"
proof -
  have same: "{a + i * b ..< a + i * b + b} \<inter> {a + j * b ..< a + j * b + b} = {}" if "i \<noteq> j" for a i j b :: nat
    using block_end [of i j b] block_end [of j i b] that by (cases "i < j") auto
  have cross: "{a + i * b ..< a + i * b + b} \<inter> {a + n * b + x ..< y} = {}" if "i < n" for a i n b x y :: nat
    using block_end [OF that, of b] by auto
  note ranges = token_ranges [OF assms(1-6)] token_ranges [OF assms(1-5,7)]
  show ?thesis
  proof (cases part; cases part')
    fix i j assume p: "part = Data_of i" "part' = Data_of j"
    show ?thesis unfolding ranges unfolding p token_part.case by (rule same) (use p assms(8) in simp)
  next
    fix i j assume p: "part = Scale_of i" "part' = Scale_of j"
    show ?thesis unfolding ranges unfolding p token_part.case by (rule same) (use p assms(8) in simp)
  next
    fix i j assume p: "part = Data_of i" "part' = Scale_of j"
    show ?thesis unfolding ranges unfolding p token_part.case by (rule cross) (use p assms(6) in \<open>simp add: token_of_def\<close>)
  next
    fix i j assume p: "part = Scale_of i" "part' = Data_of j"
    show ?thesis unfolding ranges unfolding p token_part.case
      by (subst Int_commute, rule cross) (use p assms(7) in \<open>simp add: token_of_def\<close>)
  qed
qed

section \<open>Geometry and sections\<close>

lemma RequiredPages_exact:
  assumes "0 < n" and "0 < cfg_page_size_tokens c" and "n + cfg_page_size_tokens c < 2 ^ 64"
  shows "RequiredPages c n = Inr ((n + cfg_page_size_tokens c - 1) div cfg_page_size_tokens c)"
  using assms by (simp add: RequiredPages_def u64_id u64_sub_le)

lemma required_pages_least:
  assumes "0 < (T :: nat)"
  shows "n \<le> (n + T - 1) div T * T" and "n \<le> m * T \<Longrightarrow> (n + T - 1) div T \<le> m"
proof -
  show "n \<le> (n + T - 1) div T * T" using round_to_props(1) [OF assms, of n] by (simp add: round_to_def)
  assume "n \<le> m * T"
  then have "n + T - 1 < Suc m * T" using assms by simp
  then show "(n + T - 1) div T \<le> m" using assms by (metis less_Suc_eq_le less_mult_imp_div_less)
qed

text \<open>The sections of the mapping follow each other, each aligned for what it holds.\<close>

lemma AlignUp_bounds:
  assumes "0 < a" and "n + a \<le> 2 ^ 64"
  shows "n \<le> AlignUp n a" "AlignUp n a < n + a" "a dvd AlignUp n a"
proof -
  have "AlignUp n a = round_to n a"
    by (rule AlignUp_exact [OF assms(1)]) (use round_to_props(2) [OF assms(1), of n] assms(2) in linarith)
  then show "n \<le> AlignUp n a" "AlignUp n a < n + a" "a dvd AlignUp n a" using round_to_props [OF assms(1)] by simp_all
qed

lemma ComputeOffsets_ordered:
  assumes "r = ComputeOffsets header_size pages capacity data_bytes"
    and "header_size + 16 * pages + 24 * capacity + data_bytes + 2 ^ 22 < 2 ^ 64"
  shows "header_offset r + header_size \<le> free_stack_offset r
    \<and> free_stack_offset r + 4 * pages \<le> page_owner_offset r
    \<and> page_owner_offset r + 8 * pages \<le> page_link_offset r
    \<and> page_link_offset r + 4 * pages \<le> sequence_table_offset r
    \<and> sequence_table_offset r + 24 * capacity \<le> data_offset r
    \<and> data_offset r + data_bytes = total_bytes_unaligned r
    \<and> 4 dvd free_stack_offset r \<and> 8 dvd page_owner_offset r \<and> 4 dvd page_link_offset r
    \<and> 8 dvd sequence_table_offset r \<and> 2 ^ 21 dvd data_offset r"
proof -
  define n1 where "n1 = AlignUp header_size 4"
  define n2 where "n2 = AlignUp (n1 + 4 * pages) 8"
  define n3 where "n3 = AlignUp (n2 + 8 * pages) 4"
  define n4 where "n4 = AlignUp (n3 + 4 * pages) 8"
  define n5 where "n5 = AlignUp (n4 + 24 * capacity) 2097152"
  have small: "header_size + 16 * pages + 24 * capacity + data_bytes + 4194304 < 18446744073709551616"
    using assms(2) by simp
  have n1: "header_size \<le> n1" "n1 < header_size + 4" "4 dvd n1"
    unfolding n1_def by (rule AlignUp_bounds; use small in simp)+
  have n2: "n1 + 4 * pages \<le> n2" "n2 < n1 + 4 * pages + 8" "8 dvd n2"
    unfolding n2_def by (rule AlignUp_bounds; use small n1 in simp)+
  have n3: "n2 + 8 * pages \<le> n3" "n3 < n2 + 8 * pages + 4" "4 dvd n3"
    unfolding n3_def by (rule AlignUp_bounds; use small n1 n2 in simp)+
  have n4: "n3 + 4 * pages \<le> n4" "n4 < n3 + 4 * pages + 8" "8 dvd n4"
    unfolding n4_def by (rule AlignUp_bounds; use small n1 n2 n3 in simp)+
  have n5: "n4 + 24 * capacity \<le> n5" "n5 < n4 + 24 * capacity + 2097152" "2097152 dvd n5"
    unfolding n5_def by (rule AlignUp_bounds; use small n1 n2 n3 n4 in simp)+
  have u: "u64 header_size = header_size" "u64 (n1 + 4 * pages) = n1 + 4 * pages"
    "u64 (n2 + 8 * pages) = n2 + 8 * pages" "u64 (n3 + 4 * pages) = n3 + 4 * pages"
    "u64 (n4 + 24 * capacity) = n4 + 24 * capacity" "u64 (n5 + data_bytes) = n5 + data_bytes"
    by (rule u64_id; use small n1 n2 n3 n4 n5 in simp)+
  have r: "r = \<lparr> header_offset = 0, free_stack_offset = n1, page_owner_offset = n2, page_link_offset = n3,
      sequence_table_offset = n4, data_offset = n5, total_bytes_unaligned = n5 + data_bytes \<rparr>"
  proof -
    have "AlignUp 0 8 = 0" by (simp add: AlignUp_def)
    then show ?thesis using u unfolding assms(1) ComputeOffsets_def Let_def
      by (simp add: n1_def [symmetric] n2_def [symmetric] n3_def [symmetric] n4_def [symmetric] n5_def [symmetric])
  qed
  show ?thesis using n1 n2 n3 n4 n5 by (simp add: r)
qed

end
