(* ===== verification/Kv_Manager.thy ===== *)
theory Kv_Manager
  imports Kv_Layout Kv_Concurrent
begin

text \<open>
  The host KV manager (\<open>KV_Storage/host_paged_kv_manager.h\<close>): the configuration, the geometry
  and the layout put together with the page allocator. A manager is its configuration, its
  layout, the address of the payload and the shared region.
\<close>

section \<open>Construction\<close>

datatype LayoutPolicy = IdentityLayoutPolicy | MHALayoutPolicy

definition Normalize :: "LayoutPolicy \<Rightarrow> HostPagedKVConfig \<Rightarrow> HostPagedKVConfig" where
  "Normalize policy config =
     (case policy of
        IdentityLayoutPolicy \<Rightarrow> config
      | MHALayoutPolicy \<Rightarrow>
          (let c = (if cfg_num_v_heads config = 0 then config \<lparr> cfg_num_v_heads := cfg_num_k_heads config \<rparr> else config);
               c = (if cfg_v_head_dim c = 0 then c \<lparr> cfg_v_head_dim := cfg_k_head_dim c \<rparr> else c)
           in if cfg_v_element_size_bytes c = 0
              then c \<lparr> cfg_v_element_size_bytes := cfg_k_element_size_bytes c \<rparr> else c))"

record HostPagedKVManager =
  mgr_config :: HostPagedKVConfig
  mgr_layout :: HostPagedKVLayout
  mgr_base :: nat
  mgr_region :: region

text \<open>
  The constructor followed by \<open>Initialize(true)\<close>: the mapping is at \<open>mapping\<close>, its header has
  \<open>header_size\<close> bytes, and the system's pages have \<open>page_bytes\<close>.
\<close>

definition NewManager ::
  "HostKVMode \<Rightarrow> LayoutPolicy \<Rightarrow> nat \<Rightarrow> nat \<Rightarrow> nat \<Rightarrow> HostPagedKVConfig \<Rightarrow> HostPagedKVManager result" where
  "NewManager mode policy header_size page_bytes mapping config =
     bind_result (SanitizeConfig (Adjust mode (Normalize policy config))) (\<lambda>c.
     bind_result (MakeLayout mode c) (\<lambda>l.
       let capacity = (if cfg_sequence_table_capacity c = 0 then cfg_num_pages c else cfg_sequence_table_capacity c);
           offsets = ComputeOffsets header_size (cfg_num_pages c) capacity (data_section_bytes l)
       in Inr \<lparr> mgr_config = c, mgr_layout = l, mgr_base = mapping + data_offset offsets,
                mgr_region = ConstructSharedState (cfg_num_pages c) (cfg_page_size_tokens c) (cfg_sequence_table_capacity c)
                  (AlignUp (total_bytes_unaligned offsets) page_bytes) \<rparr>))"

section \<open>Operations\<close>

definition AllocatePages :: "int \<Rightarrow> nat \<Rightarrow> HostPagedKVManager \<Rightarrow> int list result \<times> HostPagedKVManager" where
  "AllocatePages sid num_tokens m =
     (case RequiredPages (mgr_config m) num_tokens of
        Inl e \<Rightarrow> (Inl e, m)
      | Inr required_pages \<Rightarrow>
          (case AcquirePages sid required_pages (mgr_region m) of
             (r, s) \<Rightarrow> (r, m \<lparr> mgr_region := s \<rparr>)))"

definition FreeSequence :: "int \<Rightarrow> HostPagedKVManager \<Rightarrow> unit result \<times> HostPagedKVManager" where
  "FreeSequence sid m = (case ReleaseSequence sid (mgr_region m) of (r, s) \<Rightarrow> (r, m \<lparr> mgr_region := s \<rparr>))"

definition FreeSequences :: "int list \<Rightarrow> HostPagedKVManager \<Rightarrow> unit result \<times> HostPagedKVManager" where
  "FreeSequences sids m = (case ReleaseSequences sids (mgr_region m) of (r, s) \<Rightarrow> (r, m \<lparr> mgr_region := s \<rparr>))"

definition FreeAllSequences :: "HostPagedKVManager \<Rightarrow> unit result \<times> HostPagedKVManager" where
  "FreeAllSequences m = (case ReleaseAllSequences (mgr_region m) of (r, s) \<Rightarrow> (r, m \<lparr> mgr_region := s \<rparr>))"

definition GetSequenceLayerPagePointers ::
  "HostPagedKVManager \<Rightarrow> int \<Rightarrow> nat \<Rightarrow> nat option \<Rightarrow> (nat list \<times> nat list option) result" where
  "GetSequenceLayerPagePointers m sid layer_idx max_tokens =
     bind_result (EnsureLayerBounds (mgr_config m) layer_idx) (\<lambda>_.
     bind_result (case max_tokens of
                    None \<Rightarrow> Inr None
                  | Some n \<Rightarrow> bind_result (RequiredPages (mgr_config m) n) (\<lambda>p. Inr (Some p))) (\<lambda>max_pages.
     bind_result (SequencePages (mgr_region m) sid max_pages) (\<lambda>page_indices.
       Inr (map (KPageAddress (mgr_layout m) (mgr_base m) layer_idx) page_indices,
            if kHasVCache (lay_mode (mgr_layout m))
            then Some (map (VPageAddress (mgr_layout m) (mgr_base m) layer_idx) page_indices) else None))))"

definition BuildPageTable :: "HostPagedKVManager \<Rightarrow> int list \<Rightarrow> int list list result" where
  "BuildPageTable m sids =
     fold (\<lambda>sid r. bind_result r (\<lambda>table.
       case SequencePages (mgr_region m) sid None of
         Inr pages \<Rightarrow> Inr (table @ [pages])
       | Inl (Out_of_range _) \<Rightarrow> Inr (table @ [[]])
       | Inl e \<Rightarrow> Inl e)) sids (Inr [])"

definition MutableKPage :: "HostPagedKVManager \<Rightarrow> nat \<Rightarrow> int \<Rightarrow> nat result" where
  "MutableKPage m layer_idx page_idx =
     bind_result (EnsureLayerBounds (mgr_config m) layer_idx) (\<lambda>_.
     bind_result (EnsurePageBounds (mgr_config m) page_idx) (\<lambda>_.
       Inr (KPageAddress (mgr_layout m) (mgr_base m) layer_idx page_idx)))"

definition MutableVPage :: "HostPagedKVManager \<Rightarrow> nat \<Rightarrow> int \<Rightarrow> nat result" where
  "MutableVPage m layer_idx page_idx =
     bind_result (EnsureLayerBounds (mgr_config m) layer_idx) (\<lambda>_.
     bind_result (EnsurePageBounds (mgr_config m) page_idx) (\<lambda>_.
       Inr (VPageAddress (mgr_layout m) (mgr_base m) layer_idx page_idx)))"

section \<open>A manager and its region\<close>

text \<open>
  A manager whose layout was built from its configuration and whose region has the pages
  of that configuration. Its region may be shared with other processes.
\<close>

definition manager_ok :: "HostPagedKVManager \<Rightarrow> bool" where
  "manager_ok m \<longleftrightarrow> (\<exists>mode. MakeLayout mode (mgr_config m) = Inr (mgr_layout m)) \<and> layout_fits (mgr_layout m)
     \<and> lay_config (mgr_layout m) = mgr_config m \<and> num_pages (mgr_region m) = cfg_num_pages (mgr_config m)"

text \<open>The bytes behind the pointers of a layer.\<close>

definition pointer_bytes :: "HostPagedKVManager \<Rightarrow> nat list \<times> nat list option \<Rightarrow> nat set" where
  "pointer_bytes m ptrs =
     (\<Union>a \<in> set (fst ptrs). {a ..< a + k_page_bytes (mgr_layout m)})
     \<union> (case snd ptrs of None \<Rightarrow> {} | Some vs \<Rightarrow> \<Union>a \<in> set vs. {a ..< a + v_page_bytes (mgr_layout m)})"

lemma pointer_bytes_pages:
  assumes "GetSequenceLayerPagePointers m sid layer max_tokens = Inr ptrs"
  obtains ps max_pages where "SequencePages (mgr_region m) sid max_pages = Inr ps"
    and "layer < cfg_num_layers (mgr_config m)"
    and "pointer_bytes m ptrs = (\<Union>part \<in> {part. has_part (mgr_layout m) part}. \<Union>p \<in> set ps.
      page_range (mgr_layout m) (mgr_base m) part layer p)"
    and "length (fst ptrs) = length ps"
proof -
  have two: "(\<Union>part \<in> {part. has_part l part}. f part)
      = f K_part \<union> (if kHasVCache (lay_mode l) then f V_part else {})" for l and f :: "cache_part \<Rightarrow> nat set"
  proof -
    have "{part. has_part l part} = (if kHasVCache (lay_mode l) then {K_part, V_part} else {K_part})"
      by (auto simp: has_part_def split: cache_part.splits) (metis cache_part.exhaust)+
    then show ?thesis by auto
  qed
  show thesis
    using assms that unfolding two
    by (auto simp: GetSequenceLayerPagePointers_def bind_result_def EnsureLayerBounds_def pointer_bytes_def
        page_range_def page_address_def part_bytes_def split: sum.splits option.splits if_splits)
qed

lemma Adjust_again:
  assumes "SanitizeConfig (Adjust mode config) = Inr c"
  shows "Adjust mode c = c"
proof -
  have s: "sanitized c" by (rule SanitizeConfig_sanitized [OF assms])
  then have k: "0 < cfg_num_k_heads c" using config_okD(4) by (simp add: sanitized_def)
  show ?thesis
  proof (cases mode)
    case kMHA
    have "cfg_num_v_heads c = cfg_num_v_heads (Adjust mode config)" "cfg_num_k_heads c = cfg_num_k_heads (Adjust mode config)"
      using assms by (auto simp: SanitizeConfig_def Let_def split: if_splits)
    then have "cfg_num_v_heads c \<noteq> 0" using kMHA k by (auto simp: Adjust_def Let_def split: if_splits)
    then show ?thesis using s kMHA by (simp add: Adjust_def sanitized_def)
  next
    case kMLA
    have "cfg_num_v_heads c = 0"
      using assms kMLA by (auto simp: SanitizeConfig_def Let_def Adjust_def split: if_splits)
    then show ?thesis using s kMLA by (cases c) (simp add: Adjust_def sanitized_def)
  qed
qed

lemma NewManager_ok:
  assumes "NewManager mode policy header_size page_bytes mapping config = Inr m" and "layout_fits (mgr_layout m)"
  shows "manager_ok m" and "lay_mode (mgr_layout m) = mode"
    and "mgr_region m = ConstructSharedState (cfg_num_pages (mgr_config m)) (cfg_page_size_tokens (mgr_config m))
      (cfg_sequence_table_capacity (mgr_config m)) (region_bytes (mgr_region m))"
proof -
  obtain c l where c: "SanitizeConfig (Adjust mode (Normalize policy config)) = Inr c"
    and l: "MakeLayout mode c = Inr l" and m: "mgr_config m = c" "mgr_layout m = l" "num_pages (mgr_region m) = cfg_num_pages c"
      "mgr_region m = ConstructSharedState (cfg_num_pages c) (cfg_page_size_tokens c)
        (cfg_sequence_table_capacity c) (region_bytes (mgr_region m))"
    using assms(1) by (auto simp: NewManager_def bind_result_def Let_def ConstructSharedState_def split: sum.splits)
  have "lay_config l = c"
    using MakeLayout_config(1) [OF l] Adjust_again [OF c] sanitize_again [OF c] by simp
  then show "manager_ok m" using l m assms(2) by (auto simp: manager_ok_def)
  show "lay_mode (mgr_layout m) = mode" using MakeLayout_config(3) [OF l] m by simp
  show "mgr_region m = ConstructSharedState (cfg_num_pages (mgr_config m)) (cfg_page_size_tokens (mgr_config m))
      (cfg_sequence_table_capacity (mgr_config m)) (region_bytes (mgr_region m))" using m by simp
qed

lemma pointers_apart:
  assumes ok: "manager_ok m" and inv: "kv_inv F (mgr_region m)"
    and sids: "\<not> IsReservedSequenceId sid" "\<not> IsReservedSequenceId sid'"
    and ptrs: "GetSequenceLayerPagePointers m sid layer max_tokens = Inr ptrs"
    and ptrs': "GetSequenceLayerPagePointers m sid' layer' max_tokens' = Inr ptrs'"
    and diff: "(sid, layer) \<noteq> (sid', layer')"
  shows "pointer_bytes m ptrs \<inter> pointer_bytes m ptrs' = {}"
    and "pointer_bytes m ptrs \<subseteq> {mgr_base m ..< mgr_base m + data_section_bytes (mgr_layout m)}"
proof -
  let ?l = "mgr_layout m"
  obtain mode where l: "MakeLayout mode (mgr_config m) = Inr ?l" and fits: "layout_fits ?l"
    and cfg: "lay_config ?l = mgr_config m" "num_pages (mgr_region m) = cfg_num_pages (mgr_config m)"
    using ok by (auto simp: manager_ok_def)
  obtain ps mp where ps: "SequencePages (mgr_region m) sid mp = Inr ps" "layer < cfg_num_layers (mgr_config m)"
      "pointer_bytes m ptrs = (\<Union>part \<in> {part. has_part ?l part}. \<Union>p \<in> set ps. page_range ?l (mgr_base m) part layer p)"
    using pointer_bytes_pages [OF ptrs] by metis
  obtain qs mq where qs: "SequencePages (mgr_region m) sid' mq = Inr qs" "layer' < cfg_num_layers (mgr_config m)"
      "pointer_bytes m ptrs' = (\<Union>part \<in> {part. has_part ?l part}. \<Union>p \<in> set qs. page_range ?l (mgr_base m) part layer' p)"
    using pointer_bytes_pages [OF ptrs'] by metis
  note P = sequence_pages_places(2) [OF inv sids(1) ps(1)] and Q = sequence_pages_places(2) [OF inv sids(2) qs(1)]
  have "page_range ?l (mgr_base m) part layer p \<inter> page_range ?l (mgr_base m) part' layer' q = {}"
    if "has_part ?l part" "has_part ?l part'" "p \<in> set ps" "q \<in> set qs" for part part' p q
  proof (rule pages_apart [OF l fits that(1,2)])
    have "p \<noteq> q" if "layer = layer'" using diff that P [OF \<open>p \<in> set ps\<close>] Q [OF \<open>q \<in> set qs\<close>] by auto
    then show "(part, layer, p) \<noteq> (part', layer', q)" by auto
  qed (use P [OF that(3)] Q [OF that(4)] ps(2) qs(2) cfg in auto)
  then show "pointer_bytes m ptrs \<inter> pointer_bytes m ptrs' = {}" unfolding ps(3) qs(3) by blast
  have "page_range ?l (mgr_base m) part layer p \<subseteq> {mgr_base m ..< mgr_base m + data_section_bytes ?l}"
    if "has_part ?l part" "p \<in> set ps" for part p
    by (rule page_inside [OF l fits that(1)]) (use P [OF that(2)] ps(2) cfg in auto)
  then show "pointer_bytes m ptrs \<subseteq> {mgr_base m ..< mgr_base m + data_section_bytes ?l}" unfolding ps(3) by blast
qed

end
