(* ===== verification/Layout_Properties.thy ===== *)
theory Layout_Properties
  imports Kv_Manager Kv_Properties
begin

text \<open>
  The properties of the layout of the host KV region and of the manager that joins it with
  the allocator, with a small manager on which their hypotheses hold: two layers of four
  pages of sixteen tokens, with a V cache.
\<close>

section \<open>A small manager\<close>

definition demo_config :: HostPagedKVConfig where
  "demo_config = \<lparr> cfg_num_layers = 2, cfg_num_pages = 4, cfg_page_size_tokens = 16, cfg_num_k_heads = 1,
     cfg_k_head_dim = 8, cfg_num_v_heads = 1, cfg_v_head_dim = 8, cfg_k_element_size_bytes = 2,
     cfg_v_element_size_bytes = 2, cfg_sequence_table_capacity = 2, cfg_alignment_bytes = 64,
     cfg_page_format = kContiguousAoS, cfg_logical_to_physical_layer = [] \<rparr>"

definition demo_layout :: HostPagedKVLayout where
  "demo_layout = projr (MakeLayout kMHA demo_config)"

lemma demo_sanitized: "sanitized demo_config"
  by (simp add: sanitized_def demo_config_def config_errors_def must_be_positive_def page_split_errors_def)

lemma demo_adjust: "Adjust kMHA demo_config = demo_config"
  by (simp add: Adjust_def demo_config_def)

lemma demo_layout_eq: "MakeLayout kMHA demo_config = Inr demo_layout"
  unfolding demo_layout_def
  by (simp add: MakeLayout_def demo_adjust SanitizeConfig_id [OF demo_sanitized] HashHostKVConfig_def bind_result_def Let_def)

lemma demo_layout_config: "lay_config demo_layout = demo_config" "lay_mode demo_layout = kMHA"
  using MakeLayout_config [OF demo_layout_eq] SanitizeConfig_id [OF demo_sanitized] demo_adjust by simp_all

lemma demo_fits: "layout_fits demo_layout"
  by (simp add: layout_fits_def demo_layout_config exact_bytes_def kHasVCache_def demo_config_def round_to_def)

definition demo_manager :: "region \<Rightarrow> HostPagedKVManager" where
  "demo_manager s = \<lparr> mgr_config = demo_config, mgr_layout = demo_layout, mgr_base = 2097152, mgr_region = s \<rparr>"

lemma demo_manager_ok: "num_pages s = 4 \<Longrightarrow> manager_ok (demo_manager s)"
  using demo_layout_eq demo_fits demo_layout_config by (auto simp: manager_ok_def demo_manager_def demo_config_def)

text \<open>A region in which two sequences hold two pages each.\<close>

definition demo_two :: region where
  "demo_two = snd (AcquirePagesForSequences [7, 8] [20, 20] kv_demo)"

lemma demo_two_batch: "AcquirePagesForSequences [7, 8] [20, 20] kv_demo = (Inr [[3, 2], [1, 0]], demo_two)"
  and demo_two_pages: "SequencePages demo_two 7 None = Inr [3, 2]" "SequencePages demo_two 8 None = Inr [1, 0]"
  and demo_two_size: "num_pages demo_two = 4"
  by (simp_all add: demo_two_def AcquirePagesForSequences_def kv_demo_eval acquire_eval SequencePages_def
      FindSequenceEntryLocked_def)

lemma demo_two_reach: "kv_reach \<lparr>shared = demo_two, tasks = [], lost = []\<rparr>"
proof -
  have "kv_reach \<lparr>shared = kv_demo, tasks = [], lost = []\<rparr>"
    unfolding kv_demo_def by (rule kv_reach.start) simp_all
  moreover have "kv_step \<lparr>shared = kv_demo, tasks = [], lost = []\<rparr> \<lparr>shared = demo_two, tasks = [], lost = []\<rparr>"
    using kv_step.batch [of "[7, 8]" "[20, 20]" "\<lparr>shared = kv_demo, tasks = [], lost = []\<rparr>"] demo_two_batch
    by (simp add: id_eval)
  ultimately show ?thesis by (rule kv_reach.step)
qed

lemma demo_pointers:
  assumes "SequencePages s sid None = Inr ps" and "layer < 2"
  shows "GetSequenceLayerPagePointers (demo_manager s) sid layer None
    = Inr (map (KPageAddress demo_layout 2097152 layer) ps, Some (map (VPageAddress demo_layout 2097152 layer) ps))"
  using assms
  by (simp add: GetSequenceLayerPagePointers_def demo_manager_def bind_result_def EnsureLayerBounds_def
      demo_layout_config kHasVCache_def) (simp add: demo_config_def)

lemma demo_has_part: "has_part demo_layout part"
  by (cases part) (simp_all add: has_part_def demo_layout_config kHasVCache_def)

section \<open>The layout\<close>

text \<open>
  C39. The layout keeps the pages apart: for a configuration whose payload \<open>size_t\<close> can
  count, the pages of both caches of all layers lie inside the data section and no two of
  them share a byte, and inside a K page no two tokens share a byte, be it of their data or
  of their scales.
\<close>
theorem layout_pages_apart:
  assumes "MakeLayout mode config = Inr l" and "layout_fits l"
    and "has_part l part" and "layer < cfg_num_layers (lay_config l)"
    and "0 \<le> page" and "nat page < cfg_num_pages (lay_config l)"
  shows "page_range l base part layer page \<subseteq> {base ..< base + data_section_bytes l}
    \<and> (\<forall>part' layer' page'. has_part l part' \<and> layer' < cfg_num_layers (lay_config l) \<and> 0 \<le> page'
         \<and> nat page' < cfg_num_pages (lay_config l) \<and> (part', layer', page') \<noteq> (part, layer, page) \<longrightarrow>
         page_range l base part layer page \<inter> page_range l base part' layer' page' = {})
    \<and> (\<forall>t t'. token_of t < cfg_page_size_tokens (lay_config l) \<and> token_of t' < cfg_page_size_tokens (lay_config l)
         \<and> t \<noteq> t' \<longrightarrow>
         token_range l base layer page t \<subseteq> page_range l base K_part layer page
         \<and> token_range l base layer page t \<inter> token_range l base layer page t' = {})"
proof (intro conjI allI impI)
  show "page_range l base part layer page \<subseteq> {base ..< base + data_section_bytes l}" by (rule page_inside [OF assms])
next
  fix part' layer' page'
  assume "has_part l part' \<and> layer' < cfg_num_layers (lay_config l) \<and> 0 \<le> page'
    \<and> nat page' < cfg_num_pages (lay_config l) \<and> (part', layer', page') \<noteq> (part, layer, page)"
  then show "page_range l base part layer page \<inter> page_range l base part' layer' page' = {}"
    by (intro pages_apart [OF assms(1-3) _ assms(4) _ assms(5,6)]) auto
qed (auto dest: subsetD [OF token_inside [OF assms(1,2,4-6)]] simp: tokens_apart [OF assms(1,2,4-6)] simp del: Int_iff)

theorem layout_pages_apart_witness:
  "page_range demo_layout 0 K_part 1 3 \<inter> page_range demo_layout 0 V_part 1 3 = {}
   \<and> token_range demo_layout 0 1 3 (Data_of 0) \<inter> token_range demo_layout 0 1 3 (Data_of 15) = {}"
  using layout_pages_apart [OF demo_layout_eq demo_fits, of K_part 1 3 0]
  by (simp add: demo_layout_config demo_has_part token_of_def demo_config_def)

section \<open>The manager\<close>

text \<open>
  C3. No two sequences share a byte of the payload: in any state that any number of
  processes lead the region to, the page pointers that the manager gives for two different
  sequences, or for two layers, cover disjoint parts of the data section, whatever part of
  the sequences is asked for.
\<close>
theorem sequences_never_share_bytes:
  assumes "kv_reach w" and "manager_ok m" and "mgr_region m = shared w"
    and "\<not> IsReservedSequenceId sid" and "\<not> IsReservedSequenceId sid'"
    and "GetSequenceLayerPagePointers m sid layer max_tokens = Inr ptrs"
    and "GetSequenceLayerPagePointers m sid' layer' max_tokens' = Inr ptrs'"
    and "(sid, layer) \<noteq> (sid', layer')"
  shows "pointer_bytes m ptrs \<inter> pointer_bytes m ptrs' = {}
    \<and> pointer_bytes m ptrs \<subseteq> {mgr_base m ..< mgr_base m + data_section_bytes (mgr_layout m)}"
  using pointers_apart [OF assms(2) _ assms(4-8)] kv_reach_inv [OF assms(1)] assms(3) by simp

theorem sequences_never_share_bytes_witness:
  "pointer_bytes (demo_manager demo_two)
     (map (KPageAddress demo_layout 2097152 0) [3, 2], Some (map (VPageAddress demo_layout 2097152 0) [3, 2]))
   \<inter> pointer_bytes (demo_manager demo_two)
     (map (KPageAddress demo_layout 2097152 1) [1, 0], Some (map (VPageAddress demo_layout 2097152 1) [1, 0])) = {}"
  using sequences_never_share_bytes [OF demo_two_reach demo_manager_ok [OF demo_two_size] _ _ _
    demo_pointers [OF demo_two_pages(1), of 0] demo_pointers [OF demo_two_pages(2), of 1]]
  by (simp add: demo_manager_def id_eval)

text \<open>
  C40. \<open>AllocatePages\<close> gives a new sequence the least number of pages that hold its tokens,
  and the manager then returns, for every layer, the address of each of these pages in order
  when it is asked for that many tokens.
\<close>
theorem allocate_covers_tokens:
  assumes "AllocatePages sid n m = (Inr ps, m')" and "kv_inv [] (mgr_region m)" and "\<not> IsReservedSequenceId sid"
    and "held (mgr_region m) sid = None" and "0 < n" and "0 < cfg_page_size_tokens (mgr_config m)"
    and "n + cfg_page_size_tokens (mgr_config m) < 2 ^ 64" and "layer < cfg_num_layers (mgr_config m)"
  shows "n \<le> length ps * cfg_page_size_tokens (mgr_config m)
    \<and> (\<forall>k. n \<le> k * cfg_page_size_tokens (mgr_config m) \<longrightarrow> length ps \<le> k)
    \<and> GetSequenceLayerPagePointers m' sid layer (Some n)
      = Inr (map (KPageAddress (mgr_layout m) (mgr_base m) layer) ps,
             if kHasVCache (lay_mode (mgr_layout m))
             then Some (map (VPageAddress (mgr_layout m) (mgr_base m) layer) ps) else None)"
proof -
  let ?T = "cfg_page_size_tokens (mgr_config m)"
  define k where "k = (n + ?T - 1) div ?T"
  have req: "RequiredPages (mgr_config m) n = Inr k" unfolding k_def by (rule RequiredPages_exact [OF assms(5-7)])
  have k: "n \<le> k * ?T" "\<And>j. n \<le> j * ?T \<Longrightarrow> k \<le> j" using required_pages_least [OF assms(6), of n] by (simp_all add: k_def)
  have pos: "0 < k" using k(1) assms(5) by (cases k) auto
  obtain s' where run: "AcquirePages sid k (mgr_region m) = (Inr ps, s')" and m': "m' = m \<lparr> mgr_region := s' \<rparr>"
    using assms(1) req by (auto simp: AllocatePages_def split: prod.splits)
  have cap: "active_sequences (mgr_region m) \<le> sequence_capacity (mgr_region m)"
    using kv_shapeD(7,10) [OF assms(2)] length_filter_le [of is_live "sequence_table (mgr_region m)"] by simp
  have "k \<le> free_stack_top (mgr_region m)" and "active_sequences (mgr_region m) < sequence_capacity (mgr_region m)"
    using acquire_fails [OF assms(2,3) pos] run assms(4) cap by fastforce+
  then have "kv_inv [] s'" and len: "length ps = k" and abs: "kv_abs s' = spec_grant sid ps (kv_abs (mgr_region m))"
    using acquire_ok [OF assms(2,3) pos] run by fastforce+
  then have "SequencePages s' sid (Some k) = Inr ps"
    using sequence_pages_spec [of "[]" s' sid "Some k"] assms(3,4)
    by (simp add: spec_grant_def held_pages_def) (simp add: kv_abs_def)
  then show ?thesis using k len req assms(8)
    by (simp add: GetSequenceLayerPagePointers_def m' bind_result_def EnsureLayerBounds_def)
qed

theorem allocate_covers_tokens_witness:
  "\<exists>m'. AllocatePages 7 20 (demo_manager kv_demo) = (Inr [1, 0], m')
     \<and> GetSequenceLayerPagePointers m' 7 1 (Some 20)
       = Inr (map (KPageAddress demo_layout 2097152 1) [1, 0], Some (map (VPageAddress demo_layout 2097152 1) [1, 0]))"
proof -
  have "AllocatePages 7 20 (demo_manager kv_demo) = (Inr [1, 0], demo_manager kv_demo_held)"
    by (simp add: AllocatePages_def demo_manager_def RequiredPages_def demo_config_def u64_def u64_sub_def demo_acquire)
  moreover have "held kv_demo 7 = None"
    by (simp add: held_def SequencePages_def kv_demo_eval FindSequenceEntryLocked_def demo_hash small_lists
        fresh_entry_def id_eval)
  ultimately show ?thesis
    using allocate_covers_tokens [of 7 20 "demo_manager kv_demo" "[1, 0]" "demo_manager kv_demo_held" 1] kv_demo_inv
    by (simp add: demo_manager_def demo_layout_config kHasVCache_def id_eval) (simp add: demo_config_def)
qed

end
