(* ===== verification/Spec2Isabelle.thy ===== *)
theory Spec2Isabelle
  imports Kv_Properties Weight_Properties Prefix_Properties Load_Properties Layout_Properties
begin

text \<open>
  Verification of the memory managers of the batchgen runtime (\<open>src/core\<close>).

  \<^bold>\<open>The program.\<close> batchgen serves language models whose weights and KV cache do not fit on the
  GPU. The host side of the runtime, in C++, keeps the books of the memory involved:

  \<^item> the page allocator of the host KV cache, shared by all processes of a server
    (\<open>KV_Storage/host_paged_kv_backend.cpp\<close>): which page belongs to which sequence;
  \<^item> the layout of the pages in the shared mapping and the manager that turns page numbers into
    addresses (\<open>KV_Storage/host_paged_kv_layout.h\<close>, \<open>host_paged_kv_geometry.h\<close>,
    \<open>host_paged_kv_config_utils.h\<close>, \<open>host_paged_kv_manager.h\<close>);
  \<^item> the prefix cache (\<open>KV_Storage/host_prefix_cache_coordinator.cpp\<close>): which pages hold the KV of
    which prompt prefix, who uses them and which may be evicted. A committed page leaves its
    sequence by \<open>RetainPages\<close> of the allocator and returns by \<open>ReleaseResidentPages\<close> after the
    cache has evicted it;
  \<^item> the slot table of the GPU weight ring (\<open>GPU_Weight_Buffer/weight_slot_table.h\<close>): which weight
    module of which pass sits in which device slot, and in what state;
  \<^item> the parameter server (\<open>Parameter_Server/weight_load_plan.h\<close>, \<open>Parameter_Server.cpp\<close>,
    \<open>posix_shm.cpp\<close>): it loads the weight files into one shared buffer and passes the table of
    tensors to the workers in an anonymous file.

  \<^bold>\<open>Conventions\<close> (\<open>Prelude\<close>). A method that can throw is a function from a state to an exception or
  a result together with the state it leaves, so that what remains after an exception is part of
  the model. A \<open>struct\<close> is a record, an \<open>enum\<close> a datatype. Unsigned counters are naturals and
  \<open>size_t\<close>, \<open>uint32_t\<close> and \<open>uint64_t\<close> arithmetic is reduced by \<open>u32\<close> and \<open>u64\<close> where the source can
  overflow; hashes are 64-bit words. An exception keeps its class and the fixed part of its text.

  \<^bold>\<open>Open-addressing tables\<close> (\<open>Probe_Table\<close>, \<open>Probe_Map\<close>). The locale \<open>open_table\<close> states what a table
  with tombstones promises over an abstract probe order, \<open>open_map\<close> extends it to tables with
  values and shows insertion and removal to be map updates. Both are interpreted on the tables of
  the code: \<open>seq_tab\<close> in \<open>Kv_Invariant\<close>, \<open>node_tab\<close> and \<open>ref_tab\<close> in \<open>Prefix_Tables\<close>, which also shows
  that the masked probe loops of the prefix cache visit every slot once.

  \<^bold>\<open>The page allocator.\<close> \<open>Kv_Backend\<close> has the record \<open>region\<close> (free stack, owners, links, table and
  header counters) and one definition per critical section and per method, from \<open>AcquirePages\<close> to
  \<open>ReleaseAllSequences\<close> and \<open>CollectAuditedStats\<close>. \<open>Kv_Chain\<close> gives the result of each loop over page
  links, \<open>Kv_Invariant\<close> the invariant \<open>kv_inv F\<close> relative to the pages \<open>F\<close> in flight, \<open>Kv_Sections\<close> its
  preservation by each section, \<open>Kv_Batch\<close> the rollback of a batch, \<open>Kv_Operations\<close> the abstract
  allocator \<open>kv_abs\<close> that the methods refine, \<open>Kv_Audit\<close> the audit and the recovery.
  \<open>Kv_Concurrent\<close> interleaves the critical sections of any number of processes, which may be killed
  between two of their sections (\<open>kv_step\<close>, \<open>kv_reach\<close>); a rebuild of the free state is a step when
  no process is between its sections. \<open>Kv_Properties\<close> states: every page is always in exactly one
  place (C1), each method refines its abstract operation on every branch (C2, C8, C15 to C18), the
  audit counts exactly the pages in flight or lost (C19), \<open>ReleaseAllSequences\<close> recovers them (C11)
  and the walks over page links end (C20).

  \<^bold>\<open>Layout and manager.\<close> \<open>Kv_Layout\<close> has the configuration, its validation, \<open>MakeLayout\<close>, the page and
  token addresses and the sections of the mapping, all in 64-bit arithmetic; \<open>Kv_Manager\<close> joins it
  with the allocator. \<open>Layout_Properties\<close> states that two sequences never share a byte (C3), that
  pages and the tokens in a page lie apart (C39) and that an allocation covers its tokens with the
  least number of pages (C40).

  \<^bold>\<open>The prefix cache.\<close> \<open>Prefix_Hash\<close> has the digests, the hash chain and the checks of the constructor,
  \<open>Prefix_Cache\<close> the record \<open>prefix_cache\<close> (nodes, index, page references, two arenas, attachments of
  the process) and the methods on them, \<open>Prefix_Methods\<close> the public methods. \<open>Prefix_Content\<close> abstracts
  from the arenas: \<open>content\<close> says what each resident node holds. \<open>Prefix_Invariant\<close> has \<open>pc_inv\<close>;
  \<open>Prefix_Arena\<close>, \<open>Prefix_Compact\<close>, \<open>Prefix_Attach\<close>, \<open>Prefix_Evict\<close>, \<open>Prefix_Clear\<close>, \<open>Prefix_Commit\<close> and
  \<open>Prefix_Lookup\<close> show that each method is an update of the content that keeps the invariant, and
  \<open>Prefix_Reach\<close> that it holds in every state the methods lead to (\<open>pc_reach\<close>). \<open>Prefix_Roundtrip\<close> and
  \<open>Prefix_Calls\<close> treat sequences of calls. \<open>Prefix_Properties\<close> states: index and reference counts are
  exact (C7) and the stored indices in range (C27); evictions return exactly the pages that lost
  their last holder (C4), spare attached nodes (C10), and do as much as they promise (C28 to C31);
  a commit is all or nothing (C5) and is found again by a lookup (C9); a lookup matches the longest
  cached run (C12); compaction keeps the content (C32); a release during a load is deferred (C33).

  \<^bold>\<open>The weight slot table.\<close> \<open>Weight_Slots\<close> has the record \<open>WeightSlotTable\<close> and one definition per
  method. \<open>Weight_Invariant\<close>, \<open>Weight_Producer\<close>, \<open>Weight_Passes\<close> and \<open>Weight_Cancel\<close> show that every method
  keeps \<open>wt_inv\<close>, and \<open>Weight_Calls\<close> makes every method a call and has the tables that sequences of
  calls produce (\<open>wt_reach\<close>). \<open>Weight_Drain\<close> holds the lemmas on leases and on the calls that empty a
  cancelled pass. \<open>Weight_Properties\<close> states: the index is exact (C6), a claim places its module
  (C21), a call that throws keeps the table (C22), \<open>skip\<close>, \<open>end_pass\<close> and \<open>release_async\<close> succeed
  exactly under their conditions (C23, C24, C26), a cancelled pass is copied no more and can be
  closed (C13, C14), and the producers are never stuck (C25).

  \<^bold>\<open>The parameter server.\<close> \<open>Load_Plan\<close> has the read plan, \<open>Load_Files\<close> the load of a directory, \<open>Load_Read\<close>
  and \<open>Load_Store\<close> what the reads do to the buffer and the table, \<open>Meta_Codec\<close> the writer and reader
  of the table, with the locale \<open>entry_codec\<close> for a list of encoded entries, interpreted on the
  entries of a module and on the modules. \<open>Load_Properties\<close> states that the plan is exact (C37), that
  a load puts every tensor in its place and stays in its plan (C35, C36), that the table survives
  shared memory (C38), and that a worker finds the bytes of every tensor (C34). Directory listing,
  JSON parser, file reads and procfs are parameters with their documented contracts as hypotheses
  (\<open>io_ok\<close>, \<open>proc_stat_ok\<close>, \<open>proc_map_ok\<close>), which the witnesses instantiate.

  \<^bold>\<open>Bounds.\<close> A loop over page links has \<open>num_pages + 2\<close> units of fuel: by C20 a walk takes no more steps
  than its sequence has pages, at most \<open>num_pages\<close>. A region has fewer than 2^31 pages, as page
  indices are \<open>int32_t\<close>. \<open>config_fits\<close> bounds the capacities of a prefix cache so that doubling them
  for the hash tables does not wrap; \<open>commit_fits\<close>, \<open>attach_room\<close> and \<open>load_room\<close> exclude overflows of
  its 32-bit counters, 2^31 group entries in one commit or 2^32 attachments or loads on one node.
  \<open>layout_fits\<close> says that \<open>size_t\<close> can count the payload. A weight buffer has at most 2^63 - 4096
  bytes; beyond that the plan can overlap, as \<open>Load_Plan\<close> shows. Outside these bounds the code does
  not check, and the definitions keep what it computes.

  \<^bold>\<open>Exclusions in the reachable states.\<close> Sequence ids are not the reserved markers, which
  \<open>AcquirePagesForSequences\<close> does not refuse (lemma \<open>batch_accepts_reserved_id\<close>). Installed modules
  have names, which \<open>install\<close> does not check (lemma \<open>empty_name_installed\<close>). Each method of the prefix
  cache is one step of one process; the attachments of other processes are not in the record.
  \<open>std::sort\<close> may order nodes of the same epoch in any way, the model takes the order of their
  indices. \<open>ReleaseSequences\<close> is modelled on its sequential path; its parallel path is one
  \<open>ReleaseSequence\<close> per thread, whose sections \<open>Kv_Concurrent\<close> interleaves. The reader of the tensor
  table compares lengths where the source compares pointers, which differ when a pointer sum wraps.

  \<^bold>\<open>Not modelled.\<close> The worker views and their page table, the compressed state manager and the legacy
  KV storage move page payloads between torch tensors, pinned memory and the GPU. The GPU weight
  and KV buffers, the transfer engines, the attention kernels and the copy kernels are CUDA and
  AVX2 code with its threads and events. The weight storage daemon is sockets and RDMA. Shared
  memory mapping, pinning, NUMA placement, logging and timing are services of the system. The
  Python runtime, the kernels under \<open>src/batchgen_kernels\<close>, the HTTP server and the vendored code
  are outside the C++ core.
\<close>

end
